(* ===== verification/Prelude.thy ===== *)
theory Prelude
  imports Main "HOL-Library.Word"
begin

text \<open>
  Shared material of the development: the machine types of \<^verbatim>\<open>types.h\<close>, the result type
  that carries panics and undefined behaviour as values, its sequencing operator,
  byte-addressed memory with little-endian 32-bit accesses, and the page arithmetic of
  \<^verbatim>\<open>mmu.h\<close> and \<^verbatim>\<open>memlayout.h\<close>.
\<close>

unbundle bit_operations_syntax

named_theorems page_simps \<open>pages as multiples of the page size\<close>

section \<open>Machine types and results\<close>

type_synonym byte = "8 word"
type_synonym addr = "32 word"
type_synonym mem = "addr \<Rightarrow> byte"

text \<open>
  What can stop a kernel path: a call of \<^verbatim>\<open>panic\<close> with its message, a read or write through
  a null pointer, a memory access that the page table does not allow, an access outside of an
  array, a spin lock that is held by another processor (the caller spins), a condition that
  another process has to change (the caller sleeps), an end of the process from inside of a page
  fault, and a loop that never ends.
\<close>

datatype kerror =
    Panic string
  | NullDeref
  | PageFault addr
  | OutOfBounds
  | Spins
  | Sleeps
  | Exits
  | Diverges

type_synonym 'a res = "kerror + 'a"

text \<open>Sequencing: an error ends the path, a result is passed on.\<close>

definition bnd :: "'e + 'a \<Rightarrow> ('a \<Rightarrow> 'e + 'b) \<Rightarrow> 'e + 'b" where
  "bnd r f = (case r of Inl e \<Rightarrow> Inl e | Inr x \<Rightarrow> f x)"

lemma bnd_simps [simp]:
  "bnd (Inl e) f = Inl e"
  "bnd (Inr x) f = f x"
  by (simp_all add: bnd_def)

lemma bnd_cong [fundef_cong]:
  "r = r' \<Longrightarrow> (\<And>x. r' = Inr x \<Longrightarrow> f x = g x) \<Longrightarrow> bnd r f = bnd r' g"
  by (cases r') (auto simp: bnd_def)

lemma bnd_eq_Inr: "bnd r f = Inr y \<longleftrightarrow> (\<exists>x. r = Inr x \<and> f x = Inr y)"
  by (cases r) auto

lemma bnd_assoc: "bnd (bnd r f) g = bnd r (\<lambda>x. bnd (f x) g)"
  by (cases r) auto

section \<open>Pages\<close>

abbreviation PGSIZE :: "32 word" where "PGSIZE \<equiv> 4096"

definition PGROUNDDOWN :: "addr \<Rightarrow> addr" where
  "PGROUNDDOWN a = a AND NOT (PGSIZE - 1)"

definition PGROUNDUP :: "addr \<Rightarrow> addr" where
  "PGROUNDUP sz = (sz + PGSIZE - 1) AND NOT (PGSIZE - 1)"

definition OFFSET :: "addr \<Rightarrow> 32 word" where
  "OFFSET va = va AND 0xFFF"

definition page_aligned :: "addr \<Rightarrow> bool" where
  "page_aligned a \<longleftrightarrow> a mod PGSIZE = 0"

text \<open>
  Facts about rounding are proved on natural numbers: \<^term>\<open>unat\<close> turns the bit masks into
  multiples of the page size.
\<close>

lemma unat32_less: "unat (a :: 32 word) < 4294967296"
  using unsigned_less [of a] by simp

lemma mask12: "(0xFFF :: 32 word) = mask 12"
  by (simp add: mask_eq_exp_minus_1)

lemma unat_AND_NOT_mask: "unat (a AND NOT (mask n) :: 32 word) = unat a div 2 ^ n * 2 ^ n"
proof -
  have "a AND NOT (mask n) = push_bit n (drop_bit n a)"
    by (rule bit_eqI) (auto simp: bit_simps)
  also have "unat \<dots> = take_bit 32 (push_bit n (drop_bit n (unat a)))"
    by (simp add: unsigned_push_bit_eq unat_drop_bit_eq)
  also have "\<dots> = push_bit n (drop_bit n (unat a))"
  proof (rule take_bit_nat_eq_self)
    have "push_bit n (drop_bit n (unat a)) \<le> unat a"
      by (simp add: push_bit_eq_mult drop_bit_eq_div)
    also have "unat a < 2 ^ 32" using unat32_less [of a] by simp
    finally show "push_bit n (drop_bit n (unat a)) < 2 ^ 32" .
  qed
  finally show ?thesis by (simp add: push_bit_eq_mult drop_bit_eq_div)
qed

lemma unat_PGROUNDDOWN [page_simps]: "unat (PGROUNDDOWN a) = unat a div 4096 * 4096"
  using unat_AND_NOT_mask [of a 12] by (simp add: PGROUNDDOWN_def mask12)

lemma unat_OFFSET [page_simps]: "unat (OFFSET a) = unat a mod 4096"
  unfolding OFFSET_def mask12
  by (simp add: unat_mod take_bit_eq_mod flip: take_bit_eq_mask)

lemma page_aligned_unat [page_simps]: "page_aligned a \<longleftrightarrow> 4096 dvd unat a"
  by (simp add: page_aligned_def word_unat_eq_iff unat_mod dvd_eq_mod_eq_0)

lemma PGROUNDDOWN_OFFSET: "PGROUNDDOWN a + OFFSET a = a"
proof -
  have "unat a div 4096 * 4096 + unat a mod 4096 = unat a" by simp
  then show ?thesis
    using unat32_less [of a]
    by (simp add: word_unat_eq_iff unat_word_ariths page_simps)
qed

lemma diff_PGROUNDDOWN [simp]: "a - PGROUNDDOWN a = OFFSET a"
  by (metis PGROUNDDOWN_OFFSET add_diff_cancel_left')

lemma page_nat_bound: "4096 dvd (x::nat) \<Longrightarrow> x < 4294967296 \<Longrightarrow> y < 4096 \<Longrightarrow> x + y < 4294967296"
  by (auto elim!: dvdE)

lemma page_plus_offset:
  assumes "page_aligned p" "off < PGSIZE"
  shows "unat (p + off) = unat p + unat off"
proof -
  have "unat off < 4096" using assms(2) by (simp add: word_less_nat_alt)
  then have "unat p + unat off < 4294967296"
    using assms(1) unat32_less [of p] by (simp add: page_nat_bound page_aligned_unat)
  then show ?thesis by (simp add: unat_word_ariths)
qed

lemma page_nat_split: "4096 dvd (x::nat) \<Longrightarrow> y < 4096 \<Longrightarrow> (x + y) div 4096 * 4096 = x \<and> (x + y) mod 4096 = y"
  by (auto elim!: dvdE)

lemma PGROUNDDOWN_page:
  assumes "page_aligned p" "off < PGSIZE"
  shows "PGROUNDDOWN (p + off) = p"
    and "OFFSET (p + off) = off"
proof -
  have "unat off < 4096" using assms(2) by (simp add: word_less_nat_alt)
  then have "(unat p + unat off) div 4096 * 4096 = unat p \<and> (unat p + unat off) mod 4096 = unat off"
    using assms(1) by (intro page_nat_split) (simp_all add: page_aligned_unat)
  with page_plus_offset [OF assms] show "PGROUNDDOWN (p + off) = p" "OFFSET (p + off) = off"
    by (simp_all add: word_unat_eq_iff page_simps)
qed

lemma page_aligned_PGROUNDDOWN [simp]: "page_aligned (PGROUNDDOWN a)"
  by (simp add: page_simps)

lemma PGROUNDDOWN_aligned: "page_aligned p \<Longrightarrow> PGROUNDDOWN p = p"
  using PGROUNDDOWN_page [of p 0] by simp

lemma OFFSET_less [simp]: "OFFSET a < PGSIZE"
  by (simp add: word_less_nat_alt unat_OFFSET)

lemma in_page_iff:
  assumes "page_aligned p" 
  shows "PGROUNDDOWN a = p \<longleftrightarrow> a - p < PGSIZE"
  using assms
  by (metis PGROUNDDOWN_page(1) OFFSET_less PGROUNDDOWN_OFFSET add_diff_cancel_left' diff_add_cancel add.commute)

section \<open>Byte-addressed memory\<close>

text \<open>
  A 32-bit load or store of the (little-endian) machine touches four consecutive bytes.
\<close>

definition load32 :: "mem \<Rightarrow> addr \<Rightarrow> 32 word" where
  "load32 m a = ucast (m a) OR push_bit 8 (ucast (m (a + 1)))
     OR push_bit 16 (ucast (m (a + 2))) OR push_bit 24 (ucast (m (a + 3)))"

definition store32 :: "mem \<Rightarrow> addr \<Rightarrow> 32 word \<Rightarrow> mem" where
  "store32 m a v = m(a := ucast v, a + 1 := ucast (drop_bit 8 v),
     a + 2 := ucast (drop_bit 16 v), a + 3 := ucast (drop_bit 24 v))"


lemma bit_store_cases: "n < 32 \<Longrightarrow> n < 8 \<or> (8 \<le> n \<and> n < 16) \<or> (16 \<le> n \<and> n < 24) \<or> (24 \<le> n \<and> n < (32::nat))"
  by linarith

lemma load32_store32_same [simp]: "load32 (store32 m a v) a = v"
  unfolding load32_def store32_def
  by (rule bit_word_eqI) (use bit_store_cases in \<open>fastforce simp: bit_simps\<close>)

definition word_aligned :: "addr \<Rightarrow> bool" where
  "word_aligned a \<longleftrightarrow> a mod 4 = 0"

lemma word_aligned_unat: "word_aligned a \<longleftrightarrow> 4 dvd unat a"
  by (simp add: word_aligned_def word_unat_eq_iff unat_mod dvd_eq_mod_eq_0)

lemma word_plus_offset:
  assumes "word_aligned p" "off < 4"
  shows "unat (p + off) = unat p + unat off"
proof -
  have "unat off < 4" using assms(2) by (simp add: word_less_nat_alt)
  then have "unat p + unat off < 4294967296"
    using assms(1) unat32_less [of p] by (auto elim!: dvdE simp: word_aligned_unat)
  then show ?thesis by (simp add: unat_word_ariths)
qed

lemma word_disjoint:
  assumes "word_aligned a" "word_aligned b" "i < 4" "j < 4" "a + i = b + j"
  shows "a = b"
proof -
  have "unat a + unat i = unat b + unat j"
    using assms word_plus_offset by metis
  moreover have "unat i < 4" "unat j < 4" using assms by (simp_all add: word_less_nat_alt)
  ultimately have "unat a = unat b"
    using assms(1,2) by (auto elim!: dvdE simp: word_aligned_unat)
  then show ?thesis by (simp add: word_unat_eq_iff)
qed

lemma load32_store32_other:
  assumes "word_aligned a" "word_aligned b" "a \<noteq> b"
  shows "load32 (store32 m a v) b = load32 m b"
proof -
  have d: "a + i \<noteq> b + j" if "i < 4" "j < 4" for i j
    using word_disjoint assms that by blast
  show ?thesis
    using d[of 0 0] d[of 0 1] d[of 0 2] d[of 0 3] d[of 1 0] d[of 1 1] d[of 1 2] d[of 1 3]
      d[of 2 0] d[of 2 1] d[of 2 2] d[of 2 3] d[of 3 0] d[of 3 1] d[of 3 2] d[of 3 3]
    by (simp add: load32_def store32_def)
qed

lemma PGROUNDDOWN_word:
  assumes "word_aligned a" "j < 4"
  shows "PGROUNDDOWN (a + j) = PGROUNDDOWN a"
proof -
  have "unat j < 4" using assms(2) by (simp add: word_less_nat_alt)
  then have "(unat a + unat j) div 4096 = unat a div 4096"
    using assms(1) by (auto elim!: dvdE simp: word_aligned_unat)
  then show ?thesis
    by (simp add: word_unat_eq_iff unat_PGROUNDDOWN word_plus_offset [OF assms])
qed
lemma load32_cong:
  assumes "\<And>i. i < 4 \<Longrightarrow> m (a + i) = m' (a + i)"
  shows "load32 m a = load32 m' a"
  using assms[of 0] assms[of 1] assms[of 2] assms[of 3] by (simp add: load32_def)

lemma load32_page_cong:
  assumes "\<And>b. PGROUNDDOWN b = PGROUNDDOWN a \<Longrightarrow> m b = m' b" "word_aligned a"
  shows "load32 m a = load32 m' a"
  by (rule load32_cong) (simp add: assms PGROUNDDOWN_word)

lemma page_word_aligned:
  assumes "page_aligned p" "i < 1024"
  shows "word_aligned (p + 4 * i)" "PGROUNDDOWN (p + 4 * i) = p"
proof -
  have i: "unat i < 1024" using assms(2) by (simp add: word_less_nat_alt)
  then have u: "unat (4 * i) = 4 * unat i" by (simp add: unat_word_ariths)
  then have l: "4 * i < PGSIZE" using i by (simp add: word_less_nat_alt)
  show "PGROUNDDOWN (p + 4 * i) = p"
    using PGROUNDDOWN_page [OF assms(1) l] by simp
  show "word_aligned (p + 4 * i)"
    using page_plus_offset [OF assms(1) l] u assms(1)
    by (auto simp: word_aligned_unat page_aligned_unat elim: dvd_trans [rotated])
qed

end
