(* ===== verification/Cstring.thy ===== *)
theory Cstring
  imports Prelude
begin

text \<open>
  The memory and string routines of \<^verbatim>\<open>string.c\<close>, as loops over byte-addressed memory.
  Each loop has a lemma that gives its effect on an arbitrary address, so that clients never
  unfold the loop.
\<close>

section \<open>Filling memory\<close>

text \<open>\<^verbatim>\<open>rep stosb\<close> and \<^verbatim>\<open>rep stosl\<close>, the two fill instructions behind \<^verbatim>\<open>memset\<close>.\<close>

fun stosb :: "mem \<Rightarrow> addr \<Rightarrow> byte \<Rightarrow> nat \<Rightarrow> mem" where
  "stosb m dst c 0 = m"
| "stosb m dst c (Suc n) = stosb (m(dst := c)) (dst + 1) c n"

fun stosl :: "mem \<Rightarrow> addr \<Rightarrow> 32 word \<Rightarrow> nat \<Rightarrow> mem" where
  "stosl m dst c 0 = m"
| "stosl m dst c (Suc n) = stosl (store32 m dst c) (dst + 4) c n"

definition memset :: "mem \<Rightarrow> addr \<Rightarrow> 32 word \<Rightarrow> 32 word \<Rightarrow> mem" where
  "memset m dst c n =
     (if dst mod 4 = 0 \<and> n mod 4 = 0
      then (let c = c AND 0xFF in
            stosl m dst (push_bit 24 c OR push_bit 16 c OR push_bit 8 c OR c) (unat (n div 4)))
      else stosb m dst (ucast c) (unat n))"

lemma mask8: "(0xFF :: 32 word) = mask 8"
  by (simp add: mask_eq_exp_minus_1)

lemma unat_diff_Suc: "a \<noteq> d \<Longrightarrow> unat (a - d) = Suc (unat (a - (d + 1)))"
  for a d :: addr
proof -
  assume "a \<noteq> d"
  then have "a - d \<noteq> 0" by simp
  then have "unat (a - d - 1) = unat (a - d) - 1" "0 < unat (a - d)"
    by (simp_all add: unat_minus_one unat_gt_0)
  then show ?thesis by (simp add: diff_diff_eq)
qed

lemma unat_minus_1: "unat (d - (d + 1) :: addr) = 4294967295"
  by (simp add: unsigned_minus_1_eq_mask mask_eq_exp_minus_1)

lemma stosb_apply:
  "n \<le> 4294967296 \<Longrightarrow> stosb m d c n a = (if unat (a - d) < n then c else m a)"
proof (induction n arbitrary: m d)
  case 0
  then show ?case by simp
next
  case (Suc n)
  show ?case
  proof (cases "a = d")
    case True
    with Suc unat_minus_1 [of d] show ?thesis by simp
  next
    case False
    with Suc unat_diff_Suc [OF False] show ?thesis by simp
  qed
qed

lemma store32_fill:
  "c = ucast b \<Longrightarrow> store32 m d (push_bit 24 c OR push_bit 16 c OR push_bit 8 c OR c) =
     m(d := b, d + 1 := b, d + 2 := b, d + 3 := b)"
  for b :: byte
proof -
  assume c: "c = ucast b"
  have b: "n < 8" if "bit b n" for n using that bit_imp_le_length by fastforce
  have "ucast (push_bit 24 c OR push_bit 16 c OR push_bit 8 c OR c) = b"
    "ucast (drop_bit 8 (push_bit 24 c OR push_bit 16 c OR push_bit 8 c OR c)) = b"
    "ucast (drop_bit 16 (push_bit 24 c OR push_bit 16 c OR push_bit 8 c OR c)) = b"
    "ucast (drop_bit 24 (push_bit 24 c OR push_bit 16 c OR push_bit 8 c OR c)) = b"
    by (rule bit_word_eqI; use b c in \<open>fastforce simp: bit_simps\<close>)+
  then show ?thesis by (simp add: store32_def)
qed

lemma stosl_stosb:
  "c = ucast b \<Longrightarrow>
   stosl m d (push_bit 24 c OR push_bit 16 c OR push_bit 8 c OR c) n = stosb m d b (4 * n)"
  for b :: byte
proof (induction n arbitrary: m d)
  case (Suc n)
  have four: "4 * Suc n = Suc (Suc (Suc (Suc (4 * n))))" by simp
  show ?case
    unfolding four using Suc by (simp add: store32_fill add.assoc)
qed simp

text \<open>The word-wise fast path agrees with the byte-wise reference.\<close>

lemma memset_stosb: "memset m d c n = stosb m d (ucast c) (unat n)"
proof (cases "d mod 4 = 0 \<and> n mod 4 = 0")
  case True
  have "c AND 0xFF = ucast (ucast c :: byte)"
    by (rule bit_word_eqI) (auto simp: mask8 bit_simps)
  moreover have "unat n mod 4 = 0"
    using True by (simp add: unat_mod word_unat_eq_iff)
  then have "4 * unat (n div 4) = unat n"
    by (simp add: unat_div mod_0_imp_dvd)
  ultimately show ?thesis
    using True by (simp add: memset_def Let_def stosl_stosb)
next
  case False
  then show ?thesis by (auto simp: memset_def)
qed

lemma memset_apply: "memset m d c n a = (if a - d < n then ucast c else m a)"
  using unat32_less [of n] by (simp add: memset_stosb stosb_apply word_less_nat_alt)

lemma memset_page:
  "page_aligned p \<Longrightarrow> memset m p c PGSIZE a = (if PGROUNDDOWN a = p then ucast c else m a)"
  by (simp add: memset_apply in_page_iff)

section \<open>Copying memory\<close>

fun copy_up :: "mem \<Rightarrow> addr \<Rightarrow> addr \<Rightarrow> nat \<Rightarrow> mem" where
  "copy_up m d s 0 = m"
| "copy_up m d s (Suc n) = copy_up (m(d := m s)) (d + 1) (s + 1) n"

fun copy_down :: "mem \<Rightarrow> addr \<Rightarrow> addr \<Rightarrow> nat \<Rightarrow> mem" where
  "copy_down m d s 0 = m"
| "copy_down m d s (Suc n) = (let d = d - 1; s = s - 1 in copy_down (m(d := m s)) d s n)"

definition memmove :: "mem \<Rightarrow> addr \<Rightarrow> addr \<Rightarrow> 32 word \<Rightarrow> mem" where
  "memmove m dst src n =
     (if src < dst \<and> src + n > dst
      then copy_down m (dst + n) (src + n) (unat n)
      else copy_up m dst src (unat n))"

definition memcpy :: "mem \<Rightarrow> addr \<Rightarrow> addr \<Rightarrow> 32 word \<Rightarrow> mem" where
  "memcpy m dst src n = memmove m dst src n"

lemma copy_up_apply:
  assumes "n \<le> 4294967296" "\<And>i j. i < j \<Longrightarrow> j < n \<Longrightarrow> d + of_nat i \<noteq> s + of_nat j"
  shows "copy_up m d s n a = (if unat (a - d) < n then m (s + (a - d)) else m a)"
  using assms
proof (induction n arbitrary: m d s)
  case (Suc n)
  have "d + 1 + of_nat i \<noteq> s + 1 + of_nat j" if "i < j" "j < n" for i j
    using Suc.prems(2) [of "Suc i" "Suc j"] that by (simp add: add.assoc)
  with Suc.prems(1) have IH: "copy_up (m(d := m s)) (d + 1) (s + 1) n a =
      (if unat (a - (d + 1)) < n then (m(d := m s)) (s + 1 + (a - (d + 1))) else (m(d := m s)) a)"
    by (intro Suc.IH) auto
  show ?case
  proof (cases "a = d")
    case True
    with Suc.prems IH unat_minus_1 [of d] show ?thesis by simp
  next
    case False
    note u = unat_diff_Suc [OF False]
    have "s + (a - d) \<noteq> d" if "unat (a - d) < Suc n"
    proof -
      have "d + of_nat 0 \<noteq> s + of_nat (unat (a - d))"
        using Suc.prems(2) [of 0 "unat (a - d)"] that u by simp
      then show ?thesis by simp
    qed
    moreover have "s + 1 + (a - (d + 1)) = s + (a - d)" by simp
    ultimately show ?thesis using False u IH by simp
  qed
qed simp

lemma copy_down_apply:
  assumes "n \<le> 4294967296" "\<And>i j. j < i \<Longrightarrow> i < n \<Longrightarrow> d + of_nat i \<noteq> s + of_nat j"
  shows "copy_down m (d + of_nat n) (s + of_nat n) n a =
    (if unat (a - d) < n then m (s + (a - d)) else m a)"
  using assms
proof (induction n arbitrary: m)
  case (Suc n)
  let ?m = "m(d + of_nat n := m (s + of_nat n))"
  have IH: "copy_down ?m (d + of_nat n) (s + of_nat n) n a =
      (if unat (a - d) < n then ?m (s + (a - d)) else ?m a)"
    by (rule Suc.IH) (use Suc.prems in auto)
  have dec: "d + of_nat (Suc n) - 1 = d + of_nat n" "s + of_nat (Suc n) - 1 = s + of_nat n"
    by simp_all
  have step: "copy_down m (d + of_nat (Suc n)) (s + of_nat (Suc n)) (Suc n) a =
      copy_down ?m (d + of_nat n) (s + of_nat n) n a"
    using dec by (simp only: copy_down.simps Let_def)
  have small: "unat (of_nat n :: addr) = n" using Suc.prems(1) by (simp add: unat_of_nat)
  have eq: "a = d + of_nat n \<longleftrightarrow> unat (a - d) = n"
  proof
    assume "unat (a - d) = n"
    then have "a - d = of_nat n" by auto
    then show "a = d + of_nat n" by (simp add: diff_eq_eq add.commute)
  qed (simp add: small)
  have ne: "s + (a - d) \<noteq> d + of_nat n" if "unat (a - d) < n"
    using Suc.prems(2) [of "unat (a - d)" n] that by auto
  show ?case
  proof (cases "unat (a - d) = n")
    case True
    then have "a - d = of_nat n" by auto
    with True eq show ?thesis unfolding step IH by simp
  next
    case False
    with eq ne show ?thesis unfolding step IH by (simp add: less_Suc_eq)
  qed
qed simp

text \<open>
  Whatever the overlap of the two ranges, the result is the simultaneous copy, as long as
  neither range wraps around the address space.
\<close>

lemma memmove_apply:
  assumes "unat s + unat n < 4294967296" "unat d + unat n \<le> 4294967296"
  shows "memmove m d s n a = (if a - d < n then m (s + (a - d)) else m a)"
proof -
  have v: "unat (x + of_nat i) = unat x + i" if "unat x + unat n \<le> 4294967296" "i < unat n"
    for x :: addr and i
    using that unat32_less [of x] by (simp add: unat_word_ariths unat_of_nat)
  show ?thesis
  proof (cases "s < d \<and> s + n > d")
    case True
    have "d + of_nat i \<noteq> s + of_nat j" if "j < i" "i < unat n" for i j
      using v [of d i] v [of s j] True that assms by (auto simp: word_less_nat_alt word_unat_eq_iff)
    then show ?thesis
      using True copy_down_apply [of "unat n" d s m a] unat32_less [of n]
      by (simp add: memmove_def word_less_nat_alt)
  next
    case False
    have "unat (s + n) = unat s + unat n" using assms(1) by (simp add: unat_word_ariths)
    then have "d + of_nat i \<noteq> s + of_nat j" if "i < j" "j < unat n" for i j
      using v [of d i] v [of s j] False that assms by (auto simp: word_less_nat_alt word_unat_eq_iff)
    then show ?thesis
      using False copy_up_apply [of "unat n" d s m a] unat32_less [of n]
      by (auto simp: memmove_def word_less_nat_alt)
  qed
qed


section \<open>Comparing memory and strings\<close>

fun memcmp_loop :: "mem \<Rightarrow> addr \<Rightarrow> addr \<Rightarrow> nat \<Rightarrow> int" where
  "memcmp_loop m s1 s2 0 = 0"
| "memcmp_loop m s1 s2 (Suc n) =
     (if m s1 \<noteq> m s2 then uint (m s1) - uint (m s2) else memcmp_loop m (s1 + 1) (s2 + 1) n)"

definition memcmp :: "mem \<Rightarrow> addr \<Rightarrow> addr \<Rightarrow> 32 word \<Rightarrow> int" where
  "memcmp m v1 v2 n = memcmp_loop m v1 v2 (unat n)"

fun strncmp_loop :: "mem \<Rightarrow> addr \<Rightarrow> addr \<Rightarrow> nat \<Rightarrow> int" where
  "strncmp_loop m p q 0 = 0"
| "strncmp_loop m p q (Suc n) =
     (if m p \<noteq> 0 \<and> m p = m q then strncmp_loop m (p + 1) (q + 1) n
      else uint (m p) - uint (m q))"

definition strncmp :: "mem \<Rightarrow> addr \<Rightarrow> addr \<Rightarrow> 32 word \<Rightarrow> int" where
  "strncmp m p q n = strncmp_loop m p q (unat n)"

text \<open>
  The bytes at an address, and the C string among at most \<open>n\<close> of them: what stands before the
  first NUL.
\<close>

definition bytes :: "mem \<Rightarrow> addr \<Rightarrow> nat \<Rightarrow> byte list" where
  "bytes m a n = map (\<lambda>i. m (a + of_nat i)) [0..<n]"

definition cstr :: "mem \<Rightarrow> addr \<Rightarrow> nat \<Rightarrow> byte list" where
  "cstr m a n = takeWhile (\<lambda>b. b \<noteq> 0) (bytes m a n)"

lemma bytes_Suc: "bytes m a (Suc n) = m a # bytes m (a + 1) n"
proof -
  have "map (\<lambda>i. m (a + of_nat i)) (map Suc [0..<n]) = map (\<lambda>i. m (a + 1 + of_nat i)) [0..<n]"
    by (simp add: add.assoc)
  then show ?thesis
    unfolding bytes_def by (subst upt_conv_Cons) (simp_all add: map_Suc_upt del: upt_Suc)
qed

lemma bytes_0 [simp]: "bytes m a 0 = []"
  by (simp add: bytes_def)

lemma length_bytes [simp]: "length (bytes m a n) = n"
  by (simp add: bytes_def)

lemma uint_inj_iff: "uint x = uint y \<longleftrightarrow> x = y"
  by (simp add: word_uint_eq_iff)

lemma memcmp_loop_eq_0: "memcmp_loop m p q n = 0 \<longleftrightarrow> bytes m p n = bytes m q n"
  by (induction n arbitrary: p q) (auto simp: bytes_Suc uint_inj_iff)

lemma strncmp_loop_eq_0: "strncmp_loop m p q n = 0 \<longleftrightarrow> cstr m p n = cstr m q n"
  by (induction n arbitrary: p q) (auto simp: cstr_def bytes_Suc uint_inj_iff uint_0_iff)

section \<open>Copying strings\<close>

fun zero_fill :: "mem \<Rightarrow> addr \<Rightarrow> nat \<Rightarrow> mem" where
  "zero_fill m s 0 = m"
| "zero_fill m s (Suc n) = zero_fill (m(s := 0)) (s + 1) n"

text \<open>
  The first loop copies up to and including the NUL; the second zeroes the bytes that are left.
\<close>

fun strncpy_loop :: "mem \<Rightarrow> addr \<Rightarrow> addr \<Rightarrow> nat \<Rightarrow> mem" where
  "strncpy_loop m s t 0 = m"
| "strncpy_loop m s t (Suc n) =
     (let c = m t; m = m(s := c) in
      if c \<noteq> 0 then strncpy_loop m (s + 1) (t + 1) n else zero_fill m (s + 1) n)"

definition strncpy :: "mem \<Rightarrow> addr \<Rightarrow> addr \<Rightarrow> int \<Rightarrow> mem" where
  "strncpy m s t n = strncpy_loop m s t (nat n)"

fun safestrcpy_loop :: "mem \<Rightarrow> addr \<Rightarrow> addr \<Rightarrow> nat \<Rightarrow> mem \<times> addr" where
  "safestrcpy_loop m s t 0 = (m, s)"
| "safestrcpy_loop m s t (Suc n) =
     (let c = m t; m = m(s := c) in
      if c \<noteq> 0 then safestrcpy_loop m (s + 1) (t + 1) n else (m, s + 1))"

definition safestrcpy :: "mem \<Rightarrow> addr \<Rightarrow> addr \<Rightarrow> int \<Rightarrow> mem" where
  "safestrcpy m s t n =
     (if n \<le> 0 then m
      else (let (m, s) = safestrcpy_loop m s t (nat (n - 1)) in m(s := 0)))"

partial_function (option) strlen_from :: "mem \<Rightarrow> addr \<Rightarrow> nat \<Rightarrow> nat option" where
  "strlen_from m s n = (if m (s + of_nat n) \<noteq> 0 then strlen_from m s (Suc n) else Some n)"

definition strlen :: "mem \<Rightarrow> addr \<Rightarrow> nat option" where
  "strlen m s = strlen_from m s 0"

lemma strlen_from_finds:
  assumes "m (s + of_nat k) = 0" "n \<le> k" "\<And>i. n \<le> i \<Longrightarrow> i < k \<Longrightarrow> m (s + of_nat i) \<noteq> 0"
  shows "strlen_from m s n = Some k"
  using assms
proof (induction "k - n" arbitrary: n)
  case 0
  then have "n = k" by simp
  with 0 show ?case by (subst strlen_from.simps) simp
next
  case (Suc d)
  then have "strlen_from m s (Suc n) = Some k" by simp
  moreover have "m (s + of_nat n) \<noteq> 0" using Suc by simp
  ultimately show ?case by (subst strlen_from.simps) simp
qed

lemma cstr_Suc: "cstr m a (Suc n) = (if m a = 0 then [] else m a # cstr m (a + 1) n)"
  by (simp add: cstr_def bytes_Suc)

lemma bytes_cong: "(\<And>i. i < n \<Longrightarrow> m (a + of_nat i) = m' (b + of_nat i)) \<Longrightarrow> bytes m a n = bytes m' b n"
  by (simp add: bytes_def)

text \<open>The loop of \<^verbatim>\<open>safestrcpy\<close> over a source that the copy does not overwrite.\<close>

lemma safestrcpy_loop_spec:
  assumes "n < 4294967296" "\<And>i j. i < n \<Longrightarrow> j < n \<Longrightarrow> s + of_nat i \<noteq> t + of_nat j"
  shows "cstr ((fst (safestrcpy_loop m s t n))(snd (safestrcpy_loop m s t n) := 0)) s (Suc n) = cstr m t n \<and>
    (\<exists>k \<le> n. snd (safestrcpy_loop m s t n) = s + of_nat k) \<and>
    (\<forall>a. n \<le> unat (a - s) \<longrightarrow> fst (safestrcpy_loop m s t n) a = m a)"
  using assms
proof (induction n arbitrary: m s t)
  case 0
  show ?case by (simp add: cstr_Suc) (simp add: cstr_def)
next
  case (Suc n)
  let ?m = "m(s := m t)"
  have st: "s + of_nat i \<noteq> t + of_nat j" if "i < Suc n" "j < Suc n" for i j
    using Suc.prems(2) that by blast
  have sh: "cstr ?m (t + 1) n = cstr m (t + 1) n"
  proof -
    have "bytes ?m (t + 1) n = bytes m (t + 1) n"
    proof (rule bytes_cong)
      fix i assume "i < n"
      then show "?m (t + 1 + of_nat i) = m (t + 1 + of_nat i)"
        using st [of 0 "Suc i"] by (auto simp: add.assoc)
    qed
    then show ?thesis by (simp add: cstr_def)
  qed
  show ?case
  proof (cases "m t = 0")
    case True
    have "s + 1 = s + of_nat 1" by simp
    with True Suc.prems(1) show ?thesis
      by (auto simp: cstr_Suc Let_def intro!: exI [of _ 1])
  next
    case False
    have "s + 1 + of_nat i \<noteq> t + 1 + of_nat j" if "i < n" "j < n" for i j
      using st [of "Suc i" "Suc j"] that by (simp add: add.assoc)
    note ih = Suc.IH [of "s + 1" "t + 1" ?m, OF _ this]
    have IH: "cstr ((fst (safestrcpy_loop ?m (s + 1) (t + 1) n))(snd (safestrcpy_loop ?m (s + 1) (t + 1) n) := 0)) (s + 1) (Suc n)
        = cstr m (t + 1) n"
      "\<exists>k \<le> n. snd (safestrcpy_loop ?m (s + 1) (t + 1) n) = s + 1 + of_nat k"
      "\<And>a. n \<le> unat (a - (s + 1)) \<Longrightarrow> fst (safestrcpy_loop ?m (s + 1) (t + 1) n) a = ?m a"
      using ih [THEN conjunct1] ih [THEN conjunct2, THEN conjunct1]
        ih [THEN conjunct2, THEN conjunct2] Suc.prems(1) sh by (auto simp del: fun_upd_apply)
    then obtain k where k: "k \<le> n" "snd (safestrcpy_loop ?m (s + 1) (t + 1) n) = s + of_nat (Suc k)"
      by (auto simp: add.assoc)
    have "of_nat (Suc k) \<noteq> (0 :: addr)"
      using k(1) Suc.prems(1) by (auto simp: word_unat_eq_iff unat_of_nat simp del: of_nat_Suc)
    then have ne: "snd (safestrcpy_loop ?m (s + 1) (t + 1) n) \<noteq> s"
      using k(2) by (simp del: of_nat_Suc)
    have fs: "fst (safestrcpy_loop ?m (s + 1) (t + 1) n) s = m t"
      using IH(3) [of s] unat_minus_1 [of s] Suc.prems(1) by simp
    have "fst (safestrcpy_loop ?m (s + 1) (t + 1) n) a = m a" if "Suc n \<le> unat (a - s)" for a
    proof -
      have "a \<noteq> s" using that by auto
      then show ?thesis using that unat_diff_Suc [of a s] IH(3) [of a] by simp
    qed
    moreover have "safestrcpy_loop m s t (Suc n) = safestrcpy_loop ?m (s + 1) (t + 1) n"
      using False by (simp add: Let_def)
    moreover have "\<exists>k' \<le> Suc n. snd (safestrcpy_loop ?m (s + 1) (t + 1) n) = s + of_nat k'"
      using k by (intro exI [of _ "Suc k"]) simp
    ultimately show ?thesis
      using IH(1) fs ne False by (subst cstr_Suc) (simp add: cstr_Suc [of m t] del: safestrcpy_loop.simps)
  qed
qed

section \<open>Properties\<close>

text \<open>
  C33: \<^verbatim>\<open>memset\<close> stores the low byte of \<open>c\<close> in exactly the \<open>n\<close> bytes from \<open>d\<close> on, whichever of the
  word-wise and the byte-wise path it takes.
\<close>

theorem memset_spec: "memset m d c n a = (if a - d < n then ucast c else m a)"
  by (rule memset_apply)

text \<open>
  C34: \<^verbatim>\<open>memmove\<close> copies \<open>n\<close> bytes as if all of them were read before the first is written, for
  every overlap of the two ranges, provided that neither runs past the end of the address space.
\<close>

theorem memmove_spec:
  assumes "unat s + unat n < 4294967296" "unat d + unat n \<le> 4294967296"
  shows "memmove m d s n = (\<lambda>a. if a - d < n then m (s + (a - d)) else m a)"
  using memmove_apply [OF assms] by blast

theorem memmove_spec_witness:
  "memmove (\<lambda>a. ucast a) 0x102 0x100 8 =
     (\<lambda>a. if a - 0x102 < 8 then ucast (0x100 + (a - 0x102) :: addr) else ucast a)"
  using memmove_spec [of "0x100" 8 "0x102" "\<lambda>a. ucast a"] by simp

text \<open>
  C35: \<^verbatim>\<open>safestrcpy\<close> with room for \<open>n\<close> bytes leaves at \<open>s\<close> the string of \<open>t\<close>, cut to \<open>n - 1\<close> characters
  and always terminated within the room, and writes nothing beyond the room.
\<close>

theorem safestrcpy_spec:
  assumes "0 < n" "n \<le> 4294967296"
    and "\<And>i j. i < nat n \<Longrightarrow> j < nat n \<Longrightarrow> s + of_nat i \<noteq> t + of_nat j"
  shows "cstr (safestrcpy m s t n) s (nat n) = cstr m t (nat n - 1) \<and>
    (\<forall>a. n \<le> int (unat (a - s)) \<longrightarrow> safestrcpy m s t n a = m a)"
proof -
  obtain l where l: "nat n = Suc l" "nat (n - 1) = l"
    using assms(1) by (cases "nat n") auto
  let ?r = "safestrcpy_loop m s t l"
  have eq: "safestrcpy m s t n = (fst ?r)(snd ?r := 0)"
    using assms(1) l by (simp add: safestrcpy_def case_prod_beta)
  have r: "cstr ((fst ?r)(snd ?r := 0)) s (Suc l) = cstr m t l" "\<exists>k \<le> l. snd ?r = s + of_nat k"
    "\<forall>a. l \<le> unat (a - s) \<longrightarrow> fst ?r a = m a"
    using safestrcpy_loop_spec [of l s t m] assms l by auto
  then obtain k where k: "k \<le> l" "snd ?r = s + of_nat k" by blast
  have "a \<noteq> snd ?r" if "n \<le> int (unat (a - s))" for a
  proof
    assume "a = snd ?r"
    then have "unat (a - s) = k" using k l assms(1,2) by (simp add: unat_of_nat)
    then show False using that k l by linarith
  qed
  then show ?thesis using eq r l by (auto simp: nat_le_iff)
qed

theorem safestrcpy_spec_witness:
  "cstr (safestrcpy (\<lambda>a. if a < 9 then 7 else 0) 100 0 4) 100 4 = [7, 7, 7]"
proof -
  have d: "(100 :: addr) + of_nat i \<noteq> 0 + of_nat j" if "i < nat 4" "j < nat 4" for i j
    using that by (auto simp: word_unat_eq_iff unat_word_ariths unat_of_nat)
  have "cstr (\<lambda>a. if a < 9 then 7 else 0) 0 3 = [7, 7, 7]"
    by (simp add: numeral_3_eq_3 cstr_Suc) (simp add: cstr_def)
  with safestrcpy_spec [of 4 100 0 "\<lambda>a. if a < 9 then 7 else 0"] d show ?thesis by simp
qed

end
