(* ===== verification/Spinlock.thy ===== *)
theory Spinlock
  imports Prelude
begin

text \<open>
  Spin locks and interrupt nesting of \<^verbatim>\<open>spinlock.c\<close>. The first part is the code as one
  processor runs it: \<^verbatim>\<open>pushcli\<close>, \<^verbatim>\<open>popcli\<close>, \<^verbatim>\<open>holding\<close>, \<^verbatim>\<open>acquire\<close>, \<^verbatim>\<open>release\<close> on a processor
  record and a lock record. The second part interleaves the memory accesses of \<^verbatim>\<open>acquire\<close> and
  \<^verbatim>\<open>release\<close> over any number of processors and proves mutual exclusion.
\<close>

section \<open>Processor and lock\<close>

text \<open>
  Of \<^verbatim>\<open>struct cpu\<close>: the index in \<^verbatim>\<open>cpus\<close>, the nesting depth, the saved interrupt flag, the
  interrupt flag \<^verbatim>\<open>FL_IF\<close> of \<^verbatim>\<open>eflags\<close>, and the running process (an index in \<^verbatim>\<open>ptable.proc\<close>).
\<close>

record cpu =
  cid :: nat
  ncli :: int
  intena :: bool
  eflags_if :: bool
  cproc :: "nat option"

record spinlock =
  locked :: bool
  lname :: string
  lcpu :: "nat option"

definition initlock :: "spinlock \<Rightarrow> string \<Rightarrow> spinlock" where
  "initlock lk nm = lk\<lparr>lname := nm, locked := False, lcpu := None\<rparr>"

definition pushcli :: "cpu \<Rightarrow> cpu" where
  "pushcli c =
     (let eflags = eflags_if c;
          c = c\<lparr>eflags_if := False\<rparr>;
          c = (if ncli c = 0 then c\<lparr>intena := eflags\<rparr> else c)
      in c\<lparr>ncli := ncli c + 1\<rparr>)"

definition popcli :: "cpu \<Rightarrow> cpu res" where
  "popcli c =
     (if eflags_if c then Inl (Panic ''popcli - interruptible'')
      else let c = c\<lparr>ncli := ncli c - 1\<rparr> in
        if ncli c < 0 then Inl (Panic ''popcli'')
        else Inr (if ncli c = 0 \<and> intena c then c\<lparr>eflags_if := True\<rparr> else c))"

definition holding :: "cpu \<Rightarrow> spinlock \<Rightarrow> (bool \<times> cpu) res" where
  "holding c lk =
     (let c = pushcli c; r = (locked lk \<and> lcpu lk = Some (cid c)) in
      bnd (popcli c) (\<lambda>c. Inr (r, c)))"

text \<open>The \<^verbatim>\<open>xchg\<close> loop ends only when the lock is free; otherwise the processor spins.\<close>

definition acquire :: "cpu \<Rightarrow> spinlock \<Rightarrow> (cpu \<times> spinlock) res" where
  "acquire c lk =
     (let c = pushcli c in
      bnd (holding c lk) (\<lambda>(h, c).
        if h then Inl (Panic ''acquire'')
        else if locked lk then Inl Spins
        else Inr (c, lk\<lparr>locked := True, lcpu := Some (cid c)\<rparr>)))"

definition release :: "cpu \<Rightarrow> spinlock \<Rightarrow> (cpu \<times> spinlock) res" where
  "release c lk =
     bnd (holding c lk) (\<lambda>(h, c).
       if \<not> h then Inl (Panic ''release'')
       else let lk = lk\<lparr>lcpu := None\<rparr>; lk = lk\<lparr>locked := False\<rparr> in
         bnd (popcli c) (\<lambda>c. Inr (c, lk)))"

text \<open>\<^verbatim>\<open>getcallerpcs\<close>: the saved program counters along the frame-pointer chain, ten entries.\<close>

fun getcallerpcs_loop :: "mem \<Rightarrow> addr \<Rightarrow> nat \<Rightarrow> addr list" where
  "getcallerpcs_loop m ebp 0 = []"
| "getcallerpcs_loop m ebp (Suc n) =
     (if ebp = 0 \<or> ebp < 0x80000000 \<or> ebp = 0xffffffff then replicate (Suc n) 0
      else load32 m (ebp + 4) # getcallerpcs_loop m (load32 m ebp) n)"

definition getcallerpcs :: "mem \<Rightarrow> addr \<Rightarrow> addr list" where
  "getcallerpcs m v = getcallerpcs_loop m (v - 8) 10"

lemma length_getcallerpcs: "length (getcallerpcs m v) = 10"
proof -
  have "length (getcallerpcs_loop m e n) = n" for e n
    by (induction m e n rule: getcallerpcs_loop.induct) auto
  then show ?thesis by (simp add: getcallerpcs_def)
qed

section \<open>One processor\<close>

text \<open>
  A processor between two lock operations: the depth is not negative, interrupts are off when
  it is positive, and at depth 0 the saved flag is the current one.
\<close>

definition cpu_ok :: "cpu \<Rightarrow> bool" where
  "cpu_ok c \<longleftrightarrow> 0 \<le> ncli c \<and> (0 < ncli c \<longrightarrow> \<not> eflags_if c) \<and> (ncli c = 0 \<longrightarrow> intena c = eflags_if c)"

definition lock_free :: "spinlock \<Rightarrow> bool" where
  "lock_free lk \<longleftrightarrow> \<not> locked lk \<and> lcpu lk = None"

definition held_by :: "cpu \<Rightarrow> spinlock \<Rightarrow> bool" where
  "held_by c lk \<longleftrightarrow> locked lk \<and> lcpu lk = Some (cid c)"

lemma cid_pushcli [simp]: "cid (pushcli c) = cid c"
  and ncli_pushcli [simp]: "ncli (pushcli c) = ncli c + 1"
  and cproc_pushcli [simp]: "cproc (pushcli c) = cproc c"
  and eflags_pushcli [simp]: "\<not> eflags_if (pushcli c)"
  by (simp_all add: pushcli_def Let_def)

lemma cpu_ok_pushcli [simp]: "cpu_ok c \<Longrightarrow> cpu_ok (pushcli c)"
  by (simp add: cpu_ok_def)

lemma popcli_pushcli: "cpu_ok c \<Longrightarrow> popcli (pushcli c) = Inr c"
  by (cases c) (auto simp: pushcli_def popcli_def cpu_ok_def Let_def)

lemma holding_ok: "cpu_ok c \<Longrightarrow> holding c lk = Inr (held_by c lk, c)"
  by (simp add: holding_def popcli_pushcli held_by_def)

lemma lock_free_not_held: "lock_free lk \<Longrightarrow> \<not> held_by c lk"
  by (simp add: lock_free_def held_by_def)

lemma acquire_free:
  "cpu_ok c \<Longrightarrow> lock_free lk \<Longrightarrow>
   acquire c lk = Inr (pushcli c, lk\<lparr>locked := True, lcpu := Some (cid c)\<rparr>)"
  by (simp add: acquire_def holding_ok lock_free_not_held) (simp add: lock_free_def)

lemma release_acquired:
  "cpu_ok c \<Longrightarrow> lock_free lk \<Longrightarrow>
   release (pushcli c) (lk\<lparr>locked := True, lcpu := Some (cid c)\<rparr>) = Inr (c, lk)"
  by (cases lk) (simp add: release_def holding_ok held_by_def popcli_pushcli lock_free_def Let_def)

lemma acquire_twice: "cpu_ok c \<Longrightarrow> held_by c lk \<Longrightarrow> acquire c lk = Inl (Panic ''acquire'')"
  by (simp add: acquire_def holding_ok held_by_def)

lemma acquire_busy:
  "cpu_ok c \<Longrightarrow> locked lk \<Longrightarrow> \<not> held_by c lk \<Longrightarrow> acquire c lk = Inl Spins"
  by (simp add: acquire_def holding_ok held_by_def)

lemma release_not_held: "cpu_ok c \<Longrightarrow> \<not> held_by c lk \<Longrightarrow> release c lk = Inl (Panic ''release'')"
  by (simp add: release_def holding_ok held_by_def)

section \<open>Many processors\<close>

text \<open>
  The accesses to the lock's memory that other processors can interleave with: the test of
  \<^verbatim>\<open>holding\<close>, the atomic \<^verbatim>\<open>xchg\<close>, the store to \<^verbatim>\<open>lk->cpu\<close>, and in \<^verbatim>\<open>release\<close> the store that
  clears \<^verbatim>\<open>lk->cpu\<close> and the one that clears \<^verbatim>\<open>lk->locked\<close>. Outside of the two routines a
  processor may do anything that leaves its own record in order: between lock operations at depth 0
  the saved flag agrees with the interrupt flag. The two reads of \<^verbatim>\<open>holding\<close> are one step: it is true only when
  \<^verbatim>\<open>lk->cpu\<close> is the processor itself, and no other processor stores that.
\<close>

datatype lpc = Outside | Spinning | Taken | Critical | Leaving | Panicked

record smp =
  scpu :: "nat \<Rightarrow> cpu"
  spc :: "nat \<Rightarrow> lpc"
  slock :: spinlock

inductive lock_step :: "smp \<Rightarrow> smp \<Rightarrow> bool" where
  other_code: "spc s i = Outside \<Longrightarrow> cpu_ok c \<Longrightarrow> cid c = i \<Longrightarrow>
     lock_step s (s\<lparr>scpu := (scpu s)(i := c)\<rparr>)"
| acquire_test: "spc s i = Outside \<Longrightarrow> holding (pushcli (scpu s i)) (slock s) = Inr (False, c) \<Longrightarrow>
     lock_step s (s\<lparr>scpu := (scpu s)(i := c), spc := (spc s)(i := Spinning)\<rparr>)"
| acquire_panic: "spc s i = Outside \<Longrightarrow> (\<And>c. holding (pushcli (scpu s i)) (slock s) \<noteq> Inr (False, c)) \<Longrightarrow>
     lock_step s (s\<lparr>spc := (spc s)(i := Panicked)\<rparr>)"
| acquire_spin: "spc s i = Spinning \<Longrightarrow> locked (slock s) \<Longrightarrow> lock_step s s"
| acquire_xchg: "spc s i = Spinning \<Longrightarrow> \<not> locked (slock s) \<Longrightarrow>
     lock_step s (s\<lparr>slock := (slock s)\<lparr>locked := True\<rparr>, spc := (spc s)(i := Taken)\<rparr>)"
| acquire_record: "spc s i = Taken \<Longrightarrow>
     lock_step s (s\<lparr>slock := (slock s)\<lparr>lcpu := Some (cid (scpu s i))\<rparr>, spc := (spc s)(i := Critical)\<rparr>)"
| release_clear: "spc s i = Critical \<Longrightarrow> holding (scpu s i) (slock s) = Inr (True, c) \<Longrightarrow>
     lock_step s (s\<lparr>scpu := (scpu s)(i := c), slock := (slock s)\<lparr>lcpu := None\<rparr>,
       spc := (spc s)(i := Leaving)\<rparr>)"
| release_panic: "spc s i = Critical \<Longrightarrow> (\<And>c. holding (scpu s i) (slock s) \<noteq> Inr (True, c)) \<Longrightarrow>
     lock_step s (s\<lparr>spc := (spc s)(i := Panicked)\<rparr>)"
| release_unlock: "spc s i = Leaving \<Longrightarrow> popcli (scpu s i) = Inr c \<Longrightarrow>
     lock_step s (s\<lparr>scpu := (scpu s)(i := c), slock := (slock s)\<lparr>locked := False\<rparr>,
       spc := (spc s)(i := Outside)\<rparr>)"
| unlock_panic: "spc s i = Leaving \<Longrightarrow> popcli (scpu s i) = Inl e \<Longrightarrow>
     lock_step s (s\<lparr>spc := (spc s)(i := Panicked)\<rparr>)"

definition lock_start :: "smp \<Rightarrow> bool" where
  "lock_start s \<longleftrightarrow> lock_free (slock s) \<and>
     (\<forall>i. spc s i = Outside \<and> cpu_ok (scpu s i) \<and> cid (scpu s i) = i)"

inductive lock_reachable :: "smp \<Rightarrow> bool" where
  start: "lock_start s \<Longrightarrow> lock_reachable s"
| step: "lock_reachable s \<Longrightarrow> lock_step s t \<Longrightarrow> lock_reachable t"

definition owns :: "lpc \<Rightarrow> bool" where
  "owns p \<longleftrightarrow> p = Taken \<or> p = Critical \<or> p = Leaving"

text \<open>
  The lock word is set exactly while some processor owns the lock, one processor at most owns
  it, and the recorded holder is the processor in its critical section.
\<close>

definition cpus_inv :: "smp \<Rightarrow> bool" where
  "cpus_inv s \<longleftrightarrow>
     (\<forall>i. cpu_ok (scpu s i) \<and> cid (scpu s i) = i \<and> spc s i \<noteq> Panicked \<and>
          (spc s i \<noteq> Outside \<longrightarrow> 0 < ncli (scpu s i)))"

definition own_inv :: "smp \<Rightarrow> bool" where
  "own_inv s \<longleftrightarrow>
     (\<forall>i j. owns (spc s i) \<longrightarrow> owns (spc s j) \<longrightarrow> i = j) \<and>
     (locked (slock s) \<longleftrightarrow> (\<exists>i. owns (spc s i))) \<and>
     (\<forall>i. lcpu (slock s) = Some i \<longleftrightarrow> spc s i = Critical)"

definition lock_inv :: "smp \<Rightarrow> bool" where
  "lock_inv s \<longleftrightarrow> cpus_inv s \<and> own_inv s"

lemmas lock_inv_defs = lock_inv_def cpus_inv_def own_inv_def

lemma owns_simps [simp]:
  "\<not> owns Outside" "\<not> owns Spinning" "owns Taken" "owns Critical" "owns Leaving" "\<not> owns Panicked"
  by (simp_all add: owns_def)

lemma owns_upd: "owns (f i) = owns p \<Longrightarrow> owns ((f(i := p)) j) = owns (f j)"
  by simp

lemma cpu_ok_ncli: "cpu_ok c \<Longrightarrow> 0 \<le> ncli c"
  by (simp add: cpu_ok_def)

lemma lock_start_inv: "lock_start s \<Longrightarrow> lock_inv s"
  by (simp add: lock_start_def lock_inv_defs lock_free_def)

lemma popcli_ok:
  "cpu_ok c \<Longrightarrow> 0 < ncli c \<Longrightarrow> \<exists>c'. popcli c = Inr c' \<and> cpu_ok c' \<and> cid c' = cid c"
  by (auto simp: popcli_def cpu_ok_def Let_def)

lemma own_inv_outside:
  "own_inv s \<Longrightarrow> \<not> owns (spc s i) \<Longrightarrow> \<not> owns p \<Longrightarrow> own_inv (s\<lparr>scpu := f, spc := (spc s)(i := p)\<rparr>)"
proof -
  assume inv: "own_inv s" and i: "\<not> owns (spc s i)" and p: "\<not> owns p"
  have "owns (((spc s)(i := p)) j) = owns (spc s j)" for j
    using i p by simp
  moreover have "((spc s)(i := p)) j = Critical \<longleftrightarrow> spc s j = Critical" for j
    using i p by (auto simp: owns_def)
  ultimately show ?thesis using inv by (simp add: own_inv_def del: fun_upd_apply)
qed

lemma lock_step_inv: "lock_step s t \<Longrightarrow> lock_inv s \<Longrightarrow> lock_inv t"
proof (induction rule: lock_step.induct)
  case (other_code s i c)
  then show ?case by (auto simp: lock_inv_defs)
next
  case (acquire_test s i c)
  then have "c = pushcli (scpu s i)" by (simp add: lock_inv_defs holding_ok)
  with acquire_test have "cpus_inv (s\<lparr>scpu := (scpu s)(i := c), spc := (spc s)(i := Spinning)\<rparr>)"
    by (auto simp: lock_inv_def cpus_inv_def cpu_ok_ncli)
  with acquire_test show ?case by (simp add: lock_inv_def own_inv_outside)
next
  case (acquire_panic s i)
  then have "holding (pushcli (scpu s i)) (slock s) = Inr (False, pushcli (scpu s i))"
    by (auto simp: lock_inv_defs holding_ok held_by_def)
  with acquire_panic show ?case by blast
next
  case (acquire_spin s i)
  then show ?case by simp
next
  case (acquire_xchg s i)
  then show ?case by (auto simp: lock_inv_defs owns_def)
next
  case (acquire_record s i)
  then have "owns (spc s j) \<longleftrightarrow> j = i" for j
    by (metis lock_inv_def own_inv_def owns_simps(3))
  with acquire_record show ?case by (auto simp: lock_inv_defs) (metis owns_simps(4))
next
  case (release_clear s i c)
  then have "c = scpu s i" by (simp add: lock_inv_defs holding_ok)
  moreover from release_clear have "owns (spc s j) \<longleftrightarrow> j = i" for j
    by (metis lock_inv_def own_inv_def owns_simps(4))
  ultimately show ?case using release_clear by (auto simp: lock_inv_defs) (metis owns_simps(4))
next
  case (release_panic s i)
  then have "holding (scpu s i) (slock s) = Inr (True, scpu s i)"
    by (auto simp: lock_inv_defs holding_ok held_by_def owns_def)
  with release_panic show ?case by blast
next
  case (release_unlock s i c)
  then have "cpu_ok c \<and> cid c = i"
    using popcli_ok [of "scpu s i"] by (auto simp: lock_inv_defs)
  moreover from release_unlock have "owns (spc s j) \<longleftrightarrow> j = i" for j
    by (metis lock_inv_def own_inv_def owns_simps(5))
  ultimately show ?case using release_unlock by (auto simp: lock_inv_defs)
next
  case (unlock_panic s i e)
  then show ?case using popcli_ok [of "scpu s i"] by (auto simp: lock_inv_defs)
qed

lemma lock_reachable_inv: "lock_reachable s \<Longrightarrow> lock_inv s"
  by (induction rule: lock_reachable.induct) (auto intro: lock_start_inv lock_step_inv)

section \<open>Properties\<close>

definition idle_cpu :: "nat \<Rightarrow> cpu" where
  "idle_cpu i = \<lparr>cid = i, ncli = 0, intena = True, eflags_if = True, cproc = None\<rparr>"

definition idle_lock :: spinlock where
  "idle_lock = \<lparr>locked = False, lname = ''kmem'', lcpu = None\<rparr>"

definition two_spin :: smp where
  "two_spin = \<lparr>scpu = idle_cpu(0 := pushcli (idle_cpu 0), 1 := pushcli (idle_cpu 1)),
     spc = (\<lambda>_. Outside)(0 := Spinning, 1 := Spinning), slock = idle_lock\<rparr>"

lemma idle_ok [simp]: "cpu_ok (idle_cpu i)" "cid (idle_cpu i) = i"
  by (simp_all add: idle_cpu_def cpu_ok_def)

lemma two_spin_reachable: "lock_reachable two_spin"
proof -
  let ?s = "\<lparr>scpu = idle_cpu, spc = \<lambda>_. Outside, slock = idle_lock\<rparr>"
  have h: "holding (pushcli (idle_cpu i)) idle_lock = Inr (False, pushcli (idle_cpu i))" for i
    by (simp add: holding_ok held_by_def idle_lock_def)
  have "lock_reachable ?s"
    by (rule lock_reachable.start) (simp add: lock_start_def lock_free_def idle_lock_def)
  then have "lock_reachable (?s\<lparr>scpu := idle_cpu(0 := pushcli (idle_cpu 0)),
      spc := (\<lambda>_. Outside)(0 := Spinning)\<rparr>)"
    by (rule lock_reachable.step) (use acquire_test [of ?s 0] h in simp)
  then show ?thesis
    unfolding two_spin_def
    by (rule lock_reachable.step)
      (use acquire_test [of "?s\<lparr>scpu := idle_cpu(0 := pushcli (idle_cpu 0)),
        spc := (\<lambda>_. Outside)(0 := Spinning)\<rparr>" 1] h in simp)
qed

definition race_won :: smp where
  "race_won = two_spin\<lparr>slock := (slock two_spin)\<lparr>locked := True\<rparr>, spc := (spc two_spin)(0 := Taken)\<rparr>"

lemma race_won_reachable: "lock_reachable race_won"
  unfolding race_won_def using two_spin_reachable
  by (rule lock_reachable.step) (rule acquire_xchg; simp add: two_spin_def idle_lock_def)

text \<open>
  C26: Mutual exclusion. In every state that any interleaving of \<^verbatim>\<open>acquire\<close> and \<^verbatim>\<open>release\<close> on any
  number of processors can reach, at most one processor has taken the lock and not given it
  back, no processor has panicked, and a processor that is inside of the two routines or of its
  critical section has interrupts off.
\<close>

theorem spinlock_exclusion:
  assumes "lock_reachable s"
  shows "(\<forall>i j. owns (spc s i) \<longrightarrow> owns (spc s j) \<longrightarrow> i = j) \<and>
    (\<forall>i. spc s i \<noteq> Panicked) \<and> (\<forall>i. spc s i \<noteq> Outside \<longrightarrow> \<not> eflags_if (scpu s i))"
  using lock_reachable_inv [OF assms] by (simp add: lock_inv_def cpus_inv_def own_inv_def cpu_ok_def)

text \<open>Both processors are in the loop of \<^verbatim>\<open>acquire\<close>, and processor 0 wins the race.\<close>

theorem spinlock_exclusion_witness:
  "spc race_won 0 = Taken \<and> spc race_won 1 = Spinning \<and> \<not> owns (spc race_won 1) \<and>
   \<not> eflags_if (scpu race_won 1)"
proof -
  have "spc race_won 0 = Taken" "spc race_won 1 = Spinning"
    by (simp_all add: race_won_def two_spin_def)
  then show ?thesis using spinlock_exclusion [OF race_won_reachable] by (simp add: owns_def)
qed

text \<open>
  C28: A processor that takes a free lock and gives it back is left exactly as it was, at every
  nesting depth, and so is the lock; in between it holds the lock with interrupts off, and a
  second \<^verbatim>\<open>acquire\<close> by the same processor panics instead of spinning for ever.
\<close>

theorem acquire_release:
  assumes "cpu_ok c" "lock_free lk"
  shows "\<exists>c' lk'. acquire c lk = Inr (c', lk') \<and> held_by c' lk' \<and> \<not> eflags_if c' \<and>
    acquire c' lk' = Inl (Panic ''acquire'') \<and> release c' lk' = Inr (c, lk)"
  using acquire_free [OF assms] release_acquired [OF assms] assms(1)
    acquire_twice [of "pushcli c" "lk\<lparr>locked := True, lcpu := Some (cid c)\<rparr>"]
  by (simp add: held_by_def)

theorem acquire_release_witness:
  "\<exists>c' lk'. acquire (pushcli (idle_cpu 1)) idle_lock = Inr (c', lk') \<and> held_by c' lk' \<and>
    release c' lk' = Inr (pushcli (idle_cpu 1), idle_lock)"
  using acquire_release [of "pushcli (idle_cpu 1)" idle_lock]
  by (auto simp: idle_lock_def lock_free_def)

end
