(* ===== verification/Kalloc.thy ===== *)
theory Kalloc
  imports Cstring Spinlock "HOL-Library.Multiset"
begin

text \<open>
  The physical page allocator of \<^verbatim>\<open>kalloc.c\<close>. The free list is kept as the code keeps it: a
  chain of pointers stored in the free pages themselves. The invariant relates that chain to
  the list of free pages, and a locale states what the allocator promises to its clients.
\<close>

section \<open>State and operations\<close>

abbreviation KERNBASE :: addr where "KERNBASE \<equiv> 0x80000000"
abbreviation PHYSTOP :: "32 word" where "PHYSTOP \<equiv> 0xE000000"

definition V2P :: "addr \<Rightarrow> 32 word" where
  "V2P a = a - KERNBASE"

definition P2V :: "32 word \<Rightarrow> addr" where
  "P2V a = a + KERNBASE"

text \<open>
  Kernel memory by virtual address, the processor that runs, the linker symbol \<^verbatim>\<open>end\<close>, and
  \<^verbatim>\<open>kmem\<close>. A null pointer is address 0.
\<close>

record kmem =
  mem :: mem
  kcpu :: cpu
  kend :: addr
  kmem_lock :: spinlock
  use_lock :: bool
  freelist :: addr

definition acquire_kmem :: "'a kmem_scheme \<Rightarrow> 'a kmem_scheme res" where
  "acquire_kmem s =
     bnd (acquire (kcpu s) (kmem_lock s)) (\<lambda>(c, l). Inr (s\<lparr>kcpu := c, kmem_lock := l\<rparr>))"

definition release_kmem :: "'a kmem_scheme \<Rightarrow> 'a kmem_scheme res" where
  "release_kmem s =
     bnd (release (kcpu s) (kmem_lock s)) (\<lambda>(c, l). Inr (s\<lparr>kcpu := c, kmem_lock := l\<rparr>))"

definition kfree :: "addr \<Rightarrow> 'a kmem_scheme \<Rightarrow> 'a kmem_scheme res" where
  "kfree v s =
     (if v mod PGSIZE \<noteq> 0 \<or> v < kend s \<or> V2P v \<ge> PHYSTOP then Inl (Panic ''kfree'')
      else let s = s\<lparr>mem := memset (mem s) v 1 PGSIZE\<rparr> in
        bnd (if use_lock s then acquire_kmem s else Inr s) (\<lambda>s.
          let r = v;
              s = s\<lparr>mem := store32 (mem s) r (freelist s)\<rparr>;
              s = s\<lparr>freelist := r\<rparr>
          in if use_lock s then release_kmem s else Inr s))"

text \<open>The message that \<^verbatim>\<open>kalloc\<close> prints with \<^verbatim>\<open>cprintf\<close> before it returns is left out, as is all debugging output.\<close>

definition kalloc :: "'a kmem_scheme \<Rightarrow> (addr \<times> 'a kmem_scheme) res" where
  "kalloc s =
     bnd (if use_lock s then acquire_kmem s else Inr s) (\<lambda>s.
       let r = freelist s;
           s = (if r \<noteq> 0 then s\<lparr>freelist := load32 (mem s) r\<rparr> else s)
       in bnd (if use_lock s then release_kmem s else Inr s) (\<lambda>s. Inr (r, s)))"

text \<open>
  The loop of \<^verbatim>\<open>freerange\<close>. Every page it frees lies below \<^verbatim>\<open>P2V(PHYSTOP)\<close>, otherwise \<^verbatim>\<open>kfree\<close>
  panics, so the pointer never wraps and the loop ends.
\<close>

lemma kfree_bound: "kfree v s = Inr t \<Longrightarrow> V2P v < PHYSTOP"
  by (auto simp: kfree_def split: if_splits)

lemma V2P_bound_no_wrap: "V2P v < PHYSTOP \<Longrightarrow> unat (v + PGSIZE) = unat v + 4096"
proof -
  assume "V2P v < PHYSTOP"
  then have "unat (v - KERNBASE) < 234881024" by (simp add: V2P_def word_less_nat_alt)
  then show ?thesis by (simp add: unat_sub_if' unat_word_ariths split: if_splits)
qed

function freerange_loop :: "addr \<Rightarrow> addr \<Rightarrow> 'a kmem_scheme \<Rightarrow> 'a kmem_scheme res" where
  "freerange_loop p vend s =
     (if p + PGSIZE \<le> vend then bnd (kfree p s) (\<lambda>s. freerange_loop (p + PGSIZE) vend s) else Inr s)"
  by pat_completeness auto
termination
proof (relation "measure (\<lambda>(p, vend, s). 4294967296 - unat p)")
  fix p vend :: addr and s t :: "'a kmem_scheme"
  assume "kfree p s = Inr t"
  then have "unat (p + PGSIZE) = unat p + 4096" by (intro V2P_bound_no_wrap kfree_bound)
  then show "((p + PGSIZE, vend, t), p, vend, s) \<in> measure (\<lambda>(p, vend, s). 4294967296 - unat p)"
    using unat32_less [of "p + PGSIZE"] by simp
qed simp

declare freerange_loop.simps [simp del]

definition freerange :: "addr \<Rightarrow> addr \<Rightarrow> 'a kmem_scheme \<Rightarrow> 'a kmem_scheme res" where
  "freerange vstart vend s = freerange_loop (PGROUNDUP vstart) vend s"

definition kinit1 :: "addr \<Rightarrow> addr \<Rightarrow> 'a kmem_scheme \<Rightarrow> 'a kmem_scheme res" where
  "kinit1 vstart vend s =
     freerange vstart vend (s\<lparr>kmem_lock := initlock (kmem_lock s) ''kmem'', use_lock := False\<rparr>)"

definition kinit2 :: "addr \<Rightarrow> addr \<Rightarrow> 'a kmem_scheme \<Rightarrow> 'a kmem_scheme res" where
  "kinit2 vstart vend s = bnd (freerange vstart vend s) (\<lambda>s. Inr (s\<lparr>use_lock := True\<rparr>))"

section \<open>The free list in memory\<close>

text \<open>
  \<open>chain m r ps\<close>: following the next pointers from \<open>r\<close> visits exactly the pages \<open>ps\<close> and ends
  at the null pointer.
\<close>

fun chain :: "mem \<Rightarrow> addr \<Rightarrow> addr list \<Rightarrow> bool" where
  "chain m r [] \<longleftrightarrow> r = 0"
| "chain m r (p # ps) \<longleftrightarrow> r = p \<and> p \<noteq> 0 \<and> chain m (load32 m p) ps"

lemma chain_null [simp]: "chain m 0 ps \<longleftrightarrow> ps = []"
  by (cases ps) auto

lemma chain_unique: "chain m r ps \<Longrightarrow> chain m r qs \<Longrightarrow> ps = qs"
proof (induction ps arbitrary: r qs)
  case Nil
  then show ?case by simp
next
  case (Cons p ps)
  then show ?case by (cases qs) auto
qed

lemma chain_append: "chain m r (ps @ qs) \<Longrightarrow> \<exists>r'. chain m r' qs"
  by (induction ps arbitrary: r) auto

lemma chain_suffix: "chain m r (ps @ p # qs) \<Longrightarrow> chain m p (p # qs)"
  by (induction ps arbitrary: r) auto

lemma chain_distinct: "chain m r ps \<Longrightarrow> distinct ps"
proof (induction ps arbitrary: r)
  case (Cons p ps)
  have "p \<notin> set ps"
  proof
    assume "p \<in> set ps"
    then obtain xs ys where ps: "ps = xs @ p # ys" by (meson split_list)
    from Cons.prems have "chain m p (p # ps)" by simp
    moreover from Cons.prems ps have "chain m p (p # ys)"
      by (metis append_Cons chain_suffix)
    ultimately have "p # ps = p # ys" by (rule chain_unique)
    with ps show False by simp
  qed
  with Cons show ?case by auto
qed simp

lemma chain_cong:
  "(\<And>p. p \<in> set ps \<Longrightarrow> load32 m p = load32 m' p) \<Longrightarrow> chain m r ps = chain m' r ps"
  by (induction ps arbitrary: r) auto

definition page_ok :: "addr \<Rightarrow> addr \<Rightarrow> bool" where
  "page_ok e p \<longleftrightarrow> page_aligned p \<and> e \<le> p \<and> V2P p < PHYSTOP"

definition kmem_quiet :: "'a kmem_scheme \<Rightarrow> bool" where
  "kmem_quiet s \<longleftrightarrow> cpu_ok (kcpu s) \<and> lock_free (kmem_lock s)"

text \<open>
  The allocator's invariant: the lock is free, the chain visits \<open>ps\<close>, and every page on it is
  one that \<^verbatim>\<open>kfree\<close> accepts.
\<close>

definition kmem_inv :: "'a kmem_scheme \<Rightarrow> addr list \<Rightarrow> bool" where
  "kmem_inv s ps \<longleftrightarrow>
     kmem_quiet s \<and> 0 < kend s \<and> chain (mem s) (freelist s) ps \<and> (\<forall>p \<in> set ps. page_ok (kend s) p)"

lemma kmem_inv_distinct: "kmem_inv s ps \<Longrightarrow> distinct ps"
  by (auto simp: kmem_inv_def dest: chain_distinct)

lemma kmem_inv_page_ok: "kmem_inv s ps \<Longrightarrow> p \<in> set ps \<Longrightarrow> page_ok (kend s) p"
  by (auto simp: kmem_inv_def)

lemma page_ok_aligned: "page_ok e p \<Longrightarrow> page_aligned p"
  by (simp add: page_ok_def)

lemma page_word: "page_aligned p \<Longrightarrow> word_aligned p"
  using page_word_aligned(1) [of p 0] by simp

lemma page_ok_nonnull: "0 < e \<Longrightarrow> page_ok e p \<Longrightarrow> p \<noteq> 0"
  by (auto simp: page_ok_def)

lemma kmem_lock_roundtrip:
  "kmem_quiet s \<Longrightarrow>
   acquire_kmem s = Inr (s\<lparr>kcpu := pushcli (kcpu s),
     kmem_lock := (kmem_lock s)\<lparr>locked := True, lcpu := Some (cid (kcpu s))\<rparr>\<rparr>)"
  "kmem_quiet s \<Longrightarrow>
   release_kmem (s\<lparr>kcpu := pushcli (kcpu s),
     kmem_lock := (kmem_lock s)\<lparr>locked := True, lcpu := Some (cid (kcpu s))\<rparr>,
     mem := m, freelist := r\<rparr>) = Inr (s\<lparr>mem := m, freelist := r\<rparr>)"
  by (simp_all add: kmem_quiet_def acquire_kmem_def release_kmem_def acquire_free release_acquired)

lemma kalloc_quiet:
  assumes "kmem_quiet s"
  shows "kalloc s = Inr (freelist s,
    if freelist s \<noteq> 0 then s\<lparr>freelist := load32 (mem s) (freelist s)\<rparr> else s)"
proof -
  have 1: "release_kmem (s\<lparr>kcpu := pushcli (kcpu s),
     kmem_lock := (kmem_lock s)\<lparr>locked := True, lcpu := Some (cid (kcpu s))\<rparr>, freelist := r\<rparr>) =
     Inr (s\<lparr>freelist := r\<rparr>)" for r
    using kmem_lock_roundtrip(2) [OF assms, where m = "mem s" and r = r] by simp
  have 2: "release_kmem (s\<lparr>kcpu := pushcli (kcpu s),
     kmem_lock := (kmem_lock s)\<lparr>locked := True, lcpu := Some (cid (kcpu s))\<rparr>\<rparr>) = Inr s"
    using 1 [of "freelist s"] by simp
  show ?thesis
    using assms by (simp add: kalloc_def kmem_lock_roundtrip(1) 1 2 Let_def)
qed

lemma kfree_quiet:
  assumes "kmem_quiet s" "page_ok (kend s) p"
  shows "kfree p s =
    Inr (s\<lparr>mem := store32 (memset (mem s) p 1 PGSIZE) p (freelist s), freelist := p\<rparr>)"
proof -
  have c: "\<not> (p mod PGSIZE \<noteq> 0 \<or> p < kend s \<or> V2P p \<ge> PHYSTOP)"
    using assms(2) by (auto simp: page_ok_def page_aligned_def)
  have 1: "acquire_kmem (s\<lparr>mem := m\<rparr>) = Inr (s\<lparr>mem := m, kcpu := pushcli (kcpu s),
     kmem_lock := (kmem_lock s)\<lparr>locked := True, lcpu := Some (cid (kcpu s))\<rparr>\<rparr>)" for m
    using assms(1) kmem_lock_roundtrip(1) [of "s\<lparr>mem := m\<rparr>"] by (simp add: kmem_quiet_def)
  show ?thesis
    unfolding kfree_def if_not_P [OF c] by (simp add: Let_def 1 kmem_lock_roundtrip(2) [OF assms(1)])
qed


lemma kalloc_empty: "kmem_inv s [] \<Longrightarrow> kalloc s = Inr (0, s)"
  by (simp add: kmem_inv_def kalloc_quiet)

lemma kalloc_cons:
  assumes "kmem_inv s (p # ps)"
  shows "kalloc s = Inr (p, s\<lparr>freelist := load32 (mem s) p\<rparr>)"
    and "kmem_inv (s\<lparr>freelist := load32 (mem s) p\<rparr>) ps"
  using assms by (auto simp: kmem_inv_def kalloc_quiet kmem_quiet_def)

lemma kalloc_cases:
  assumes "kmem_inv s ps"
  obtains (empty) "ps = []" "kalloc s = Inr (0, s)"
  | (page) p qs where "ps = p # qs" "p \<noteq> 0" "page_ok (kend s) p" "p \<notin> set qs"
      "kalloc s = Inr (p, s\<lparr>freelist := load32 (mem s) p\<rparr>)"
      "kmem_inv (s\<lparr>freelist := load32 (mem s) p\<rparr>) qs"
proof (cases ps)
  case Nil
  with assms empty show ?thesis by (simp add: kalloc_empty)
next
  case (Cons p qs)
  moreover have "p \<noteq> 0" "page_ok (kend s) p" "p \<notin> set qs"
    using assms Cons kmem_inv_distinct [OF assms] by (auto simp: kmem_inv_def)
  ultimately show ?thesis using assms kalloc_cons page by blast
qed

text \<open>Memory outside of a page does not see a write into the page.\<close>

lemma load32_other_page:
  assumes "\<And>a. PGROUNDDOWN a \<noteq> p \<Longrightarrow> m' a = m a" "page_aligned p" "word_aligned a" "PGROUNDDOWN a \<noteq> p"
  shows "load32 m' a = load32 m a"
  by (rule load32_page_cong) (use assms in auto)

lemma store32_outside:
  assumes "page_aligned p" "PGROUNDDOWN a \<noteq> p"
  shows "store32 m p v a = m a"
proof -
  have "a \<noteq> p + i" if "i < 4" for i
  proof -
    have "i < PGSIZE" using that by (simp add: word_less_nat_alt)
    then show ?thesis using assms PGROUNDDOWN_page(1) [of p i] by auto
  qed
  from this [of 0] this [of 1] this [of 2] this [of 3] show ?thesis
    by (simp add: store32_def)
qed

lemma kfree_mem_outside:
  "page_aligned p \<Longrightarrow> PGROUNDDOWN a \<noteq> p \<Longrightarrow> store32 (memset m p c PGSIZE) p v a = m a"
  by (simp add: store32_outside memset_page)

lemma kfree_inv:
  assumes "kmem_inv s ps" "page_ok (kend s) p" "p \<notin> set ps"
  shows "kmem_inv (s\<lparr>mem := store32 (memset (mem s) p 1 PGSIZE) p (freelist s), freelist := p\<rparr>) (p # ps)"
proof -
  let ?m = "store32 (memset (mem s) p 1 PGSIZE) p (freelist s)"
  have al: "page_aligned p" using assms(2) by (simp add: page_ok_def)
  have "load32 ?m q = load32 (mem s) q" if "q \<in> set ps" for q
  proof (rule load32_other_page [of p])
    have q: "page_aligned q" using that assms(1) by (auto simp: kmem_inv_def page_ok_def)
    then show "word_aligned q" by (rule page_word)
    show "PGROUNDDOWN q \<noteq> p" using q that assms(3) by (auto simp: PGROUNDDOWN_aligned)
  qed (simp_all add: al kfree_mem_outside)
  then have "chain ?m (freelist s) ps"
    using assms(1) by (simp add: kmem_inv_def chain_cong [of ps ?m "mem s"])
  moreover have "p \<noteq> 0" using assms(1,2) by (auto simp: kmem_inv_def page_ok_def)
  ultimately show ?thesis
    using assms by (auto simp: kmem_inv_def kmem_quiet_def)
qed

section \<open>What the allocator promises\<close>

text \<open>
  A client of an allocator: it takes pages, keeps those it got, and gives back pages that it
  has (by position); an attempt to take a page when there is none changes nothing.
\<close>

datatype page_op = Take | Give nat

fun page_run :: "('s \<Rightarrow> (addr \<times> 's) res) \<Rightarrow> (addr \<Rightarrow> 's \<Rightarrow> 's res) \<Rightarrow>
    page_op list \<Rightarrow> addr list \<Rightarrow> 's \<Rightarrow> (addr list \<times> 's) res" where
  "page_run al de [] held s = Inr (held, s)"
| "page_run al de (Take # ops) held s =
     bnd (al s) (\<lambda>(p, s). page_run al de ops (if p = 0 then held else p # held) s)"
| "page_run al de (Give i # ops) held s =
     (if i < length held
      then bnd (de (held ! i) s) (\<lambda>s. page_run al de ops (take i held @ drop (Suc i) held) s)
      else page_run al de ops held s)"

lemma mset_remove_nth: "i < length xs \<Longrightarrow> mset (take i xs @ drop (Suc i) xs) = mset xs - {#xs ! i#}"
proof -
  assume "i < length xs"
  then have "mset xs = mset (take i xs @ xs ! i # drop (Suc i) xs)" by (metis id_take_nth_drop)
  then show ?thesis by simp
qed

text \<open>
  The contract of a page allocator: \<open>avail s ps\<close> says that exactly the pages \<open>ps\<close> are free,
  \<open>peek\<close> reads memory, \<open>valid\<close> are the pages that may be handed back.
\<close>

locale page_allocator =
  fixes alloc :: "'s \<Rightarrow> (addr \<times> 's) res"
    and dealloc :: "addr \<Rightarrow> 's \<Rightarrow> 's res"
    and avail :: "'s \<Rightarrow> addr list \<Rightarrow> bool"
    and valid :: "'s \<Rightarrow> addr \<Rightarrow> bool"
    and peek :: "'s \<Rightarrow> addr \<Rightarrow> byte"
  assumes alloc_none: "avail s [] \<Longrightarrow> alloc s = Inr (0, s)"
    and alloc_some: "avail s (p # ps) \<Longrightarrow>
      \<exists>t. alloc s = Inr (p, t) \<and> avail t ps \<and> peek t = peek s \<and> valid t = valid s"
    and dealloc_ok: "avail s ps \<Longrightarrow> valid s p \<Longrightarrow> p \<notin> set ps \<Longrightarrow>
      \<exists>t. dealloc p s = Inr t \<and> avail t (p # ps) \<and> valid t = valid s \<and>
          (\<forall>a. PGROUNDDOWN a \<noteq> p \<longrightarrow> peek t a = peek s a)"
    and avail_valid: "avail s ps \<Longrightarrow> p \<in> set ps \<Longrightarrow> valid s p"
    and avail_distinct: "avail s ps \<Longrightarrow> distinct ps"
    and valid_nonnull: "avail s ps \<Longrightarrow> valid s p \<Longrightarrow> p \<noteq> 0"
begin

text \<open>No page is lost, handed out twice, or both free and in use.\<close>

lemma page_run_conserves:
  assumes "avail s ps" "\<And>p. p \<in> set held \<Longrightarrow> valid s p" "distinct (held @ ps)"
  shows "\<exists>held' t qs. page_run alloc dealloc ops held s = Inr (held', t) \<and> avail t qs \<and>
    mset (held' @ qs) = mset (held @ ps)"
  using assms
proof (induction ops arbitrary: held s ps)
  case Nil
  then show ?case by auto
next
  case (Cons op ops)
  show ?case
  proof (cases op)
    case Take
    show ?thesis
    proof (cases ps)
      case Nil
      then have "alloc s = Inr (0, s)" using alloc_none Cons.prems by simp
      with Cons.IH [of s ps held] Cons.prems Take show ?thesis by simp
    next
      case ps: (Cons p qs)
      with Cons.prems alloc_some obtain t where
        t: "alloc s = Inr (p, t)" "avail t qs" "valid t = valid s" by blast
      have p: "valid s p" "p \<noteq> 0"
        using Cons.prems ps avail_valid valid_nonnull by (metis list.set_intros(1))+
      have "distinct ((p # held) @ qs)" "\<And>q. q \<in> set (p # held) \<Longrightarrow> valid t q"
        using Cons.prems ps p t by auto
      from Cons.IH [OF t(2) this(2,1)] show ?thesis
        using Take ps t p by (auto simp: ac_simps)
    qed
  next
    case (Give i)
    show ?thesis
    proof (cases "i < length held")
      case False
      with Cons.IH [of s ps held] Cons.prems Give show ?thesis by simp
    next
      case True
      let ?h = "take i held @ drop (Suc i) held"
      have m: "mset held = add_mset (held ! i) (mset ?h)"
        using True mset_remove_nth [OF True] by (simp del: mset_append)
      then have st: "set held = insert (held ! i) (set ?h)" by (metis set_mset_add_mset_insert set_mset_mset)
      have "mset (held @ ps) = mset (held ! i # ?h @ ps)" using m by simp
      with Cons.prems(3) have d: "distinct (held ! i # ?h @ ps)" by (metis mset_eq_imp_distinct_iff)
      obtain t where t: "dealloc (held ! i) s = Inr t" "avail t (held ! i # ps)" "valid t = valid s"
        using dealloc_ok [OF Cons.prems(1), of "held ! i"] Cons.prems(2) True d by force
      have "distinct (?h @ held ! i # ps)" "\<And>q. q \<in> set ?h \<Longrightarrow> valid t q"
        using d Cons.prems(2) t(3) st by auto
      from Cons.IH [OF t(2) this(2,1)] m show ?thesis
        using Give True t by (auto simp: ac_simps)
    qed
  qed
qed

lemma dealloc_alloc:
  assumes "avail s ps" "valid s p" "p \<notin> set ps"
  shows "\<exists>t u. dealloc p s = Inr t \<and> alloc t = Inr (p, u) \<and> avail u ps"
  using dealloc_ok [OF assms] alloc_some by metis

end

interpretation ka: page_allocator kalloc kfree kmem_inv "\<lambda>s. page_ok (kend s)" mem
proof unfold_locales
  fix s :: "'a kmem_scheme" and p :: addr and ps :: "addr list"
  show "kmem_inv s [] \<Longrightarrow> kalloc s = Inr (0, s)" by (rule kalloc_empty)
  show "kmem_inv s (p # ps) \<Longrightarrow> \<exists>t. kalloc s = Inr (p, t) \<and> kmem_inv t ps \<and> mem t = mem s \<and>
      page_ok (kend t) = page_ok (kend s)"
    using kalloc_cons [of s p ps] by auto
  show "kmem_inv s ps \<Longrightarrow> page_ok (kend s) p \<Longrightarrow> p \<notin> set ps \<Longrightarrow>
      \<exists>t. kfree p s = Inr t \<and> kmem_inv t (p # ps) \<and> page_ok (kend t) = page_ok (kend s) \<and>
        (\<forall>a. PGROUNDDOWN a \<noteq> p \<longrightarrow> mem t a = mem s a)"
    using kfree_inv [of s ps p] by (simp add: kfree_quiet kmem_inv_def kfree_mem_outside page_ok_aligned)
  show "kmem_inv s ps \<Longrightarrow> p \<in> set ps \<Longrightarrow> page_ok (kend s) p" by (rule kmem_inv_page_ok)
  show "kmem_inv s ps \<Longrightarrow> distinct ps" by (rule kmem_inv_distinct)
  show "kmem_inv s ps \<Longrightarrow> page_ok (kend s) p \<Longrightarrow> p \<noteq> 0" by (auto simp: kmem_inv_def page_ok_def)
qed

section \<open>Building the free list\<close>

definition whole_pages :: "addr \<Rightarrow> addr \<Rightarrow> addr set" where
  "whole_pages vstart vend = {p. page_aligned p \<and> vstart \<le> p \<and> unat p + 4096 \<le> unat vend}"

lemma PGROUNDUP_eq: "PGROUNDUP a = PGROUNDDOWN (a + 4095)"
proof -
  have "a + PGSIZE - 1 = a + 4095" by simp
  then show ?thesis by (simp only: PGROUNDUP_def PGROUNDDOWN_def)
qed

lemma unat_PGROUNDUP: "unat a \<le> 4294963200 \<Longrightarrow> unat (PGROUNDUP a) = (unat a + 4095) div 4096 * 4096"
proof -
  assume "unat a \<le> 4294963200"
  then have "unat (a + 4095) = unat a + 4095" by (simp add: unat_word_ariths)
  then show ?thesis by (simp only: PGROUNDUP_eq unat_PGROUNDDOWN)
qed

lemma page_aligned_PGROUNDUP [simp]: "page_aligned (PGROUNDUP a)"
  by (simp only: PGROUNDUP_eq page_aligned_PGROUNDDOWN)

lemma page_aligned_multiple: "page_aligned p \<Longrightarrow> \<exists>k. unat p = 4096 * k"
  by (simp add: page_aligned_unat dvd_def)

lemma round_up_le: "(a + 4095) div 4096 * 4096 \<le> 4096 * k \<longleftrightarrow> a \<le> 4096 * k" for a k :: nat
proof -
  have "(a + 4095) div 4096 < Suc k \<longleftrightarrow> a + 4095 < Suc k * 4096"
    by (rule div_less_iff_less_mult) simp
  then show ?thesis by auto
qed

lemma multiple_le_iff:
  "4096 * j \<le> 4096 * k \<longleftrightarrow> 4096 * k = 4096 * j \<or> 4096 * j + 4096 \<le> 4096 * k" for j k :: nat
proof -
  have "4096 * j + 4096 \<le> 4096 * k \<longleftrightarrow> Suc j \<le> k" by linarith
  then show ?thesis by auto
qed

lemma whole_pages_PGROUNDUP:
  assumes "unat a \<le> 4294963200"
  shows "whole_pages (PGROUNDUP a) e = whole_pages a e"
proof -
  have "unat (PGROUNDUP a) \<le> unat p \<longleftrightarrow> unat a \<le> unat p" if al: "page_aligned p" for p
  proof -
    obtain k where "unat p = 4096 * k" using page_aligned_multiple [OF al] by blast
    then show ?thesis unfolding unat_PGROUNDUP [OF assms] by (simp only: round_up_le)
  qed
  then show ?thesis by (auto simp: whole_pages_def word_le_nat_alt)
qed

lemma whole_pages_step:
  assumes "page_aligned p" "unat p + 4096 \<le> unat vend"
  shows "whole_pages p vend = insert p (whole_pages (p + PGSIZE) vend)" "p \<notin> whole_pages (p + PGSIZE) vend"
proof -
  have u: "unat (p + PGSIZE) = unat p + 4096"
    using assms(2) unat32_less [of vend] by (simp add: unat_word_ariths)
  have "unat p \<le> unat q \<longleftrightarrow> q = p \<or> unat p + 4096 \<le> unat q" if al: "page_aligned q" for q
  proof -
    obtain j k where "unat q = 4096 * k" "unat p = 4096 * j"
      using page_aligned_multiple [OF al] page_aligned_multiple [OF assms(1)] by blast
    then show ?thesis unfolding word_unat_eq_iff by (simp only: multiple_le_iff)
  qed
  then show "whole_pages p vend = insert p (whole_pages (p + PGSIZE) vend)"
    using assms by (auto simp: whole_pages_def word_le_nat_alt u)
  show "p \<notin> whole_pages (p + PGSIZE) vend"
    by (simp add: whole_pages_def word_le_nat_alt u)
qed

lemma whole_pages_Un:
  assumes "page_aligned m" "a \<le> m" "m \<le> e"
  shows "whole_pages m e \<union> whole_pages a m = whole_pages a e"
proof -
  have "m \<le> p \<or> unat p + 4096 \<le> unat m" if al: "page_aligned p" for p
  proof -
    obtain j k where "unat m = 4096 * k" "unat p = 4096 * j"
      using page_aligned_multiple [OF al] page_aligned_multiple [OF assms(1)] by blast
    then show ?thesis unfolding word_le_nat_alt using multiple_le_iff [of j k] by (metis linorder_linear multiple_le_iff)
  qed
  then show ?thesis using assms by (fastforce simp: whole_pages_def word_le_nat_alt)
qed

lemma whole_pages_ok:
  "p \<in> whole_pages vstart vend \<Longrightarrow> e \<le> vstart \<Longrightarrow> KERNBASE \<le> vstart \<Longrightarrow> vend \<le> P2V PHYSTOP \<Longrightarrow> page_ok e p"
  by (auto simp: whole_pages_def page_ok_def V2P_def P2V_def word_le_nat_alt word_less_nat_alt unat_sub_if')

lemma freerange_loop_spec:
  assumes "kmem_inv s ps" "page_aligned p" "kend s \<le> p" "KERNBASE \<le> p" "p \<le> P2V PHYSTOP" "vend \<le> P2V PHYSTOP"
    and "whole_pages p vend \<inter> set ps = {}"
  shows "\<exists>t qs. freerange_loop p vend s = Inr t \<and> kmem_inv t (qs @ ps) \<and> set qs = whole_pages p vend \<and>
    kend t = kend s"
  using assms
proof (induction p vend s arbitrary: ps rule: freerange_loop.induct)
  case (1 p vend s)
  have u: "unat (p + PGSIZE) = unat p + 4096"
    using "1.prems"(5) by (simp add: P2V_def word_le_nat_alt unat_word_ariths)
  show ?case
  proof (cases "p + PGSIZE \<le> vend")
    case False
    then have "whole_pages p vend = {}" by (auto simp: whole_pages_def word_le_nat_alt u)
    with False "1.prems"(1) show ?thesis
      by (intro exI [of _ s] exI [of _ "[]"]) (simp add: freerange_loop.simps)
  next
    case True
    then have le: "unat p + 4096 \<le> unat vend" by (simp add: word_le_nat_alt u)
    note st = whole_pages_step [OF "1.prems"(2) le]
    have ok: "page_ok (kend s) p" using whole_pages_ok [of p p vend] "1.prems" st by simp
    have np: "p \<notin> set ps" using "1.prems"(7) st by auto
    let ?t = "s\<lparr>mem := store32 (memset (mem s) p 1 PGSIZE) p (freelist s), freelist := p\<rparr>"
    have kf: "kfree p s = Inr ?t"
      by (rule kfree_quiet) (use ok "1.prems"(1) in \<open>simp_all add: kmem_inv_def\<close>)
    have "\<exists>t qs. freerange_loop (p + PGSIZE) vend ?t = Inr t \<and> kmem_inv t (qs @ p # ps) \<and>
        set qs = whole_pages (p + PGSIZE) vend \<and> kend t = kend ?t"
    proof (rule "1.IH" [OF True kf kfree_inv [OF "1.prems"(1) ok np]])
      show "page_aligned (p + PGSIZE)" using "1.prems"(2) u by (simp add: page_aligned_unat)
      show "kend ?t \<le> p + PGSIZE" "KERNBASE \<le> p + PGSIZE"
        using "1.prems"(3,4) u by (simp_all add: word_le_nat_alt)
      show "p + PGSIZE \<le> P2V PHYSTOP" using True "1.prems"(6) by simp
      show "whole_pages (p + PGSIZE) vend \<inter> set (p # ps) = {}" using "1.prems"(7) st by auto
    qed (rule "1.prems"(6))
    then obtain t qs where "freerange_loop (p + PGSIZE) vend ?t = Inr t" "kmem_inv t ((qs @ [p]) @ ps)"
      "set (qs @ [p]) = whole_pages p vend" "kend t = kend s"
      using st by auto
    moreover have "freerange_loop p vend s = freerange_loop (p + PGSIZE) vend ?t"
      using True kf by (subst freerange_loop.simps) simp
    ultimately show ?thesis by metis
  qed
qed

lemma freerange_spec:
  assumes "kmem_inv s ps" "kend s \<le> vstart" "KERNBASE \<le> vstart" "vstart \<le> P2V PHYSTOP" "vend \<le> P2V PHYSTOP"
    and "whole_pages vstart vend \<inter> set ps = {}"
  shows "\<exists>t qs. freerange vstart vend s = Inr t \<and> kmem_inv t (qs @ ps) \<and> set qs = whole_pages vstart vend \<and>
    kend t = kend s"
proof -
  have b: "unat vstart \<le> 4294963200" using assms(4) by (simp add: P2V_def word_le_nat_alt)
  have "unat vstart \<le> 2382364672" using assms(4) by (simp add: P2V_def word_le_nat_alt)
  then have "vstart \<le> PGROUNDUP vstart" "PGROUNDUP vstart \<le> P2V PHYSTOP"
    unfolding word_le_nat_alt unat_PGROUNDUP [OF b] by (simp_all add: P2V_def)
  then show ?thesis
    unfolding freerange_def whole_pages_PGROUNDUP [OF b, symmetric]
    using assms
    by (intro freerange_loop_spec) (auto simp: whole_pages_PGROUNDUP [OF b] page_aligned_PGROUNDUP)
qed

section \<open>Properties\<close>

definition boot_cpu :: cpu where
  "boot_cpu = \<lparr>cid = 0, ncli = 0, intena = False, eflags_if = False, cproc = None\<rparr>"

definition boot_mem :: "addr \<Rightarrow> kmem" where
  "boot_mem e = \<lparr>mem = (\<lambda>_. 0), kcpu = boot_cpu, kend = e,
     kmem_lock = \<lparr>locked = False, lname = [], lcpu = None\<rparr>, use_lock = True, freelist = 0\<rparr>"

lemma boot_mem_inv: "0 < e \<Longrightarrow> kmem_inv (boot_mem e) []"
  by (simp add: boot_mem_def kmem_inv_def kmem_quiet_def cpu_ok_def boot_cpu_def lock_free_def)

text \<open>
  C14: The allocator under any sequence of calls. A client that starts with the pages \<open>held\<close> while
  the pages \<open>ps\<close> are free, and that allocates and frees in any order, never meets a panic; at
  every point the pages it holds together with the pages on the free list are exactly the pages
  there were, each of them once. So no page is lost, given out twice, or free while in use.
\<close>

theorem kalloc_kfree_conserve:
  assumes "kmem_inv s ps" "\<forall>p \<in> set held. page_ok (kend s) p" "distinct (held @ ps)"
  shows "\<exists>held' t qs. page_run kalloc kfree ops held s = Inr (held', t) \<and> kmem_inv t qs \<and>
    mset (held' @ qs) = mset (held @ ps)"
  using ka.page_run_conserves assms by blast

theorem kalloc_kfree_conserve_witness:
  "\<exists>held' t qs. page_run kalloc kfree [Give 1, Take, Take, Give 0] [KERNBASE + 0x1000, KERNBASE + 0x3000]
      (boot_mem KERNBASE) = Inr (held', t) \<and> kmem_inv t qs \<and>
    mset (held' @ qs) = mset [KERNBASE + 0x1000, KERNBASE + 0x3000]"
proof -
  have "\<forall>p \<in> set [KERNBASE + 0x1000, KERNBASE + 0x3000]. page_ok (kend (boot_mem KERNBASE)) p"
    by (simp add: boot_mem_def page_ok_def page_aligned_def V2P_def)
  from kalloc_kfree_conserve [OF boot_mem_inv this, of "[Give 1, Take, Take, Give 0]"] show ?thesis
    by (simp del: page_run.simps)
qed

text \<open>
  C15: Start-up as \<^verbatim>\<open>main\<close> does it, \<^verbatim>\<open>kinit1(end, P2V(4MB))\<close> and then
  \<^verbatim>\<open>kinit2(P2V(4MB), P2V(PHYSTOP))\<close>, succeeds and leaves the allocator's invariant: the free list
  consists of every whole page from \<^verbatim>\<open>end\<close> to \<^verbatim>\<open>PHYSTOP\<close>, once each, and the lock is in use.
\<close>

theorem kinit_frees_memory:
  assumes "cpu_ok (kcpu s)" "freelist s = 0" "KERNBASE \<le> kend s" "kend s \<le> P2V 0x400000"
  shows "\<exists>t qs. bnd (kinit1 (kend s) (P2V 0x400000) s) (kinit2 (P2V 0x400000) (P2V PHYSTOP)) = Inr t \<and>
    kmem_inv t qs \<and> distinct qs \<and> set qs = whole_pages (kend s) (P2V PHYSTOP) \<and> use_lock t"
proof -
  let ?s = "s\<lparr>kmem_lock := initlock (kmem_lock s) ''kmem'', use_lock := False\<rparr>"
  have e: "0 < kend s" using assms(3) by (simp add: word_less_nat_alt word_le_nat_alt)
  have "kmem_inv ?s []"
    using assms e by (simp add: kmem_inv_def kmem_quiet_def lock_free_def initlock_def)
  moreover have b: "kend s \<le> P2V PHYSTOP" "P2V 0x400000 \<le> P2V PHYSTOP" "KERNBASE \<le> P2V 0x400000"
    using assms(4) by (simp_all add: P2V_def word_le_nat_alt)
  ultimately obtain t ps where t: "freerange (kend s) (P2V 0x400000) ?s = Inr t" "kmem_inv t ps"
      "set ps = whole_pages (kend s) (P2V 0x400000)" "kend t = kend s"
    using freerange_spec [of ?s "[]" "kend s" "P2V 0x400000"] assms(3) by auto
  have disj: "whole_pages (P2V 0x400000) (P2V PHYSTOP) \<inter> set ps = {}"
    unfolding t(3) by (auto simp: whole_pages_def word_le_nat_alt)
  obtain u qs where u: "freerange (P2V 0x400000) (P2V PHYSTOP) t = Inr u" "kmem_inv u (qs @ ps)"
      "set qs = whole_pages (P2V 0x400000) (P2V PHYSTOP)"
    using freerange_spec [OF t(2) _ b(3,2) order_refl disj] t(4) assms(4) by auto
  have "set (qs @ ps) = whole_pages (kend s) (P2V PHYSTOP)"
    unfolding set_append u(3) t(3)
    by (rule whole_pages_Un) (use assms(4) b in \<open>simp_all add: P2V_def page_aligned_def\<close>)
  moreover have "kmem_inv (u\<lparr>use_lock := True\<rparr>) (qs @ ps)"
    using u(2) by (simp add: kmem_inv_def kmem_quiet_def)
  moreover have "distinct (qs @ ps)" using u(2) by (rule kmem_inv_distinct)
  ultimately show ?thesis
    using t(1) u(1) by (intro exI [of _ "u\<lparr>use_lock := True\<rparr>"] exI [of _ "qs @ ps"]) (simp add: kinit1_def kinit2_def)
qed

theorem kinit_frees_memory_witness:
  "\<exists>t qs. bnd (kinit1 0x80117000 (P2V 0x400000) (boot_mem 0x80117000)) (kinit2 (P2V 0x400000) (P2V PHYSTOP)) = Inr t \<and>
    kmem_inv t qs \<and> distinct qs \<and> set qs = whole_pages 0x80117000 (P2V PHYSTOP) \<and> use_lock t"
  using kinit_frees_memory [of "boot_mem 0x80117000"]
  by (simp add: boot_mem_def boot_cpu_def cpu_ok_def P2V_def)

end
