(* ===== verification/Vm.thy ===== *)
theory Vm
  imports Kalloc
begin

text \<open>
  Page tables and user memory of \<^verbatim>\<open>vm.c\<close>, over byte-addressed kernel memory: page directories
  and page tables are the 32-bit words that the code reads and writes.
\<close>

section \<open>Virtual addresses and page table entries\<close>

definition PDX :: "addr \<Rightarrow> 32 word" where
  "PDX va = drop_bit 22 va AND 0x3FF"

definition PTX :: "addr \<Rightarrow> 32 word" where
  "PTX va = drop_bit 12 va AND 0x3FF"

definition PGADDR :: "32 word \<Rightarrow> 32 word \<Rightarrow> 32 word \<Rightarrow> addr" where
  "PGADDR d t off = push_bit 22 d OR push_bit 12 t OR off"

definition PTE_ADDR :: "32 word \<Rightarrow> 32 word" where
  "PTE_ADDR pte = pte AND NOT 0xFFF"

definition PTE_FLAGS :: "32 word \<Rightarrow> 32 word" where
  "PTE_FLAGS pte = pte AND 0xFFF"

abbreviation PTE_P :: "32 word" where "PTE_P \<equiv> 0x001"
abbreviation PTE_W :: "32 word" where "PTE_W \<equiv> 0x002"
abbreviation PTE_U :: "32 word" where "PTE_U \<equiv> 0x004"
abbreviation PTE_A :: "32 word" where "PTE_A \<equiv> 0x020"
abbreviation PTE_E :: "32 word" where "PTE_E \<equiv> 0x400"

section \<open>Walking and mapping\<close>

text \<open>The linker symbol \<^verbatim>\<open>data\<close> and the page-table register join the allocator's state.\<close>

record kvm = kmem +
  kdata :: addr
  cr3 :: "32 word"
  kpgdir :: addr

definition walkpgdir :: "addr \<Rightarrow> addr \<Rightarrow> bool \<Rightarrow> 'a kmem_scheme \<Rightarrow> (addr \<times> 'a kmem_scheme) res" where
  "walkpgdir pgd va alloc s =
     (let pde = pgd + 4 * PDX va in
      if load32 (mem s) pde AND PTE_P \<noteq> 0
      then let pgtab = P2V (PTE_ADDR (load32 (mem s) pde)) in Inr (pgtab + 4 * PTX va, s)
      else if \<not> alloc then Inr (0, s)
      else bnd (kalloc s) (\<lambda>(pgtab, s).
        if pgtab = 0 then Inr (0, s)
        else let s = s\<lparr>mem := memset (mem s) pgtab 0 PGSIZE\<rparr>;
                 s = s\<lparr>mem := store32 (mem s) pde (V2P pgtab OR PTE_P OR PTE_W OR PTE_U)\<rparr>
             in Inr (pgtab + 4 * PTX va, s)))"

text \<open>
  The loop of \<^verbatim>\<open>mappages\<close>. Its only exits are the tests of the body, and \<open>a\<close> steps by a page:
  if it ever came within a page of \<open>lst\<close> (\<^verbatim>\<open>last\<close>) without meeting it, it would never meet it.
\<close>

lemma step_towards: "\<not> b - a < PGSIZE \<Longrightarrow> unat (b - (a + PGSIZE)) < unat (b - a)" for a b :: addr
proof -
  assume "\<not> b - a < PGSIZE"
  then have "4096 \<le> unat (b - a)" by (simp add: word_less_nat_alt)
  moreover have "b - (a + PGSIZE) = (b - a) - PGSIZE" by simp
  ultimately show ?thesis by (simp only: unat_sub_if') simp
qed

function mappages_loop ::
    "addr \<Rightarrow> addr \<Rightarrow> addr \<Rightarrow> 32 word \<Rightarrow> 32 word \<Rightarrow> 'a kmem_scheme \<Rightarrow> (int \<times> 'a kmem_scheme) res" where
  "mappages_loop pgd a lst pa perm s =
     bnd (walkpgdir pgd a True s) (\<lambda>(pte, s).
       if pte = 0 then Inr (-1, s)
       else if load32 (mem s) pte AND (PTE_P OR PTE_E) \<noteq> 0
         then Inl (Panic ''p4Debug, remapping page'')
       else let s = s\<lparr>mem := store32 (mem s) pte
                  (if perm AND PTE_E \<noteq> 0 then pa OR perm OR PTE_E else pa OR perm OR PTE_P)\<rparr> in
         if a = lst then Inr (0, s)
         else if lst - a < PGSIZE then Inl Diverges
         else mappages_loop pgd (a + PGSIZE) lst (pa + PGSIZE) perm s)"
  by pat_completeness auto
termination
  by (relation "measure (\<lambda>(pgd, a, lst, pa, perm, s). unat (lst - a))")
    (simp_all add: step_towards)

declare mappages_loop.simps [simp del]

definition mappages ::
    "addr \<Rightarrow> addr \<Rightarrow> 32 word \<Rightarrow> 32 word \<Rightarrow> 32 word \<Rightarrow> 'a kmem_scheme \<Rightarrow> (int \<times> 'a kmem_scheme) res" where
  "mappages pgd va sz pa perm s =
     mappages_loop pgd (PGROUNDDOWN va) (PGROUNDDOWN (va + sz - 1)) pa perm s"

lemma upwards: "a < b \<Longrightarrow> 4294967296 - unat b < 4294967296 - unat a" for a b :: addr
  using unat32_less [of b] by (simp add: word_less_nat_alt)

section \<open>Shrinking and freeing an address space\<close>

function deallocuvm_loop :: "addr \<Rightarrow> addr \<Rightarrow> addr \<Rightarrow> 'a kmem_scheme \<Rightarrow> 'a kmem_scheme res" where
  "deallocuvm_loop pgd a oldsz s =
     (if \<not> a < oldsz then Inr s
      else bnd (walkpgdir pgd a False s) (\<lambda>(pte, s).
        bnd (if pte = 0 then Inr (PGADDR (PDX a + 1) 0 0 - PGSIZE, s)
             else if load32 (mem s) pte AND (PTE_P OR PTE_E) \<noteq> 0
             then let pa = PTE_ADDR (load32 (mem s) pte) in
               if pa = 0 then Inl (Panic ''kfree'')
               else bnd (kfree (P2V pa) s) (\<lambda>s. Inr (a, s\<lparr>mem := store32 (mem s) pte 0\<rparr>))
             else Inr (a, s))
        (\<lambda>(a', s). let a' = a' + PGSIZE in
           if a' \<le> a then Inl Diverges else deallocuvm_loop pgd a' oldsz s)))"
  by pat_completeness auto
termination
  by (relation "measure (\<lambda>(pgd, a, oldsz, s). 4294967296 - unat a)")
    (simp_all add: upwards)

declare deallocuvm_loop.simps [simp del]

definition deallocuvm ::
    "addr \<Rightarrow> 32 word \<Rightarrow> 32 word \<Rightarrow> 'a kmem_scheme \<Rightarrow> (32 word \<times> 'a kmem_scheme) res" where
  "deallocuvm pgd oldsz newsz s =
     (if newsz \<ge> oldsz then Inr (oldsz, s)
      else bnd (deallocuvm_loop pgd (PGROUNDUP newsz) oldsz s) (\<lambda>s. Inr (newsz, s)))"

function freevm_loop :: "addr \<Rightarrow> nat \<Rightarrow> 'a kmem_scheme \<Rightarrow> 'a kmem_scheme res" where
  "freevm_loop pgd i s =
     (if \<not> i < 1024 then Inr s
      else let e = load32 (mem s) (pgd + 4 * of_nat i) in
        bnd (if e AND (PTE_P OR PTE_E) \<noteq> 0 then kfree (P2V (PTE_ADDR e)) s else Inr s)
          (\<lambda>s. freevm_loop pgd (Suc i) s))"
  by pat_completeness auto
termination
  by (relation "measure (\<lambda>(pgd, i, s). 1024 - i)") auto

declare freevm_loop.simps [simp del]

definition freevm :: "addr \<Rightarrow> 'a kmem_scheme \<Rightarrow> 'a kmem_scheme res" where
  "freevm pgd s =
     (if pgd = 0 then Inl (Panic ''freevm: no pgdir'')
      else bnd (deallocuvm pgd KERNBASE 0 s) (\<lambda>(_, s).
           bnd (freevm_loop pgd 0 s) (\<lambda>s. kfree pgd s)))"

section \<open>The kernel's part of an address space\<close>

abbreviation EXTMEM :: "32 word" where "EXTMEM \<equiv> 0x100000"
abbreviation DEVSPACE :: "32 word" where "DEVSPACE \<equiv> 0xFE000000"
abbreviation KERNLINK :: addr where "KERNLINK \<equiv> KERNBASE + EXTMEM"

record kmap_entry =
  virt :: addr
  phys_start :: "32 word"
  phys_end :: "32 word"
  kperm :: "32 word"

definition kmap :: "addr \<Rightarrow> kmap_entry list" where
  "kmap data =
    [\<lparr>virt = KERNBASE, phys_start = 0,            phys_end = EXTMEM,   kperm = PTE_W\<rparr>,
     \<lparr>virt = KERNLINK, phys_start = V2P KERNLINK, phys_end = V2P data, kperm = 0\<rparr>,
     \<lparr>virt = data,     phys_start = V2P data,     phys_end = PHYSTOP,  kperm = PTE_W\<rparr>,
     \<lparr>virt = DEVSPACE, phys_start = DEVSPACE,     phys_end = 0,        kperm = PTE_W\<rparr>]"

fun setupkvm_loop :: "addr \<Rightarrow> kmap_entry list \<Rightarrow> 'a kvm_scheme \<Rightarrow> (addr \<times> 'a kvm_scheme) res" where
  "setupkvm_loop pgd [] s = Inr (pgd, s)"
| "setupkvm_loop pgd (k # ks) s =
     bnd (mappages pgd (virt k) (phys_end k - phys_start k) (phys_start k) (kperm k) s) (\<lambda>(r, s).
       if r < 0 then bnd (freevm pgd s) (\<lambda>s. Inr (0, s))
       else setupkvm_loop pgd ks s)"

definition setupkvm :: "'a kvm_scheme \<Rightarrow> (addr \<times> 'a kvm_scheme) res" where
  "setupkvm s =
     bnd (kalloc s) (\<lambda>(pgd, s).
       if pgd = 0 then Inr (0, s)
       else let s = s\<lparr>mem := memset (mem s) pgd 0 PGSIZE\<rparr> in
         if P2V PHYSTOP > DEVSPACE then Inl (Panic ''PHYSTOP too high'')
         else setupkvm_loop pgd (kmap (kdata s)) s)"

definition switchkvm :: "'a kvm_scheme \<Rightarrow> 'a kvm_scheme" where
  "switchkvm s = s\<lparr>cr3 := V2P (kpgdir s)\<rparr>"

definition kvmalloc :: "'a kvm_scheme \<Rightarrow> 'a kvm_scheme res" where
  "kvmalloc s = bnd (setupkvm s) (\<lambda>(pgd, s). Inr (switchkvm (s\<lparr>kpgdir := pgd\<rparr>)))"

section \<open>Growing and copying user memory\<close>

text \<open>
  The initial program is \<open>sz\<close> bytes at kernel address \<open>init\<close>. The result of \<^verbatim>\<open>kalloc\<close> is not
  tested by the code: a null page would be filled like any other.
\<close>

definition inituvm :: "addr \<Rightarrow> addr \<Rightarrow> 32 word \<Rightarrow> 'a kmem_scheme \<Rightarrow> 'a kmem_scheme res" where
  "inituvm pgd init sz s =
     (if sz \<ge> PGSIZE then Inl (Panic ''inituvm: more than a page'')
      else bnd (kalloc s) (\<lambda>(m, s).
        let s = s\<lparr>mem := memset (mem s) m 0 PGSIZE\<rparr> in
        bnd (mappages pgd 0 PGSIZE (V2P m) (PTE_W OR PTE_U) s) (\<lambda>(_, s).
          Inr (s\<lparr>mem := memmove (mem s) m init sz\<rparr>))))"

function allocuvm_loop ::
    "addr \<Rightarrow> addr \<Rightarrow> 32 word \<Rightarrow> 32 word \<Rightarrow> 'a kmem_scheme \<Rightarrow> (32 word \<times> 'a kmem_scheme) res" where
  "allocuvm_loop pgd a oldsz newsz s =
     (if \<not> a < newsz then Inr (newsz, s)
      else bnd (kalloc s) (\<lambda>(m, s).
        if m = 0 then bnd (deallocuvm pgd newsz oldsz s) (\<lambda>(_, s). Inr (0, s))
        else let s = s\<lparr>mem := memset (mem s) m 0 PGSIZE\<rparr> in
          bnd (mappages pgd a PGSIZE (V2P m) (PTE_W OR PTE_U) s) (\<lambda>(r, s).
            if r < 0
            then bnd (deallocuvm pgd newsz oldsz s) (\<lambda>(_, s). bnd (kfree m s) (\<lambda>s. Inr (0, s)))
            else let a' = a + PGSIZE in
              if a' \<le> a then Inl Diverges else allocuvm_loop pgd a' oldsz newsz s)))"
  by pat_completeness auto
termination
  by (relation "measure (\<lambda>(pgd, a, oldsz, newsz, s). 4294967296 - unat a)")
    (simp_all add: upwards)

declare allocuvm_loop.simps [simp del]

definition allocuvm ::
    "addr \<Rightarrow> 32 word \<Rightarrow> 32 word \<Rightarrow> 'a kmem_scheme \<Rightarrow> (32 word \<times> 'a kmem_scheme) res" where
  "allocuvm pgd oldsz newsz s =
     (if newsz \<ge> KERNBASE then Inr (0, s)
      else if newsz < oldsz then Inr (oldsz, s)
      else allocuvm_loop pgd (PGROUNDUP oldsz) oldsz newsz s)"

definition clearpteu :: "addr \<Rightarrow> addr \<Rightarrow> 'a kmem_scheme \<Rightarrow> 'a kmem_scheme res" where
  "clearpteu pgd uva s =
     bnd (walkpgdir pgd uva False s) (\<lambda>(pte, s).
       if pte = 0 then Inl (Panic ''clearpteu'')
       else Inr (s\<lparr>mem := store32 (mem s) pte (load32 (mem s) pte AND NOT PTE_U)\<rparr>))"

function copyuvm_loop :: "addr \<Rightarrow> addr \<Rightarrow> addr \<Rightarrow> 32 word \<Rightarrow> 'a kmem_scheme \<Rightarrow> (addr \<times> 'a kmem_scheme) res" where
  "copyuvm_loop pgd d i sz s =
     (if \<not> i < sz then Inr (d, s)
      else bnd (walkpgdir pgd i False s) (\<lambda>(pte, s).
        if pte = 0 then Inl (Panic ''p4Debug: inside copyuvm, pte should exist'')
        else if load32 (mem s) pte AND (PTE_P OR PTE_E) = 0
          then Inl (Panic ''p4Debug: inside copyuvm, page not present'')
        else let pa = PTE_ADDR (load32 (mem s) pte);
                 flags = PTE_FLAGS (load32 (mem s) pte) in
          bnd (kalloc s) (\<lambda>(m, s).
            if m = 0 then bnd (freevm d s) (\<lambda>s. Inr (0, s))
            else let s = s\<lparr>mem := memmove (mem s) m (P2V pa) PGSIZE\<rparr> in
              bnd (mappages d i PGSIZE (V2P m) flags s) (\<lambda>(r, s).
                if r < 0
                then bnd (kfree m s) (\<lambda>s. bnd (freevm d s) (\<lambda>s. Inr (0, s)))
                else let i' = i + PGSIZE in
                  if i' \<le> i then Inl Diverges else copyuvm_loop pgd d i' sz s))))"
  by pat_completeness auto
termination
  by (relation "measure (\<lambda>(pgd, d, i, sz, s). 4294967296 - unat i)")
    (simp_all add: upwards)

declare copyuvm_loop.simps [simp del]

definition copyuvm :: "addr \<Rightarrow> 32 word \<Rightarrow> 'a kvm_scheme \<Rightarrow> (addr \<times> 'a kvm_scheme) res" where
  "copyuvm pgd sz s =
     bnd (setupkvm s) (\<lambda>(d, s). if d = 0 then Inr (0, s) else copyuvm_loop pgd d 0 sz s)"

text \<open>The entry address is not tested before it is read: a missing page table is a null dereference.\<close>

definition uva2ka :: "addr \<Rightarrow> addr \<Rightarrow> 'a kmem_scheme \<Rightarrow> addr res" where
  "uva2ka pgd uva s =
     bnd (walkpgdir pgd uva False s) (\<lambda>(pte, s).
       if pte = 0 then Inl NullDeref
       else let e = load32 (mem s) pte in
         if (e AND PTE_P) OR (e AND PTE_E) = 0 then Inr 0
         else if e AND PTE_U = 0 then Inr 0
         else Inr (P2V (PTE_ADDR e)))"

function copyout :: "addr \<Rightarrow> addr \<Rightarrow> addr \<Rightarrow> 32 word \<Rightarrow> 'a kmem_scheme \<Rightarrow> (int \<times> 'a kmem_scheme) res" where
  "copyout pgd va buf len s =
     (if \<not> len > 0 then Inr (0, s)
      else let va0 = PGROUNDDOWN va in
        bnd (uva2ka pgd va0 s) (\<lambda>pa0.
          if pa0 = 0 then Inr (-1, s)
          else let n = PGSIZE - (va - va0);
                   n = (if n > len then len else n);
                   s = s\<lparr>mem := memmove (mem s) (pa0 + (va - va0)) buf n\<rparr>
               in copyout pgd (va0 + PGSIZE) (buf + n) (len - n) s))"
  by pat_completeness auto
termination
proof (relation "measure (\<lambda>(pgd, va, buf, len, s). unat len)", goal_cases)
  case (2 pgd va buf len s va0 pa0 n n' s')
  have "va - va0 < PGSIZE" using 2 by simp
  then have "0 < n" using 2 by (simp add: word_less_nat_alt unat_sub_if')
  with 2 have "0 < n'" "n' \<le> len" by auto
  then show ?case by (simp add: word_less_nat_alt word_le_nat_alt unat_sub)
qed simp

declare copyout.simps [simp del]

end
