(* ===== verification/Vm_Facts.thy ===== *)
theory Vm_Facts
  imports Vm
begin

text \<open>
  Lemmas about the page tables of \<^verbatim>\<open>vm.c\<close>: the bit layout of addresses and entries, the view
  of a page directory as a map from virtual pages to entries, and the effect of every page
  table routine on that view and on the free list.
\<close>

named_theorems pte_simps \<open>bit facts about page table entries\<close>

section \<open>Bits\<close>

lemma PTE_ADDR_PGROUNDDOWN: "PTE_ADDR x = PGROUNDDOWN x"
  by (simp add: PTE_ADDR_def PGROUNDDOWN_def)

lemma PTE_FLAGS_OFFSET: "PTE_FLAGS x = OFFSET x"
  by (simp add: PTE_FLAGS_def OFFSET_def)

lemma page_aligned_and: "page_aligned x \<longleftrightarrow> x AND 0xFFF = 0"
  using unat_OFFSET [of x] by (simp add: page_aligned_unat word_unat_eq_iff dvd_eq_mod_eq_0 OFFSET_def)

lemma bit32: "bit (x :: 32 word) n \<Longrightarrow> n < 32"
  using bit_imp_le_length by fastforce

lemma page_aligned_bit: "page_aligned x \<longleftrightarrow> (\<forall>n < 12. \<not> bit x n)"
  unfolding page_aligned_and mask12 by (auto simp: bit_eq_iff bit_simps dest: bit32)

lemma less_page_bit: "(f :: 32 word) < 0x1000 \<longleftrightarrow> (\<forall>n \<ge> 12. \<not> bit f n)"
proof -
  have "f < 0x1000 \<longleftrightarrow> f AND mask 12 = f"
    using less_mask_eq [of f 12] and_mask_less_size [of 12 f] by (auto simp: word_size)
  also have "\<dots> \<longleftrightarrow> (\<forall>n \<ge> 12. \<not> bit f n)"
    by (auto simp: bit_eq_iff bit_simps) (metis bit32 not_le)+
  finally show ?thesis .
qed

lemma PTE_ADDR_or [pte_simps]:
  assumes "page_aligned x" "f < 0x1000"
  shows "PTE_ADDR (x OR f) = x" "PTE_FLAGS (x OR f) = f"
  using assms unfolding PTE_ADDR_def PTE_FLAGS_def mask12 page_aligned_bit less_page_bit
  by (auto simp: bit_eq_iff bit_simps) (metis not_le)+

lemma unat_PDX: "unat (PDX va) = unat va div 4096 div 1024"
  and unat_PTX: "unat (PTX va) = unat va div 4096 mod 1024"
proof -
  have m: "(0x3FF :: 32 word) = mask 10" by (simp add: mask_eq_exp_minus_1)
  have u: "unat (drop_bit n va AND mask 10) = unat va div 2 ^ n mod 1024" for n
    unfolding take_bit_eq_mask [symmetric] unsigned_take_bit_eq unat_drop_bit_eq
    by (simp add: take_bit_eq_mod drop_bit_eq_div)
  have "unat va div 4194304 < 1024"
    using unat32_less [of va] by (simp add: div_less_iff_less_mult)
  then show "unat (PDX va) = unat va div 4096 div 1024"
    using u [of 22] by (simp add: PDX_def m flip: div_mult2_eq)
  show "unat (PTX va) = unat va div 4096 mod 1024"
    using u [of 12] by (simp add: PTX_def m)
qed

lemma PDX_less [simp]: "PDX va < 0x400"
proof -
  have "unat va div 4194304 < 1024"
    using unat32_less [of va] by (simp add: div_less_iff_less_mult)
  then show ?thesis by (simp add: word_less_nat_alt unat_PDX flip: div_mult2_eq)
qed

lemma PTX_less [simp]: "PTX va < 0x400"
  by (simp add: word_less_nat_alt unat_PTX)

lemma same_page_iff: "PDX a = PDX b \<and> PTX a = PTX b \<longleftrightarrow> PGROUNDDOWN a = PGROUNDDOWN b"
  unfolding word_unat_eq_iff unat_PDX unat_PTX unat_PGROUNDDOWN
  by (metis div_mult_mod_eq mult_cancel2 zero_neq_numeral)

lemma or_and_flags [pte_simps]:
  "page_aligned x \<Longrightarrow> g < 0x1000 \<Longrightarrow> (x OR f) AND g = f AND g"
  unfolding page_aligned_bit less_page_bit
  by (auto simp: bit_eq_iff bit_simps) (metis not_le)+

lemma P2V_V2P [simp]: "P2V (V2P a) = a" and V2P_P2V [simp]: "V2P (P2V a) = a"
  by (simp_all add: P2V_def V2P_def)

lemma page_aligned_plus: "page_aligned a \<Longrightarrow> page_aligned b \<Longrightarrow> page_aligned (a + b)"
proof -
  assume "page_aligned a" "page_aligned b"
  then have "4096 dvd (unat a + unat b)" by (simp add: page_aligned_unat)
  moreover have "4096 dvd (4294967296 :: nat)" by simp
  ultimately have "4096 dvd (unat a + unat b) mod 4294967296" by (rule dvd_mod)
  then show ?thesis by (simp add: page_aligned_unat unat_word_ariths)
qed

lemma page_aligned_V2P [simp]: "page_aligned p \<Longrightarrow> page_aligned (V2P p)"
  and page_aligned_P2V [simp]: "page_aligned q \<Longrightarrow> page_aligned (P2V q)"
proof -
  have b: "page_aligned KERNBASE" "page_aligned (- KERNBASE)" by (simp_all add: page_aligned_and)
  show "page_aligned p \<Longrightarrow> page_aligned (V2P p)"
    using page_aligned_plus [OF _ b(2), of p] by (simp add: V2P_def)
  show "page_aligned q \<Longrightarrow> page_aligned (P2V q)"
    using page_aligned_plus [OF _ b(1), of q] by (simp add: P2V_def)
qed

section \<open>A page directory as a map\<close>

text \<open>
  \<open>pte_at m pgd va\<close> is the entry that governs the page of \<open>va\<close>, 0 when its page table does not
  exist; \<open>pt_pages\<close> are the pages that hold the directory and its tables.
\<close>

definition present :: "mem \<Rightarrow> addr \<Rightarrow> 32 word \<Rightarrow> bool" where
  "present m pgd i \<longleftrightarrow> load32 m (pgd + 4 * i) AND PTE_P \<noteq> 0"

definition tab :: "mem \<Rightarrow> addr \<Rightarrow> 32 word \<Rightarrow> addr" where
  "tab m pgd i = P2V (PTE_ADDR (load32 m (pgd + 4 * i)))"

definition pte_addr :: "mem \<Rightarrow> addr \<Rightarrow> addr \<Rightarrow> addr" where
  "pte_addr m pgd va = tab m pgd (PDX va) + 4 * PTX va"

definition pte_at :: "mem \<Rightarrow> addr \<Rightarrow> addr \<Rightarrow> 32 word" where
  "pte_at m pgd va = (if present m pgd (PDX va) then load32 m (pte_addr m pgd va) else 0)"

definition pt_pages :: "mem \<Rightarrow> addr \<Rightarrow> addr set" where
  "pt_pages m pgd = insert pgd {tab m pgd i | i. i < 0x400 \<and> present m pgd i}"

definition pt_ok :: "addr \<Rightarrow> mem \<Rightarrow> addr \<Rightarrow> bool" where
  "pt_ok e m pgd \<longleftrightarrow> 0 < e \<and> page_ok e pgd \<and>
     (\<forall>i < 0x400. present m pgd i \<longrightarrow> page_ok e (tab m pgd i) \<and> tab m pgd i \<noteq> pgd) \<and>
     (\<forall>i < 0x400. \<forall>j < 0x400. present m pgd i \<longrightarrow> present m pgd j \<longrightarrow>
        tab m pgd i = tab m pgd j \<longrightarrow> i = j)"

lemma pt_ok_aligned: "pt_ok e m pgd \<Longrightarrow> page_aligned pgd"
  by (simp add: pt_ok_def page_ok_def)

lemma tab_aligned [simp]: "page_aligned (tab m pgd i)"
  by (simp add: tab_def PTE_ADDR_PGROUNDDOWN)

lemma pt_pages_aligned: "pt_ok e m pgd \<Longrightarrow> p \<in> pt_pages m pgd \<Longrightarrow> page_aligned p"
  by (auto simp: pt_pages_def pt_ok_aligned)

lemma pt_pages_ok: "pt_ok e m pgd \<Longrightarrow> p \<in> pt_pages m pgd \<Longrightarrow> page_ok e p"
  by (auto simp: pt_pages_def pt_ok_def)

lemma pgd_in_pt_pages [simp]: "pgd \<in> pt_pages m pgd"
  by (simp add: pt_pages_def)

lemma tab_in_pt_pages: "present m pgd i \<Longrightarrow> i < 0x400 \<Longrightarrow> tab m pgd i \<in> pt_pages m pgd"
  by (auto simp: pt_pages_def)

lemma pte_addr_page: "PGROUNDDOWN (pte_addr m pgd va) = tab m pgd (PDX va)"
  and pte_addr_aligned: "word_aligned (pte_addr m pgd va)"
  using page_word_aligned [OF tab_aligned PTX_less] by (simp_all add: pte_addr_def)

lemma pde_page: "page_aligned pgd \<Longrightarrow> i < 0x400 \<Longrightarrow> PGROUNDDOWN (pgd + 4 * i) = pgd"
  and pde_aligned: "page_aligned pgd \<Longrightarrow> i < 0x400 \<Longrightarrow> word_aligned (pgd + 4 * i)"
  using page_word_aligned [of pgd i] by simp_all

lemma pte_addr_nonnull:
  assumes "pt_ok e m pgd" "present m pgd (PDX va)"
  shows "pte_addr m pgd va \<noteq> 0"
proof
  assume z: "pte_addr m pgd va = 0"
  have "page_ok e (tab m pgd (PDX va))" "0 < e" using assms by (simp_all add: pt_ok_def)
  moreover have "tab m pgd (PDX va) = 0"
    using pte_addr_page [of m pgd va] z by (simp add: PGROUNDDOWN_def)
  ultimately show False by (simp add: page_ok_def)
qed

text \<open>Writes elsewhere do not change the map.\<close>

lemma pt_frame:
  assumes "page_aligned pgd" "\<And>a. PGROUNDDOWN a \<in> pt_pages m pgd \<Longrightarrow> m' a = m a"
  shows "i < 0x400 \<Longrightarrow> load32 m' (pgd + 4 * i) = load32 m (pgd + 4 * i)"
    and "i < 0x400 \<Longrightarrow> present m' pgd i = present m pgd i"
    and "i < 0x400 \<Longrightarrow> tab m' pgd i = tab m pgd i"
    and "pte_addr m' pgd va = pte_addr m pgd va"
    and "pte_at m' pgd va = pte_at m pgd va"
    and "pt_pages m' pgd = pt_pages m pgd"
    and "pt_ok e m' pgd = pt_ok e m pgd"
proof -
  have l: "load32 m' (pgd + 4 * j) = load32 m (pgd + 4 * j)" if "j < 0x400" for j
    by (rule load32_page_cong) (use assms that in \<open>simp_all add: pde_page pde_aligned\<close>)
  have p: "present m' pgd j = present m pgd j" and t: "tab m' pgd j = tab m pgd j" if "j < 0x400" for j
    using l that by (simp_all add: present_def tab_def)
  have q: "pte_addr m' pgd va = pte_addr m pgd va" for va
    by (simp add: pte_addr_def t)
  have "load32 m' (pte_addr m pgd va) = load32 m (pte_addr m pgd va)" if "present m pgd (PDX va)"
    by (rule load32_page_cong)
      (use that assms(2) in \<open>simp_all add: pte_addr_page pte_addr_aligned tab_in_pt_pages\<close>)
  then show "pte_at m' pgd va = pte_at m pgd va"
    by (simp add: pte_at_def p q)
  show "i < 0x400 \<Longrightarrow> load32 m' (pgd + 4 * i) = load32 m (pgd + 4 * i)"
    "i < 0x400 \<Longrightarrow> present m' pgd i = present m pgd i" "i < 0x400 \<Longrightarrow> tab m' pgd i = tab m pgd i"
    "pte_addr m' pgd va = pte_addr m pgd va"
    by (simp_all add: l p t q)
  show "pt_pages m' pgd = pt_pages m pgd" unfolding pt_pages_def by (metis p t)
  show "pt_ok e m' pgd = pt_ok e m pgd" using p t by (simp add: pt_ok_def)
qed

text \<open>A store into an entry changes the map at that page only.\<close>

lemma store_pte_outside:
  assumes "PGROUNDDOWN a \<noteq> tab m pgd (PDX va)"
  shows "store32 m (pte_addr m pgd va) v a = m a"
proof -
  have "a \<noteq> pte_addr m pgd va + i" if "i < 4" for i
    using PGROUNDDOWN_word [OF pte_addr_aligned that] pte_addr_page assms by metis
  from this [of 0] this [of 1] this [of 2] this [of 3] show ?thesis
    by (simp add: store32_def)
qed

lemma store_pte:
  assumes ok: "pt_ok e m pgd" and pr: "present m pgd (PDX va)"
    and m'_def: "m' = store32 m (pte_addr m pgd va) v"
  shows "i < 0x400 \<Longrightarrow> present m' pgd i = present m pgd i"
    and "i < 0x400 \<Longrightarrow> tab m' pgd i = tab m pgd i"
    and "pte_addr m' pgd vb = pte_addr m pgd vb"
    and "pte_at m' pgd vb = (if PGROUNDDOWN vb = PGROUNDDOWN va then v else pte_at m pgd vb)"
    and "pt_pages m' pgd = pt_pages m pgd"
    and "pt_ok e m' pgd"
proof -
  have al: "page_aligned pgd" using ok by (rule pt_ok_aligned)
  have tne: "tab m pgd (PDX va) \<noteq> pgd" using ok pr by (simp add: pt_ok_def)
  have l: "load32 m' (pgd + 4 * j) = load32 m (pgd + 4 * j)" if "j < 0x400" for j
    unfolding m'_def
    by (rule load32_page_cong, rule store_pte_outside)
      (use that tne al in \<open>simp_all add: pde_page pde_aligned\<close>)
  have p: "present m' pgd j = present m pgd j" and t: "tab m' pgd j = tab m pgd j" if "j < 0x400" for j
    using l that by (simp_all add: present_def tab_def)
  have q: "pte_addr m' pgd vb = pte_addr m pgd vb" for vb
    by (simp add: pte_addr_def t)
  have ld: "load32 m' (pte_addr m pgd vb) =
      (if PGROUNDDOWN vb = PGROUNDDOWN va then v else load32 m (pte_addr m pgd vb))"
    if prb: "present m pgd (PDX vb)"
  proof (cases "PGROUNDDOWN vb = PGROUNDDOWN va")
    case True
    then have "pte_addr m pgd vb = pte_addr m pgd va"
      by (metis same_page_iff pte_addr_def)
    with True show ?thesis by (simp add: m'_def)
  next
    case False
    have "pte_addr m pgd vb \<noteq> pte_addr m pgd va"
    proof
      assume eq: "pte_addr m pgd vb = pte_addr m pgd va"
      then have "tab m pgd (PDX vb) = tab m pgd (PDX va)" by (metis pte_addr_page)
      with ok pr prb have "PDX vb = PDX va" by (simp add: pt_ok_def)
      moreover have "PTX vb = PTX va"
      proof -
        have "4 * PTX vb = 4 * PTX va" using eq calculation by (simp add: pte_addr_def)
        moreover have "unat (4 * PTX x) = 4 * unat (PTX x)" for x
          using PTX_less [of x] by (simp add: word_less_nat_alt unat_word_ariths)
        ultimately show ?thesis by (metis mult_cancel1 word_unat_eq_iff zero_neq_numeral)
      qed
      ultimately show False using False same_page_iff by blast
    qed
    with False show ?thesis
      by (simp add: m'_def load32_store32_other pte_addr_aligned)
  qed
  show "i < 0x400 \<Longrightarrow> present m' pgd i = present m pgd i" "i < 0x400 \<Longrightarrow> tab m' pgd i = tab m pgd i"
    "pte_addr m' pgd vb = pte_addr m pgd vb"
    by (simp_all add: p t q)
  have "PGROUNDDOWN vb = PGROUNDDOWN va \<Longrightarrow> present m pgd (PDX vb)"
    using pr by (metis same_page_iff)
  then show "pte_at m' pgd vb = (if PGROUNDDOWN vb = PGROUNDDOWN va then v else pte_at m pgd vb)"
    using ld by (auto simp: pte_at_def p q)
  show "pt_pages m' pgd = pt_pages m pgd" unfolding pt_pages_def by (metis p t)
  show "pt_ok e m' pgd" using ok by (simp add: pt_ok_def p t)
qed

text \<open>A new, zeroed page table adds no mapping.\<close>

lemma load32_zero: "(\<And>i. i < 4 \<Longrightarrow> m (a + i) = 0) \<Longrightarrow> load32 m a = 0"
proof -
  assume z: "\<And>i. i < 4 \<Longrightarrow> m (a + i) = 0"
  show ?thesis using z [of 0] z [of 1] z [of 2] z [of 3] by (simp add: load32_def)
qed

lemma store32_pde_outside:
  assumes "page_aligned pgd" "i < 0x400" "PGROUNDDOWN a \<noteq> pgd"
  shows "store32 m (pgd + 4 * i) v a = m a"
proof -
  have "a \<noteq> pgd + 4 * i + j" if "j < 4" for j
    using PGROUNDDOWN_word [OF pde_aligned [OF assms(1,2)] that] pde_page [OF assms(1,2)] assms(3) by metis
  from this [of 0] this [of 1] this [of 2] this [of 3] show ?thesis
    by (simp add: store32_def)
qed

lemma pde_inj: "i < 0x400 \<Longrightarrow> j < 0x400 \<Longrightarrow> pgd + 4 * i = pgd + 4 * j \<longleftrightarrow> i = j"
  for i j pgd :: "32 word"
proof -
  assume "i < 0x400" "j < 0x400"
  then have "unat (4 * i) = 4 * unat i" "unat (4 * j) = 4 * unat j"
    by (simp_all add: word_less_nat_alt unat_word_ariths)
  then show ?thesis by (metis add_left_cancel mult_cancel1 word_unat_eq_iff zero_neq_numeral)
qed

lemma new_table:
  assumes ok: "pt_ok e m pgd" and abs: "\<not> present m pgd k" and k: "k < 0x400"
    and p: "page_ok e p" "p \<notin> pt_pages m pgd"
    and m': "m' = store32 (memset m p 0 PGSIZE) (pgd + 4 * k) (V2P p OR 7)"
  shows "present m' pgd k" "tab m' pgd k = p" "pte_at m' pgd va = pte_at m pgd va"
    "pt_pages m' pgd = insert p (pt_pages m pgd)" "pt_ok e m' pgd"
    "PGROUNDDOWN a \<noteq> p \<Longrightarrow> PGROUNDDOWN a \<noteq> pgd \<Longrightarrow> m' a = m a"
proof -
  have al: "page_aligned pgd" and alp: "page_aligned p"
    using ok p by (simp_all add: pt_ok_aligned page_ok_def)
  have pp: "p \<noteq> pgd" using p(2) by auto
  have out: "m' a = m a" if "PGROUNDDOWN a \<noteq> p" "PGROUNDDOWN a \<noteq> pgd" for a
    using that by (simp add: m' store32_pde_outside al k memset_page alp)
  have pde: "load32 m' (pgd + 4 * j) = (if j = k then V2P p OR 7 else load32 m (pgd + 4 * j))"
    if j: "j < 0x400" for j
  proof (cases "j = k")
    case True
    then show ?thesis by (simp add: m')
  next
    case False
    have "load32 m' (pgd + 4 * j) = load32 (memset m p 0 PGSIZE) (pgd + 4 * j)"
      unfolding m' using False j k pde_inj al by (simp add: load32_store32_other pde_aligned)
    also have "\<dots> = load32 m (pgd + 4 * j)"
      by (rule load32_page_cong) (use al j alp pp in \<open>auto simp: memset_page pde_page pde_aligned\<close>)
    finally show ?thesis using False by simp
  qed
  have fl: "(V2P p OR 7) AND PTE_P \<noteq> 0" "P2V (PTE_ADDR (V2P p OR 7)) = p"
    using alp by (simp_all add: pte_simps)
  show pk: "present m' pgd k" and tk: "tab m' pgd k = p"
    using pde [OF k] fl by (simp_all add: present_def tab_def)
  have pj: "present m' pgd j = (j = k \<or> present m pgd j)" if "j < 0x400" for j
    using pde [OF that] fl by (auto simp: present_def)
  have tj: "tab m' pgd j = tab m pgd j" if "j < 0x400" "j \<noteq> k" for j
    using pde [OF that(1)] that(2) by (simp add: tab_def)
  show pts: "pt_pages m' pgd = insert p (pt_pages m pgd)"
  proof -
    have "{tab m' pgd i |i. i < 0x400 \<and> present m' pgd i} =
        insert p {tab m pgd i |i. i < 0x400 \<and> present m pgd i}"
    proof (intro set_eqI iffI)
      fix x assume "x \<in> {tab m' pgd i |i. i < 0x400 \<and> present m' pgd i}"
      then obtain i where "i < 0x400" "present m' pgd i" "x = tab m' pgd i" by blast
      then show "x \<in> insert p {tab m pgd i |i. i < 0x400 \<and> present m pgd i}"
        using tk tj pj by (cases "i = k") auto
    next
      fix x assume "x \<in> insert p {tab m pgd i |i. i < 0x400 \<and> present m pgd i}"
      then consider "x = p" | i where "i < 0x400" "present m pgd i" "x = tab m pgd i" by blast
      then show "x \<in> {tab m' pgd i |i. i < 0x400 \<and> present m' pgd i}"
      proof cases
        case 1
        then show ?thesis using pk tk k by blast
      next
        case (2 i)
        then have "i \<noteq> k" using abs by auto
        with 2 tj [of i] pj [of i] have "i < 0x400 \<and> present m' pgd i \<and> x = tab m' pgd i" by simp
        then show ?thesis by blast
      qed
    qed
    then show ?thesis by (auto simp: pt_pages_def)
  qed
  have tin: "tab m pgd j \<noteq> p" if "j < 0x400" "present m pgd j" for j
    using p(2) that by (auto simp: pt_pages_def)
  show "pt_ok e m' pgd"
    unfolding pt_ok_def
  proof (intro conjI allI impI)
    fix i :: "32 word" assume i: "i < 0x400" "present m' pgd i"
    show "page_ok e (tab m' pgd i)" "tab m' pgd i \<noteq> pgd"
      using i ok p(1) pp tk tj [OF i(1)] pj [OF i(1)] by (cases "i = k"; simp add: pt_ok_def)+
    fix j :: "32 word" assume j: "j < 0x400" "present m' pgd j" "tab m' pgd i = tab m' pgd j"
    have ne: "tab m' pgd l \<noteq> p" if "l \<noteq> k" "l < 0x400" "present m' pgd l" for l
      using that tj [of l] pj [of l] tin [of l] by simp
    have "i = k \<longleftrightarrow> j = k" using i j tk ne by metis
    then show "i = j"
      using i j ok tj [of i] tj [of j] pj [of i] pj [of j] by (cases "i = k") (auto simp: pt_ok_def)
  qed (use ok in \<open>simp_all add: pt_ok_def\<close>)
  show "pte_at m' pgd va = pte_at m pgd va"
  proof (cases "PDX va = k")
    case True
    have "load32 m' (p + 4 * PTX va) = 0"
    proof (rule load32_zero)
      fix i :: "32 word" assume "i < 4"
      then have "PGROUNDDOWN (p + 4 * PTX va + i) = p"
        using page_word_aligned [OF alp PTX_less] PGROUNDDOWN_word by metis
      then show "m' (p + 4 * PTX va + i) = 0"
        using pp by (simp add: m' store32_pde_outside al k memset_page alp)
    qed
    with True tk pk abs show ?thesis by (simp add: pte_at_def pte_addr_def)
  next
    case False
    have "load32 m' (pte_addr m pgd va) = load32 m (pte_addr m pgd va)" if "present m pgd (PDX va)"
    proof (rule load32_page_cong)
      fix b assume "PGROUNDDOWN b = PGROUNDDOWN (pte_addr m pgd va)"
      then have b: "PGROUNDDOWN b = tab m pgd (PDX va)" by (simp add: pte_addr_page)
      have "tab m pgd (PDX va) \<noteq> pgd" using ok that by (simp add: pt_ok_def)
      then show "m' b = m b" using out [of b] b tin [OF PDX_less that] by simp
    qed (rule pte_addr_aligned)
    with False show ?thesis using pj tj by (simp add: pte_at_def pte_addr_def)
  qed
  show "PGROUNDDOWN a \<noteq> p \<Longrightarrow> PGROUNDDOWN a \<noteq> pgd \<Longrightarrow> m' a = m a" by (rule out)
qed

section \<open>Walking\<close>

text \<open>
  The invariant between calls: the free list is in order, the page tables are in order, and no
  page is both free and part of the page tables.
\<close>

definition vm_inv :: "'a kmem_scheme \<Rightarrow> addr \<Rightarrow> addr list \<Rightarrow> bool" where
  "vm_inv s pgd ps \<longleftrightarrow>
     kmem_inv s ps \<and> pt_ok (kend s) (mem s) pgd \<and> pt_pages (mem s) pgd \<inter> set ps = {}"

lemma vm_inv_pgd: "vm_inv s pgd ps \<Longrightarrow> pgd \<notin> set ps"
  by (metis IntI emptyE pgd_in_pt_pages vm_inv_def)

text \<open>
  \<open>grows pgd s ps t qs\<close>: between \<open>s\<close> and \<open>t\<close> only page tables of \<open>pgd\<close> were written, and the pages
  that left the free list became page tables.
\<close>

definition grows :: "addr \<Rightarrow> 'a kmem_scheme \<Rightarrow> addr list \<Rightarrow> 'a kmem_scheme \<Rightarrow> addr list \<Rightarrow> bool" where
  "grows pgd s ps t qs \<longleftrightarrow>
     vm_inv t pgd qs \<and> t = s\<lparr>mem := mem t, freelist := freelist t\<rparr> \<and>
     (\<exists>new. ps = new @ qs \<and> pt_pages (mem t) pgd = set new \<union> pt_pages (mem s) pgd) \<and>
     (\<forall>a. PGROUNDDOWN a \<notin> pt_pages (mem t) pgd \<longrightarrow> mem t a = mem s a)"

lemma grows_refl: "vm_inv s pgd ps \<Longrightarrow> grows pgd s ps s ps"
  by (simp add: grows_def)

lemma grows_trans: "grows pgd s ps t qs \<Longrightarrow> grows pgd t qs u rs \<Longrightarrow> grows pgd s ps u rs"
proof -
  assume a: "grows pgd s ps t qs" and b: "grows pgd t qs u rs"
  obtain n1 where n1: "ps = n1 @ qs" "pt_pages (mem t) pgd = set n1 \<union> pt_pages (mem s) pgd"
    using a by (auto simp: grows_def)
  obtain n2 where n2: "qs = n2 @ rs" "pt_pages (mem u) pgd = set n2 \<union> pt_pages (mem t) pgd"
    using b by (auto simp: grows_def)
  have "u = s\<lparr>mem := mem u, freelist := freelist u\<rparr>"
  proof -
    have tu: "u = t\<lparr>mem := mem u, freelist := freelist u\<rparr>"
      and st: "t = s\<lparr>mem := mem t, freelist := freelist t\<rparr>"
      using a b unfolding grows_def by blast+
    have "t\<lparr>mem := x, freelist := y\<rparr> = s\<lparr>mem := x, freelist := y\<rparr>" for x y
      using arg_cong [OF st, of "\<lambda>r. r\<lparr>mem := x, freelist := y\<rparr>"] by simp
    with tu show ?thesis by (rule trans)
  qed
  moreover have "ps = (n1 @ n2) @ rs"
    "pt_pages (mem u) pgd = set (n1 @ n2) \<union> pt_pages (mem s) pgd"
    using n1 n2 by auto
  moreover have "mem u a = mem s a" if "PGROUNDDOWN a \<notin> pt_pages (mem u) pgd" for a
    using that a b n2(2) by (auto simp: grows_def)
  ultimately show ?thesis using b unfolding grows_def by blast
qed

lemma walk_present:
  "present (mem s) pgd (PDX va) \<Longrightarrow> walkpgdir pgd va alloc s = Inr (pte_addr (mem s) pgd va, s)"
  by (simp add: walkpgdir_def present_def pte_addr_def tab_def Let_def)

lemma walk_absent:
  "\<not> present (mem s) pgd (PDX va) \<Longrightarrow> walkpgdir pgd va False s = Inr (0, s)"
  by (simp add: walkpgdir_def present_def Let_def)

lemma walk_noalloc:
  "walkpgdir pgd va False s = Inr (if present (mem s) pgd (PDX va) then pte_addr (mem s) pgd va else 0, s)"
  by (simp add: walk_present walk_absent)

lemma walk_alloc:
  assumes inv: "vm_inv s pgd ps"
  obtains (full) "ps = []" "walkpgdir pgd va True s = Inr (0, s)" "\<not> present (mem s) pgd (PDX va)"
  | (entry) t qs where "walkpgdir pgd va True s = Inr (pte_addr (mem t) pgd va, t)"
      "present (mem t) pgd (PDX va)" "grows pgd s ps t qs" "pte_at (mem t) pgd = pte_at (mem s) pgd"
proof (cases "present (mem s) pgd (PDX va)")
  case True
  with walk_present [OF True, of True] entry grows_refl [OF inv] show ?thesis by blast
next
  case False
  from inv have kinv: "kmem_inv s ps" by (simp add: vm_inv_def)
  from kinv show ?thesis
  proof (cases rule: kalloc_cases)
    case empty
    with False full show ?thesis by (simp add: walkpgdir_def present_def Let_def)
  next
    case (page p qs)
    let ?m = "store32 (memset (mem s) p 0 PGSIZE) (pgd + 4 * PDX va) (V2P p OR 7)"
    let ?t = "s\<lparr>freelist := load32 (mem s) p, mem := ?m\<rparr>"
    have pp: "p \<notin> pt_pages (mem s) pgd" using inv page by (auto simp: vm_inv_def)
    have pt: "pt_ok (kend s) (mem s) pgd" using inv by (simp add: vm_inv_def)
    note nt = new_table [OF pt False PDX_less page(3) pp refl]
    have w: "walkpgdir pgd va True s = Inr (p + 4 * PTX va, ?t)"
      using False page by (simp add: walkpgdir_def present_def Let_def)
    have pa: "p + 4 * PTX va = pte_addr ?m pgd va" using nt(2) by (simp add: pte_addr_def)
    have "load32 ?m q = load32 (mem s) q" if "q \<in> set qs" for q
    proof (rule load32_page_cong)
      have al: "page_aligned q" using that kinv page by (auto simp: kmem_inv_def page_ok_def)
      then show "word_aligned q" by (rule page_word)
      fix b assume "PGROUNDDOWN b = PGROUNDDOWN q"
      then have b: "PGROUNDDOWN b = q" using al by (simp add: PGROUNDDOWN_aligned)
      have "q \<noteq> p" "q \<noteq> pgd"
        using that page vm_inv_pgd [OF inv] by auto
      with b show "?m b = mem s b" by (intro nt(6)) auto
    qed
    then have "chain ?m (load32 (mem s) p) qs"
      using page(6) by (simp add: kmem_inv_def chain_cong [of qs ?m "mem s"])
    then have "kmem_inv ?t qs" using page(6) by (simp add: kmem_inv_def kmem_quiet_def)
    moreover have "insert p (pt_pages (mem s) pgd) \<inter> set qs = {}"
      using inv page by (auto simp: vm_inv_def)
    ultimately have "vm_inv ?t pgd qs" using nt(4,5) by (simp add: vm_inv_def)
    moreover have "ps = [p] @ qs" "pt_pages (mem ?t) pgd = set [p] \<union> pt_pages (mem s) pgd"
      using page nt(4) by simp_all
    moreover have "mem ?t a = mem s a" if "PGROUNDDOWN a \<notin> pt_pages (mem ?t) pgd" for a
    proof -
      from that nt(4) have "PGROUNDDOWN a \<notin> insert p (pt_pages (mem s) pgd)" by simp
      then have "PGROUNDDOWN a \<noteq> p" "PGROUNDDOWN a \<noteq> pgd" by auto
      then show ?thesis by (simp add: nt(6))
    qed
    moreover have "?t = s\<lparr>mem := mem ?t, freelist := freelist ?t\<rparr>" by simp
    ultimately have "grows pgd s ps ?t qs" unfolding grows_def by blast
    with w pa nt(1,3) entry [of ?t qs] show ?thesis by (simp add: fun_eq_iff)
  qed
qed

section \<open>Mapping\<close>

text \<open>The entry that \<^verbatim>\<open>mappages\<close> writes, and the map after \<open>n\<close> pages were mapped.\<close>

definition mk_pte :: "32 word \<Rightarrow> 32 word \<Rightarrow> 32 word" where
  "mk_pte pa perm = (if perm AND PTE_E \<noteq> 0 then pa OR perm OR PTE_E else pa OR perm OR PTE_P)"

fun map_range :: "nat \<Rightarrow> addr \<Rightarrow> 32 word \<Rightarrow> 32 word \<Rightarrow> (addr \<Rightarrow> 32 word) \<Rightarrow> (addr \<Rightarrow> 32 word)" where
  "map_range 0 a pa perm f = f"
| "map_range (Suc n) a pa perm f =
     map_range n (a + PGSIZE) (pa + PGSIZE) perm
       (\<lambda>vb. if PGROUNDDOWN vb = a then mk_pte pa perm else f vb)"

definition unmapped :: "32 word \<Rightarrow> bool" where
  "unmapped e \<longleftrightarrow> e AND (PTE_P OR PTE_E) = 0"

lemma grows_store:
  assumes g: "vm_inv t pgd qs" and pr: "present (mem t) pgd (PDX va)"
  shows "grows pgd t qs (t\<lparr>mem := store32 (mem t) (pte_addr (mem t) pgd va) v\<rparr>) qs"
    and "pte_at (store32 (mem t) (pte_addr (mem t) pgd va) v) pgd =
      (\<lambda>vb. if PGROUNDDOWN vb = PGROUNDDOWN va then v else pte_at (mem t) pgd vb)"
proof -
  let ?m = "store32 (mem t) (pte_addr (mem t) pgd va) v"
  have pt: "pt_ok (kend t) (mem t) pgd" using g by (simp add: vm_inv_def)
  note st = store_pte [OF pt pr refl]
  have tin: "tab (mem t) pgd (PDX va) \<in> pt_pages (mem t) pgd" by (rule tab_in_pt_pages [OF pr PDX_less])
  have "load32 ?m q = load32 (mem t) q" if "q \<in> set qs" for q
  proof (rule load32_page_cong)
    have al: "page_aligned q" using that g by (auto simp: vm_inv_def kmem_inv_def page_ok_def)
    then show "word_aligned q" by (rule page_word)
    fix b assume "PGROUNDDOWN b = PGROUNDDOWN q"
    then have "PGROUNDDOWN b = q" using al by (simp add: PGROUNDDOWN_aligned)
    moreover have "q \<noteq> tab (mem t) pgd (PDX va)" using that g tin by (auto simp: vm_inv_def)
    ultimately show "?m b = mem t b" by (intro store_pte_outside) auto
  qed
  then have "chain ?m (freelist t) qs"
    using g by (simp add: vm_inv_def kmem_inv_def chain_cong [of qs ?m "mem t"])
  then have "kmem_inv (t\<lparr>mem := ?m\<rparr>) qs"
    using g by (simp add: vm_inv_def kmem_inv_def kmem_quiet_def)
  then have "vm_inv (t\<lparr>mem := ?m\<rparr>) pgd qs"
    using st(5,6) g by (simp add: vm_inv_def)
  moreover have "?m a = mem t a" if "PGROUNDDOWN a \<notin> pt_pages (mem t) pgd" for a
    using that tin by (intro store_pte_outside) auto
  ultimately show "grows pgd t qs (t\<lparr>mem := ?m\<rparr>) qs"
    using st(5) by (simp add: grows_def)
  show "pte_at ?m pgd = (\<lambda>vb. if PGROUNDDOWN vb = PGROUNDDOWN va then v else pte_at (mem t) pgd vb)"
    using st(4) by (simp add: fun_eq_iff)
qed

lemma aligned_diff_less: "page_aligned a \<Longrightarrow> page_aligned b \<Longrightarrow> b - a < PGSIZE \<Longrightarrow> a = b"
  using in_page_iff [of a b] by (simp add: PGROUNDDOWN_aligned)

lemma aligned_diff_Suc:
  assumes "page_aligned a" "page_aligned b" "a \<noteq> b"
  shows "unat (b - a) div 4096 = Suc (unat (b - (a + PGSIZE)) div 4096)"
proof -
  have "\<not> b - a < PGSIZE" using assms aligned_diff_less by blast
  then have "4096 \<le> unat (b - a)" by (simp add: word_less_nat_alt)
  moreover have "b - (a + PGSIZE) = (b - a) - PGSIZE" by simp
  ultimately have "unat (b - (a + PGSIZE)) = unat (b - a) - 4096"
    by (simp only: unat_sub_if') simp
  with \<open>4096 \<le> unat (b - a)\<close> show ?thesis by (simp add: le_div_geq)
qed

lemma page_multiple_aligned: "page_aligned (PGSIZE * of_nat i)"
proof -
  have "4096 dvd (4096 * i) mod (4294967296 :: nat)" by (rule dvd_mod) simp_all
  moreover have "unat (PGSIZE * of_nat i) = (4096 * i) mod 4294967296"
    by (simp add: unat_word_ariths unat_of_nat mod_mult_right_eq)
  ultimately show ?thesis by (simp add: page_aligned_unat)
qed

lemma page_step_aligned [simp]: "page_aligned a \<Longrightarrow> page_aligned (a + PGSIZE)"
  using page_aligned_plus [of a PGSIZE] by (simp add: page_aligned_and)

lemma page_multiple_nonzero: "0 < i \<Longrightarrow> i < 1048576 \<Longrightarrow> PGSIZE * of_nat i \<noteq> 0"
proof -
  assume "0 < i" "i < 1048576"
  then have "unat (PGSIZE * of_nat i) = 4096 * i"
    by (simp add: unat_word_ariths unat_of_nat)
  with \<open>0 < i\<close> show ?thesis by (auto simp: word_unat_eq_iff)
qed

text \<open>One round of the loop.\<close>

lemma mappages_round:
  assumes inv: "vm_inv s pgd ps" and um: "unmapped (pte_at (mem s) pgd a)"
  obtains (full) "ps = []" "mappages_loop pgd a lst pa perm s = Inr (-1, s)"
  | (mapped) u qs where "grows pgd s ps u qs"
      "pte_at (mem u) pgd =
        (\<lambda>vb. if PGROUNDDOWN vb = PGROUNDDOWN a then mk_pte pa perm else pte_at (mem s) pgd vb)"
      "mappages_loop pgd a lst pa perm s =
        (if a = lst then Inr (0, u) else if lst - a < PGSIZE then Inl Diverges
         else mappages_loop pgd (a + PGSIZE) lst (pa + PGSIZE) perm u)"
  using inv
proof (cases rule: walk_alloc [where va = a])
  case full
  then show ?thesis using that(1) by (simp add: mappages_loop.simps)
next
  case (entry t qs)
  let ?u = "t\<lparr>mem := store32 (mem t) (pte_addr (mem t) pgd a) (mk_pte pa perm)\<rparr>"
  have invt: "vm_inv t pgd qs" using entry by (simp add: grows_def)
  have "pte_addr (mem t) pgd a \<noteq> 0"
    using invt entry pte_addr_nonnull by (auto simp: vm_inv_def)
  moreover have "load32 (mem t) (pte_addr (mem t) pgd a) AND (PTE_P OR PTE_E) = 0"
    using fun_cong [OF entry(4), of a] entry(2) um by (simp add: pte_at_def [of "mem t"] unmapped_def)
  ultimately have "mappages_loop pgd a lst pa perm s =
        (if a = lst then Inr (0, ?u) else if lst - a < PGSIZE then Inl Diverges
         else mappages_loop pgd (a + PGSIZE) lst (pa + PGSIZE) perm ?u)"
    using entry by (subst mappages_loop.simps) (simp add: mk_pte_def)
  moreover have "grows pgd s ps ?u qs"
    using grows_store(1) [OF invt entry(2)] entry(3) grows_trans by blast
  moreover have "pte_at (mem ?u) pgd =
      (\<lambda>vb. if PGROUNDDOWN vb = PGROUNDDOWN a then mk_pte pa perm else pte_at (mem s) pgd vb)"
    using grows_store(2) [OF invt entry(2), of "mk_pte pa perm"] unfolding entry(4) by simp
  ultimately show ?thesis using that(2) [of ?u qs] by blast
qed

lemma mappages_loop_spec:
  assumes "vm_inv s pgd ps" "page_aligned a" "page_aligned lst"
    and "unat (lst - a) div 4096 = n"
    and "\<And>i. i \<le> n \<Longrightarrow> unmapped (pte_at (mem s) pgd (a + PGSIZE * of_nat i))"
  shows "\<exists>k t qs. mappages_loop pgd a lst pa perm s = Inr (if k = Suc n then 0 else -1, t) \<and>
    k \<le> Suc n \<and> (k \<le> n \<longrightarrow> qs = []) \<and> grows pgd s ps t qs \<and>
    pte_at (mem t) pgd = map_range k a pa perm (pte_at (mem s) pgd)"
  using assms
proof (induction n arbitrary: s ps a pa)
  case 0
  have al: "a = lst"
    using aligned_diff_Suc [OF "0.prems"(2,3)] "0.prems"(4) by (cases "a = lst") auto
  have um: "unmapped (pte_at (mem s) pgd a)" using "0.prems"(5) [of 0] by simp
  from "0.prems"(1) um show ?case
  proof (cases rule: mappages_round [where lst = lst and pa = pa and perm = perm])
    case full
    then show ?thesis
      using grows_refl [OF "0.prems"(1)] by (intro exI [of _ 0] exI [of _ s] exI [of _ ps]) auto
  next
    case (mapped u qs)
    then show ?thesis
      using al "0.prems"(2)
      by (intro exI [of _ 1] exI [of _ u] exI [of _ qs]) (simp add: PGROUNDDOWN_aligned)
  qed
next
  case (Suc n)
  have ne: "a \<noteq> lst" using Suc.prems(4) by auto
  have far: "\<not> lst - a < PGSIZE" using aligned_diff_less Suc.prems(2,3) ne by blast
  have n: "unat (lst - (a + PGSIZE)) div 4096 = n"
    using aligned_diff_Suc [OF Suc.prems(2,3) ne] Suc.prems(4) by simp
  have small: "Suc n < 1048576"
    using Suc.prems(4) unat32_less [of "lst - a"] by (simp add: div_less_iff_less_mult flip: Suc.prems(4))
  have um: "unmapped (pte_at (mem s) pgd a)" using Suc.prems(5) [of 0] by simp
  from Suc.prems(1) um show ?case
  proof (cases rule: mappages_round [where lst = lst and pa = pa and perm = perm])
    case full
    then show ?thesis
      using grows_refl [OF Suc.prems(1)] by (intro exI [of _ 0] exI [of _ s] exI [of _ ps]) auto
  next
    case (mapped u qs)
    have inv: "vm_inv u pgd qs" using mapped by (simp add: grows_def)
    have "unmapped (pte_at (mem u) pgd (a + PGSIZE + PGSIZE * of_nat i))" if "i \<le> n" for i
    proof -
      have eq: "a + PGSIZE + PGSIZE * of_nat i = a + PGSIZE * of_nat (Suc i)"
        by (simp add: algebra_simps)
      have "PGROUNDDOWN (a + PGSIZE * of_nat (Suc i)) = a + PGSIZE * of_nat (Suc i)"
        by (intro PGROUNDDOWN_aligned page_aligned_plus Suc.prems(2) page_multiple_aligned)
      moreover have "PGSIZE * of_nat (Suc i) \<noteq> 0"
        by (rule page_multiple_nonzero) (use that small in auto)
      ultimately have "PGROUNDDOWN (a + PGSIZE * of_nat (Suc i)) \<noteq> PGROUNDDOWN a"
        using Suc.prems(2) by (simp add: PGROUNDDOWN_aligned)
      then show ?thesis
        unfolding eq mapped(2) using Suc.prems(5) [of "Suc i"] that by simp
    qed
    from Suc.IH [OF inv page_step_aligned [OF Suc.prems(2)] Suc.prems(3) n this, of "pa + PGSIZE"]
    obtain k t rs where
      "mappages_loop pgd (a + PGSIZE) lst (pa + PGSIZE) perm u = Inr (if k = Suc n then 0 else -1, t)"
      "k \<le> Suc n" "k \<le> n \<longrightarrow> rs = []" "grows pgd u qs t rs"
      "pte_at (mem t) pgd = map_range k (a + PGSIZE) (pa + PGSIZE) perm (pte_at (mem u) pgd)"
      by blast
    then show ?thesis
      using mapped ne far grows_trans [OF mapped(1)] Suc.prems(2)
      by (intro exI [of _ "Suc k"] exI [of _ t] exI [of _ rs]) (simp add: PGROUNDDOWN_aligned)
  qed
qed

end
