(* ===== verification/Uvm.thy ===== *)
theory Uvm
  imports Vm_Facts
begin

text \<open>
  User memory: the address space of a process as a set of page frames, and what the routines
  that grow, shrink and copy it do to the frames and to the free list.
\<close>

section \<open>Frames\<close>

definition frame :: "mem \<Rightarrow> addr \<Rightarrow> addr \<Rightarrow> addr" where
  "frame m pgd va = P2V (PTE_ADDR (pte_at m pgd va))"

abbreviation mapped :: "mem \<Rightarrow> addr \<Rightarrow> addr \<Rightarrow> bool" where
  "mapped m pgd va \<equiv> \<not> unmapped (pte_at m pgd va)"

text \<open>
  Every mapped user page has a frame of its own, which is neither free nor a page table.
\<close>

definition frames_ok :: "addr \<Rightarrow> mem \<Rightarrow> addr \<Rightarrow> addr set \<Rightarrow> bool" where
  "frames_ok e m pgd F \<longleftrightarrow>
     (\<forall>va < KERNBASE. mapped m pgd va \<longrightarrow>
        page_ok e (frame m pgd va) \<and> frame m pgd va \<notin> pt_pages m pgd \<and> frame m pgd va \<notin> F) \<and>
     (\<forall>va < KERNBASE. \<forall>vb < KERNBASE. mapped m pgd va \<longrightarrow> mapped m pgd vb \<longrightarrow>
        frame m pgd va = frame m pgd vb \<longrightarrow> PGROUNDDOWN va = PGROUNDDOWN vb)"

definition uvm_inv :: "'a kmem_scheme \<Rightarrow> addr \<Rightarrow> addr list \<Rightarrow> bool" where
  "uvm_inv s pgd ps \<longleftrightarrow>
     vm_inv s pgd ps \<and> KERNBASE < kend s \<and> frames_ok (kend s) (mem s) pgd (set ps)"

lemma pte_at_page: "PGROUNDDOWN va = PGROUNDDOWN vb \<Longrightarrow> pte_at m pgd va = pte_at m pgd vb"
  by (metis pte_at_def pte_addr_def same_page_iff)

lemma frame_aligned [simp]: "page_aligned (frame m pgd va)"
  by (simp add: frame_def PTE_ADDR_PGROUNDDOWN)

lemma mapped_present: "mapped m pgd va \<Longrightarrow> present m pgd (PDX va)"
  by (auto simp: pte_at_def unmapped_def split: if_splits)

section \<open>Freeing a page\<close>

text \<open>The effect of \<^verbatim>\<open>kfree\<close> on the memory of an address space it does not touch.\<close>

lemma kfree_vm:
  assumes inv: "vm_inv s pgd ps" and f: "page_ok (kend s) f" "f \<notin> set ps" "f \<notin> pt_pages (mem s) pgd"
  obtains t where "kfree f s = Inr t" "vm_inv t pgd (f # ps)" "t = s\<lparr>mem := mem t, freelist := f\<rparr>"
    "\<And>a. PGROUNDDOWN a \<noteq> f \<Longrightarrow> mem t a = mem s a"
    "pte_at (mem t) pgd = pte_at (mem s) pgd" "pt_pages (mem t) pgd = pt_pages (mem s) pgd"
    "\<And>va. present (mem t) pgd (PDX va) = present (mem s) pgd (PDX va)"
    "\<And>va. pte_addr (mem t) pgd va = pte_addr (mem s) pgd va"
proof -
  let ?m = "store32 (memset (mem s) f 1 PGSIZE) f (freelist s)"
  let ?t = "s\<lparr>mem := ?m, freelist := f\<rparr>"
  have kinv: "kmem_inv s ps" and pt: "pt_ok (kend s) (mem s) pgd"
    using inv by (simp_all add: vm_inv_def)
  have al: "page_aligned f" "page_aligned pgd" using f pt by (simp_all add: page_ok_def pt_ok_aligned)
  have same: "?m a = mem s a" if "PGROUNDDOWN a \<noteq> f" for a
    using that al by (simp add: kfree_mem_outside)
  note fr = pt_frame [OF al(2), of "mem s" ?m]
  have fr': "?m a = mem s a" if "PGROUNDDOWN a \<in> pt_pages (mem s) pgd" for a
    using same [of a] f(3) that by blast
  have "kfree f s = Inr ?t"
    using kinv f(1) by (simp add: kfree_quiet kmem_inv_def)
  moreover have "vm_inv ?t pgd (f # ps)"
    using kfree_inv [OF kinv f(1,2)] fr(6) [OF fr'] fr(7) [OF fr'] pt inv f(3) by (simp add: vm_inv_def)
  ultimately show ?thesis
    using that [of ?t] same fr(2) [OF fr' PDX_less] fr(4,5,6) [OF fr'] by (simp add: fun_eq_iff)
qed

lemma frames_ok_cong:
  assumes "pt_pages m' pgd = pt_pages m pgd" "frames_ok e m pgd F"
    and "\<And>va. pte_at m' pgd va = 0 \<or> pte_at m' pgd va = pte_at m pgd va"
    and "\<And>va. va < KERNBASE \<Longrightarrow> mapped m' pgd va \<Longrightarrow> frame m pgd va \<notin> F'"
  shows "frames_ok e m' pgd F'"
proof -
  have eq: "mapped m pgd va \<and> frame m' pgd va = frame m pgd va" if "mapped m' pgd va" for va
    using assms(3) [of va] that by (auto simp: frame_def unmapped_def)
  then show ?thesis
    using assms(1,2,4) unfolding frames_ok_def by (metis (no_types, lifting))
qed

lemma free_user_page:
  assumes inv: "uvm_inv s pgd ps" and va: "va < KERNBASE" "mapped (mem s) pgd va"
  obtains t where
    "kfree (frame (mem s) pgd va) s = Inr t"
    "uvm_inv (t\<lparr>mem := store32 (mem t) (pte_addr (mem s) pgd va) 0\<rparr>) pgd (frame (mem s) pgd va # ps)"
    "pte_at (store32 (mem t) (pte_addr (mem s) pgd va) 0) pgd =
      (\<lambda>vb. if PGROUNDDOWN vb = PGROUNDDOWN va then 0 else pte_at (mem s) pgd vb)"
    "pt_pages (store32 (mem t) (pte_addr (mem s) pgd va) 0) pgd = pt_pages (mem s) pgd"
    "\<And>a. PGROUNDDOWN a \<noteq> frame (mem s) pgd va \<Longrightarrow> PGROUNDDOWN a \<notin> pt_pages (mem s) pgd \<Longrightarrow>
      store32 (mem t) (pte_addr (mem s) pgd va) 0 a = mem s a"
    "t = s\<lparr>mem := mem t, freelist := freelist t\<rparr>"
proof -
  let ?f = "frame (mem s) pgd va"
  have vinv: "vm_inv s pgd ps" and fok: "frames_ok (kend s) (mem s) pgd (set ps)"
    using inv by (simp_all add: uvm_inv_def)
  have f: "page_ok (kend s) ?f" "?f \<notin> set ps" "?f \<notin> pt_pages (mem s) pgd"
    using fok va by (auto simp: frames_ok_def)
  have pr: "present (mem s) pgd (PDX va)" using va(2) by (rule mapped_present)
  from vinv f obtain t where t: "kfree ?f s = Inr t" "vm_inv t pgd (?f # ps)"
    "t = s\<lparr>mem := mem t, freelist := ?f\<rparr>" "\<And>a. PGROUNDDOWN a \<noteq> ?f \<Longrightarrow> mem t a = mem s a"
    "pte_at (mem t) pgd = pte_at (mem s) pgd" "pt_pages (mem t) pgd = pt_pages (mem s) pgd"
    "\<And>va. present (mem t) pgd (PDX va) = present (mem s) pgd (PDX va)"
    "\<And>va. pte_addr (mem t) pgd va = pte_addr (mem s) pgd va"
    by (rule kfree_vm) blast
  let ?u = "t\<lparr>mem := store32 (mem t) (pte_addr (mem s) pgd va) 0\<rparr>"
  have prt: "present (mem t) pgd (PDX va)" using pr t(7) by simp
  note g = grows_store [OF t(2) prt, of 0, unfolded t(8)]
  let ?m = "store32 (mem t) (pte_addr (mem s) pgd va) 0"
  have k: "kend t = kend s" using t(3) by (metis kmem.select_convs(3) kmem.surjective kmem.update_convs(1,6))
  have pte: "pte_at ?m pgd = (\<lambda>vb. if PGROUNDDOWN vb = PGROUNDDOWN va then 0 else pte_at (mem s) pgd vb)"
    using g(2) unfolding t(5) by simp
  have pts: "pt_pages ?m pgd = pt_pages (mem s) pgd"
    using store_pte(5) [of "kend t" "mem t" pgd va _ 0] t(2,6,8) prt by (simp add: vm_inv_def)
  have vu: "vm_inv ?u pgd (?f # ps)" using g(1) by (simp add: grows_def)
  have "frames_ok (kend s) ?m pgd (set (?f # ps))"
  proof (rule frames_ok_cong [OF pts fok])
    show "pte_at ?m pgd vb = 0 \<or> pte_at ?m pgd vb = pte_at (mem s) pgd vb" for vb
      by (simp add: pte)
    show "frame (mem s) pgd vb \<notin> set (?f # ps)" if "vb < KERNBASE" "mapped ?m pgd vb" for vb
    proof -
      have "PGROUNDDOWN vb \<noteq> PGROUNDDOWN va" "mapped (mem s) pgd vb"
        using that(2) by (auto simp: pte unmapped_def split: if_splits)
      then show ?thesis using fok va that(1) unfolding frames_ok_def by (metis insert_iff list.simps(15))
    qed
  qed
  with vu k inv have inv': "uvm_inv ?u pgd (?f # ps)" by (simp add: uvm_inv_def)
  have out: "?m a = mem s a" if "PGROUNDDOWN a \<noteq> ?f" "PGROUNDDOWN a \<notin> pt_pages (mem s) pgd" for a
    using g(1) that t(4) [of a] pts by (simp add: grows_def)
  have st: "t = s\<lparr>mem := mem t, freelist := freelist t\<rparr>"
    using t(3) by (metis kmem.select_convs(6) kmem.surjective kmem.update_convs(1,6))
  show ?thesis
    using that [of t] t(1) inv' pte pts out st by simp
qed

section \<open>Shrinking\<close>

text \<open>
  \<open>shrinks pgd P s ps t fs\<close>: between \<open>s\<close> and \<open>t\<close> exactly the mapped pages that satisfy \<open>P\<close> were
  unmapped, and their frames \<open>fs\<close> were put on the free list.
\<close>

definition shrinks :: "addr \<Rightarrow> (addr \<Rightarrow> bool) \<Rightarrow> 'a kmem_scheme \<Rightarrow> addr list \<Rightarrow> 'a kmem_scheme \<Rightarrow> addr list \<Rightarrow> bool" where
  "shrinks pgd P s ps t fs \<longleftrightarrow>
     uvm_inv t pgd (fs @ ps) \<and> t = s\<lparr>mem := mem t, freelist := freelist t\<rparr> \<and>
     pt_pages (mem t) pgd = pt_pages (mem s) pgd \<and>
     (\<forall>vb. pte_at (mem t) pgd vb =
        (if mapped (mem s) pgd vb \<and> P (PGROUNDDOWN vb) then 0 else pte_at (mem s) pgd vb)) \<and>
     set fs = frame (mem s) pgd ` {vb. mapped (mem s) pgd vb \<and> P (PGROUNDDOWN vb)} \<and>
     (\<forall>a. PGROUNDDOWN a \<notin> pt_pages (mem s) pgd \<longrightarrow> PGROUNDDOWN a \<notin> set fs \<longrightarrow> mem t a = mem s a)"

lemma shrinksD:
  assumes "shrinks pgd P s ps t fs"
  shows "uvm_inv t pgd (fs @ ps)" "t = s\<lparr>mem := mem t, freelist := freelist t\<rparr>"
    "pt_pages (mem t) pgd = pt_pages (mem s) pgd"
    "pte_at (mem t) pgd vb =
      (if mapped (mem s) pgd vb \<and> P (PGROUNDDOWN vb) then 0 else pte_at (mem s) pgd vb)"
    "set fs = frame (mem s) pgd ` {vb. mapped (mem s) pgd vb \<and> P (PGROUNDDOWN vb)}"
    "PGROUNDDOWN a \<notin> pt_pages (mem s) pgd \<Longrightarrow> PGROUNDDOWN a \<notin> set fs \<Longrightarrow> mem t a = mem s a"
  using assms unfolding shrinks_def by blast+

lemma shrinks_none:
  "uvm_inv s pgd ps \<Longrightarrow> (\<And>vb. P (PGROUNDDOWN vb) \<Longrightarrow> unmapped (pte_at (mem s) pgd vb)) \<Longrightarrow>
   shrinks pgd P s ps s []"
  by (auto simp: shrinks_def)

lemma shrinks_cong:
  assumes "shrinks pgd P s ps t fs"
    and "\<And>vb. mapped (mem s) pgd vb \<Longrightarrow> P (PGROUNDDOWN vb) = Q (PGROUNDDOWN vb)"
  shows "shrinks pgd Q s ps t fs"
proof -
  have "(mapped (mem s) pgd vb \<and> P (PGROUNDDOWN vb)) = (mapped (mem s) pgd vb \<and> Q (PGROUNDDOWN vb))" for vb
    using assms(2) by blast
  with assms(1) show ?thesis by (simp add: shrinks_def)
qed

lemma same_but_mem_trans:
  assumes "t = s\<lparr>mem := mem t, freelist := freelist t\<rparr>" "u = t\<lparr>mem := mem u, freelist := freelist u\<rparr>"
  shows "u = s\<lparr>mem := mem u, freelist := freelist u\<rparr>"
proof -
  have "t\<lparr>mem := x, freelist := y\<rparr> = s\<lparr>mem := x, freelist := y\<rparr>" for x y
    using arg_cong [OF assms(1), of "\<lambda>r. r\<lparr>mem := x, freelist := y\<rparr>"] by simp
  with assms(2) show ?thesis by (rule trans)
qed

lemma shrinks_trans:
  assumes 1: "shrinks pgd P s ps t fs" and 2: "shrinks pgd Q t (fs @ ps) u gs"
  shows "shrinks pgd (\<lambda>v. P v \<or> Q v) s ps u (gs @ fs)"
proof -
  note d1 = shrinksD [OF 1] and d2 = shrinksD [OF 2]
  have mt: "mapped (mem t) pgd vb \<longleftrightarrow> mapped (mem s) pgd vb \<and> \<not> P (PGROUNDDOWN vb)" for vb
    by (simp add: d1(4) unmapped_def)
  have ft: "frame (mem t) pgd vb = frame (mem s) pgd vb" if "mapped (mem t) pgd vb" for vb
  proof -
    have "\<not> P (PGROUNDDOWN vb)" using that mt [of vb] by blast
    then show ?thesis using d1(4) [of vb] by (simp add: frame_def)
  qed
  have gs: "set gs = frame (mem s) pgd ` {vb. mapped (mem t) pgd vb \<and> Q (PGROUNDDOWN vb)}"
    unfolding d2(5) by (rule image_cong) (simp_all add: ft)
  have "{vb. mapped (mem s) pgd vb \<and> (P (PGROUNDDOWN vb) \<or> Q (PGROUNDDOWN vb))} =
      {vb. mapped (mem t) pgd vb \<and> Q (PGROUNDDOWN vb)} \<union> {vb. mapped (mem s) pgd vb \<and> P (PGROUNDDOWN vb)}"
    by (auto simp: mt)
  then have "set (gs @ fs) =
      frame (mem s) pgd ` {vb. mapped (mem s) pgd vb \<and> (P (PGROUNDDOWN vb) \<or> Q (PGROUNDDOWN vb))}"
    unfolding set_append gs d1(5) by (simp only: image_Un)
  moreover have "pte_at (mem u) pgd vb = (if mapped (mem s) pgd vb \<and> (P (PGROUNDDOWN vb) \<or> Q (PGROUNDDOWN vb))
      then 0 else pte_at (mem s) pgd vb)" for vb
    using d2(4) [of vb] d1(4) [of vb] mt [of vb] by simp
  moreover have "u = s\<lparr>mem := mem u, freelist := freelist u\<rparr>"
    by (rule same_but_mem_trans [OF d1(2) d2(2)])
  moreover have "uvm_inv u pgd ((gs @ fs) @ ps)" "pt_pages (mem u) pgd = pt_pages (mem s) pgd"
    using d2(1,3) d1(3) by simp_all
  moreover have "mem u a = mem s a" if "PGROUNDDOWN a \<notin> pt_pages (mem s) pgd" "PGROUNDDOWN a \<notin> set (gs @ fs)" for a
    using d1(3) d1(6) [of a] d2(6) [of a] that by simp
  ultimately show ?thesis unfolding shrinks_def by blast
qed

lemma shrinks_one:
  assumes inv: "uvm_inv s pgd ps" and va: "va < KERNBASE" "mapped (mem s) pgd va"
  obtains t where "kfree (frame (mem s) pgd va) s = Inr t"
    "shrinks pgd (\<lambda>v. v = PGROUNDDOWN va) s ps
       (t\<lparr>mem := store32 (mem t) (pte_addr (mem s) pgd va) 0\<rparr>) [frame (mem s) pgd va]"
proof -
  have *: "pte_at (mem s) pgd vb = pte_at (mem s) pgd va" if "PGROUNDDOWN vb = PGROUNDDOWN va" for vb
    using that by (rule pte_at_page)
  from inv va obtain t where
    t: "kfree (frame (mem s) pgd va) s = Inr t"
    "uvm_inv (t\<lparr>mem := store32 (mem t) (pte_addr (mem s) pgd va) 0\<rparr>) pgd (frame (mem s) pgd va # ps)"
    "pte_at (store32 (mem t) (pte_addr (mem s) pgd va) 0) pgd =
      (\<lambda>vb. if PGROUNDDOWN vb = PGROUNDDOWN va then 0 else pte_at (mem s) pgd vb)"
    "pt_pages (store32 (mem t) (pte_addr (mem s) pgd va) 0) pgd = pt_pages (mem s) pgd"
    "\<And>a. PGROUNDDOWN a \<noteq> frame (mem s) pgd va \<Longrightarrow> PGROUNDDOWN a \<notin> pt_pages (mem s) pgd \<Longrightarrow>
      store32 (mem t) (pte_addr (mem s) pgd va) 0 a = mem s a"
    "t = s\<lparr>mem := mem t, freelist := freelist t\<rparr>"
    by (rule free_user_page) blast
  have "t\<lparr>mem := x\<rparr> = s\<lparr>mem := x, freelist := freelist t\<rparr>" for x
    using arg_cong [OF t(6), of "\<lambda>r. r\<lparr>mem := x\<rparr>"] by simp
  moreover have "frame (mem s) pgd ` {vb. mapped (mem s) pgd vb \<and> PGROUNDDOWN vb = PGROUNDDOWN va} =
      {frame (mem s) pgd va}"
  proof -
    have "frame (mem s) pgd vb = frame (mem s) pgd va" if "PGROUNDDOWN vb = PGROUNDDOWN va" for vb
      using * [OF that] by (simp add: frame_def)
    then show ?thesis using va by blast
  qed
  moreover have "(if PGROUNDDOWN vb = PGROUNDDOWN va then 0 else pte_at (mem s) pgd vb) =
      (if mapped (mem s) pgd vb \<and> PGROUNDDOWN vb = PGROUNDDOWN va then 0 else pte_at (mem s) pgd vb)" for vb
    using * [of vb] va(2) by (cases "PGROUNDDOWN vb = PGROUNDDOWN va") simp_all
  ultimately have "shrinks pgd (\<lambda>v. v = PGROUNDDOWN va) s ps
       (t\<lparr>mem := store32 (mem t) (pte_addr (mem s) pgd va) 0\<rparr>) [frame (mem s) pgd va]"
    using t(2-5) unfolding shrinks_def by simp
  with t(1) that show ?thesis by blast
qed

text \<open>The jump of \<^verbatim>\<open>deallocuvm\<close> over a missing page table.\<close>

lemma next_pde:
  assumes "a < KERNBASE"
  shows "unat (PGADDR (PDX a + 1) 0 0) = (unat a div 4194304 + 1) * 4194304"
proof -
  have "unat a < 2147483648" using assms by (simp add: word_less_nat_alt)
  then have "unat (PDX a + 1) = unat a div 4194304 + 1" "unat a div 4194304 < 512"
    by (simp_all add: unat_word_ariths unat_PDX)
  moreover have "unat (push_bit 22 x) = unat x * 4194304 mod 4294967296" for x :: addr
    by (simp add: push_bit_eq_mult unat_word_ariths)
  ultimately show ?thesis by (simp only: PGADDR_def or.right_neutral push_bit_of_0) simp
qed

lemma before_next_pde:
  assumes "a < KERNBASE" "a \<le> vb" "vb < PGADDR (PDX a + 1) 0 0"
  shows "PDX vb = PDX a"
proof -
  let ?k = "unat a div 4194304"
  have "?k \<le> unat vb div 4194304" using assms(2) by (simp add: word_le_nat_alt div_le_mono)
  moreover have "unat vb div 4194304 < ?k + 1"
    using assms(3) unfolding word_less_nat_alt next_pde [OF assms(1)] by (simp only: div_less_iff_less_mult zero_less_numeral)
  ultimately show ?thesis by (simp add: word_unat_eq_iff unat_PDX div_mult2_eq [symmetric])
qed

lemma PGROUNDDOWN_mono: "a \<le> b \<Longrightarrow> PGROUNDDOWN a \<le> PGROUNDDOWN b"
  by (simp add: word_le_nat_alt page_simps div_le_mono)

lemma PGROUNDDOWN_le: "PGROUNDDOWN a \<le> a"
  by (simp add: word_le_nat_alt page_simps)

lemma aligned_less_step:
  assumes "page_aligned a" "page_aligned b" "a < KERNBASE"
  shows "a < b \<longleftrightarrow> a + PGSIZE \<le> b" "a < a + PGSIZE" "a + PGSIZE \<le> KERNBASE"
proof -
  have lt: "unat a < 2147483648" using assms(3) by (simp add: word_less_nat_alt)
  have u: "unat (a + PGSIZE) = unat a + 4096" using lt by (simp add: unat_word_ariths)
  obtain j where j: "unat a = 4096 * j" using page_aligned_multiple [OF assms(1)] by blast
  obtain k where k: "unat b = 4096 * k" using page_aligned_multiple [OF assms(2)] by blast
  show "a < b \<longleftrightarrow> a + PGSIZE \<le> b"
    unfolding word_less_nat_alt word_le_nat_alt u j k using multiple_le_iff [of j k] by linarith
  show "a < a + PGSIZE" by (simp add: word_less_nat_alt u)
  show "a + PGSIZE \<le> KERNBASE" using lt unfolding word_le_nat_alt u j by simp
qed

lemma deallocuvm_loop_spec:
  assumes "uvm_inv s pgd ps" "page_aligned a" "oldsz \<le> KERNBASE"
  shows "\<exists>t fs. deallocuvm_loop pgd a oldsz s = Inr t \<and> shrinks pgd (\<lambda>v. a \<le> v \<and> v < oldsz) s ps t fs"
  using assms
proof (induction "4294967296 - unat a" arbitrary: a s ps rule: less_induct)
  case less
  have vinv: "vm_inv s pgd ps" using less.prems(1) by (simp add: uvm_inv_def)
  show ?case
  proof (cases "a < oldsz")
    case False
    then have "deallocuvm_loop pgd a oldsz s = Inr s" by (simp add: deallocuvm_loop.simps)
    moreover have "shrinks pgd (\<lambda>v. a \<le> v \<and> v < oldsz) s ps s []"
      by (rule shrinks_none [OF less.prems(1)]) (use False in auto)
    ultimately show ?thesis by blast
  next
    case True
    then have ak: "a < KERNBASE" using less.prems(3) by simp
    note step = aligned_less_step [OF less.prems(2) _ ak]
    show ?thesis
    proof (cases "present (mem s) pgd (PDX a)")
      case False
      let ?a = "PGADDR (PDX a + 1) 0 0"
      have lt: "a < ?a"
      proof -
        have "unat a < (unat a div 4194304 + 1) * 4194304"
          using div_less_iff_less_mult [of 4194304 "unat a" "unat a div 4194304 + 1"] by simp
        then show ?thesis unfolding word_less_nat_alt next_pde [OF ak] .
      qed
      have al: "page_aligned ?a" unfolding page_aligned_unat next_pde [OF ak] by simp
      have w: "walkpgdir pgd a False s = Inr (0, s)" using False by (rule walk_absent)
      have lo: "deallocuvm_loop pgd a oldsz s = deallocuvm_loop pgd ?a oldsz s"
        using True w lt by (subst deallocuvm_loop.simps) (simp add: not_le [symmetric])
      have "\<exists>t fs. deallocuvm_loop pgd ?a oldsz s = Inr t \<and> shrinks pgd (\<lambda>v. ?a \<le> v \<and> v < oldsz) s ps t fs"
        by (rule less.hyps) (use upwards [OF lt] al less.prems in simp_all)
      then obtain t fs where t: "deallocuvm_loop pgd ?a oldsz s = Inr t"
        "shrinks pgd (\<lambda>v. ?a \<le> v \<and> v < oldsz) s ps t fs" by blast
      have "shrinks pgd (\<lambda>v. a \<le> v \<and> v < oldsz) s ps t fs"
        using t(2)
      proof (rule shrinks_cong)
        fix vb assume m: "mapped (mem s) pgd vb"
        have "\<not> (a \<le> PGROUNDDOWN vb \<and> PGROUNDDOWN vb < ?a)"
        proof
          assume "a \<le> PGROUNDDOWN vb \<and> PGROUNDDOWN vb < ?a"
          then have "PDX (PGROUNDDOWN vb) = PDX a" using before_next_pde [OF ak] by blast
          moreover have "PDX (PGROUNDDOWN vb) = PDX vb"
            using same_page_iff [of "PGROUNDDOWN vb" vb] by (simp add: PGROUNDDOWN_aligned)
          ultimately show False using False mapped_present [OF m] by simp
        qed
        then show "(?a \<le> PGROUNDDOWN vb \<and> PGROUNDDOWN vb < oldsz) = (a \<le> PGROUNDDOWN vb \<and> PGROUNDDOWN vb < oldsz)"
          using lt by (auto simp: not_less)
      qed
      with t lo show ?thesis by auto
    next
      case present: True
      let ?e = "pte_addr (mem s) pgd a" and ?n = "a + PGSIZE"
      have w: "walkpgdir pgd a False s = Inr (?e, s)" using present by (rule walk_present)
      have e: "?e \<noteq> 0" "load32 (mem s) ?e = pte_at (mem s) pgd a"
        using pte_addr_nonnull present vinv by (auto simp: vm_inv_def pte_at_def)
      have lt: "a < ?n" and al: "page_aligned ?n" using step(2) less.prems(2) by auto
      have ih: "\<exists>t gs. deallocuvm_loop pgd ?n oldsz u = Inr t \<and> shrinks pgd (\<lambda>v. ?n \<le> v \<and> v < oldsz) u qs t gs"
        if "uvm_inv u pgd qs" for u :: "'a kmem_scheme" and qs
        by (rule less.hyps) (use upwards [OF lt] al less.prems that in simp_all)
      have rng: "(v = a \<or> (?n \<le> v \<and> v < oldsz)) = (a \<le> v \<and> v < oldsz)" if "page_aligned v" for v
        using step(1) [OF that] True by auto
      show ?thesis
      proof (cases "mapped (mem s) pgd a")
        case False
        have "deallocuvm_loop pgd a oldsz s = deallocuvm_loop pgd ?n oldsz s"
          using True False w e lt by (subst deallocuvm_loop.simps) (simp add: unmapped_def not_le [symmetric])
        moreover obtain t gs where "deallocuvm_loop pgd ?n oldsz s = Inr t"
          and sh: "shrinks pgd (\<lambda>v. ?n \<le> v \<and> v < oldsz) s ps t gs" using ih [OF less.prems(1)] by blast
        moreover have "(?n \<le> PGROUNDDOWN vb \<and> PGROUNDDOWN vb < oldsz) = (a \<le> PGROUNDDOWN vb \<and> PGROUNDDOWN vb < oldsz)"
          if "mapped (mem s) pgd vb" for vb
        proof -
          have "PGROUNDDOWN vb \<noteq> a"
            using that False pte_at_page [of vb a "mem s" pgd] less.prems(2) by (auto simp: PGROUNDDOWN_aligned)
          then show ?thesis using rng [of "PGROUNDDOWN vb"] by auto
        qed
        ultimately show ?thesis
          using shrinks_cong [OF sh, of "\<lambda>v. a \<le> v \<and> v < oldsz"] by auto
      next
        case m: True
        obtain t where t: "kfree (frame (mem s) pgd a) s = Inr t"
          "shrinks pgd (\<lambda>v. v = PGROUNDDOWN a) s ps (t\<lparr>mem := store32 (mem t) ?e 0\<rparr>) [frame (mem s) pgd a]"
          by (rule shrinks_one [OF less.prems(1) ak m])
        let ?u = "t\<lparr>mem := store32 (mem t) ?e 0\<rparr>"
        have "PTE_ADDR (pte_at (mem s) pgd a) \<noteq> 0"
        proof
          assume "PTE_ADDR (pte_at (mem s) pgd a) = 0"
          then have "frame (mem s) pgd a = KERNBASE" by (simp add: frame_def P2V_def)
          then show False using less.prems(1) ak m by (auto simp: uvm_inv_def frames_ok_def page_ok_def)
        qed
        then have lo: "deallocuvm_loop pgd a oldsz s = deallocuvm_loop pgd ?n oldsz ?u"
          using True m w e lt t(1)
          by (subst deallocuvm_loop.simps) (simp add: unmapped_def frame_def not_le [symmetric])
        from t(2) have "uvm_inv ?u pgd ([frame (mem s) pgd a] @ ps)" by (rule shrinksD)
        from ih [OF this] obtain v gs where v: "deallocuvm_loop pgd ?n oldsz ?u = Inr v"
          "shrinks pgd (\<lambda>v. ?n \<le> v \<and> v < oldsz) ?u ([frame (mem s) pgd a] @ ps) v gs" by blast
        have "shrinks pgd (\<lambda>v. a \<le> v \<and> v < oldsz) s ps v (gs @ [frame (mem s) pgd a])"
          using shrinks_trans [OF t(2) v(2)]
          by (rule shrinks_cong) (use rng less.prems(2) in \<open>simp add: PGROUNDDOWN_aligned\<close>)
        with lo v(1) show ?thesis by auto
      qed
    qed
  qed
qed

end
