(* ===== verification/Uvm_Resize.thy ===== *)
theory Uvm_Resize
  imports Uvm
begin

text \<open>
  Growing user memory: what \<^verbatim>\<open>allocuvm\<close> does to the page tables, the frames and the free list,
  when it succeeds and when it has to undo its work.
\<close>

section \<open>Growing\<close>

text \<open>
  \<open>resized pgd D H s ps t qs\<close>: between \<open>s\<close> and \<open>t\<close> the pages \<open>D\<close> were mapped to zeroed frames and no
  other mapping changed; the pages that were free or held page tables are now free, page tables,
  frames of \<open>D\<close>, or the pages \<open>H\<close> in the hands of the running code; no other memory changed.
\<close>

definition user_frames :: "mem \<Rightarrow> addr \<Rightarrow> addr set" where
  "user_frames m pgd = {frame m pgd va | va. va < KERNBASE \<and> mapped m pgd va}"

definition frames_of :: "mem \<Rightarrow> addr \<Rightarrow> addr set \<Rightarrow> addr set" where
  "frames_of m pgd D = {frame m pgd va | va. PGROUNDDOWN va \<in> D}"

definition fresh_map :: "mem \<Rightarrow> addr \<Rightarrow> addr \<Rightarrow> bool" where
  "fresh_map m pgd va \<longleftrightarrow> va < KERNBASE \<and> PTE_FLAGS (pte_at m pgd va) = PTE_P OR PTE_W OR PTE_U \<and>
     (\<forall>a. PGROUNDDOWN a = frame m pgd va \<longrightarrow> m a = 0)"

definition resized ::
    "addr \<Rightarrow> addr set \<Rightarrow> addr set \<Rightarrow> 'a kmem_scheme \<Rightarrow> addr list \<Rightarrow> 'a kmem_scheme \<Rightarrow> addr list \<Rightarrow> bool" where
  "resized pgd D H s ps t qs \<longleftrightarrow>
     uvm_inv t pgd qs \<and> t = s\<lparr>mem := mem t, freelist := freelist t\<rparr> \<and>
     (\<forall>vb. PGROUNDDOWN vb \<notin> D \<longrightarrow> pte_at (mem t) pgd vb = pte_at (mem s) pgd vb) \<and>
     (\<forall>vb. PGROUNDDOWN vb \<in> D \<longrightarrow> fresh_map (mem t) pgd vb) \<and>
     set qs \<union> pt_pages (mem t) pgd \<union> frames_of (mem t) pgd D \<union> H = set ps \<union> pt_pages (mem s) pgd \<and>
     H \<inter> (set qs \<union> pt_pages (mem t) pgd \<union> user_frames (mem t) pgd) = {} \<and>
     (\<forall>a. PGROUNDDOWN a \<notin> set ps \<union> pt_pages (mem s) pgd \<longrightarrow> mem t a = mem s a)"

lemma resizedD:
  assumes "resized pgd D H s ps t qs"
  shows "uvm_inv t pgd qs" "t = s\<lparr>mem := mem t, freelist := freelist t\<rparr>"
    "PGROUNDDOWN vb \<notin> D \<Longrightarrow> pte_at (mem t) pgd vb = pte_at (mem s) pgd vb"
    "PGROUNDDOWN vb \<in> D \<Longrightarrow> fresh_map (mem t) pgd vb"
    "set qs \<union> pt_pages (mem t) pgd \<union> frames_of (mem t) pgd D \<union> H = set ps \<union> pt_pages (mem s) pgd"
    "H \<inter> (set qs \<union> pt_pages (mem t) pgd \<union> user_frames (mem t) pgd) = {}"
    "PGROUNDDOWN a \<notin> set ps \<union> pt_pages (mem s) pgd \<Longrightarrow> mem t a = mem s a"
  using assms unfolding resized_def by iprover+

lemma resized_refl: "uvm_inv s pgd ps \<Longrightarrow> resized pgd {} {} s ps s ps"
  by (simp add: resized_def frames_of_def)

lemma fresh_map_mapped: "fresh_map m pgd va \<Longrightarrow> va < KERNBASE \<and> mapped m pgd va"
proof -
  assume f: "fresh_map m pgd va"
  have "e AND (PTE_P OR PTE_E) = PTE_FLAGS e AND (PTE_P OR PTE_E)" for e
    by (simp add: PTE_FLAGS_def and.assoc)
  from this [of "pte_at m pgd va"] show ?thesis using f by (simp add: fresh_map_def unmapped_def)
qed

lemma uvm_invD:
  assumes "uvm_inv s pgd ps"
  shows "vm_inv s pgd ps" "KERNBASE < kend s" "frames_ok (kend s) (mem s) pgd (set ps)"
    "user_frames (mem s) pgd \<inter> (set ps \<union> pt_pages (mem s) pgd) = {}"
    "pt_pages (mem s) pgd \<inter> set ps = {}"
proof -
  show 1: "vm_inv s pgd ps" "KERNBASE < kend s" and 3: "frames_ok (kend s) (mem s) pgd (set ps)"
    using assms by (simp_all add: uvm_inv_def)
  show "user_frames (mem s) pgd \<inter> (set ps \<union> pt_pages (mem s) pgd) = {}"
    using 3 unfolding user_frames_def frames_ok_def by blast
  show "pt_pages (mem s) pgd \<inter> set ps = {}" using 1 by (simp add: vm_inv_def)
qed

lemma resized_trans:
  assumes 1: "resized pgd D {} s ps t qs" and 2: "resized pgd E H t qs u rs" and dis: "D \<inter> E = {}"
  shows "resized pgd (D \<union> E) H s ps u rs"
proof -
  note d1 = resizedD [OF 1] and d2 = resizedD [OF 2]
  have same: "pte_at (mem u) pgd vb = pte_at (mem t) pgd vb" "frame (mem u) pgd vb = frame (mem t) pgd vb"
    if "PGROUNDDOWN vb \<in> D" for vb
  proof -
    have "PGROUNDDOWN vb \<notin> E" using that dis by blast
    then show "pte_at (mem u) pgd vb = pte_at (mem t) pgd vb" by (rule d2(3))
    then show "frame (mem u) pgd vb = frame (mem t) pgd vb" by (simp add: frame_def)
  qed
  have fm: "fresh_map (mem u) pgd vb" if vb: "PGROUNDDOWN vb \<in> D" for vb
  proof -
    have ft: "fresh_map (mem t) pgd vb" using d1(4) vb by blast
    then have "frame (mem t) pgd vb \<in> user_frames (mem t) pgd"
      using fresh_map_mapped by (auto simp: user_frames_def)
    then have "frame (mem t) pgd vb \<notin> set qs \<union> pt_pages (mem t) pgd"
      using uvm_invD(4) [OF d1(1)] by blast
    then have "mem u a = mem t a" if "PGROUNDDOWN a = frame (mem t) pgd vb" for a
      using d2(7) [of a] that by simp
    then show ?thesis using ft same [OF vb] by (simp add: fresh_map_def)
  qed
  have fr: "frames_of (mem u) pgd (D \<union> E) = frames_of (mem t) pgd D \<union> frames_of (mem u) pgd E"
  proof -
    have "frames_of (mem u) pgd D = frames_of (mem t) pgd D"
      unfolding frames_of_def using same(2) by (metis (no_types, lifting))
    moreover have "frames_of (mem u) pgd (D \<union> E) = frames_of (mem u) pgd D \<union> frames_of (mem u) pgd E"
      unfolding frames_of_def by blast
    ultimately show ?thesis by simp
  qed
  have "set rs \<union> pt_pages (mem u) pgd \<union> frames_of (mem u) pgd (D \<union> E) \<union> H = set ps \<union> pt_pages (mem s) pgd"
    unfolding fr using d1(5) d2(5) by blast
  moreover have "pte_at (mem u) pgd vb = pte_at (mem s) pgd vb" if "PGROUNDDOWN vb \<notin> D \<union> E" for vb
    using d1(3) [of vb] d2(3) [of vb] that by simp
  moreover have "fresh_map (mem u) pgd vb" if "PGROUNDDOWN vb \<in> D \<union> E" for vb
    using that fm d2(4) by blast
  moreover have "mem u a = mem s a" if "PGROUNDDOWN a \<notin> set ps \<union> pt_pages (mem s) pgd" for a
  proof -
    have "PGROUNDDOWN a \<notin> set qs \<union> pt_pages (mem t) pgd" using d1(5) that by blast
    then show ?thesis using d1(7) [OF that] d2(7) [of a] by simp
  qed
  moreover have "u = s\<lparr>mem := mem u, freelist := freelist u\<rparr>" by (rule same_but_mem_trans [OF d1(2) d2(2)])
  ultimately show ?thesis using d2(1,6) unfolding resized_def by blast
qed

text \<open>Unmapping again the pages that were just mapped leaves no mapping behind.\<close>

lemma resized_shrinks:
  assumes 1: "resized pgd D H s ps t qs" and 2: "shrinks pgd P t qs u fs"
    and D: "\<And>v. v \<in> D \<Longrightarrow> P v"
    and z: "\<And>vb. P (PGROUNDDOWN vb) \<Longrightarrow> vb < KERNBASE \<and> pte_at (mem s) pgd vb = 0"
  shows "resized pgd {} H s ps u (fs @ qs)"
proof -
  note d1 = resizedD [OF 1] and d2 = shrinksD [OF 2]
  have m: "mapped (mem t) pgd vb \<and> P (PGROUNDDOWN vb) \<longleftrightarrow> PGROUNDDOWN vb \<in> D" for vb
    using d1(3) [of vb] d1(4) [of vb] D z fresh_map_mapped unfolding unmapped_def
    by (metis and_zero_eq bit.conj_zero_left)
  have pte: "pte_at (mem u) pgd vb = pte_at (mem s) pgd vb" for vb
    using d2(4) [of vb] m [of vb] d1(3) [of vb] z [of vb] by (cases "PGROUNDDOWN vb \<in> D") auto
  have fs: "set fs = frames_of (mem t) pgd D"
    unfolding d2(5) frames_of_def m by blast
  have uf: "user_frames (mem u) pgd \<subseteq> user_frames (mem t) pgd" "set fs \<subseteq> user_frames (mem t) pgd"
  proof -
    have "frame (mem u) pgd vb = frame (mem t) pgd vb \<and> mapped (mem t) pgd vb" if "mapped (mem u) pgd vb" for vb
      using d2(4) [of vb] that by (auto simp: frame_def unmapped_def split: if_splits)
    then show "user_frames (mem u) pgd \<subseteq> user_frames (mem t) pgd"
      unfolding user_frames_def by blast
    show "set fs \<subseteq> user_frames (mem t) pgd"
      unfolding fs frames_of_def user_frames_def using d1(4) fresh_map_mapped by blast
  qed
  have "set (fs @ qs) \<union> pt_pages (mem u) pgd \<union> frames_of (mem u) pgd {} \<union> H = set ps \<union> pt_pages (mem s) pgd"
    using d1(5) fs d2(3) by (auto simp: frames_of_def)
  moreover have "H \<inter> (set (fs @ qs) \<union> pt_pages (mem u) pgd \<union> user_frames (mem u) pgd) = {}"
    using d1(6) uf d2(3) by auto
  moreover have "mem u a = mem s a" if "PGROUNDDOWN a \<notin> set ps \<union> pt_pages (mem s) pgd" for a
  proof -
    have "PGROUNDDOWN a \<notin> pt_pages (mem t) pgd" "PGROUNDDOWN a \<notin> set fs" using d1(5) fs that by auto
    then show ?thesis using d1(7) [OF that] d2(6) [of a] by simp
  qed
  moreover have "u = s\<lparr>mem := mem u, freelist := freelist u\<rparr>" by (rule same_but_mem_trans [OF d1(2) d2(2)])
  ultimately show ?thesis using d2(1) pte unfolding resized_def by blast
qed

text \<open>A page that the running code holds, given back.\<close>

lemma resized_kfree:
  assumes 1: "resized pgd D {p} s ps t qs" and p: "page_ok (kend t) p"
  obtains u where "kfree p t = Inr u" "resized pgd D {} s ps u (p # qs)"
proof -
  note d1 = resizedD [OF 1]
  have p': "p \<notin> set qs" "p \<notin> pt_pages (mem t) pgd" "p \<notin> user_frames (mem t) pgd" using d1(6) by auto
  obtain u where u: "kfree p t = Inr u" "vm_inv u pgd (p # qs)" "u = t\<lparr>mem := mem u, freelist := p\<rparr>"
    "\<And>a. PGROUNDDOWN a \<noteq> p \<Longrightarrow> mem u a = mem t a"
    "pte_at (mem u) pgd = pte_at (mem t) pgd" "pt_pages (mem u) pgd = pt_pages (mem t) pgd"
    by (rule kfree_vm [OF uvm_invD(1) [OF d1(1)] p p'(1,2)]) blast
  have fr: "frame (mem u) pgd = frame (mem t) pgd" using u(5) by (simp add: frame_def fun_eq_iff)
  have k: "kend u = kend t" using arg_cong [OF u(3), of kend] by simp
  have fok: "frames_ok (kend t) (mem u) pgd (set (p # qs))"
  proof (rule frames_ok_cong [OF u(6) uvm_invD(3) [OF d1(1)]])
    show "pte_at (mem u) pgd va = 0 \<or> pte_at (mem u) pgd va = pte_at (mem t) pgd va" for va
      using u(5) by simp
    fix va assume a: "va < KERNBASE" "mapped (mem u) pgd va"
    then have "frame (mem t) pgd va \<in> user_frames (mem t) pgd"
      using u(5) by (auto simp: user_frames_def)
    then show "frame (mem t) pgd va \<notin> set (p # qs)" using p'(3) uvm_invD(4) [OF d1(1)] by auto
  qed
  have "fresh_map (mem u) pgd vb" if "fresh_map (mem t) pgd vb" for vb
  proof -
    have "frame (mem t) pgd vb \<noteq> p"
      using that fresh_map_mapped p'(3) by (auto simp: user_frames_def)
    then show ?thesis using that u(4,5) fr by (auto simp: fresh_map_def)
  qed
  moreover have "uvm_inv u pgd (p # qs)"
    using u(2) fok k uvm_invD(2) [OF d1(1)] by (simp add: uvm_inv_def)
  moreover have "u = t\<lparr>mem := mem u, freelist := freelist u\<rparr>"
  proof -
    have "freelist u = p" using arg_cong [OF u(3), of freelist] by simp
    then show ?thesis using u(3) by simp
  qed
  then have "u = s\<lparr>mem := mem u, freelist := freelist u\<rparr>" by (rule same_but_mem_trans [OF d1(2)])
  moreover have "frames_of (mem u) pgd D = frames_of (mem t) pgd D" by (simp add: frames_of_def fr)
  moreover have "mem u a = mem s a" if "PGROUNDDOWN a \<notin> set ps \<union> pt_pages (mem s) pgd" for a
    using d1(5) d1(7) [OF that] u(4) [of a] that by auto
  ultimately have "resized pgd D {} s ps u (p # qs)"
    using d1(3-5) u(5,6) unfolding resized_def by auto
  with u(1) that show ?thesis by blast
qed

text \<open>A page taken from the free list and zeroed.\<close>

lemma resized_take:
  assumes inv: "uvm_inv s pgd ps"
  obtains (empty) "ps = []" "kalloc s = Inr (0, s)"
  | (page) p qs t where "p \<noteq> 0" "page_ok (kend s) p" "kalloc s = Inr (p, t)"
      "resized pgd {} {p} s ps (t\<lparr>mem := memset (mem t) p 0 PGSIZE\<rparr>) qs"
      "\<And>a. PGROUNDDOWN a = p \<Longrightarrow> memset (mem t) p 0 PGSIZE a = 0"
proof -
  note i = uvm_invD [OF inv]
  have "kmem_inv s ps" using i(1) by (simp add: vm_inv_def)
  then show ?thesis
  proof (cases rule: kalloc_cases)
    case empty
    with that(1) show ?thesis .
  next
    case (page p qs)
    let ?m = "memset (mem s) p 0 PGSIZE"
    let ?t = "s\<lparr>freelist := load32 (mem s) p, mem := ?m\<rparr>"
    have al: "page_aligned p" "page_aligned pgd"
      using page(3) i(1) by (auto simp: page_ok_def vm_inv_def intro: pt_ok_aligned)
    have np: "p \<notin> pt_pages (mem s) pgd" "p \<notin> user_frames (mem s) pgd" using page(1) i(4,5) by auto
    have out: "?m a = mem s a" if "PGROUNDDOWN a \<noteq> p" for a using that al by (simp add: memset_page)
    have out': "?m a = mem s a" if "PGROUNDDOWN a \<in> pt_pages (mem s) pgd" for a using that np out by metis
    note fr = pt_frame [OF al(2), of "mem s" ?m, OF out']
    have "load32 ?m q = load32 (mem s) q" if "q \<in> set qs" for q
    proof (rule load32_other_page [of p])
      have q: "page_aligned q" using that page(6) by (auto simp: kmem_inv_def page_ok_def)
      then show "word_aligned q" by (rule page_word)
      show "PGROUNDDOWN q \<noteq> p" using q that page(4) by (auto simp: PGROUNDDOWN_aligned)
    qed (simp_all add: al out)
    then have "chain ?m (load32 (mem s) p) qs"
      using page(6) by (simp add: kmem_inv_def chain_cong [of qs ?m "mem s"])
    then have vt: "vm_inv ?t pgd qs"
      using page(1,6) i(1,5) fr(6,7) by (auto simp: vm_inv_def kmem_inv_def kmem_quiet_def)
    have pte: "pte_at ?m pgd = pte_at (mem s) pgd" using fr(5) by blast
    have frm: "frame ?m pgd = frame (mem s) pgd" using fr(5) by (simp add: frame_def fun_eq_iff)
    have "frames_ok (kend s) ?m pgd (set qs)"
      by (rule frames_ok_cong [OF fr(6) i(3)]) (use i(4) page(1) fr(5) in \<open>auto simp: user_frames_def\<close>)
    then have "uvm_inv ?t pgd qs" using vt i(2) by (simp add: uvm_inv_def)
    moreover have "user_frames ?m pgd = user_frames (mem s) pgd" by (simp add: user_frames_def pte frm)
    ultimately have "resized pgd {} {p} s ps ?t qs"
      using page(1,4) np i(4) fr(6) pte out by (auto simp: resized_def frames_of_def)
    then show ?thesis
      using that(2) [of p "s\<lparr>freelist := load32 (mem s) p\<rparr>" qs] page al by (simp add: memset_page)
  qed
qed

lemma PGROUNDDOWN_less_KERNBASE: "PGROUNDDOWN a < KERNBASE \<longleftrightarrow> a < KERNBASE"
proof -
  have "unat a div 4096 < 524288 \<longleftrightarrow> unat a < 524288 * 4096" by (rule div_less_iff_less_mult) simp
  then show ?thesis by (simp add: word_less_nat_alt page_simps)
qed

text \<open>The page that the running code holds becomes the frame of \<open>a\<close>.\<close>

lemma resized_map:
  assumes 1: "resized pgd {} {p} s ps t qs" and z: "\<And>b. PGROUNDDOWN b = p \<Longrightarrow> mem t b = 0"
    and p: "page_ok (kend t) p" and a: "page_aligned a" "a < KERNBASE" "unmapped (pte_at (mem t) pgd a)"
  obtains (full) "qs = []" "mappages pgd a PGSIZE (V2P p) (PTE_W OR PTE_U) t = Inr (-1, t)"
  | (mapped) u rs where "mappages pgd a PGSIZE (V2P p) (PTE_W OR PTE_U) t = Inr (0, u)"
      "resized pgd {a} {} s ps u rs"
proof -
  note d1 = resizedD [OF 1] and i = uvm_invD [OF resizedD(1) [OF 1]]
  have "a + PGSIZE - 1 = a + 4095" by simp
  then have lst: "PGROUNDDOWN (a + PGSIZE - 1) = a" "PGROUNDDOWN a = a"
    using PGROUNDDOWN_page(1) [of a 4095] a(1) by (simp_all only: PGROUNDDOWN_aligned) simp
  have al: "page_aligned p" using p by (simp add: page_ok_def)
  from i(1) a(3) show ?thesis
  proof (cases rule: mappages_round [where lst = a and pa = "V2P p" and perm = "PTE_W OR PTE_U"])
    case full
    with that(1) lst show ?thesis by (simp add: mappages_def)
  next
    case (mapped u rs)
    obtain new where new: "qs = new @ rs" "pt_pages (mem u) pgd = set new \<union> pt_pages (mem t) pgd"
      using mapped(1) by (auto simp: grows_def)
    have vu: "vm_inv u pgd rs" and ut: "u = t\<lparr>mem := mem u, freelist := freelist u\<rparr>"
      and same: "\<And>b. PGROUNDDOWN b \<notin> pt_pages (mem u) pgd \<Longrightarrow> mem u b = mem t b"
      using mapped(1) unfolding grows_def by blast+
    have k: "kend u = kend t" using arg_cong [OF ut, of kend] by simp
    have pte: "pte_at (mem u) pgd vb = (if PGROUNDDOWN vb = a then V2P p OR 7 else pte_at (mem t) pgd vb)" for vb
      using fun_cong [OF mapped(2), of vb] lst(2) by (simp add: mk_pte_def)
    have fra: "frame (mem u) pgd vb = p" "PTE_FLAGS (pte_at (mem u) pgd vb) = 7" if "PGROUNDDOWN vb = a" for vb
      using that al by (simp_all add: frame_def pte pte_simps)
    have fro: "frame (mem u) pgd vb = frame (mem t) pgd vb" if "PGROUNDDOWN vb \<noteq> a" for vb
      using that by (simp add: frame_def pte)
    have pn: "p \<notin> set qs" "p \<notin> pt_pages (mem t) pgd" "p \<notin> user_frames (mem t) pgd" using d1(6) by auto
    have old: "mapped (mem t) pgd vb \<and> frame (mem t) pgd vb \<in> user_frames (mem t) pgd"
      if "vb < KERNBASE" "mapped (mem u) pgd vb" "PGROUNDDOWN vb \<noteq> a" for vb
      using that pte [of vb] by (auto simp: user_frames_def)
    have "frames_ok (kend t) (mem u) pgd (set rs)"
      unfolding frames_ok_def
    proof (intro conjI allI impI)
      fix vb assume vb: "vb < KERNBASE" "mapped (mem u) pgd vb"
      have "page_ok (kend t) (frame (mem u) pgd vb) \<and> frame (mem u) pgd vb \<notin> pt_pages (mem t) pgd \<and>
          frame (mem u) pgd vb \<notin> set qs"
      proof (cases "PGROUNDDOWN vb = a")
        case True
        with fra(1) p pn show ?thesis by simp
      next
        case False
        then have "mapped (mem t) pgd vb" using old [OF vb] by blast
        then show ?thesis using i(3) vb(1) unfolding frames_ok_def fro [OF False] by blast
      qed
      then show "page_ok (kend t) (frame (mem u) pgd vb)" "frame (mem u) pgd vb \<notin> pt_pages (mem u) pgd"
        "frame (mem u) pgd vb \<notin> set rs"
        unfolding new by simp_all
      fix vc assume vc: "vc < KERNBASE" "mapped (mem u) pgd vc" "frame (mem u) pgd vb = frame (mem u) pgd vc"
      have "PGROUNDDOWN vb = a \<longleftrightarrow> PGROUNDDOWN vc = a"
        using vc(3) fra(1) fro old [OF vb] old [OF vc(1,2)] pn(3) by metis
      then show "PGROUNDDOWN vb = PGROUNDDOWN vc"
        using vb vc fro old [OF vb] old [OF vc(1,2)] i(3) unfolding frames_ok_def by (metis (no_types))
    qed
    with vu k i(2) have "uvm_inv u pgd rs" by (simp add: uvm_inv_def)
    moreover have "fresh_map (mem u) pgd vb" if vb: "PGROUNDDOWN vb = a" for vb
    proof -
      have "vb < KERNBASE"
        using vb a PGROUNDDOWN_less_KERNBASE [of vb] by simp
      moreover have "p \<notin> pt_pages (mem u) pgd" using pn new by auto
      then have "mem u b = 0" if "PGROUNDDOWN b = p" for b using same z that by simp
      ultimately show ?thesis using fra [OF vb] by (simp add: fresh_map_def)
    qed
    moreover have "frames_of (mem u) pgd {a} = {p}"
      using fra(1) lst(2) by (force simp: frames_of_def)
    moreover have "mem u b = mem s b" if "PGROUNDDOWN b \<notin> set ps \<union> pt_pages (mem s) pgd" for b
      using d1(5) d1(7) [OF that] same [of b] that new by auto
    moreover have "pte_at (mem u) pgd vb = pte_at (mem s) pgd vb" if "PGROUNDDOWN vb \<notin> {a}" for vb
      using that d1(3) [of vb] pte [of vb] by simp
    moreover have "set rs \<union> pt_pages (mem u) pgd \<union> {p} = set ps \<union> pt_pages (mem s) pgd"
      using d1(5) new by (auto simp: frames_of_def)
    moreover have "u = s\<lparr>mem := mem u, freelist := freelist u\<rparr>" by (rule same_but_mem_trans [OF d1(2) ut])
    ultimately have "resized pgd {a} {} s ps u rs" unfolding resized_def by simp
    moreover have "mappages pgd a PGSIZE (V2P p) (PTE_W OR PTE_U) t = Inr (0, u)"
      using mapped(3) lst by (simp add: mappages_def)
    ultimately show ?thesis using that(2) by blast
  qed
qed

text \<open>\<^verbatim>\<open>allocuvm\<close> maps every page of the range, or leaves everything as it was.\<close>

definition page_range :: "32 word \<Rightarrow> 32 word \<Rightarrow> addr set" where
  "page_range lo hi = {v. page_aligned v \<and> lo \<le> v \<and> v < hi}"

lemma PGROUNDUP_user: "a \<le> KERNBASE \<Longrightarrow> a \<le> PGROUNDUP a \<and> PGROUNDUP a \<le> KERNBASE"
proof -
  assume "a \<le> KERNBASE"
  then have le: "unat a \<le> 2147483648" by (simp add: word_le_nat_alt)
  then have "(unat a + 4095) div 4096 * 4096 \<le> 4096 * 524288" unfolding round_up_le by simp
  moreover have "unat a \<le> (unat a + 4095) div 4096 * 4096"
    using div_mult_mod_eq [of "unat a + 4095" 4096] mod_less_divisor [of 4096 "unat a + 4095"] by linarith
  ultimately show ?thesis using le by (simp add: word_le_nat_alt unat_PGROUNDUP)
qed

lemma deallocuvm_range:
  assumes "uvm_inv s pgd ps" "oldsz \<le> KERNBASE" "newsz \<le> KERNBASE"
  shows "\<exists>r t fs. deallocuvm pgd oldsz newsz s = Inr (r, t) \<and> r = min newsz oldsz \<and>
    shrinks pgd (\<lambda>v. PGROUNDUP newsz \<le> v \<and> v < oldsz) s ps t fs"
proof (cases "oldsz \<le> newsz")
  case True
  have "shrinks pgd (\<lambda>v. PGROUNDUP newsz \<le> v \<and> v < oldsz) s ps s []"
    by (rule shrinks_none [OF assms(1)]) (use True PGROUNDUP_user [OF assms(3)] in auto)
  with True show ?thesis by (auto simp: deallocuvm_def min_def)
next
  case False
  then show ?thesis
    using deallocuvm_loop_spec [OF assms(1) page_aligned_PGROUNDUP assms(2), of newsz]
    by (fastforce simp: deallocuvm_def min_def)
qed

lemma page_range_step:
  assumes "page_aligned a" "lo \<le> a" "a < hi" "hi \<le> KERNBASE"
  shows "page_range lo a \<union> {a} = page_range lo (a + PGSIZE)" "page_range lo a \<inter> {a} = {}"
proof -
  have ak: "a < KERNBASE" using assms by simp
  have "v < a + PGSIZE \<longleftrightarrow> v < a \<or> v = a" if "page_aligned v" for v
    using aligned_less_step(1,2) [OF assms(1) that ak] by (auto simp: not_less [symmetric])
  then show "page_range lo a \<union> {a} = page_range lo (a + PGSIZE)"
    using assms by (auto simp: page_range_def)
  show "page_range lo a \<inter> {a} = {}" by (simp add: page_range_def)
qed

lemma alloc_failed:
  assumes r: "resized pgd (page_range (PGROUNDUP oldsz) a) H s0 ps0 s ps" and a: "a \<le> newsz"
    and sz: "oldsz \<le> newsz" "newsz < KERNBASE"
    and z: "\<And>vb. PGROUNDDOWN vb \<in> page_range (PGROUNDUP oldsz) newsz \<Longrightarrow> pte_at (mem s0) pgd vb = 0"
  shows "\<exists>x t qs. deallocuvm pgd newsz oldsz s = Inr (x, t) \<and> resized pgd {} H s0 ps0 t qs"
proof -
  have "newsz \<le> KERNBASE" "oldsz \<le> KERNBASE" using sz by auto
  from deallocuvm_range [OF resizedD(1) [OF r] this] obtain x t fs where
    t: "deallocuvm pgd newsz oldsz s = Inr (x, t)"
      "shrinks pgd (\<lambda>v. PGROUNDUP oldsz \<le> v \<and> v < newsz) s ps t fs" by blast
  have "resized pgd {} H s0 ps0 t (fs @ ps)"
  proof (rule resized_shrinks [OF r t(2)])
    show "PGROUNDUP oldsz \<le> v \<and> v < newsz" if "v \<in> page_range (PGROUNDUP oldsz) a" for v
      using that a by (auto simp: page_range_def)
    fix vb assume vb: "PGROUNDUP oldsz \<le> PGROUNDDOWN vb \<and> PGROUNDDOWN vb < newsz"
    then have "PGROUNDDOWN vb < KERNBASE" using sz by auto
    with vb z [of vb] show "vb < KERNBASE \<and> pte_at (mem s0) pgd vb = 0"
      by (simp add: PGROUNDDOWN_less_KERNBASE page_range_def)
  qed
  with t(1) show ?thesis by blast
qed

lemma allocuvm_loop_spec:
  assumes "resized pgd (page_range (PGROUNDUP oldsz) a) {} s0 ps0 s ps" "page_aligned a" "PGROUNDUP oldsz \<le> a"
    and sz: "oldsz \<le> newsz" "newsz < KERNBASE"
    and z: "\<And>vb. PGROUNDDOWN vb \<in> page_range (PGROUNDUP oldsz) newsz \<Longrightarrow> pte_at (mem s0) pgd vb = 0"
    and lim: "a < newsz \<or> page_range (PGROUNDUP oldsz) a = page_range (PGROUNDUP oldsz) newsz"
  shows "\<exists>r t qs. allocuvm_loop pgd a oldsz newsz s = Inr (r, t) \<and>
    (r = newsz \<and> resized pgd (page_range (PGROUNDUP oldsz) newsz) {} s0 ps0 t qs \<or>
     r = 0 \<and> resized pgd {} {} s0 ps0 t qs)"
  using assms(1-3) lim
proof (induction "4294967296 - unat a" arbitrary: a s ps rule: less_induct)
  case less
  let ?D = "page_range (PGROUNDUP oldsz)" and ?n = "a + PGSIZE"
  note d = resizedD [OF less.prems(1)]
  show ?case
  proof (cases "a < newsz")
    case False
    then have "allocuvm_loop pgd a oldsz newsz s = Inr (newsz, s)" by (simp add: allocuvm_loop.simps)
    moreover have "?D a = ?D newsz" using less.prems(4) False by blast
    ultimately show ?thesis using less.prems(1) by auto
  next
    case True
    then have ak: "a < KERNBASE" using sz by simp
    note st = aligned_less_step [OF less.prems(2) less.prems(2) ak]
    from d(1) show ?thesis
    proof (cases rule: resized_take)
      case empty
      have "allocuvm_loop pgd a oldsz newsz s = bnd (deallocuvm pgd newsz oldsz s) (\<lambda>(_, s). Inr (0, s))"
        using True empty by (subst allocuvm_loop.simps) simp
      moreover obtain x t qs where "deallocuvm pgd newsz oldsz s = Inr (x, t)" "resized pgd {} {} s0 ps0 t qs"
        using alloc_failed [OF less.prems(1) less_imp_le [OF True] sz z] by blast
      ultimately show ?thesis by auto
    next
      case (page p qs t)
      let ?t = "t\<lparr>mem := memset (mem t) p 0 PGSIZE\<rparr>"
      have r1: "resized pgd (?D a) {p} s0 ps0 ?t qs"
        using resized_trans [OF less.prems(1) page(4)] by simp
      have kt: "kend ?t = kend s" using arg_cong [OF resizedD(2) [OF page(4)], of kend] by simp
      have um: "unmapped (pte_at (mem ?t) pgd a)"
      proof -
        have "PGROUNDDOWN a \<notin> ?D a" "PGROUNDDOWN a \<in> ?D newsz"
          using less.prems(2,3) True by (simp_all add: page_range_def PGROUNDDOWN_aligned)
        then have "pte_at (mem ?t) pgd a = 0" using resizedD(3) [OF r1] z by metis
        then show ?thesis by (simp add: unmapped_def)
      qed
      have zero: "\<And>b. PGROUNDDOWN b = p \<Longrightarrow> mem ?t b = 0" using page(5) by simp
      have pok: "page_ok (kend ?t) p" using page(2) unfolding kt .
      have lo: "allocuvm_loop pgd a oldsz newsz s =
          bnd (mappages pgd a PGSIZE (V2P p) (PTE_W OR PTE_U) ?t) (\<lambda>(r, s).
            if r < 0
            then bnd (deallocuvm pgd newsz oldsz s) (\<lambda>(_, s). bnd (kfree p s) (\<lambda>s. Inr (0, s)))
            else let a' = ?n in if a' \<le> a then Inl Diverges else allocuvm_loop pgd a' oldsz newsz s)"
        using True page(1,3) by (subst allocuvm_loop.simps) simp
      show ?thesis
      proof (rule resized_map [OF page(4) zero pok less.prems(2) ak um])
        assume full: "mappages pgd a PGSIZE (V2P p) (PTE_W OR PTE_U) ?t = Inr (-1, ?t)"
        obtain x u rs where u: "deallocuvm pgd newsz oldsz ?t = Inr (x, u)" "resized pgd {} {p} s0 ps0 u rs"
          using alloc_failed [OF r1 less_imp_le [OF True] sz z] by blast
        have "kend u = kend s0" "kend ?t = kend s0"
          using arg_cong [OF resizedD(2) [OF u(2)], of kend] arg_cong [OF resizedD(2) [OF r1], of kend] by simp_all
        with pok have "page_ok (kend u) p" by simp
        then obtain v where "kfree p u = Inr v" "resized pgd {} {} s0 ps0 v (p # rs)"
          by (rule resized_kfree [OF u(2)])
        with lo full u(1) show ?thesis by auto
      next
        fix u rs
        assume mapped: "mappages pgd a PGSIZE (V2P p) (PTE_W OR PTE_U) ?t = Inr (0, u)"
          "resized pgd {a} {} s ps u rs"
        have lo': "allocuvm_loop pgd a oldsz newsz s = allocuvm_loop pgd ?n oldsz newsz u"
          using lo mapped(1) st(2) by (simp add: not_le [symmetric])
        have le: "newsz \<le> KERNBASE" using sz by simp
        note pr = page_range_step [OF less.prems(2,3) True le]
        have "resized pgd (?D ?n) {} s0 ps0 u rs"
          using resized_trans [OF less.prems(1) mapped(2) pr(2)] unfolding pr(1) .
        moreover have "page_aligned ?n" "PGROUNDUP oldsz \<le> ?n" using less.prems(2,3) st(2) by auto
        moreover have "?n < newsz \<or> ?D ?n = ?D newsz"
        proof (cases "?n < newsz")
          case False
          have "v < ?n \<longleftrightarrow> v < newsz" if "page_aligned v" for v
          proof
            assume "v < ?n"
            then have "v \<le> a" using aligned_less_step(1) [OF less.prems(2) that ak] by (meson not_le)
            then show "v < newsz" using True by (rule le_less_trans)
          next
            assume "v < newsz"
            then show "v < ?n" using False by (meson less_le_trans not_less)
          qed
          then show ?thesis by (auto simp: page_range_def)
        qed simp
        ultimately show ?thesis
          unfolding lo' by (intro less.hyps) (use upwards [OF st(2)] in auto)
      qed
    qed
  qed
qed

section \<open>Properties\<close>

text \<open>A machine with one free page and an empty page directory.\<close>

definition blank_vm :: kmem where
  "blank_vm = (boot_mem 0x80117000)\<lparr>freelist := 0x80400000\<rparr>"

lemma blank_vm_inv: "uvm_inv blank_vm 0x80200000 [0x80400000]"
proof -
  have z: "load32 (\<lambda>_. 0) a = 0" for a by (simp add: load32_def)
  have np: "\<not> present (\<lambda>_. 0) pgd i" for pgd i by (simp add: present_def z)
  then have "pt_pages (\<lambda>_. 0) pgd = {pgd}" for pgd by (simp add: pt_pages_def)
  moreover have "unmapped (pte_at (\<lambda>_. 0) pgd va)" for pgd va by (simp add: pte_at_def np unmapped_def)
  ultimately show ?thesis
    by (simp add: uvm_inv_def vm_inv_def kmem_inv_def kmem_quiet_def blank_vm_def boot_mem_def boot_cpu_def
        cpu_ok_def lock_free_def z pt_ok_def np frames_ok_def page_ok_def page_aligned_def V2P_def)
qed

lemma blank_vm_unmapped: "pte_at (mem blank_vm) pgd va = 0"
  by (simp add: pte_at_def present_def load32_def blank_vm_def boot_mem_def)

text \<open>
  C6: \<^verbatim>\<open>allocuvm\<close> never panics and never runs on: from a sound address space whose pages from
  \<open>PGROUNDUP oldsz\<close> to \<open>newsz\<close> are not mapped it either returns \<open>newsz\<close>, and then exactly those pages
  are newly mapped, each to its own zeroed frame, present, writable and user-accessible; or it
  returns 0 for lack of memory, and then no mapping has changed and every page it had taken is
  free again, page tables apart. In both cases no other memory is touched.
\<close>

theorem allocuvm_spec:
  assumes "uvm_inv s pgd ps" "oldsz \<le> newsz" "newsz < KERNBASE"
    and "\<forall>vb. PGROUNDDOWN vb \<in> page_range (PGROUNDUP oldsz) newsz \<longrightarrow> pte_at (mem s) pgd vb = 0"
  shows "\<exists>r t qs. allocuvm pgd oldsz newsz s = Inr (r, t) \<and>
    (r = newsz \<and> resized pgd (page_range (PGROUNDUP oldsz) newsz) {} s ps t qs \<or>
     r = 0 \<and> resized pgd {} {} s ps t qs)"
proof -
  let ?a = "PGROUNDUP oldsz"
  have e: "page_range ?a ?a = {}" by (auto simp: page_range_def)
  have "\<exists>r t qs. allocuvm_loop pgd ?a oldsz newsz s = Inr (r, t) \<and>
    (r = newsz \<and> resized pgd (page_range ?a newsz) {} s ps t qs \<or> r = 0 \<and> resized pgd {} {} s ps t qs)"
  proof (rule allocuvm_loop_spec [OF _ page_aligned_PGROUNDUP order_refl assms(2,3)])
    show "resized pgd (page_range ?a ?a) {} s ps s ps" using resized_refl [OF assms(1)] e by simp
    show "?a < newsz \<or> page_range ?a ?a = page_range ?a newsz" by (auto simp: page_range_def)
  qed (use assms(4) in blast)
  moreover have "allocuvm pgd oldsz newsz s = allocuvm_loop pgd ?a oldsz newsz s"
  proof -
    have "\<not> KERNBASE \<le> newsz" "\<not> newsz < oldsz" using assms(2,3) by auto
    then show ?thesis by (simp add: allocuvm_def)
  qed
  ultimately show ?thesis by simp
qed

theorem allocuvm_spec_witness:
  "\<exists>r t qs. allocuvm 0x80200000 0 0x1800 blank_vm = Inr (r, t) \<and>
    (r = 0x1800 \<and> resized 0x80200000 (page_range (PGROUNDUP 0) 0x1800) {} blank_vm [0x80400000] t qs \<or>
     r = 0 \<and> resized 0x80200000 {} {} blank_vm [0x80400000] t qs)"
  by (rule allocuvm_spec [OF blank_vm_inv]) (simp_all add: blank_vm_unmapped)

text \<open>
  C7: \<^verbatim>\<open>deallocuvm\<close> from a sound address space never panics and never runs on; it unmaps exactly the
  mapped pages from \<open>PGROUNDUP newsz\<close> up to \<open>oldsz\<close>, encrypted ones included, puts the frame of each of
  them on the free list once, keeps every other mapping and byte, and returns the smaller size.
\<close>

theorem deallocuvm_spec:
  assumes "uvm_inv s pgd ps" "oldsz \<le> KERNBASE" "newsz \<le> KERNBASE"
  shows "\<exists>r t fs. deallocuvm pgd oldsz newsz s = Inr (r, t) \<and> r = min newsz oldsz \<and> distinct (fs @ ps) \<and>
    shrinks pgd (\<lambda>v. PGROUNDUP newsz \<le> v \<and> v < oldsz) s ps t fs"
proof -
  obtain r t fs where t: "deallocuvm pgd oldsz newsz s = Inr (r, t)" "r = min newsz oldsz"
    "shrinks pgd (\<lambda>v. PGROUNDUP newsz \<le> v \<and> v < oldsz) s ps t fs"
    using deallocuvm_range [OF assms] by blast
  then have "uvm_inv t pgd (fs @ ps)" by (blast dest: shrinksD(1))
  then have "distinct (fs @ ps)" by (intro kmem_inv_distinct [of t]) (simp add: uvm_inv_def vm_inv_def)
  with t show ?thesis by blast
qed

theorem deallocuvm_spec_witness:
  "\<exists>r t fs. deallocuvm 0x80200000 0x3000 0x1000 blank_vm = Inr (r, t) \<and> r = min 0x1000 0x3000 \<and>
    distinct (fs @ [0x80400000]) \<and>
    shrinks 0x80200000 (\<lambda>v. PGROUNDUP 0x1000 \<le> v \<and> v < 0x3000) blank_vm [0x80400000] t fs"
  by (rule deallocuvm_spec [OF blank_vm_inv]) simp_all

end
