(* ===== verification/Proc_State.thy ===== *)
theory Proc_State
  imports Vm
begin

text \<open>
  The process table of \<^verbatim>\<open>proc.h\<close> and \<^verbatim>\<open>proc.c\<close>, the running processor's view of it
  (\<^verbatim>\<open>mycpu\<close>, \<^verbatim>\<open>myproc\<close>), the switch of the address space, and the memory accesses that the
  kernel makes through the page tables of the running process.
\<close>

section \<open>The process table\<close>

abbreviation NPROC :: nat where "NPROC \<equiv> 64"
abbreviation NOFILE :: nat where "NOFILE \<equiv> 16"
abbreviation CLOCKSIZE :: nat where "CLOCKSIZE \<equiv> 8"
abbreviation KSTACKSIZE :: "32 word" where "KSTACKSIZE \<equiv> 4096"

datatype procstate = UNUSED | EMBRYO | SLEEPING | RUNNABLE | RUNNING | ZOMBIE

text \<open>
  What a process can sleep on: the address of a kernel object in the code, the object itself
  here, since distinct objects have distinct addresses. \<open>ChBuf\<close> is the sleep lock in a buffer and \<open>ChDisk\<close> the
  buffer itself, on which the driver of the disk sleeps.
\<close>

datatype chan = NoChan | ChProc nat | ChTicks | ChBuf nat | ChDisk nat | ChInode nat | ChPipeRead addr
  | ChPipeWrite addr | ChLog | ChInput

text \<open>
  Processes, files and inodes are named by their index in \<^verbatim>\<open>ptable.proc\<close>, \<^verbatim>\<open>ftable.file\<close> and
  \<^verbatim>\<open>icache.inode\<close>; the trap frame and the saved context lie in the kernel stack page, in memory.
  \<^verbatim>\<open>name\<close> is the string it holds; a null clock slot is 0.
\<close>

record proc =
  psz :: "32 word"
  pgdir :: addr
  kstack :: addr
  pstate :: procstate
  pid :: int
  parent :: "nat option"
  tf :: addr
  pcontext :: addr
  pchan :: chan
  killed :: bool
  ofile :: "nat option list"
  cwd :: "nat option"
  pname :: "byte list"
  clock :: "addr list"
  head :: nat

record kproc = kvm +
  ptable_lock :: spinlock
  ptable :: "proc list"
  nextpid :: int
  initproc :: "nat option"
  tss_esp0 :: addr

definition upd_proc :: "nat \<Rightarrow> (proc \<Rightarrow> proc) \<Rightarrow> 'a kproc_scheme \<Rightarrow> 'a kproc_scheme" where
  "upd_proc i f s = s\<lparr>ptable := (ptable s)[i := f (ptable s ! i)]\<rparr>"

definition pinit :: "'a kproc_scheme \<Rightarrow> 'a kproc_scheme" where
  "pinit s = s\<lparr>ptable_lock := initlock (ptable_lock s) ''ptable''\<rparr>"

text \<open>
  The search of \<^verbatim>\<open>mycpu\<close> for its own APIC identifier ends at the processor that runs, whose
  record is \<open>kcpu\<close>.
\<close>

definition mycpu :: "'a kmem_scheme \<Rightarrow> cpu res" where
  "mycpu s =
     (if eflags_if (kcpu s) then Inl (Panic ''mycpu called with interrupts enabled'') else Inr (kcpu s))"

definition cpuid :: "'a kmem_scheme \<Rightarrow> nat res" where
  "cpuid s = bnd (mycpu s) (\<lambda>c. Inr (cid c))"

definition myproc :: "'a kmem_scheme \<Rightarrow> (nat option \<times> 'a kmem_scheme) res" where
  "myproc s =
     (let s = s\<lparr>kcpu := pushcli (kcpu s)\<rparr> in
      bnd (mycpu s) (\<lambda>c. let p = cproc c in
        bnd (popcli (kcpu s)) (\<lambda>c. Inr (p, s\<lparr>kcpu := c\<rparr>))))"

text \<open>\<^verbatim>\<open>myproc()\<close> where the code goes on to follow the pointer.\<close>

definition curproc :: "'a kmem_scheme \<Rightarrow> (nat \<times> 'a kmem_scheme) res" where
  "curproc s = bnd (myproc s) (\<lambda>(p, s). case p of None \<Rightarrow> Inl NullDeref | Some i \<Rightarrow> Inr (i, s))"

lemma myproc_ok: "cpu_ok (kcpu s) \<Longrightarrow> myproc s = Inr (cproc (kcpu s), s)"
  by (simp add: myproc_def mycpu_def popcli_pushcli Let_def)

lemma curproc_ok: "cpu_ok (kcpu s) \<Longrightarrow> cproc (kcpu s) = Some i \<Longrightarrow> curproc s = Inr (i, s)"
  by (simp add: curproc_def myproc_ok)

text \<open>
  The task state segment: the stack for traps from user mode. The descriptor that makes it known
  to the processor is constant.
\<close>

definition switchuvm :: "nat option \<Rightarrow> 'a kproc_scheme \<Rightarrow> 'a kproc_scheme res" where
  "switchuvm p s =
     (case p of None \<Rightarrow> Inl (Panic ''switchuvm: no process'')
      | Some i \<Rightarrow>
        if kstack (ptable s ! i) = 0 then Inl (Panic ''switchuvm: no kstack'')
        else if pgdir (ptable s ! i) = 0 then Inl (Panic ''switchuvm: no pgdir'')
        else let s = s\<lparr>kcpu := pushcli (kcpu s)\<rparr> in
          bnd (mycpu s) (\<lambda>_.
            let s = s\<lparr>tss_esp0 := kstack (ptable s ! i) + KSTACKSIZE\<rparr>;
                s = s\<lparr>cr3 := V2P (pgdir (ptable s ! i))\<rparr>
            in bnd (popcli (kcpu s)) (\<lambda>c. Inr (s\<lparr>kcpu := c\<rparr>))))"

lemma switchuvm_ok:
  "cpu_ok (kcpu s) \<Longrightarrow> kstack (ptable s ! i) \<noteq> 0 \<Longrightarrow> pgdir (ptable s ! i) \<noteq> 0 \<Longrightarrow>
   switchuvm (Some i) s = Inr (s\<lparr>tss_esp0 := kstack (ptable s ! i) + KSTACKSIZE, cr3 := V2P (pgdir (ptable s ! i))\<rparr>)"
  by (simp add: switchuvm_def mycpu_def popcli_pushcli Let_def)

section \<open>Access through the page tables\<close>

text \<open>
  A memory access of the kernel at a virtual address of the running process. Translation needs a
  present directory entry and a present page table entry, and for a write both writable (the
  kernel runs with write protection on); otherwise the access faults. A walk may set the accessed
  and the dirty bit of the entry; whether it does depends on what the processor has cached, so
  the update \<open>hw\<close> is a parameter. The accessed bit of the directory entry, which no code looks at, is left
  out. This is the walk of the tables. A translation that the processor has cached can differ
  from it after an entry was changed without a load of \<^verbatim>\<open>cr3\<close>; theory \<open>Tlb\<close> models that.
\<close>

type_synonym hw_walk = "bool \<Rightarrow> 32 word \<Rightarrow> 32 word"

definition hw_ok :: "hw_walk \<Rightarrow> bool" where
  "hw_ok hw \<longleftrightarrow> (\<forall>w e. hw w e AND NOT 0x60 = e AND NOT 0x60)"

definition allows :: "bool \<Rightarrow> 32 word \<Rightarrow> bool" where
  "allows w e \<longleftrightarrow> e AND PTE_P \<noteq> 0 \<and> (w \<longrightarrow> e AND PTE_W \<noteq> 0)"

definition translate :: "hw_walk \<Rightarrow> bool \<Rightarrow> addr \<Rightarrow> 'a kvm_scheme \<Rightarrow> (addr \<times> 'a kvm_scheme) res" where
  "translate hw w va s =
     (let pde = P2V (PTE_ADDR (cr3 s)) + 4 * PDX va in
      if \<not> allows w (load32 (mem s) pde) then Inl (PageFault va)
      else let pte = P2V (PTE_ADDR (load32 (mem s) pde)) + 4 * PTX va; e = load32 (mem s) pte in
        if \<not> allows w e then Inl (PageFault va)
        else Inr (P2V (PTE_ADDR e) + OFFSET va, s\<lparr>mem := store32 (mem s) pte (hw w e)\<rparr>))"

definition vload :: "hw_walk \<Rightarrow> addr \<Rightarrow> 'a kvm_scheme \<Rightarrow> (byte \<times> 'a kvm_scheme) res" where
  "vload hw va s = bnd (translate hw False va s) (\<lambda>(a, s). Inr (mem s a, s))"

definition vstore :: "hw_walk \<Rightarrow> addr \<Rightarrow> byte \<Rightarrow> 'a kvm_scheme \<Rightarrow> 'a kvm_scheme res" where
  "vstore hw va b s = bnd (translate hw True va s) (\<lambda>(a, s). Inr (s\<lparr>mem := (mem s)(a := b)\<rparr>))"

end
