(* ===== verification/Vmcrypt.thy ===== *)
theory Vmcrypt
  imports Proc_State
begin

text \<open>
  Page encryption of \<^verbatim>\<open>vm.c\<close>: \<^verbatim>\<open>mencrypt\<close> flips the bytes of a user page and makes it absent,
  \<^verbatim>\<open>mdecrypt\<close> brings it back when it is touched, and the clock queue of the process says which
  pages are in the clear.
\<close>

section \<open>Encrypting\<close>

definition translate_and_set :: "addr \<Rightarrow> addr \<Rightarrow> 'a kmem_scheme \<Rightarrow> (addr \<times> 'a kmem_scheme) res" where
  "translate_and_set pgd uva s =
     bnd (walkpgdir pgd uva False s) (\<lambda>(pte, s).
       if pte = 0 then Inl NullDeref
       else let e = load32 (mem s) pte in
         if e AND PTE_P = 0 \<and> e AND PTE_E = 0 then Inr (0, s)
         else if e AND PTE_E \<noteq> 0 then Inr (0, s)
         else if e AND PTE_U = 0 then Inr (0, s)
         else let e = e OR PTE_E; e = e AND NOT PTE_P; e = e AND NOT PTE_A
              in Inr (P2V (PTE_ADDR e), s\<lparr>mem := store32 (mem s) pte e\<rparr>))"

text \<open>The loop that flips \<open>n\<close> bytes from \<^verbatim>\<open>slider\<close> on.\<close>

fun xor_loop :: "hw_walk \<Rightarrow> nat \<Rightarrow> addr \<Rightarrow> 'a kvm_scheme \<Rightarrow> 'a kvm_scheme res" where
  "xor_loop hw 0 slider s = Inr s"
| "xor_loop hw (Suc n) slider s =
     bnd (vload hw slider s) (\<lambda>(b, s).
     bnd (vstore hw slider (b XOR 0xFF) s) (\<lambda>s. xor_loop hw n (slider + 1) s))"

text \<open>The check of the whole range, before anything is changed.\<close>

fun mencrypt_check :: "addr \<Rightarrow> nat \<Rightarrow> addr \<Rightarrow> 'a kmem_scheme \<Rightarrow> bool res" where
  "mencrypt_check pgd 0 slider s = Inr True"
| "mencrypt_check pgd (Suc n) slider s =
     bnd (uva2ka pgd slider s) (\<lambda>kvp.
       if kvp = 0 then Inr False else mencrypt_check pgd n (slider + PGSIZE) s)"

text \<open>
  The second stage goes over encrypted pages; the \<^verbatim>\<open>return 0\<close> stands inside of the loop, after
  the first page that it encrypts.
\<close>

fun mencrypt_stage :: "hw_walk \<Rightarrow> addr \<Rightarrow> nat \<Rightarrow> addr \<Rightarrow> 'a kproc_scheme \<Rightarrow> (int \<times> 'a kproc_scheme) res" where
  "mencrypt_stage hw pgd 0 slider s =
     bnd (myproc s) (\<lambda>(p, s). bnd (switchuvm p s) (\<lambda>s. Inr (0, s)))"
| "mencrypt_stage hw pgd (Suc n) slider s =
     bnd (uva2ka pgd slider s) (\<lambda>_.
     bnd (walkpgdir pgd slider False s) (\<lambda>(mypte, s).
       if mypte = 0 then Inl NullDeref
       else if load32 (mem s) mypte AND PTE_E \<noteq> 0 then mencrypt_stage hw pgd n (slider + PGSIZE) s
       else bnd (xor_loop hw 4096 slider s) (\<lambda>s.
            bnd (translate_and_set pgd slider s) (\<lambda>(kvp, s).
              if kvp = 0 then Inr (-1, s) else Inr (0, s)))))"

definition mencrypt :: "hw_walk \<Rightarrow> addr \<Rightarrow> int \<Rightarrow> 'a kproc_scheme \<Rightarrow> (int \<times> 'a kproc_scheme) res" where
  "mencrypt hw va len s =
     bnd (curproc s) (\<lambda>(p, s).
       let mypd = pgdir (ptable s ! p); va = PGROUNDDOWN va in
       bnd (mencrypt_check mypd (nat len) va s) (\<lambda>ok.
         if \<not> ok then Inr (-1, s) else mencrypt_stage hw mypd (nat len) va s))"

section \<open>The clock queue\<close>

fun inQ_loop :: "addr list \<Rightarrow> addr \<Rightarrow> nat \<Rightarrow> nat \<Rightarrow> int" where
  "inQ_loop cl v i 0 = -1"
| "inQ_loop cl v i (Suc n) =
     (if cl ! (i mod CLOCKSIZE) = v then int (i mod CLOCKSIZE) else inQ_loop cl v (Suc i) n)"

definition inQ :: "proc \<Rightarrow> addr \<Rightarrow> int" where
  "inQ p v = inQ_loop (clock p) v (head p mod CLOCKSIZE) CLOCKSIZE"

text \<open>The search for an empty slot, downwards from \<^verbatim>\<open>head + CLOCKSIZE\<close>.\<close>

fun free_slot :: "addr list \<Rightarrow> nat \<Rightarrow> nat \<Rightarrow> nat option" where
  "free_slot cl i 0 = None"
| "free_slot cl i (Suc n) = (if cl ! (i mod CLOCKSIZE) = 0 then Some i else free_slot cl (i - 1) n)"

text \<open>
  The eviction loop. \<^verbatim>\<open>head\<close> is the local copy, which the loop never changes. The loop is bounded
  by \<open>n\<close> rounds; \<open>Diverges\<close> marks a run that needs more.
\<close>

fun evict_loop :: "hw_walk \<Rightarrow> nat \<Rightarrow> nat \<Rightarrow> nat \<Rightarrow> addr \<Rightarrow> 'a kproc_scheme \<Rightarrow> 'a kproc_scheme res" where
  "evict_loop hw 0 p h0 va s = Inl Diverges"
| "evict_loop hw (Suc n) p h0 va s =
     (let cur_va = clock (ptable s ! p) ! h0 in
      bnd (walkpgdir (pgdir (ptable s ! p)) cur_va False s) (\<lambda>(pte, s).
        if pte = 0 then Inl NullDeref
        else if load32 (mem s) pte AND PTE_A = 0
        then bnd (mencrypt hw cur_va 1 s) (\<lambda>(_, s).
               let s = upd_proc p (clock_update (\<lambda>c. c[h0 := PGROUNDDOWN va])) s
               in Inr (upd_proc p (head_update (\<lambda>h. (h + 1) mod CLOCKSIZE)) s))
        else let s = s\<lparr>mem := store32 (mem s) pte (load32 (mem s) pte AND NOT PTE_A)\<rparr>;
                 s = upd_proc p (head_update (\<lambda>h. (h + 1) mod CLOCKSIZE)) s
             in evict_loop hw n p h0 va s))"

definition addClock :: "hw_walk \<Rightarrow> nat \<Rightarrow> addr \<Rightarrow> 'a kproc_scheme \<Rightarrow> 'a kproc_scheme res" where
  "addClock hw p va s =
     (let mypd = pgdir (ptable s ! p); h0 = head (ptable s ! p) in
      case free_slot (clock (ptable s ! p)) (h0 + CLOCKSIZE) CLOCKSIZE of
        Some i \<Rightarrow>
          (let s = upd_proc p (clock_update (\<lambda>c. c[i mod CLOCKSIZE := PGROUNDDOWN va])) s;
               s = upd_proc p (head_update (\<lambda>_. (i + 1) mod CLOCKSIZE)) s
           in bnd (walkpgdir mypd va False s) (\<lambda>(pte, s).
             if pte = 0 then Inl NullDeref
             else Inr (s\<lparr>mem := store32 (mem s) pte (load32 (mem s) pte AND NOT PTE_A)\<rparr>)))
      | None \<Rightarrow> evict_loop hw 2 p h0 va s)"

section \<open>Decrypting\<close>

definition mdecrypt :: "hw_walk \<Rightarrow> addr \<Rightarrow> 'a kproc_scheme \<Rightarrow> (int \<times> 'a kproc_scheme) res" where
  "mdecrypt hw va s =
     bnd (curproc s) (\<lambda>(p, s).
       let mypd = pgdir (ptable s ! p) in
       bnd (walkpgdir mypd va False s) (\<lambda>(pte, s).
         if pte = 0 \<or> load32 (mem s) pte = 0 then Inr (-1, s)
         else bnd (if inQ (ptable s ! p) va = -1 then addClock hw p va s else Inr s) (\<lambda>s.
           let e = load32 (mem s) pte AND NOT PTE_E; e = e OR PTE_P;
               s = s\<lparr>mem := store32 (mem s) pte e\<rparr> in
           bnd (uva2ka mypd va s) (\<lambda>_.
             let va = PGROUNDDOWN va in
             bnd (uva2ka mypd va s) (\<lambda>kvp.
               if kvp = 0 \<or> mem s kvp = 0 then Inr (-1, s)
               else bnd (xor_loop hw 4096 va s) (\<lambda>s. Inr (0, s)))))))"

section \<open>Inspecting\<close>

text \<open>An entry as \<^verbatim>\<open>getpgtable\<close> fills it in; the field \<^verbatim>\<open>user\<close> is never assigned.\<close>

record pt_entry =
  pdx :: "32 word"
  ptx :: "32 word"
  ppage :: "32 word"
  ppresent :: bool
  pwritable :: bool
  pencrypted :: bool
  pref :: bool

definition mk_pt_entry :: "addr \<Rightarrow> 32 word \<Rightarrow> pt_entry" where
  "mk_pt_entry uva e = \<lparr>pdx = PDX uva, ptx = PTX uva, ppage = drop_bit 12 e,
     ppresent = (e AND PTE_P \<noteq> 0), pwritable = (e AND PTE_W \<noteq> 0),
     pencrypted = (e AND PTE_E \<noteq> 0), pref = (e AND PTE_A \<noteq> 0)\<rparr>"

text \<open>
  The loop walks down from the last page. Its only exit comes after an entry was written, so
  page 0 does not end it when page 0 is passed over; \<open>None\<close> is a run that never ends. The entries
  are collected in the order in which the code writes them to the caller's array.
\<close>

partial_function (option) getpgtable_loop ::
    "proc \<Rightarrow> mem \<Rightarrow> int \<Rightarrow> bool \<Rightarrow> addr \<Rightarrow> pt_entry list \<Rightarrow> pt_entry list res option" where
  "getpgtable_loop p m num wset uva es =
     (let pgd = pgdir p; pde = load32 m (pgd + 4 * PDX uva) in
      if pde AND PTE_P = 0 then Some (Inl NullDeref)
      else let e = load32 m (P2V (PTE_ADDR pde) + 4 * PTX uva) in
        if e AND PTE_U = 0 \<or> e AND (PTE_P OR PTE_E) = 0 \<or> (wset \<and> inQ p uva = -1)
        then getpgtable_loop p m num wset (uva - PGSIZE) es
        else let es = es @ [mk_pt_entry uva e] in
          if uva = 0 \<or> int (length es) = num then Some (Inr es)
          else getpgtable_loop p m num wset (uva - PGSIZE) es)"

definition getpgtable :: "int \<Rightarrow> int \<Rightarrow> 'a kproc_scheme \<Rightarrow> (int \<times> pt_entry list) res option" where
  "getpgtable num wsetOnly s =
     (if wsetOnly \<noteq> 0 \<and> wsetOnly \<noteq> 1 then Some (Inr (-1, []))
      else case curproc s of
        Inl e \<Rightarrow> Some (Inl e)
      | Inr (i, s) \<Rightarrow>
        (let p = ptable s ! i;
             uva = (if psz p mod PGSIZE = 0 then psz p - PGSIZE else PGROUNDDOWN (psz p)) in
         case getpgtable_loop p (mem s) num (wsetOnly = 1) uva [] of
           None \<Rightarrow> None
         | Some (Inl e) \<Rightarrow> Some (Inl e)
         | Some (Inr es) \<Rightarrow> Some (Inr (int (length es), es))))"

definition dump_rawphymem :: "hw_walk \<Rightarrow> 32 word \<Rightarrow> addr \<Rightarrow> 'a kproc_scheme \<Rightarrow> (int \<times> 'a kproc_scheme) res" where
  "dump_rawphymem hw pa buffer s =
     bnd (vload hw buffer s) (\<lambda>(b, s).
     bnd (vstore hw buffer b s) (\<lambda>s.
     bnd (curproc s) (\<lambda>(p, s).
     bnd (copyout (pgdir (ptable s ! p)) buffer (PGROUNDDOWN (P2V pa)) PGSIZE s) (\<lambda>(r, s).
       if r \<noteq> 0 then Inr (-1, s) else Inr (0, s)))))"

end
