(* ===== verification/Vmcrypt_Facts.thy ===== *)
theory Vmcrypt_Facts
  imports Vmcrypt Uvm_Resize
begin

text \<open>
  What encryption and decryption do to an address space: the effect of an access through the
  page tables, of the loop that flips a page, and of the two routines themselves.
\<close>

section \<open>Changing an entry, changing a byte\<close>

lemma store_pte_pde:
  assumes "pt_ok e m pgd" "present m pgd (PDX va)" "i < 0x400"
  shows "load32 (store32 m (pte_addr m pgd va) v) (pgd + 4 * i) = load32 m (pgd + 4 * i)"
proof -
  have "tab m pgd (PDX va) \<noteq> pgd" using assms by (simp add: pt_ok_def)
  moreover have "page_aligned pgd" using assms(1) by (rule pt_ok_aligned)
  ultimately show ?thesis
    by (intro load32_page_cong, intro store_pte_outside)
      (use assms(3) in \<open>simp_all add: pde_page pde_aligned\<close>)
qed

text \<open>
  \<open>same_space pgd va m m'\<close>: the directory and the entries of all pages but that of \<open>va\<close> are the same.
\<close>

definition same_space :: "addr \<Rightarrow> addr \<Rightarrow> mem \<Rightarrow> mem \<Rightarrow> bool" where
  "same_space pgd va m m' \<longleftrightarrow>
     (\<forall>i < 0x400. load32 m' (pgd + 4 * i) = load32 m (pgd + 4 * i)) \<and>
     (\<forall>vb. PGROUNDDOWN vb \<noteq> PGROUNDDOWN va \<longrightarrow> pte_at m' pgd vb = pte_at m pgd vb)"

lemma same_space_refl [simp]: "same_space pgd va m m"
  by (simp add: same_space_def)

lemma same_space_trans: "same_space pgd va m m' \<Longrightarrow> same_space pgd va m' m'' \<Longrightarrow> same_space pgd va m m''"
  by (simp add: same_space_def)

lemma same_space_page: "PGROUNDDOWN v = PGROUNDDOWN va \<Longrightarrow> same_space pgd v = same_space pgd va"
  by (simp add: same_space_def fun_eq_iff)

lemma same_space_dir:
  assumes "same_space pgd va m m'"
  shows "i < 0x400 \<Longrightarrow> present m' pgd i = present m pgd i" "i < 0x400 \<Longrightarrow> tab m' pgd i = tab m pgd i"
    "pte_addr m' pgd vb = pte_addr m pgd vb" "pt_pages m' pgd = pt_pages m pgd" "pt_ok e m' pgd = pt_ok e m pgd"
proof -
  have p: "present m' pgd j = present m pgd j" and t: "tab m' pgd j = tab m pgd j" if "j < 0x400" for j
    using assms that by (simp_all add: same_space_def present_def tab_def)
  show "i < 0x400 \<Longrightarrow> present m' pgd i = present m pgd i" "i < 0x400 \<Longrightarrow> tab m' pgd i = tab m pgd i"
    "pte_addr m' pgd vb = pte_addr m pgd vb" by (simp_all add: p t pte_addr_def)
  show "pt_pages m' pgd = pt_pages m pgd" unfolding pt_pages_def by (metis p t)
  show "pt_ok e m' pgd = pt_ok e m pgd" using p t by (simp add: pt_ok_def)
qed

definition same_frame :: "32 word \<Rightarrow> 32 word \<Rightarrow> bool" where
  "same_frame e e' \<longleftrightarrow> PTE_ADDR e' = PTE_ADDR e \<and> unmapped e' = unmapped e"

lemma uvm_inv_same_frame:
  assumes inv: "uvm_inv s pgd ps" and sp: "same_space pgd va (mem s) m'"
    and fr: "same_frame (pte_at (mem s) pgd va) (pte_at m' pgd va)" and k: "kmem_inv (s\<lparr>mem := m'\<rparr>) ps"
  shows "uvm_inv (s\<lparr>mem := m'\<rparr>) pgd ps" "frame m' pgd = frame (mem s) pgd"
    "mapped m' pgd vb = mapped (mem s) pgd vb"
proof -
  have pt: "PTE_ADDR (pte_at m' pgd vb) = PTE_ADDR (pte_at (mem s) pgd vb) \<and>
      unmapped (pte_at m' pgd vb) = unmapped (pte_at (mem s) pgd vb)" for vb
  proof (cases "PGROUNDDOWN vb = PGROUNDDOWN va")
    case True
    then show ?thesis using fr pte_at_page [OF True] by (simp add: same_frame_def)
  next
    case False
    then show ?thesis using sp by (simp add: same_space_def)
  qed
  then show fm: "frame m' pgd = frame (mem s) pgd" by (simp add: frame_def fun_eq_iff)
  show "mapped m' pgd vb = mapped (mem s) pgd vb" using pt by simp
  have "frames_ok (kend s) m' pgd (set ps)"
    using uvm_invD(3) [OF inv] unfolding frames_ok_def fm same_space_dir(4) [OF sp] by (simp only: pt)
  with k inv show "uvm_inv (s\<lparr>mem := m'\<rparr>) pgd ps"
    by (simp add: uvm_inv_def vm_inv_def same_space_dir(4,5) [OF sp])
qed

lemma touch_pte:
  assumes inv: "uvm_inv s pgd ps" and pr: "present (mem s) pgd (PDX va)"
    and m': "m' = store32 (mem s) (pte_addr (mem s) pgd va) e'"
    and fr: "same_frame (pte_at (mem s) pgd va) e'"
  shows "same_space pgd va (mem s) m'" "pte_at m' pgd va = e'" "uvm_inv (s\<lparr>mem := m'\<rparr>) pgd ps"
    "PGROUNDDOWN a \<notin> pt_pages (mem s) pgd \<Longrightarrow> m' a = mem s a" "frame m' pgd = frame (mem s) pgd"
proof -
  have vi: "vm_inv s pgd ps" by (rule uvm_invD(1) [OF inv])
  have pt: "pt_ok (kend s) (mem s) pgd" using vi by (simp add: vm_inv_def)
  note g = grows_store [OF vi pr, of e']
  have e: "pte_at m' pgd vb = (if PGROUNDDOWN vb = PGROUNDDOWN va then e' else pte_at (mem s) pgd vb)" for vb
    using g(2) unfolding m' by simp
  show sp: "same_space pgd va (mem s) m'"
    using e store_pte_pde [OF pt pr] by (simp add: same_space_def m')
  show pv: "pte_at m' pgd va = e'" by (simp add: e)
  have "kmem_inv (s\<lparr>mem := m'\<rparr>) ps" using g(1) by (simp add: grows_def vm_inv_def m')
  from uvm_inv_same_frame [OF inv sp _ this] fr pv
  show "uvm_inv (s\<lparr>mem := m'\<rparr>) pgd ps" "frame m' pgd = frame (mem s) pgd" by simp_all
  have "tab (mem s) pgd (PDX va) \<in> pt_pages (mem s) pgd" by (rule tab_in_pt_pages [OF pr PDX_less])
  then show "PGROUNDDOWN a \<notin> pt_pages (mem s) pgd \<Longrightarrow> m' a = mem s a"
    unfolding m' by (intro store_pte_outside) auto
qed

lemma poke_frame:
  assumes inv: "uvm_inv s pgd ps" and f: "PGROUNDDOWN a \<in> user_frames (mem s) pgd"
  shows "uvm_inv (s\<lparr>mem := (mem s)(a := b)\<rparr>) pgd ps" "same_space pgd va (mem s) ((mem s)(a := b))"
    "pte_at ((mem s)(a := b)) pgd = pte_at (mem s) pgd"
proof -
  let ?m = "(mem s)(a := b)"
  have al: "page_aligned pgd" using uvm_invD(1) [OF inv] by (auto simp: vm_inv_def intro: pt_ok_aligned)
  have nf: "PGROUNDDOWN a \<notin> pt_pages (mem s) pgd" "PGROUNDDOWN a \<notin> set ps" using uvm_invD(4) [OF inv] f by auto
  then have eq: "?m x = mem s x" if "PGROUNDDOWN x \<in> pt_pages (mem s) pgd" for x using that by auto
  note fr = pt_frame [OF al, of "mem s" ?m, OF eq]
  show pte: "pte_at ?m pgd = pte_at (mem s) pgd" using fr(5) by blast
  show sp: "same_space pgd va (mem s) ?m" using fr(1) by (simp add: same_space_def pte)
  have "load32 ?m q = load32 (mem s) q" if q: "q \<in> set ps" for q
  proof (rule load32_page_cong)
    have al: "page_aligned q" using q uvm_invD(1) [OF inv] by (auto simp: vm_inv_def kmem_inv_def page_ok_def)
    then show "word_aligned q" by (rule page_word)
    fix x assume "PGROUNDDOWN x = PGROUNDDOWN q"
    then show "?m x = mem s x" using al q nf by (auto simp: PGROUNDDOWN_aligned)
  qed
  then have "chain ?m (freelist s) ps"
    using uvm_invD(1) [OF inv] by (simp add: vm_inv_def kmem_inv_def chain_cong [of ps ?m "mem s"])
  then have "kmem_inv (s\<lparr>mem := ?m\<rparr>) ps"
    using uvm_invD(1) [OF inv] by (simp add: vm_inv_def kmem_inv_def kmem_quiet_def)
  from uvm_inv_same_frame(1) [OF inv sp _ this] show "uvm_inv (s\<lparr>mem := ?m\<rparr>) pgd ps"
    by (simp add: same_frame_def pte)
qed

section \<open>One access\<close>

text \<open>Entries that differ in the accessed and the dirty bit only.\<close>

definition ad_eq :: "32 word \<Rightarrow> 32 word \<Rightarrow> bool" where
  "ad_eq e e' \<longleftrightarrow> e' AND NOT 0x60 = e AND NOT 0x60"

lemma ad_eq_refl [simp]: "ad_eq e e" by (simp add: ad_eq_def)

lemma ad_eq_trans: "ad_eq a b \<Longrightarrow> ad_eq b c \<Longrightarrow> ad_eq a c" by (simp add: ad_eq_def)

lemma ad_eq_and: "ad_eq e e' \<Longrightarrow> k AND NOT 0x60 = k \<Longrightarrow> e' AND k = e AND k"
proof -
  assume e: "ad_eq e e'" and k: "k AND NOT 0x60 = k"
  have "x AND k = (x AND NOT 0x60) AND k" for x
  proof -
    have "x AND k = x AND (k AND NOT 0x60)" unfolding k ..
    also have "\<dots> = (x AND NOT 0x60) AND k" by (simp only: and.assoc and.commute and.left_commute)
    finally show ?thesis .
  qed
  from this [of e] this [of e'] e show ?thesis by (simp only: ad_eq_def)
qed

lemma ad_eq_bits:
  assumes "ad_eq e e'"
  shows "PTE_ADDR e' = PTE_ADDR e" "unmapped e' = unmapped e" "allows w e' = allows w e" "same_frame e e'"
    "e' AND PTE_E = e AND PTE_E" "e' AND PTE_U = e AND PTE_U" "e' AND PTE_P = e AND PTE_P"
  using ad_eq_and [OF assms, of "NOT 0xFFF"] ad_eq_and [OF assms, of "0x401"] ad_eq_and [OF assms, of 1]
    ad_eq_and [OF assms, of 2] ad_eq_and [OF assms, of 4] ad_eq_and [OF assms, of "0x400"]
  by (simp_all add: PTE_ADDR_def unmapped_def allows_def same_frame_def)

lemma hw_ad_eq: "hw_ok hw \<Longrightarrow> ad_eq e (hw w e)"
  by (simp add: hw_ok_def ad_eq_def)

text \<open>A user page that the kernel can write.\<close>

definition page_rw :: "mem \<Rightarrow> addr \<Rightarrow> addr \<Rightarrow> bool" where
  "page_rw m pgd va \<longleftrightarrow> va < KERNBASE \<and> present m pgd (PDX va) \<and>
     load32 m (pgd + 4 * PDX va) AND PTE_W \<noteq> 0 \<and> allows True (pte_at m pgd va)"

lemma page_rw_mapped: "page_rw m pgd va \<Longrightarrow> mapped m pgd va"
proof -
  assume "page_rw m pgd va"
  then have "pte_at m pgd va AND PTE_P \<noteq> 0" by (simp add: page_rw_def allows_def)
  moreover have "(e AND (PTE_P OR PTE_E)) AND PTE_P = e AND PTE_P" for e :: "32 word" by (simp add: and.assoc)
  from this [of "pte_at m pgd va"] have "unmapped (pte_at m pgd va) \<Longrightarrow> pte_at m pgd va AND PTE_P = 0"
    by (simp add: unmapped_def)
  ultimately show ?thesis by blast
qed

lemma page_rw_frame:
  "page_rw m pgd va \<Longrightarrow> frame m pgd va \<in> user_frames m pgd"
  using page_rw_mapped by (auto simp: user_frames_def page_rw_def)

lemma page_rw_same:
  assumes "same_space pgd va m m'" "ad_eq (pte_at m pgd va) (pte_at m' pgd va)"
  shows "page_rw m' pgd va = page_rw m pgd va"
  using same_space_dir(1) [OF assms(1) PDX_less] assms ad_eq_bits(3) [OF assms(2)] PDX_less
  by (simp add: page_rw_def same_space_def)

lemma page_rw_page:
  assumes "PGROUNDDOWN va = PGROUNDDOWN vb"
  shows "page_rw m pgd va = page_rw m pgd vb"
proof -
  have "PDX va = PDX vb" using assms same_page_iff [of va vb] by simp
  moreover have "pte_at m pgd va = pte_at m pgd vb" using assms by (rule pte_at_page)
  moreover have "va < KERNBASE \<longleftrightarrow> vb < KERNBASE"
    using assms PGROUNDDOWN_less_KERNBASE [of va] PGROUNDDOWN_less_KERNBASE [of vb] by simp
  ultimately show ?thesis by (simp add: page_rw_def)
qed

lemma translate_ok:
  assumes "uvm_inv s pgd ps" "cr3 s = V2P pgd" "page_rw (mem s) pgd va"
  shows "translate hw w va s = Inr (frame (mem s) pgd va + OFFSET va,
    s\<lparr>mem := store32 (mem s) (pte_addr (mem s) pgd va) (hw w (pte_at (mem s) pgd va))\<rparr>)"
proof -
  have "page_aligned pgd" using uvm_invD(1) [OF assms(1)] by (auto simp: vm_inv_def intro: pt_ok_aligned)
  then have c: "P2V (PTE_ADDR (cr3 s)) = pgd"
    using assms(2) by (simp add: PTE_ADDR_PGROUNDDOWN PGROUNDDOWN_aligned)
  have pr: "present (mem s) pgd (PDX va)" and al: "allows w (pte_at (mem s) pgd va)"
    and w: "load32 (mem s) (pgd + 4 * PDX va) AND PTE_W \<noteq> 0"
    using assms(3) by (auto simp: page_rw_def allows_def)
  then have "pte_at (mem s) pgd va = load32 (mem s) (pte_addr (mem s) pgd va)"
    "P2V (PTE_ADDR (load32 (mem s) (pgd + 4 * PDX va))) + 4 * PTX va = pte_addr (mem s) pgd va"
    "allows w (load32 (mem s) (pgd + 4 * PDX va))"
    by (simp_all add: pte_at_def pte_addr_def tab_def present_def allows_def)
  with al show ?thesis by (simp add: translate_def c Let_def frame_def)
qed

text \<open>One turn of the flipping loop.\<close>

lemma frame_offset:
  "PGROUNDDOWN (frame m pgd va + OFFSET va) = frame m pgd va"
  by (rule PGROUNDDOWN_page) simp_all

lemma xor_step:
  assumes inv: "uvm_inv s pgd ps" and c: "cr3 s = V2P pgd" and rw: "page_rw (mem s) pgd va" and hw: "hw_ok hw"
  shows "\<exists>m'. bnd (vload hw va s) (\<lambda>(b, s). vstore hw va (b XOR 0xFF) s) = Inr (s\<lparr>mem := m'\<rparr>) \<and>
    uvm_inv (s\<lparr>mem := m'\<rparr>) pgd ps \<and> same_space pgd va (mem s) m' \<and>
    ad_eq (pte_at (mem s) pgd va) (pte_at m' pgd va) \<and>
    (\<forall>a. PGROUNDDOWN a \<notin> pt_pages (mem s) pgd \<longrightarrow>
      m' a = (if a = frame (mem s) pgd va + OFFSET va then mem s a XOR 0xFF else mem s a))"
proof -
  let ?e = "pte_at (mem s) pgd va" and ?f = "frame (mem s) pgd va" and ?a = "frame (mem s) pgd va + OFFSET va"
  let ?m1 = "store32 (mem s) (pte_addr (mem s) pgd va) (hw False ?e)"
  have pr: "present (mem s) pgd (PDX va)" using rw by (simp add: page_rw_def)
  have nf: "PGROUNDDOWN ?a \<notin> pt_pages (mem s) pgd"
    using uvm_invD(4) [OF inv] page_rw_frame [OF rw] frame_offset [of "mem s" pgd va] by auto
  note t1 = touch_pte [OF inv pr refl ad_eq_bits(4) [OF hw_ad_eq [OF hw, of _ False]]]
  have rw1: "page_rw ?m1 pgd va"
    using page_rw_same [OF t1(1)] rw t1(2) hw_ad_eq [OF hw] by simp
  let ?s1 = "s\<lparr>mem := ?m1\<rparr>"
  have l: "vload hw va s = Inr (mem s ?a, ?s1)"
    using translate_ok [OF inv c rw] t1(4) [OF nf] by (simp add: vload_def)
  have pr1: "present (mem ?s1) pgd (PDX va)" using rw1 by (simp add: page_rw_def)
  let ?e1 = "hw True (hw False ?e)"
  let ?m2 = "store32 ?m1 (pte_addr ?m1 pgd va) ?e1"
  have e1: "ad_eq (pte_at (mem ?s1) pgd va) ?e1" using t1(2) hw_ad_eq [OF hw] by simp
  note t2 = touch_pte [OF t1(3) pr1 refl ad_eq_bits(4) [OF e1]]
  have fm: "frame ?m1 pgd va = ?f" using t1(5) by (simp add: fun_eq_iff)
  have fm2: "frame ?m2 pgd va = ?f" using t2(5) fm by (simp add: fun_eq_iff)
  have st: "vstore hw va b ?s1 = Inr (s\<lparr>mem := ?m2(?a := b)\<rparr>)" for b
    using translate_ok [OF t1(3), of va hw True] c rw1 t1(2) fm by (simp add: vstore_def)
  have u2: "uvm_inv (s\<lparr>mem := ?m2\<rparr>) pgd ps" using t2(3) by simp
  have "frame ?m2 pgd va \<in> user_frames ?m2 pgd"
    by (rule page_rw_frame) (use page_rw_same [OF t2(1)] rw1 t2(2) e1 in simp)
  then have uf: "PGROUNDDOWN ?a \<in> user_frames (mem (s\<lparr>mem := ?m2\<rparr>)) pgd"
    using frame_offset [of "mem s" pgd va] fm2 by simp
  let ?b = "mem s ?a XOR 0xFF"
  note pk = poke_frame [OF u2 uf, where b = ?b]
  let ?m' = "?m2(?a := ?b)"
  have "bnd (vload hw va s) (\<lambda>(b, s). vstore hw va (b XOR 0xFF) s) = Inr (s\<lparr>mem := ?m'\<rparr>)"
    using l st by simp
  moreover have "uvm_inv (s\<lparr>mem := ?m'\<rparr>) pgd ps" using pk(1) by simp
  moreover have "same_space pgd va (mem s) ?m'"
  proof -
    have "same_space pgd va ?m1 ?m2" "same_space pgd va ?m2 ?m'"
      using t2(1) pk(2) [where va = va] by simp_all
    then show ?thesis using same_space_trans [OF t1(1)] same_space_trans by blast
  qed
  moreover have "ad_eq ?e (pte_at ?m' pgd va)"
  proof -
    have "pte_at ?m' pgd va = ?e1" using pk(3) t2(2) by (simp add: fun_eq_iff)
    then show ?thesis using ad_eq_trans [OF hw_ad_eq [OF hw] hw_ad_eq [OF hw]] by simp
  qed
  moreover have "?m' a = (if a = ?a then mem s a XOR 0xFF else mem s a)"
    if a: "PGROUNDDOWN a \<notin> pt_pages (mem s) pgd" for a
    using t1(4) [OF a] t2(4) [of a] a same_space_dir(4) [OF t1(1)] by simp
  ultimately show ?thesis by blast
qed

section \<open>Flipping a page\<close>

text \<open>
  \<open>flips pgd va j n m m'\<close>: between \<open>m\<close> and \<open>m'\<close> exactly the bytes \<open>j\<close> to \<open>j + n - 1\<close> of the frame of
  \<open>va\<close> were flipped, and the accessed and dirty bits of its entry may have changed.
\<close>

definition flips :: "addr \<Rightarrow> addr \<Rightarrow> nat \<Rightarrow> nat \<Rightarrow> mem \<Rightarrow> mem \<Rightarrow> bool" where
  "flips pgd va j n m m' \<longleftrightarrow> same_space pgd va m m' \<and> ad_eq (pte_at m pgd va) (pte_at m' pgd va) \<and>
     (\<forall>a. PGROUNDDOWN a \<notin> pt_pages m pgd \<longrightarrow>
        m' a = (if PGROUNDDOWN a = frame m pgd va \<and> j \<le> unat (OFFSET a) \<and> unat (OFFSET a) < j + n
                then m a XOR 0xFF else m a))"

lemma flipsD:
  assumes "flips pgd va j n m m'"
  shows "same_space pgd va m m'" "ad_eq (pte_at m pgd va) (pte_at m' pgd va)"
    "PGROUNDDOWN a \<notin> pt_pages m pgd \<Longrightarrow> m' a =
      (if PGROUNDDOWN a = frame m pgd va \<and> j \<le> unat (OFFSET a) \<and> unat (OFFSET a) < j + n
       then m a XOR 0xFF else m a)"
    "frame m' pgd va = frame m pgd va"
  using assms ad_eq_bits(1) [of "pte_at m pgd va" "pte_at m' pgd va"] by (simp_all add: flips_def frame_def)

lemma flips_trans:
  assumes 1: "flips pgd va j n m m1" and 2: "flips pgd va (j + n) k m1 m2"
  shows "flips pgd va j (n + k) m m2"
proof -
  note d1 = flipsD [OF 1] and d2 = flipsD [OF 2]
  have "m2 a = (if PGROUNDDOWN a = frame m pgd va \<and> j \<le> unat (OFFSET a) \<and> unat (OFFSET a) < j + (n + k)
      then m a XOR 0xFF else m a)" if a: "PGROUNDDOWN a \<notin> pt_pages m pgd" for a
    using d1(3) [OF a] d2(3) [of a] a d1(4) same_space_dir(4) [OF d1(1)] by auto
  then show ?thesis
    using same_space_trans [OF d1(1) d2(1)] ad_eq_trans [OF d1(2) d2(2)] by (simp add: flips_def)
qed

lemma page_offset_eq:
  assumes "page_aligned f" "j < 4096"
  shows "a = f + of_nat j \<longleftrightarrow> PGROUNDDOWN a = f \<and> unat (OFFSET a) = j"
proof -
  have "(of_nat j :: addr) < PGSIZE" using assms(2) by (simp add: word_less_nat_alt unat_of_nat)
  then have p: "PGROUNDDOWN (f + of_nat j) = f" "OFFSET (f + of_nat j) = of_nat j"
    using PGROUNDDOWN_page [OF assms(1)] by auto
  show ?thesis
  proof
    assume "a = f + of_nat j"
    with p assms(2) show "PGROUNDDOWN a = f \<and> unat (OFFSET a) = j" by (simp add: unat_of_nat)
  next
    assume r: "PGROUNDDOWN a = f \<and> unat (OFFSET a) = j"
    then have "OFFSET a = of_nat j" by auto
    then show "a = f + of_nat j" using r PGROUNDDOWN_OFFSET [of a] by simp
  qed
qed

lemma xor_loop_flips:
  assumes "uvm_inv s pgd ps" "cr3 s = V2P pgd" "page_rw (mem s) pgd va" "hw_ok hw" "page_aligned va" "j + n \<le> 4096"
  shows "\<exists>m'. xor_loop hw n (va + of_nat j) s = Inr (s\<lparr>mem := m'\<rparr>) \<and> uvm_inv (s\<lparr>mem := m'\<rparr>) pgd ps \<and>
    flips pgd va j n (mem s) m'"
  using assms
proof (induction n arbitrary: s j)
  case 0
  have "s\<lparr>mem := mem s\<rparr> = s" by simp
  moreover have "flips pgd va j 0 (mem s) (mem s)" by (auto simp: flips_def)
  ultimately show ?case using "0.prems"(1) by (intro exI [of _ "mem s"]) simp
next
  case (Suc n)
  let ?v = "va + of_nat j"
  have j: "j < 4096" using Suc.prems(6) by simp
  have pv: "PGROUNDDOWN ?v = va" "unat (OFFSET ?v) = j"
    using page_offset_eq [OF Suc.prems(5) j, of ?v] by auto
  have pg: "PGROUNDDOWN va = va" using Suc.prems(5) by (rule PGROUNDDOWN_aligned)
  have same: "pte_at m pgd ?v = pte_at m pgd va" "frame m pgd ?v = frame m pgd va" for m
    using pte_at_page [of ?v va m pgd] pv pg by (simp_all add: frame_def)
  have rw: "page_rw (mem s) pgd ?v" using page_rw_page [of ?v va] pv(1) pg Suc.prems(3) by simp
  from xor_step [OF Suc.prems(1,2) rw Suc.prems(4)] obtain m1 where
    m1: "bnd (vload hw ?v s) (\<lambda>(b, s). vstore hw ?v (b XOR 0xFF) s) = Inr (s\<lparr>mem := m1\<rparr>)"
      "uvm_inv (s\<lparr>mem := m1\<rparr>) pgd ps" "same_space pgd ?v (mem s) m1"
      "ad_eq (pte_at (mem s) pgd ?v) (pte_at m1 pgd ?v)"
      "\<forall>a. PGROUNDDOWN a \<notin> pt_pages (mem s) pgd \<longrightarrow>
        m1 a = (if a = frame (mem s) pgd ?v + OFFSET ?v then mem s a XOR 0xFF else mem s a)"
    by blast
  have off: "OFFSET ?v = of_nat j" using arg_cong [OF pv(2), of "of_nat :: nat \<Rightarrow> addr"] by simp
  have sp: "same_space pgd va (mem s) m1" using m1(3) pv pg by (simp add: same_space_def)
  have f1: "flips pgd va j 1 (mem s) m1"
    unfolding flips_def
  proof (intro conjI allI impI)
    show "same_space pgd va (mem s) m1" by (rule sp)
    show "ad_eq (pte_at (mem s) pgd va) (pte_at m1 pgd va)" using m1(4) by (simp add: same)
    fix a assume a: "PGROUNDDOWN a \<notin> pt_pages (mem s) pgd"
    have "a = frame (mem s) pgd ?v + OFFSET ?v \<longleftrightarrow>
        PGROUNDDOWN a = frame (mem s) pgd va \<and> j \<le> unat (OFFSET a) \<and> unat (OFFSET a) < j + 1"
      unfolding off same(2) using page_offset_eq [OF frame_aligned j, of a "mem s" pgd va] by auto
    with m1(5) a show "m1 a = (if PGROUNDDOWN a = frame (mem s) pgd va \<and> j \<le> unat (OFFSET a) \<and>
        unat (OFFSET a) < j + 1 then mem s a XOR 0xFF else mem s a)" by simp
  qed
  have rw1: "page_rw (mem (s\<lparr>mem := m1\<rparr>)) pgd va"
    using page_rw_same [OF sp flipsD(2) [OF f1]] Suc.prems(3) by simp
  have "\<exists>m'. xor_loop hw n (va + of_nat (j + 1)) (s\<lparr>mem := m1\<rparr>) = Inr (s\<lparr>mem := m1\<rparr>\<lparr>mem := m'\<rparr>) \<and>
      uvm_inv (s\<lparr>mem := m1\<rparr>\<lparr>mem := m'\<rparr>) pgd ps \<and> flips pgd va (j + 1) n (mem (s\<lparr>mem := m1\<rparr>)) m'"
    by (rule Suc.IH) (use m1(2) rw1 Suc.prems in simp_all)
  then obtain m2 where m2: "xor_loop hw n (?v + 1) (s\<lparr>mem := m1\<rparr>) = Inr (s\<lparr>mem := m2\<rparr>)"
    "uvm_inv (s\<lparr>mem := m2\<rparr>) pgd ps" "flips pgd va (j + 1) n m1 m2"
    by (auto simp: algebra_simps)
  have "xor_loop hw (Suc n) ?v s =
      bnd (bnd (vload hw ?v s) (\<lambda>(b, s). vstore hw ?v (b XOR 0xFF) s)) (\<lambda>s. xor_loop hw n (?v + 1) s)"
    by (cases "vload hw ?v s") auto
  then have "xor_loop hw (Suc n) ?v s = Inr (s\<lparr>mem := m2\<rparr>)" using m1(1) m2(1) by simp
  moreover have "flips pgd va j (Suc n) (mem s) m2" using flips_trans [OF f1 m2(3)] by simp
  ultimately show ?case using m2(2) by blast
qed

section \<open>Encrypting a page\<close>

text \<open>Process \<open>p\<close> runs on this processor, in its own address space.\<close>

definition runs :: "'a kproc_scheme \<Rightarrow> nat \<Rightarrow> addr \<Rightarrow> addr list \<Rightarrow> bool" where
  "runs s p pgd ps \<longleftrightarrow> cproc (kcpu s) = Some p \<and> p < length (ptable s) \<and> pgdir (ptable s ! p) = pgd \<and>
     kstack (ptable s ! p) \<noteq> 0 \<and> cr3 s = V2P pgd \<and> uvm_inv s pgd ps"

lemma runsD:
  assumes "runs s p pgd ps"
  shows "cproc (kcpu s) = Some p" "p < length (ptable s)" "pgdir (ptable s ! p) = pgd"
    "kstack (ptable s ! p) \<noteq> 0" "cr3 s = V2P pgd" "uvm_inv s pgd ps" "cpu_ok (kcpu s)" "pgd \<noteq> 0"
    "curproc s = Inr (p, s)" "pt_ok (kend s) (mem s) pgd"
proof -
  show 1: "cproc (kcpu s) = Some p" "p < length (ptable s)" "pgdir (ptable s ! p) = pgd"
    "kstack (ptable s ! p) \<noteq> 0" "cr3 s = V2P pgd" "uvm_inv s pgd ps"
    using assms by (simp_all add: runs_def)
  show pt: "pt_ok (kend s) (mem s) pgd" and c: "cpu_ok (kcpu s)"
    using uvm_invD(1) [OF 1(6)] by (simp_all add: vm_inv_def kmem_inv_def kmem_quiet_def)
  show "curproc s = Inr (p, s)" using c 1(1) by (rule curproc_ok)
  show "pgd \<noteq> 0" using pt page_ok_nonnull by (auto simp: pt_ok_def)
qed

lemma runs_mem: "runs s p pgd ps \<Longrightarrow> uvm_inv (s\<lparr>mem := m'\<rparr>) pgd ps \<Longrightarrow> runs (s\<lparr>mem := m'\<rparr>) p pgd ps"
  by (simp add: runs_def)

text \<open>What \<^verbatim>\<open>uva2ka\<close> answers when the page table exists.\<close>

lemma uva2ka_present:
  assumes "pt_ok e (mem s) pgd" "present (mem s) pgd (PDX va)"
  shows "uva2ka pgd va s = Inr (if unmapped (pte_at (mem s) pgd va) \<or> pte_at (mem s) pgd va AND PTE_U = 0
    then 0 else frame (mem s) pgd va)"
proof -
  have "(e AND PTE_P) OR (e AND PTE_E) = e AND (PTE_P OR PTE_E)" for e :: "32 word"
    by (simp only: bit.conj_disj_distrib)
  moreover have "pte_at (mem s) pgd va = load32 (mem s) (pte_addr (mem s) pgd va)"
    using assms(2) by (simp add: pte_at_def)
  ultimately show ?thesis
    using pte_addr_nonnull [OF assms] walk_present [OF assms(2), of False]
    by (simp add: uva2ka_def unmapped_def frame_def Let_def)
qed

lemma frame_nonnull:
  assumes "uvm_inv s pgd ps" "va < KERNBASE" "mapped (mem s) pgd va"
  shows "frame (mem s) pgd va \<noteq> 0"
  using uvm_invD(2,3) [OF assms(1)] assms(2,3) by (auto simp: frames_ok_def page_ok_def)

definition encrypted_pte :: "32 word \<Rightarrow> 32 word" where
  "encrypted_pte e = (e OR PTE_E) AND NOT PTE_P AND NOT PTE_A"

lemma flag_bits:
  "x AND PTE_P = 0 \<longleftrightarrow> \<not> bit x 0" "x AND PTE_W = 0 \<longleftrightarrow> \<not> bit x 1" "x AND PTE_U = 0 \<longleftrightarrow> \<not> bit x 2"
  "x AND PTE_A = 0 \<longleftrightarrow> \<not> bit x 5" "x AND PTE_E = 0 \<longleftrightarrow> \<not> bit x 10" for x :: "32 word"
  using and_exp_eq_0_iff_not_bit [of x 0] and_exp_eq_0_iff_not_bit [of x 1] and_exp_eq_0_iff_not_bit [of x 2]
    and_exp_eq_0_iff_not_bit [of x 5] and_exp_eq_0_iff_not_bit [of x 10] by simp_all

lemma unmapped_bits: "unmapped e \<longleftrightarrow> \<not> bit e 0 \<and> \<not> bit e 10"
proof -
  have "unmapped e \<longleftrightarrow> (e AND PTE_P) OR (e AND PTE_E) = 0"
    by (simp only: unmapped_def bit.conj_disj_distrib)
  then show ?thesis by (simp add: or_eq_0_iff flag_bits)
qed

lemma bit_encrypted_pte: "bit (encrypted_pte e) n \<longleftrightarrow> (bit e n \<or> n = 10) \<and> n \<noteq> 0 \<and> n \<noteq> 5"
proof -
  have *: "bit ((x OR 2 ^ a) AND NOT (2 ^ b) AND NOT (2 ^ c)) n \<longleftrightarrow> (bit x n \<or> n = a) \<and> n \<noteq> b \<and> n \<noteq> c"
    if "a < 32" for x :: "32 word" and a b c
    using that by (auto simp: bit_simps dest: bit32)
  show ?thesis using * [of 10 e 0 5] by (simp add: encrypted_pte_def)
qed

lemma PTE_ADDR_bits: "PTE_ADDR x = PTE_ADDR y \<longleftrightarrow> (\<forall>n \<ge> 12. bit x n = bit y n)"
proof -
  have "bit (PTE_ADDR z) n \<longleftrightarrow> 12 \<le> n \<and> bit z n" for z n
    unfolding PTE_ADDR_def mask12 by (auto simp: bit_simps dest: bit32)
  then have "PTE_ADDR x = PTE_ADDR y \<longleftrightarrow> (\<forall>n < 32. 12 \<le> n \<longrightarrow> bit x n = bit y n)"
    by (auto simp: bit_eq_iff)
  then show ?thesis using bit32 by blast
qed

lemma encrypted_pte_bits:
  "PTE_ADDR (encrypted_pte e) = PTE_ADDR e" "\<not> unmapped (encrypted_pte e)" "encrypted_pte e AND PTE_E \<noteq> 0"
  "encrypted_pte e AND PTE_P = 0" "encrypted_pte e AND PTE_U = 0 \<longleftrightarrow> e AND PTE_U = 0"
  "encrypted_pte e AND PTE_W = 0 \<longleftrightarrow> e AND PTE_W = 0"
  by (simp_all add: PTE_ADDR_bits unmapped_bits flag_bits bit_encrypted_pte)

lemma encrypted_pte_num: "encrypted_pte e = ((e OR 0x400) AND - 2) AND - 33"
  by (simp add: encrypted_pte_def and.assoc)

text \<open>
  \<open>crypts pgd va m m'\<close>: the page of \<open>va\<close> went from plain to encrypted. Its bytes are flipped, its entry
  lost the present bit and got the encrypted bit; nothing else changed.
\<close>

definition crypts :: "addr \<Rightarrow> addr \<Rightarrow> mem \<Rightarrow> mem \<Rightarrow> bool" where
  "crypts pgd va m m' \<longleftrightarrow> same_space pgd va m m' \<and>
     (\<exists>e. ad_eq (pte_at m pgd va) e \<and> pte_at m' pgd va = encrypted_pte e) \<and>
     (\<forall>a. PGROUNDDOWN a \<notin> pt_pages m pgd \<longrightarrow>
        m' a = (if PGROUNDDOWN a = frame m pgd va then m a XOR 0xFF else m a))"

lemma mencrypt_plain:
  assumes r: "runs s p pgd ps" and hw: "hw_ok hw" and rw: "page_rw (mem s) pgd va"
    and u: "pte_at (mem s) pgd va AND PTE_U \<noteq> 0" and e: "pte_at (mem s) pgd va AND PTE_E = 0"
  shows "\<exists>m'. mencrypt_stage hw pgd (Suc n) (PGROUNDDOWN va) s = Inr (0, s\<lparr>mem := m'\<rparr>) \<and>
    runs (s\<lparr>mem := m'\<rparr>) p pgd ps \<and> crypts pgd va (mem s) m'"
proof -
  let ?v = "PGROUNDDOWN va"
  have pv: "PGROUNDDOWN ?v = PGROUNDDOWN va" by (simp add: PGROUNDDOWN_aligned)
  have sv: "pte_at m pgd ?v = pte_at m pgd va" "frame m pgd ?v = frame m pgd va" for m
    using pte_at_page [OF pv] by (simp_all add: frame_def)
  note d = runsD [OF r]
  have rwv: "page_rw (mem s) pgd ?v" using page_rw_page [OF pv] rw by simp
  then have pr: "present (mem s) pgd (PDX ?v)" and vk: "?v < KERNBASE" by (simp_all add: page_rw_def)
  obtain m1 where m1: "xor_loop hw 4096 (?v + of_nat 0) s = Inr (s\<lparr>mem := m1\<rparr>)"
    "uvm_inv (s\<lparr>mem := m1\<rparr>) pgd ps" "flips pgd ?v 0 4096 (mem s) m1"
    using xor_loop_flips [OF d(6,5) rwv hw, of 0 4096] by auto
  note f = flipsD [OF m1(3)]
  let ?s1 = "s\<lparr>mem := m1\<rparr>" and ?e1 = "pte_at m1 pgd ?v"
  have r1: "runs ?s1 p pgd ps" using r m1(2) by (rule runs_mem)
  note d1 = runsD [OF r1]
  have pr1: "present (mem ?s1) pgd (PDX ?v)" using same_space_dir(1) [OF f(1) PDX_less] pr by simp
  have e1: "load32 m1 (pte_addr m1 pgd ?v) = ?e1" using pr1 by (simp add: pte_at_def)
  have b1: "?e1 AND PTE_E = 0" "?e1 AND PTE_U \<noteq> 0" "?e1 AND PTE_P \<noteq> 0"
    using ad_eq_bits(5,6,7) [OF f(2)] e u rwv by (simp_all add: sv page_rw_def allows_def)
  let ?m2 = "store32 m1 (pte_addr m1 pgd ?v) (encrypted_pte ?e1)"
  have sf: "same_frame (pte_at (mem ?s1) pgd ?v) (encrypted_pte ?e1)"
  proof -
    have "\<not> unmapped ?e1"
      using page_rw_mapped [OF rwv] ad_eq_bits(2) [OF f(2)] by simp
    then show ?thesis by (simp add: same_frame_def encrypted_pte_bits)
  qed
  note t = touch_pte [OF m1(2) pr1 refl sf]
  have nn: "frame m1 pgd ?v \<noteq> 0"
    using frame_nonnull [OF m1(2), of ?v] vk page_rw_mapped [OF rwv] ad_eq_bits(2) [OF f(2)] by simp
  have tas: "translate_and_set pgd ?v ?s1 = Inr (frame m1 pgd ?v, s\<lparr>mem := ?m2\<rparr>)"
    using walk_present [OF pr1, of False] pte_addr_nonnull [OF d1(10) pr1] e1 b1
    by (simp add: translate_and_set_def encrypted_pte_num [symmetric] encrypted_pte_bits(1) frame_def Let_def)
  have ld: "load32 (mem s) (pte_addr (mem s) pgd ?v) = pte_at (mem s) pgd va"
    using pr sv(1) [of "mem s"] by (simp add: pte_at_def [of "mem s" pgd ?v])
  have "mencrypt_stage hw pgd (Suc n) ?v s = Inr (0, s\<lparr>mem := ?m2\<rparr>)"
    using uva2ka_present [OF d(10) pr] walk_present [OF pr, of False] pte_addr_nonnull [OF d(10) pr]
      m1(1) tas nn ld e by simp
  moreover have "runs (s\<lparr>mem := ?m2\<rparr>) p pgd ps" using runs_mem [OF r] t(3) by simp
  moreover have "crypts pgd va (mem s) ?m2"
  proof -
    have "same_space pgd va (mem s) ?m2"
      unfolding same_space_page [OF pv, symmetric]
      by (rule same_space_trans [OF f(1)]) (use t(1) in simp)
    moreover have "pte_at ?m2 pgd va = encrypted_pte ?e1" using t(2) by (simp add: sv)
    moreover have "ad_eq (pte_at (mem s) pgd va) ?e1" using f(2) by (simp add: sv)
    moreover have "?m2 a = (if PGROUNDDOWN a = frame (mem s) pgd va then mem s a XOR 0xFF else mem s a)"
      if a: "PGROUNDDOWN a \<notin> pt_pages (mem s) pgd" for a
    proof -
      have "unat (OFFSET a) < 4096" using OFFSET_less [of a] by (simp add: word_less_nat_alt)
      then show ?thesis using f(3) [OF a] t(4) [of a] a same_space_dir(4) [OF f(1)] by (simp add: sv)
    qed
    ultimately show ?thesis unfolding crypts_def by blast
  qed
  ultimately show ?thesis by blast
qed

lemma mencrypt_first:
  assumes r: "runs s p pgd ps" and hw: "hw_ok hw" and rw: "page_rw (mem s) pgd va"
    and u: "pte_at (mem s) pgd va AND PTE_U \<noteq> 0" and e: "pte_at (mem s) pgd va AND PTE_E = 0"
    and len: "0 < len" and chk: "mencrypt_check pgd (nat len) (PGROUNDDOWN va) s = Inr True"
  shows "\<exists>m'. mencrypt hw va len s = Inr (0, s\<lparr>mem := m'\<rparr>) \<and>
    runs (s\<lparr>mem := m'\<rparr>) p pgd ps \<and> crypts pgd va (mem s) m'"
proof -
  obtain n where n: "nat len = Suc n" using len by (cases "nat len") auto
  have "mencrypt hw va len s = mencrypt_stage hw pgd (Suc n) (PGROUNDDOWN va) s"
    using runsD(3,9) [OF r] chk n
    by (simp add: mencrypt_def Let_def del: mencrypt_check.simps mencrypt_stage.simps)
  then show ?thesis using mencrypt_plain [OF r hw rw u e, of n] by simp
qed

lemma mencrypt_check_one:
  assumes r: "runs s p pgd ps" and va: "va < KERNBASE" and pr: "present (mem s) pgd (PDX va)"
    and m: "mapped (mem s) pgd va" and u: "pte_at (mem s) pgd va AND PTE_U \<noteq> 0"
  shows "mencrypt_check pgd (Suc 0) (PGROUNDDOWN va) s = Inr True"
proof -
  let ?v = "PGROUNDDOWN va"
  have pv: "PGROUNDDOWN ?v = PGROUNDDOWN va" by (simp add: PGROUNDDOWN_aligned)
  have sv: "pte_at (mem s) pgd ?v = pte_at (mem s) pgd va" "PDX ?v = PDX va"
    using pte_at_page [OF pv] same_page_iff [of ?v va] pv by simp_all
  have "?v < KERNBASE" using va PGROUNDDOWN_less_KERNBASE by simp
  then have "frame (mem s) pgd ?v \<noteq> 0" using frame_nonnull [OF runsD(6) [OF r]] m sv by simp
  then show ?thesis using uva2ka_present [OF runsD(10) [OF r], of ?v] pr m u sv by simp
qed

section \<open>Decrypting a page\<close>

definition decrypted_pte :: "32 word \<Rightarrow> 32 word" where
  "decrypted_pte e = (e AND NOT PTE_E) OR PTE_P"

lemma bit_decrypted_pte: "bit (decrypted_pte e) n \<longleftrightarrow> (bit e n \<and> n \<noteq> 10) \<or> n = 0"
proof -
  have *: "bit ((x AND NOT (2 ^ a)) OR 2 ^ b) n \<longleftrightarrow> (bit x n \<and> n \<noteq> a) \<or> n = b"
    if "b < 32" for x :: "32 word" and a b
    using that by (auto simp: bit_simps dest: bit32)
  show ?thesis using * [of 0 e 10] by (simp add: decrypted_pte_def)
qed

lemma decrypted_pte_bits:
  "PTE_ADDR (decrypted_pte e) = PTE_ADDR e" "\<not> unmapped (decrypted_pte e)" "decrypted_pte e AND PTE_E = 0"
  "decrypted_pte e AND PTE_P \<noteq> 0" "decrypted_pte e AND PTE_U = 0 \<longleftrightarrow> e AND PTE_U = 0"
  "decrypted_pte e AND PTE_W = 0 \<longleftrightarrow> e AND PTE_W = 0"
  by (simp_all add: PTE_ADDR_bits unmapped_bits flag_bits bit_decrypted_pte)

text \<open>
  \<open>decrypts pgd va m m'\<close>: the page of \<open>va\<close> is present and not encrypted, its bytes are flipped, and
  nothing else changed.
\<close>

definition decrypts :: "addr \<Rightarrow> addr \<Rightarrow> mem \<Rightarrow> mem \<Rightarrow> bool" where
  "decrypts pgd va m m' \<longleftrightarrow> same_space pgd va m m' \<and>
     ad_eq (decrypted_pte (pte_at m pgd va)) (pte_at m' pgd va) \<and>
     (\<forall>a. PGROUNDDOWN a \<notin> pt_pages m pgd \<longrightarrow>
        m' a = (if PGROUNDDOWN a = frame m pgd va then m a XOR 0xFF else m a))"

text \<open>The part of \<^verbatim>\<open>mdecrypt\<close> after the queue was updated.\<close>

definition mdecrypt_tail :: "hw_walk \<Rightarrow> addr \<Rightarrow> addr \<Rightarrow> addr \<Rightarrow> 'a kproc_scheme \<Rightarrow> (int \<times> 'a kproc_scheme) res" where
  "mdecrypt_tail hw mypd pte va s =
     (let e = load32 (mem s) pte AND NOT PTE_E; e = e OR PTE_P;
          s = s\<lparr>mem := store32 (mem s) pte e\<rparr> in
      bnd (uva2ka mypd va s) (\<lambda>_.
        let va = PGROUNDDOWN va in
        bnd (uva2ka mypd va s) (\<lambda>kvp.
          if kvp = 0 \<or> mem s kvp = 0 then Inr (-1, s)
          else bnd (xor_loop hw 4096 va s) (\<lambda>s. Inr (0, s)))))"

lemma mdecrypt_split:
  assumes "curproc s = Inr (p, s)" "walkpgdir (pgdir (ptable s ! p)) va False s = Inr (pte, s)" "pte \<noteq> 0"
    "load32 (mem s) pte \<noteq> 0"
    "(if inQ (ptable s ! p) va = -1 then addClock hw p va s else Inr s) = Inr s1"
  shows "mdecrypt hw va s = mdecrypt_tail hw (pgdir (ptable s ! p)) pte va s1"
  using assms by (simp add: mdecrypt_def mdecrypt_tail_def Let_def)

lemma mdecrypt_tail_ok:
  assumes r: "runs s p pgd ps" and hw: "hw_ok hw" and va: "va < KERNBASE"
    and pr: "present (mem s) pgd (PDX va)" and w: "load32 (mem s) (pgd + 4 * PDX va) AND PTE_W \<noteq> 0"
    and m: "mapped (mem s) pgd va"
    and u: "pte_at (mem s) pgd va AND PTE_U \<noteq> 0" "pte_at (mem s) pgd va AND PTE_W \<noteq> 0"
  shows "mem s (frame (mem s) pgd va) \<noteq> 0 \<Longrightarrow>
      \<exists>m'. mdecrypt_tail hw pgd (pte_addr (mem s) pgd va) va s = Inr (0, s\<lparr>mem := m'\<rparr>) \<and>
        runs (s\<lparr>mem := m'\<rparr>) p pgd ps \<and> decrypts pgd va (mem s) m'"
    and "mem s (frame (mem s) pgd va) = 0 \<Longrightarrow>
      \<exists>m'. mdecrypt_tail hw pgd (pte_addr (mem s) pgd va) va s = Inr (-1, s\<lparr>mem := m'\<rparr>) \<and>
        same_space pgd va (mem s) m' \<and> pte_at m' pgd va = decrypted_pte (pte_at (mem s) pgd va) \<and>
        (\<forall>a. PGROUNDDOWN a \<notin> pt_pages (mem s) pgd \<longrightarrow> m' a = mem s a)"
proof -
  let ?v = "PGROUNDDOWN va" and ?e = "pte_at (mem s) pgd va"
  have pv: "PGROUNDDOWN ?v = PGROUNDDOWN va" by (simp add: PGROUNDDOWN_aligned)
  have sv: "pte_at m pgd ?v = pte_at m pgd va" "frame m pgd ?v = frame m pgd va" "PDX ?v = PDX va" for m
    using pte_at_page [OF pv] same_page_iff [of ?v va] pv by (simp_all add: frame_def)
  note d = runsD [OF r]
  let ?m1 = "store32 (mem s) (pte_addr (mem s) pgd va) (decrypted_pte ?e)"
  let ?s1 = "s\<lparr>mem := ?m1\<rparr>"
  have sf: "same_frame ?e (decrypted_pte ?e)" using m by (simp add: same_frame_def decrypted_pte_bits)
  note t = touch_pte [OF d(6) pr refl sf]
  have r1: "runs ?s1 p pgd ps" using r t(3) by (rule runs_mem)
  note d1 = runsD [OF r1]
  have pr1: "present (mem ?s1) pgd (PDX va)" "present (mem ?s1) pgd (PDX ?v)"
    using same_space_dir(1) [OF t(1) PDX_less] pr sv by simp_all
  have fm: "frame ?m1 pgd va = frame (mem s) pgd va" using t(5) by simp
  have nn: "frame (mem s) pgd va \<noteq> 0" using frame_nonnull [OF d(6) va m] .
  have uf: "frame (mem s) pgd va \<in> user_frames (mem s) pgd" using va m by (auto simp: user_frames_def)
  then have nf: "frame (mem s) pgd va \<notin> pt_pages (mem s) pgd" using uvm_invD(4) [OF d(6)] by auto
  have fb: "?m1 (frame (mem s) pgd va) = mem s (frame (mem s) pgd va)"
    by (rule t(4)) (use nf in \<open>simp add: PGROUNDDOWN_aligned\<close>)
  have ka: "uva2ka pgd va ?s1 = Inr (frame (mem s) pgd va)" "uva2ka pgd ?v ?s1 = Inr (frame (mem s) pgd va)"
    using uva2ka_present [OF d1(10) pr1(1)] uva2ka_present [OF d1(10) pr1(2)] t(2) sv u
    by (simp_all add: decrypted_pte_bits fm)
  have ld: "load32 (mem s) (pte_addr (mem s) pgd va) = ?e" using pr by (simp add: pte_at_def)
  have tail: "mdecrypt_tail hw pgd (pte_addr (mem s) pgd va) va s =
      (if mem s (frame (mem s) pgd va) = 0 then Inr (-1, ?s1)
       else bnd (xor_loop hw 4096 ?v ?s1) (\<lambda>s. Inr (0, s)))"
    using ka nn fb unfolding mdecrypt_tail_def Let_def ld decrypted_pte_def [symmetric] by simp
  show "\<exists>m'. mdecrypt_tail hw pgd (pte_addr (mem s) pgd va) va s = Inr (-1, s\<lparr>mem := m'\<rparr>) \<and>
        same_space pgd va (mem s) m' \<and> pte_at m' pgd va = decrypted_pte ?e \<and>
        (\<forall>a. PGROUNDDOWN a \<notin> pt_pages (mem s) pgd \<longrightarrow> m' a = mem s a)"
    if "mem s (frame (mem s) pgd va) = 0"
    using tail that t(1,2,4) by (intro exI [of _ ?m1]) simp
  show "\<exists>m'. mdecrypt_tail hw pgd (pte_addr (mem s) pgd va) va s = Inr (0, s\<lparr>mem := m'\<rparr>) \<and>
        runs (s\<lparr>mem := m'\<rparr>) p pgd ps \<and> decrypts pgd va (mem s) m'"
    if nz: "mem s (frame (mem s) pgd va) \<noteq> 0"
  proof -
    have "page_rw (mem ?s1) pgd va"
      using va pr1(1) w t(1,2) u(2) by (simp add: page_rw_def allows_def decrypted_pte_bits same_space_def)
    then have rw1: "page_rw (mem ?s1) pgd ?v" using page_rw_page [OF pv] by simp
    obtain m2 where m2: "xor_loop hw 4096 (?v + of_nat 0) ?s1 = Inr (?s1\<lparr>mem := m2\<rparr>)"
      "uvm_inv (?s1\<lparr>mem := m2\<rparr>) pgd ps" "flips pgd ?v 0 4096 (mem ?s1) m2"
      using xor_loop_flips [OF d1(6,5) rw1 hw, of 0 4096] by auto
    note f = flipsD [OF m2(3)]
    have "same_space pgd va (mem s) m2"
      using f(1) unfolding same_space_page [OF pv] by (intro same_space_trans [OF t(1)]) simp
    moreover have "ad_eq (decrypted_pte ?e) (pte_at m2 pgd va)" using f(2) t(2) by (simp add: sv)
    moreover have "m2 a = (if PGROUNDDOWN a = frame (mem s) pgd va then mem s a XOR 0xFF else mem s a)"
      if a: "PGROUNDDOWN a \<notin> pt_pages (mem s) pgd" for a
    proof -
      have "unat (OFFSET a) < 4096" using OFFSET_less [of a] by (simp add: word_less_nat_alt)
      then show ?thesis using f(3) [of a] t(4) [OF a] a same_space_dir(4) [OF t(1)] fm by (simp add: sv)
    qed
    ultimately have "decrypts pgd va (mem s) m2" by (simp add: decrypts_def)
    moreover have "runs (s\<lparr>mem := m2\<rparr>) p pgd ps" using runs_mem [OF r1 m2(2)] by simp
    ultimately show ?thesis using tail nz m2(1) by (intro exI [of _ m2]) simp
  qed
qed

section \<open>The queue\<close>

lemma uvm_inv_ptable [simp]: "uvm_inv (s\<lparr>ptable := x\<rparr>) pgd ps = uvm_inv s pgd ps"
  by (simp add: uvm_inv_def vm_inv_def kmem_inv_def kmem_quiet_def)

lemma upd_proc_sels [simp]:
  "mem (upd_proc i f s) = mem s" "kcpu (upd_proc i f s) = kcpu s" "cr3 (upd_proc i f s) = cr3 s"
  "length (ptable (upd_proc i f s)) = length (ptable s)" "kend (upd_proc i f s) = kend s"
  by (simp_all add: upd_proc_def)

lemma ptable_upd_proc: "i < length (ptable s) \<Longrightarrow> ptable (upd_proc i f s) ! i = f (ptable s ! i)"
  by (simp add: upd_proc_def)

lemma runs_upd:
  assumes "runs s p pgd ps" "\<And>q. pgdir (f q) = pgdir q" "\<And>q. kstack (f q) = kstack q"
  shows "runs (upd_proc p f s) p pgd ps"
  using assms by (simp add: runs_def ptable_upd_proc) (simp add: upd_proc_def)

lemma free_slot_Some: "free_slot cl i n = Some j \<Longrightarrow> cl ! (j mod CLOCKSIZE) = 0"
  by (induction cl i n rule: free_slot.induct) (auto split: if_splits)

lemma free_slot_None:
  "n \<le> i + 1 \<Longrightarrow> free_slot cl i n = None \<longleftrightarrow> (\<forall>k < n. cl ! ((i - k) mod CLOCKSIZE) \<noteq> 0)"
proof (induction cl i n rule: free_slot.induct)
  case (2 cl i n)
  have "(\<forall>k < Suc n. cl ! ((i - k) mod CLOCKSIZE) \<noteq> 0) \<longleftrightarrow>
      cl ! (i mod CLOCKSIZE) \<noteq> 0 \<and> (\<forall>k < n. cl ! ((i - 1 - k) mod CLOCKSIZE) \<noteq> 0)"
    unfolding All_less_Suc2 by simp
  with 2 show ?case by (cases "n = 0") auto
qed simp

lemma ad_eq_clear_A: "ad_eq e (e AND NOT PTE_A)"
  by (simp add: ad_eq_def and.assoc)

lemma addClock_room:
  assumes r: "runs s p pgd ps" and pr: "present (mem s) pgd (PDX va)"
    and fs: "free_slot (clock (ptable s ! p)) (head (ptable s ! p) + CLOCKSIZE) CLOCKSIZE = Some i"
  shows "\<exists>t. addClock hw p va s = Inr t \<and> runs t p pgd ps \<and> same_space pgd va (mem s) (mem t) \<and>
    ad_eq (pte_at (mem s) pgd va) (pte_at (mem t) pgd va) \<and> pte_at (mem t) pgd va AND PTE_A = 0 \<and>
    (\<forall>a. PGROUNDDOWN a \<notin> pt_pages (mem s) pgd \<longrightarrow> mem t a = mem s a) \<and>
    clock (ptable t ! p) = (clock (ptable s ! p))[i mod CLOCKSIZE := PGROUNDDOWN va] \<and>
    head (ptable t ! p) = (i + 1) mod CLOCKSIZE"
proof -
  let ?e = "pte_at (mem s) pgd va"
  let ?u = "upd_proc p (head_update (\<lambda>_. (i + 1) mod CLOCKSIZE))
    (upd_proc p (clock_update (\<lambda>c. c[i mod CLOCKSIZE := PGROUNDDOWN va])) s)"
  let ?m = "store32 (mem ?u) (pte_addr (mem ?u) pgd va) (?e AND NOT PTE_A)"
  note d = runsD [OF r]
  have ru: "runs ?u p pgd ps" by (intro runs_upd r) simp_all
  have pru: "present (mem ?u) pgd (PDX va)" using pr by simp
  have sf: "same_frame (pte_at (mem ?u) pgd va) (?e AND NOT PTE_A)"
    using ad_eq_bits(4) [OF ad_eq_clear_A, of ?e] by simp
  note t = touch_pte [OF runsD(6) [OF ru] pru refl sf]
  have ld: "load32 (mem s) (pte_addr (mem s) pgd va) = ?e" using pr by (simp add: pte_at_def)
  have "addClock hw p va s = Inr (?u\<lparr>mem := ?m\<rparr>)"
    using fs walk_present [OF pru, of False] pte_addr_nonnull [OF d(10) pr] d(3) ld
    by (simp add: addClock_def Let_def)
  moreover have "runs (?u\<lparr>mem := ?m\<rparr>) p pgd ps" using runs_mem [OF ru t(3)] .
  moreover have "(?e AND NOT PTE_A) AND PTE_A = 0" by (simp add: and.assoc)
  ultimately show ?thesis
    using t(1,2,4) ad_eq_clear_A [of ?e] d(2) by (intro exI [of _ "?u\<lparr>mem := ?m\<rparr>"]) (simp add: ptable_upd_proc)
qed

lemma ad_eq_bit: "ad_eq e e' \<longleftrightarrow> (\<forall>n. n \<noteq> 5 \<longrightarrow> n \<noteq> 6 \<longrightarrow> bit e' n = bit e n)"
proof -
  have "bit (x AND NOT ((2 ^ a) OR (2 ^ b))) n \<longleftrightarrow> bit x n \<and> n \<noteq> a \<and> n \<noteq> b" for x :: "32 word" and a b n
    by (auto simp: bit_simps dest: bit32)
  from this [of _ 5 6] have *: "bit (x AND NOT 0x60) n \<longleftrightarrow> bit x n \<and> n \<noteq> 5 \<and> n \<noteq> 6" for x :: "32 word" and n
    by simp
  have "ad_eq e e' \<longleftrightarrow> (\<forall>n < 32. bit (e' AND NOT 0x60) n = bit (e AND NOT 0x60) n)"
    unfolding ad_eq_def by (auto intro: bit_word_eqI)
  then show ?thesis unfolding * using bit32 by blast
qed

lemma decrypt_encrypt_pte:
  assumes "ad_eq e e1" "ad_eq (encrypted_pte e1) e2" "ad_eq (decrypted_pte e2) e3" "e AND PTE_P \<noteq> 0" "e AND PTE_E = 0"
  shows "ad_eq e e3"
  using assms unfolding ad_eq_bit flag_bits bit_decrypted_pte bit_encrypted_pte by auto

lemma xor_FF: "(b XOR 0xFF) XOR 0xFF = b" "b XOR 0xFF = 0 \<longleftrightarrow> b = 0xFF" for b :: byte
proof -
  show 1: "(b XOR 0xFF) XOR 0xFF = b" for b :: byte by (simp add: xor.assoc)
  show "b XOR 0xFF = 0 \<longleftrightarrow> b = 0xFF"
  proof
    assume a: "b XOR 0xFF = 0"
    have "b = (b XOR 0xFF) XOR 0xFF" by (rule 1 [symmetric])
    also have "\<dots> = 0xFF" unfolding a by simp
    finally show "b = 0xFF" .
  qed simp
qed

text \<open>Touching an encrypted page while the queue has room.\<close>

lemma mdecrypt_room:
  assumes r: "runs s p pgd ps" and hw: "hw_ok hw" and va: "va < KERNBASE"
    and pr: "present (mem s) pgd (PDX va)" and w: "load32 (mem s) (pgd + 4 * PDX va) AND PTE_W \<noteq> 0"
    and m: "mapped (mem s) pgd va"
    and u: "pte_at (mem s) pgd va AND PTE_U \<noteq> 0" "pte_at (mem s) pgd va AND PTE_W \<noteq> 0"
    and q: "inQ (ptable s ! p) va = -1"
    and fs: "free_slot (clock (ptable s ! p)) (head (ptable s ! p) + CLOCKSIZE) CLOCKSIZE = Some i"
  obtains t where "runs t p pgd ps" "same_space pgd va (mem s) (mem t)"
    "ad_eq (pte_at (mem s) pgd va) (pte_at (mem t) pgd va)"
    "\<And>a. PGROUNDDOWN a \<notin> pt_pages (mem s) pgd \<Longrightarrow> mem t a = mem s a"
    "clock (ptable t ! p) = (clock (ptable s ! p))[i mod CLOCKSIZE := PGROUNDDOWN va]"
    "mdecrypt hw va s = mdecrypt_tail hw pgd (pte_addr (mem t) pgd va) va t"
    "frame (mem t) pgd va = frame (mem s) pgd va"
    "present (mem t) pgd (PDX va)" "load32 (mem t) (pgd + 4 * PDX va) AND PTE_W \<noteq> 0" "mapped (mem t) pgd va"
    "pte_at (mem t) pgd va AND PTE_U \<noteq> 0" "pte_at (mem t) pgd va AND PTE_W \<noteq> 0"
proof -
  note d = runsD [OF r]
  obtain t where t: "addClock hw p va s = Inr t" "runs t p pgd ps" "same_space pgd va (mem s) (mem t)"
    "ad_eq (pte_at (mem s) pgd va) (pte_at (mem t) pgd va)"
    "\<forall>a. PGROUNDDOWN a \<notin> pt_pages (mem s) pgd \<longrightarrow> mem t a = mem s a"
    "clock (ptable t ! p) = (clock (ptable s ! p))[i mod CLOCKSIZE := PGROUNDDOWN va]"
    using addClock_room [OF r pr fs, of hw] by blast
  have nz: "load32 (mem s) (pte_addr (mem s) pgd va) \<noteq> 0"
    using m pr by (auto simp: pte_at_def unmapped_def)
  have "mdecrypt hw va s = mdecrypt_tail hw (pgdir (ptable s ! p)) (pte_addr (mem s) pgd va) va t"
    by (rule mdecrypt_split [OF d(9) _ _ nz])
      (use walk_present [OF pr, of False] pte_addr_nonnull [OF d(10) pr] d(3) q t(1) in simp_all)
  then have "mdecrypt hw va s = mdecrypt_tail hw pgd (pte_addr (mem t) pgd va) va t"
    using d(3) same_space_dir(3) [OF t(3)] by simp
  moreover have "pte_at (mem t) pgd va AND PTE_U \<noteq> 0" "mapped (mem t) pgd va"
    "frame (mem t) pgd va = frame (mem s) pgd va"
    using ad_eq_bits [OF t(4)] u m by (simp_all add: frame_def)
  moreover have "pte_at (mem t) pgd va AND PTE_W \<noteq> 0" using t(4) u(2) by (simp add: ad_eq_bit flag_bits)
  moreover have "present (mem t) pgd (PDX va)" "load32 (mem t) (pgd + 4 * PDX va) AND PTE_W \<noteq> 0"
    using same_space_dir(1) [OF t(3) PDX_less] pr w t(3) PDX_less by (simp_all add: same_space_def)
  ultimately show ?thesis using that [of t] t by blast
qed

lemma crypts_bits:
  assumes "crypts pgd va m m'" "page_rw m pgd va" "pte_at m pgd va AND PTE_U \<noteq> 0"
  shows "present m' pgd (PDX va)" "load32 m' (pgd + 4 * PDX va) AND PTE_W \<noteq> 0" "mapped m' pgd va"
    "pte_at m' pgd va AND PTE_U \<noteq> 0" "pte_at m' pgd va AND PTE_W \<noteq> 0" "frame m' pgd va = frame m pgd va"
proof -
  obtain e where e: "ad_eq (pte_at m pgd va) e" "pte_at m' pgd va = encrypted_pte e"
    using assms(1) by (auto simp: crypts_def)
  have sp: "same_space pgd va m m'" using assms(1) by (simp add: crypts_def)
  show "present m' pgd (PDX va)" "load32 m' (pgd + 4 * PDX va) AND PTE_W \<noteq> 0"
    using same_space_dir(1) [OF sp PDX_less] sp assms(2) PDX_less by (simp_all add: same_space_def page_rw_def)
  show "mapped m' pgd va" "pte_at m' pgd va AND PTE_U \<noteq> 0" "frame m' pgd va = frame m pgd va"
    using e ad_eq_bits(1,6) [OF e(1)] assms(3) by (simp_all add: encrypted_pte_bits frame_def)
  show "pte_at m' pgd va AND PTE_W \<noteq> 0"
    using e(1) assms(2) unfolding e(2) by (simp add: bit_encrypted_pte page_rw_def allows_def ad_eq_bit flag_bits)
qed

text \<open>The state in which the tail of \<^verbatim>\<open>mdecrypt\<close> runs, when the page was just encrypted.\<close>

lemma touch_encrypted:
  assumes r: "runs s p pgd ps" and hw: "hw_ok hw" and rw: "page_rw (mem s) pgd va"
    and u: "pte_at (mem s) pgd va AND PTE_U \<noteq> 0" and m: "runs (s\<lparr>mem := m\<rparr>) p pgd ps" "crypts pgd va (mem s) m"
    and vb: "PGROUNDDOWN vb = PGROUNDDOWN va" and q: "inQ (ptable s ! p) vb = -1"
    and fs: "free_slot (clock (ptable s ! p)) (head (ptable s ! p) + CLOCKSIZE) CLOCKSIZE = Some i"
  obtains t where "runs t p pgd ps" "same_space pgd va m (mem t)" "ad_eq (pte_at m pgd va) (pte_at (mem t) pgd va)"
    "\<And>a. PGROUNDDOWN a \<notin> pt_pages (mem s) pgd \<Longrightarrow> mem t a = m a"
    "clock (ptable t ! p) = (clock (ptable s ! p))[i mod CLOCKSIZE := PGROUNDDOWN va]"
    "mdecrypt hw vb (s\<lparr>mem := m\<rparr>) = mdecrypt_tail hw pgd (pte_addr (mem t) pgd vb) vb t"
    "frame (mem t) pgd vb = frame (mem s) pgd va" "vb < KERNBASE"
    "present (mem t) pgd (PDX vb)" "load32 (mem t) (pgd + 4 * PDX vb) AND PTE_W \<noteq> 0" "mapped (mem t) pgd vb"
    "pte_at (mem t) pgd vb AND PTE_U \<noteq> 0" "pte_at (mem t) pgd vb AND PTE_W \<noteq> 0"
proof -
  have sv: "pte_at m' pgd vb = pte_at m' pgd va" "frame m' pgd vb = frame m' pgd va" "PDX vb = PDX va" for m'
    using pte_at_page [OF vb] same_page_iff [of vb va] vb by (simp_all add: frame_def)
  have vk: "vb < KERNBASE"
    using rw vb PGROUNDDOWN_less_KERNBASE [of vb] PGROUNDDOWN_less_KERNBASE [of va] by (simp add: page_rw_def)
  note b = crypts_bits [OF m(2) rw u]
  have ptp: "pt_pages m pgd = pt_pages (mem s) pgd" using m(2) same_space_dir(4) by (auto simp: crypts_def)
  let ?s = "s\<lparr>mem := m\<rparr>"
  obtain t where t: "runs t p pgd ps" "same_space pgd vb (mem ?s) (mem t)"
    "ad_eq (pte_at (mem ?s) pgd vb) (pte_at (mem t) pgd vb)"
    "\<And>a. PGROUNDDOWN a \<notin> pt_pages (mem ?s) pgd \<Longrightarrow> mem t a = mem ?s a"
    "clock (ptable t ! p) = (clock (ptable ?s ! p))[i mod CLOCKSIZE := PGROUNDDOWN vb]"
    "mdecrypt hw vb ?s = mdecrypt_tail hw pgd (pte_addr (mem t) pgd vb) vb t"
    "frame (mem t) pgd vb = frame (mem ?s) pgd vb"
    "present (mem t) pgd (PDX vb)" "load32 (mem t) (pgd + 4 * PDX vb) AND PTE_W \<noteq> 0" "mapped (mem t) pgd vb"
    "pte_at (mem t) pgd vb AND PTE_U \<noteq> 0" "pte_at (mem t) pgd vb AND PTE_W \<noteq> 0"
    by (rule mdecrypt_room [OF m(1) hw vk, where i = i]) (use b q fs sv in simp_all)
  show ?thesis
    by (rule that [of t]) (use t b(6) ptp vk vb sv in \<open>simp_all add: same_space_page [OF vb]\<close>)
qed

text \<open>One turn of the eviction loop, by the reference bit of the page at \<^verbatim>\<open>head\<close>.\<close>

lemma crypts_ad_eq:
  assumes "same_space pgd va m m1" "ad_eq (pte_at m pgd va) (pte_at m1 pgd va)" "crypts pgd va m1 m2"
    and "\<And>a. PGROUNDDOWN a \<notin> pt_pages m pgd \<Longrightarrow> m1 a = m a"
  shows "crypts pgd va m m2"
proof -
  have "frame m1 pgd va = frame m pgd va" using ad_eq_bits(1) [OF assms(2)] by (simp add: frame_def)
  moreover obtain e where "ad_eq (pte_at m1 pgd va) e" "pte_at m2 pgd va = encrypted_pte e"
    using assms(3) by (auto simp: crypts_def)
  moreover have "same_space pgd va m m2"
    by (rule same_space_trans [OF assms(1)]) (use assms(3) in \<open>simp add: crypts_def\<close>)
  ultimately show ?thesis
    using assms(3,4) ad_eq_trans [OF assms(2)] same_space_dir(4) [OF assms(1)] by (auto simp: crypts_def)
qed

lemma evict_clear:
  assumes r: "runs s p pgd ps" and hw: "hw_ok hw" and c: "clock (ptable s ! p) ! h0 = cur"
    and rw: "page_rw (mem s) pgd cur" and u: "pte_at (mem s) pgd cur AND PTE_U \<noteq> 0"
    and e: "pte_at (mem s) pgd cur AND PTE_E = 0" and a: "pte_at (mem s) pgd cur AND PTE_A = 0"
  shows "\<exists>t. evict_loop hw (Suc n) p h0 va s = Inr t \<and> runs t p pgd ps \<and> crypts pgd cur (mem s) (mem t) \<and>
    clock (ptable t ! p) = (clock (ptable s ! p))[h0 := PGROUNDDOWN va] \<and>
    head (ptable t ! p) = (head (ptable s ! p) + 1) mod CLOCKSIZE"
proof -
  note d = runsD [OF r]
  have pr: "present (mem s) pgd (PDX cur)" using rw by (simp add: page_rw_def)
  have ld: "load32 (mem s) (pte_addr (mem s) pgd cur) = pte_at (mem s) pgd cur" using pr by (simp add: pte_at_def)
  have chk: "mencrypt_check pgd (nat 1) (PGROUNDDOWN cur) s = Inr True"
    using mencrypt_check_one [OF r _ pr page_rw_mapped [OF rw] u] rw
    by (simp add: page_rw_def del: mencrypt_check.simps)
  obtain m where m: "mencrypt hw cur 1 s = Inr (0, s\<lparr>mem := m\<rparr>)" "runs (s\<lparr>mem := m\<rparr>) p pgd ps"
    "crypts pgd cur (mem s) m"
    using mencrypt_first [OF r hw rw u e _ chk] by auto
  let ?t = "upd_proc p (head_update (\<lambda>h. (h + 1) mod CLOCKSIZE))
    (upd_proc p (clock_update (\<lambda>c. c[h0 := PGROUNDDOWN va])) (s\<lparr>mem := m\<rparr>))"
  have "evict_loop hw (Suc n) p h0 va s = Inr ?t"
    using c d(3) walk_present [OF pr, of False] pte_addr_nonnull [OF d(10) pr] ld a m(1) by (simp add: Let_def)
  moreover have "runs ?t p pgd ps" by (intro runs_upd m(2)) simp_all
  ultimately show ?thesis using m(3) d(2) by (intro exI [of _ ?t]) (simp add: ptable_upd_proc)
qed

lemma evict_referenced:
  assumes r: "runs s p pgd ps" and c: "clock (ptable s ! p) ! h0 = cur"
    and rw: "page_rw (mem s) pgd cur" and a: "pte_at (mem s) pgd cur AND PTE_A \<noteq> 0"
  shows "\<exists>t. evict_loop hw (Suc n) p h0 va s = evict_loop hw n p h0 va t \<and> runs t p pgd ps \<and>
    same_space pgd cur (mem s) (mem t) \<and> pte_at (mem t) pgd cur = pte_at (mem s) pgd cur AND NOT PTE_A \<and>
    (\<forall>b. PGROUNDDOWN b \<notin> pt_pages (mem s) pgd \<longrightarrow> mem t b = mem s b) \<and>
    clock (ptable t ! p) = clock (ptable s ! p) \<and>
    head (ptable t ! p) = (head (ptable s ! p) + 1) mod CLOCKSIZE"
proof -
  note d = runsD [OF r]
  let ?e = "pte_at (mem s) pgd cur"
  have pr: "present (mem s) pgd (PDX cur)" using rw by (simp add: page_rw_def)
  have ld: "load32 (mem s) (pte_addr (mem s) pgd cur) = ?e" using pr by (simp add: pte_at_def)
  note t = touch_pte [OF d(6) pr refl ad_eq_bits(4) [OF ad_eq_clear_A]]
  let ?t = "upd_proc p (head_update (\<lambda>h. (h + 1) mod CLOCKSIZE))
    (s\<lparr>mem := store32 (mem s) (pte_addr (mem s) pgd cur) (?e AND NOT PTE_A)\<rparr>)"
  have "evict_loop hw (Suc n) p h0 va s = evict_loop hw n p h0 va ?t"
    using c d(3) walk_present [OF pr, of False] pte_addr_nonnull [OF d(10) pr] ld a by (simp add: Let_def)
  moreover have "runs ?t p pgd ps" by (intro runs_upd runs_mem [OF r t(3)]) simp_all
  ultimately show ?thesis using t(1,2,4) d(2) by (intro exI [of _ ?t]) (simp add: ptable_upd_proc)
qed

end
