(* ===== verification/Vmcrypt_Props.thy ===== *)
theory Vmcrypt_Props
  imports Vmcrypt_Facts
begin

text \<open>
  The properties of page encryption: the round trip of \<^verbatim>\<open>mencrypt\<close> and \<^verbatim>\<open>mdecrypt\<close>, the effect of
  each on the address space, and the eviction from a full clock queue.
\<close>

section \<open>A running process with two user pages\<close>

text \<open>
  A page directory at 0x80200000 with one page table at 0x80201000, which maps the pages of 0x1000
  and 0x2000 to the frames at 0x80202000 and 0x80204000, present, writable and user-accessible.
\<close>

definition table_mem :: mem where
  "table_mem = store32 (memset (\<lambda>_. 0) 0x80201000 0 PGSIZE) (0x80200000 + 4 * 0) (V2P 0x80201000 OR 7)"

definition page_mem :: mem where
  "page_mem = store32 table_mem (pte_addr table_mem 0x80200000 0x1000) (V2P 0x80202000 OR 7)"

definition demo_mem :: mem where
  "demo_mem = store32 page_mem (pte_addr page_mem 0x80200000 0x2000) (V2P 0x80204000 OR 7)"

definition demo_proc :: proc where
  "demo_proc = \<lparr>psz = 0x3000, pgdir = 0x80200000, kstack = 0x80203000, pstate = RUNNING, pid = 1,
     parent = None, tf = 0x80203FB4, pcontext = 0, pchan = NoChan, killed = False,
     ofile = replicate NOFILE None, cwd = None, pname = [], clock = replicate CLOCKSIZE 0, head = 3\<rparr>"

definition demo :: kproc where
  "demo = \<lparr>mem = demo_mem, kcpu = boot_cpu\<lparr>cproc := Some 0\<rparr>, kend = 0x80117000,
     kmem_lock = \<lparr>locked = False, lname = ''kmem'', lcpu = None\<rparr>, use_lock = True, freelist = 0,
     kdata = 0x80108000, cr3 = V2P 0x80200000, kpgdir = 0x80114000,
     ptable_lock = \<lparr>locked = False, lname = ''ptable'', lcpu = None\<rparr>, ptable = [demo_proc],
     nextpid = 2, initproc = Some 0, tss_esp0 = 0\<rparr>"

definition demo_hw :: hw_walk where
  "demo_hw w e = e OR 0x20"

lemma demo_hw_ok: "hw_ok demo_hw"
  by (simp add: hw_ok_def demo_hw_def bit.conj_disj_distrib2)

lemma zero_present: "\<not> present (\<lambda>_. 0) pgd i"
  by (simp add: present_def load32_def)

lemma zero_pt_ok: "page_ok e pgd \<Longrightarrow> 0 < e \<Longrightarrow> pt_ok e (\<lambda>_. 0) pgd"
  by (simp add: pt_ok_def zero_present)

lemma page_ok_demo:
  "page_ok 0x80117000 0x80200000" "page_ok 0x80117000 0x80201000" "page_ok 0x80117000 0x80202000"
  "page_ok 0x80117000 0x80204000"
  by (simp_all add: page_ok_def page_aligned_def V2P_def)

lemma table_facts:
  "present table_mem 0x80200000 0" "tab table_mem 0x80200000 0 = 0x80201000"
  "pte_at table_mem 0x80200000 va = 0" "pt_pages table_mem 0x80200000 = {0x80201000, 0x80200000}"
  "pt_ok 0x80117000 table_mem 0x80200000"
  "load32 table_mem 0x80200000 = V2P 0x80201000 OR 7"
proof -
  have pz: "pt_pages (\<lambda>_. 0) pgd = {pgd}" for pgd by (simp add: pt_pages_def zero_present)
  have nz: "(0x80201000 :: addr) \<notin> pt_pages (\<lambda>_. 0) 0x80200000" by (simp add: pz)
  note nt = new_table [OF zero_pt_ok [OF page_ok_demo(1)] zero_present _ page_ok_demo(2) nz table_mem_def]
  show "present table_mem 0x80200000 0" "tab table_mem 0x80200000 0 = 0x80201000"
    "pt_pages table_mem 0x80200000 = {0x80201000, 0x80200000}" "pt_ok 0x80117000 table_mem 0x80200000"
    "pte_at table_mem 0x80200000 va = 0"
    using nt pz by (simp_all add: pte_at_def [of "\<lambda>_. 0"] zero_present)
  show "load32 table_mem 0x80200000 = V2P 0x80201000 OR 7" by (simp add: table_mem_def)
qed

lemma PDX_demo: "PDX 0x1000 = 0" "PDX 0x2000 = 0" "PDX 0x1234 = 0" "PDX 0x1FFF = 0" "PGROUNDDOWN 0x1234 = 0x1000"
  "PGROUNDDOWN 0x1000 = 0x1000" "PGROUNDDOWN 0x2000 = 0x2000" "PGROUNDDOWN 0x1FFF = 0x1000"
  by (simp_all add: PDX_def PGROUNDDOWN_def)

lemma demo_pte:
  "pte_at demo_mem 0x80200000 vb = (if PGROUNDDOWN vb = 0x2000 then V2P 0x80204000 OR 7
     else if PGROUNDDOWN vb = 0x1000 then V2P 0x80202000 OR 7 else 0)"
  "pt_pages demo_mem 0x80200000 = {0x80201000, 0x80200000}" "pt_ok 0x80117000 demo_mem 0x80200000"
  "present demo_mem 0x80200000 0" "load32 demo_mem 0x80200000 = V2P 0x80201000 OR 7"
proof -
  have pr: "present table_mem 0x80200000 (PDX 0x1000)" using table_facts(1) by (simp add: PDX_demo)
  note st = store_pte [OF table_facts(5) pr page_mem_def]
  have pr': "present page_mem 0x80200000 (PDX 0x2000)" using table_facts(1) st(1) by (simp add: PDX_demo)
  note st' = store_pte [OF st(6) pr' demo_mem_def]
  show "pte_at demo_mem 0x80200000 vb = (if PGROUNDDOWN vb = 0x2000 then V2P 0x80204000 OR 7
     else if PGROUNDDOWN vb = 0x1000 then V2P 0x80202000 OR 7 else 0)"
    using st'(4) [of vb] st(4) [of vb] table_facts(3) by (simp add: PDX_demo)
  show "pt_pages demo_mem 0x80200000 = {0x80201000, 0x80200000}" "pt_ok 0x80117000 demo_mem 0x80200000"
    "present demo_mem 0x80200000 0"
    using st'(1,5,6) st(1,5) table_facts by simp_all
  show "load32 demo_mem 0x80200000 = V2P 0x80201000 OR 7"
    using store_pte_pde [OF table_facts(5) pr, of 0 "V2P 0x80202000 OR 7"] table_facts(6)
      store_pte_pde [OF st(6) pr', of 0 "V2P 0x80204000 OR 7"]
    by (simp add: demo_mem_def page_mem_def)
qed

lemma demo_frame:
  "PGROUNDDOWN vb = 0x1000 \<Longrightarrow> frame demo_mem 0x80200000 vb = 0x80202000"
  "PGROUNDDOWN vb = 0x2000 \<Longrightarrow> frame demo_mem 0x80200000 vb = 0x80204000"
  by (simp_all add: frame_def demo_pte(1) PTE_ADDR_def V2P_def P2V_def)

lemma demo_mapped: "mapped demo_mem 0x80200000 va \<longleftrightarrow> PGROUNDDOWN va = 0x1000 \<or> PGROUNDDOWN va = 0x2000"
  by (simp add: demo_pte(1) unmapped_def V2P_def)

lemma demo_uvm: "kmem_quiet s \<Longrightarrow> kend s = 0x80117000 \<Longrightarrow> mem s = demo_mem \<Longrightarrow> freelist s = 0 \<Longrightarrow>
    uvm_inv s 0x80200000 []"
proof -
  assume s: "kmem_quiet s" "kend s = 0x80117000" "mem s = demo_mem" "freelist s = 0"
  have "frames_ok 0x80117000 demo_mem 0x80200000 {}"
    unfolding frames_ok_def demo_mapped demo_pte(2) using page_ok_demo(3,4) by (auto simp: demo_frame)
  then show ?thesis
    using s demo_pte(3) by (simp add: uvm_inv_def vm_inv_def kmem_inv_def)
qed

lemma demo_runs: "runs demo 0 0x80200000 []"
proof -
  have "uvm_inv demo 0x80200000 []"
    by (rule demo_uvm) (simp_all add: demo_def kmem_quiet_def cpu_ok_def boot_cpu_def lock_free_def)
  then show ?thesis by (simp add: runs_def) (simp add: demo_def demo_proc_def)
qed

lemma demo_sel: "mem demo = demo_mem" "ptable demo = [demo_proc]"
  by (simp_all add: demo_def)

lemma demo_rw: "page_rw (mem demo) 0x80200000 0x1234"
  by (simp add: page_rw_def demo_sel PDX_demo demo_pte allows_def V2P_def)

lemma demo_flags:
  "pte_at (mem demo) 0x80200000 0x1234 AND PTE_U \<noteq> 0" "pte_at (mem demo) 0x80200000 0x1234 AND PTE_E = 0"
  by (simp_all add: demo_sel demo_pte PDX_demo V2P_def)

lemma demo_check: "mencrypt_check 0x80200000 (nat 2) (PGROUNDDOWN 0x1234) demo = Inr True"
proof -
  note pt = runsD(10) [OF demo_runs]
  have "uva2ka 0x80200000 0x1000 demo = Inr 0x80202000" "uva2ka 0x80200000 0x2000 demo = Inr 0x80204000"
    using uva2ka_present [OF pt, where va = "0x1000"] uva2ka_present [OF pt, where va = "0x2000"]
    by (simp_all add: demo_sel PDX_demo demo_pte demo_mapped demo_frame V2P_def unmapped_def)
  moreover have "nat 2 = Suc (Suc 0)" by simp
  ultimately show ?thesis by (simp only: mencrypt_check.simps PDX_demo) simp
qed

lemma empty_queue:
  "v \<noteq> 0 \<Longrightarrow> inQ_loop (replicate CLOCKSIZE 0) v i n = -1"
  by (induction n arbitrary: i) auto

lemma demo_queue: "length (clock (ptable demo ! 0)) = CLOCKSIZE" "inQ (ptable demo ! 0) 0x1FFF = -1"
  "inQ (ptable demo ! 0) 0x1234 = -1"
  by (simp_all add: demo_sel demo_proc_def inQ_def empty_queue)

lemma demo_room: "free_slot (clock (ptable demo ! 0)) (head (ptable demo ! 0) + CLOCKSIZE) CLOCKSIZE = Some 11"
proof -
  have "free_slot (replicate CLOCKSIZE 0) 11 (Suc 7) = Some 11" by (subst free_slot.simps) simp
  then show ?thesis by (simp add: demo_sel demo_proc_def)
qed

lemma demo_byte: "frame (mem demo) 0x80200000 0x1234 = 0x80202000" "mem demo 0x80202000 = 0"
proof -
  show "frame (mem demo) 0x80200000 0x1234 = 0x80202000" by (simp add: demo_sel demo_frame PDX_demo)
  have a: "PGROUNDDOWN 0x80202000 = 0x80202000" by (simp add: PGROUNDDOWN_def)
  have pr: "present table_mem 0x80200000 (PDX 0x1000)" using table_facts(1) by (simp add: PDX_demo)
  have "tab page_mem 0x80200000 0 = 0x80201000"
    using store_pte(2) [OF table_facts(5) pr page_mem_def, of 0] table_facts(2) by simp
  then have "demo_mem 0x80202000 = page_mem 0x80202000"
    unfolding demo_mem_def using a by (intro store_pte_outside) (simp add: PDX_demo)
  also have "\<dots> = table_mem 0x80202000" unfolding page_mem_def
    by (rule store_pte_outside) (use table_facts a in \<open>simp add: PDX_demo\<close>)
  also have "\<dots> = 0" by (simp add: table_mem_def store32_def memset_apply)
  finally show "mem demo 0x80202000 = 0" by (simp add: demo_sel)
qed

text \<open>The same process when the first byte of the page is 255, and when its queue is full.\<close>

definition demo255 :: kproc where
  "demo255 = demo\<lparr>mem := (mem demo)(0x80202000 := 0xFF)\<rparr>"

lemma demo255_facts:
  "runs demo255 0 0x80200000 []" "page_rw (mem demo255) 0x80200000 0x1234"
  "pte_at (mem demo255) 0x80200000 0x1234 AND PTE_U \<noteq> 0" "pte_at (mem demo255) 0x80200000 0x1234 AND PTE_E = 0"
  "mem demo255 (frame (mem demo255) 0x80200000 0x1234) = 0xFF" "inQ (ptable demo255 ! 0) 0x1234 = -1"
  "free_slot (clock (ptable demo255 ! 0)) (head (ptable demo255 ! 0) + CLOCKSIZE) CLOCKSIZE = Some 11"
proof -
  have "PGROUNDDOWN 0x80202000 = frame (mem demo) 0x80200000 0x1234" by (simp add: demo_byte PGROUNDDOWN_def)
  then have f: "PGROUNDDOWN 0x80202000 \<in> user_frames (mem demo) 0x80200000" using page_rw_frame [OF demo_rw] by simp
  note pk = poke_frame [OF runsD(6) [OF demo_runs] f, where b = "0xFF"]
  have m: "mem demo255 = (mem demo)(0x80202000 := 0xFF)" by (simp add: demo255_def)
  show "runs demo255 0 0x80200000 []" unfolding demo255_def by (rule runs_mem [OF demo_runs pk(1)])
  have e: "pte_at (mem demo255) 0x80200000 = pte_at (mem demo) 0x80200000" using pk(3) by (simp add: m)
  show "page_rw (mem demo255) 0x80200000 0x1234"
    unfolding m by (subst page_rw_same [OF pk(2)]) (use demo_rw e m in simp_all)
  show "pte_at (mem demo255) 0x80200000 0x1234 AND PTE_U \<noteq> 0" "pte_at (mem demo255) 0x80200000 0x1234 AND PTE_E = 0"
    using demo_flags by (simp_all add: e)
  have "frame (mem demo255) 0x80200000 0x1234 = 0x80202000" using demo_byte(1) by (simp add: frame_def e)
  then show "mem demo255 (frame (mem demo255) 0x80200000 0x1234) = 0xFF" by (simp add: m)
  show "inQ (ptable demo255 ! 0) 0x1234 = -1"
    "free_slot (clock (ptable demo255 ! 0)) (head (ptable demo255 ! 0) + CLOCKSIZE) CLOCKSIZE = Some 11"
    using demo_queue(3) demo_room by (simp_all add: demo255_def)
qed

definition demo_full :: kproc where
  "demo_full = demo\<lparr>ptable := [demo_proc\<lparr>clock := replicate CLOCKSIZE 0x1000\<rparr>]\<rparr>"

lemma demo_full_facts:
  "runs demo_full 0 0x80200000 []" "head (ptable demo_full ! 0) < CLOCKSIZE"
  "\<forall>k < CLOCKSIZE. clock (ptable demo_full ! 0) ! k \<noteq> 0"
  "0x1000 = clock (ptable demo_full ! 0) ! head (ptable demo_full ! 0)"
  "page_rw (mem demo_full) 0x80200000 0x1000"
  "pte_at (mem demo_full) 0x80200000 0x1000 AND PTE_U \<noteq> 0" "pte_at (mem demo_full) 0x80200000 0x1000 AND PTE_E = 0"
proof -
  show "runs demo_full 0 0x80200000 []"
    using demo_runs by (simp add: runs_def demo_full_def) (simp add: demo_proc_def)
  have m: "mem demo_full = demo_mem" by (simp add: demo_full_def demo_sel)
  show "page_rw (mem demo_full) 0x80200000 0x1000"
    "pte_at (mem demo_full) 0x80200000 0x1000 AND PTE_U \<noteq> 0" "pte_at (mem demo_full) 0x80200000 0x1000 AND PTE_E = 0"
    by (simp_all add: m page_rw_def PDX_demo demo_pte allows_def V2P_def)
qed (simp_all add: demo_full_def demo_proc_def)

section \<open>A page encrypted and decrypted\<close>

lemma mencrypt_one:
  assumes "runs s p pgd ps" "hw_ok hw" "page_rw (mem s) pgd va"
    and "pte_at (mem s) pgd va AND PTE_U \<noteq> 0" "pte_at (mem s) pgd va AND PTE_E = 0"
  obtains m where "mencrypt hw va 1 s = Inr (0, s\<lparr>mem := m\<rparr>)" "runs (s\<lparr>mem := m\<rparr>) p pgd ps" "crypts pgd va (mem s) m"
proof -
  have "mencrypt_check pgd (nat 1) (PGROUNDDOWN va) s = Inr True"
    using mencrypt_check_one [OF assms(1)] page_rw_mapped [OF assms(3)] assms(3,4)
    by (simp add: page_rw_def del: mencrypt_check.simps)
  then show thesis using mencrypt_first [OF assms, of 1] that by auto
qed

text \<open>A fault in a page that was encrypted: the page is as it was before.\<close>

lemma mdecrypt_restores:
  assumes "runs s p pgd ps" "hw_ok hw" "page_rw (mem s) pgd va"
    and "pte_at (mem s) pgd va AND PTE_U \<noteq> 0" "pte_at (mem s) pgd va AND PTE_E = 0"
    and "mem s (frame (mem s) pgd va) \<noteq> 0xFF" "PGROUNDDOWN vb = PGROUNDDOWN va"
    and "length (clock (ptable s ! p)) = CLOCKSIZE" "inQ (ptable s ! p) vb = -1"
    and "free_slot (clock (ptable s ! p)) (head (ptable s ! p) + CLOCKSIZE) CLOCKSIZE = Some i"
    and m: "runs (s\<lparr>mem := m\<rparr>) p pgd ps" "crypts pgd va (mem s) m"
  obtains u where "mdecrypt hw vb (s\<lparr>mem := m\<rparr>) = Inr (0, u)" "runs u p pgd ps"
    "same_space pgd va (mem s) (mem u)" "ad_eq (pte_at (mem s) pgd va) (pte_at (mem u) pgd va)"
    "\<And>a. PGROUNDDOWN a \<notin> pt_pages (mem s) pgd \<Longrightarrow> mem u a = mem s a" "PGROUNDDOWN va \<in> set (clock (ptable u ! p))"
proof -
  have sv: "pte_at m pgd vb = pte_at m pgd va" for m using assms(7) by (rule pte_at_page)
  obtain t where t: "runs t p pgd ps" "same_space pgd va m (mem t)" "ad_eq (pte_at m pgd va) (pte_at (mem t) pgd va)"
    "\<And>a. PGROUNDDOWN a \<notin> pt_pages (mem s) pgd \<Longrightarrow> mem t a = m a"
    "clock (ptable t ! p) = (clock (ptable s ! p))[i mod CLOCKSIZE := PGROUNDDOWN va]"
    "mdecrypt hw vb (s\<lparr>mem := m\<rparr>) = mdecrypt_tail hw pgd (pte_addr (mem t) pgd vb) vb t"
    "frame (mem t) pgd vb = frame (mem s) pgd va" "vb < KERNBASE"
    "present (mem t) pgd (PDX vb)" "load32 (mem t) (pgd + 4 * PDX vb) AND PTE_W \<noteq> 0" "mapped (mem t) pgd vb"
    "pte_at (mem t) pgd vb AND PTE_U \<noteq> 0" "pte_at (mem t) pgd vb AND PTE_W \<noteq> 0"
    by (rule touch_encrypted [OF assms(1-4) m assms(7,9,10)]) blast
  have nf: "frame (mem s) pgd va \<notin> pt_pages (mem s) pgd"
    using uvm_invD(4) [OF runsD(6) [OF assms(1)]] page_rw_frame [OF assms(3)] by auto
  have by1: "mem t a = (if PGROUNDDOWN a = frame (mem s) pgd va then mem s a XOR 0xFF else mem s a)"
    if "PGROUNDDOWN a \<notin> pt_pages (mem s) pgd" for a
    using t(4) [OF that] m(2) that by (simp add: crypts_def)
  have "mem t (frame (mem t) pgd vb) = mem s (frame (mem s) pgd va) XOR 0xFF"
    unfolding t(7) using by1 [of "frame (mem s) pgd va"] nf by (simp add: PGROUNDDOWN_aligned)
  then have "mem t (frame (mem t) pgd vb) \<noteq> 0" using assms(6) xor_FF(2) by simp
  then obtain m2 where m2: "mdecrypt hw vb (s\<lparr>mem := m\<rparr>) = Inr (0, t\<lparr>mem := m2\<rparr>)" "decrypts pgd vb (mem t) m2"
    "runs (t\<lparr>mem := m2\<rparr>) p pgd ps"
    using mdecrypt_tail_ok(1) [OF t(1) assms(2) t(8-13)] t(6) by auto
  have sp: "same_space pgd va (mem s) (mem t)"
    using m(2) t(2) same_space_trans by (auto simp: crypts_def)
  have "same_space pgd va (mem s) m2"
    using m2(2) same_space_trans [OF sp] by (simp add: decrypts_def same_space_page [OF assms(7)])
  moreover obtain e where "ad_eq (pte_at (mem s) pgd va) e" "pte_at m pgd va = encrypted_pte e"
    using m(2) by (auto simp: crypts_def)
  then have "ad_eq (pte_at (mem s) pgd va) (pte_at m2 pgd va)"
    using decrypt_encrypt_pte t(3) m2(2) assms(3,5) by (auto simp: decrypts_def sv page_rw_def allows_def)
  moreover have "m2 a = mem s a" if a: "PGROUNDDOWN a \<notin> pt_pages (mem s) pgd" for a
    using m2(2) by1 [OF a] a same_space_dir(4) [OF sp] t(7) by (simp add: decrypts_def xor_FF)
  moreover have "PGROUNDDOWN va \<in> set (clock (ptable t ! p))"
    unfolding t(5) using assms(8) by (intro set_update_memI) simp
  ultimately show thesis using that [of "t\<lparr>mem := m2\<rparr>"] m2(1,3) by simp
qed

section \<open>Properties\<close>

text \<open>
  C2: Encryption of a page. For a writable user page that is not encrypted, \<^verbatim>\<open>mencrypt\<close> with length 1
  returns 0, flips every byte of the page's frame, marks the entry encrypted and absent, and
  changes no other entry and no other byte; the address space stays sound. Accesses may update the
  accessed and the dirty bit.
\<close>

theorem mencrypt_page:
  assumes "runs s p pgd ps" "hw_ok hw" "page_rw (mem s) pgd va"
    and "pte_at (mem s) pgd va AND PTE_U \<noteq> 0" "pte_at (mem s) pgd va AND PTE_E = 0"
  shows "\<exists>m'. mencrypt hw va 1 s = Inr (0, s\<lparr>mem := m'\<rparr>) \<and>
    runs (s\<lparr>mem := m'\<rparr>) p pgd ps \<and> crypts pgd va (mem s) m'"
  by (rule mencrypt_one [OF assms]) blast

theorem mencrypt_page_witness:
  "\<exists>m'. mencrypt demo_hw 0x1234 1 demo = Inr (0, demo\<lparr>mem := m'\<rparr>) \<and>
    runs (demo\<lparr>mem := m'\<rparr>) 0 0x80200000 [] \<and> crypts 0x80200000 0x1234 (mem demo) m'"
  by (rule mencrypt_page [OF demo_runs demo_hw_ok demo_rw demo_flags])

text \<open>
  C8: A longer request stops early. For every length at which the check of the range succeeds,
  \<^verbatim>\<open>mencrypt\<close> reports success after it has encrypted the first page only: the entries and frames of
  all the other pages of the range are as before.
\<close>

theorem mencrypt_stops_after_first:
  assumes "runs s p pgd ps" "hw_ok hw" "page_rw (mem s) pgd va"
    and "pte_at (mem s) pgd va AND PTE_U \<noteq> 0" "pte_at (mem s) pgd va AND PTE_E = 0"
    and "1 < len" "mencrypt_check pgd (nat len) (PGROUNDDOWN va) s = Inr True"
  shows "\<exists>m'. mencrypt hw va len s = Inr (0, s\<lparr>mem := m'\<rparr>) \<and> crypts pgd va (mem s) m' \<and>
    (\<forall>vb. PGROUNDDOWN vb \<noteq> PGROUNDDOWN va \<longrightarrow> pte_at m' pgd vb = pte_at (mem s) pgd vb)"
proof -
  have "0 < len" using assms(6) by simp
  then obtain m' where "mencrypt hw va len s = Inr (0, s\<lparr>mem := m'\<rparr>)" "crypts pgd va (mem s) m'"
    using mencrypt_first [OF assms(1-5) _ assms(7)] by blast
  then show ?thesis by (auto simp: crypts_def same_space_def)
qed

theorem mencrypt_stops_after_first_witness:
  "\<exists>m'. mencrypt demo_hw 0x1234 2 demo = Inr (0, demo\<lparr>mem := m'\<rparr>) \<and> crypts 0x80200000 0x1234 (mem demo) m' \<and>
    (\<forall>vb. PGROUNDDOWN vb \<noteq> PGROUNDDOWN 0x1234 \<longrightarrow> pte_at m' 0x80200000 vb = pte_at (mem demo) 0x80200000 vb)"
  by (rule mencrypt_stops_after_first [OF demo_runs demo_hw_ok demo_rw demo_flags _ demo_check]) simp

text \<open>
  C1: Decryption undoes encryption. After \<^verbatim>\<open>mencrypt\<close> of a page whose first byte is not 255, a fault
  anywhere in the page, taken while the queue has room and does not hold the address, makes
  \<^verbatim>\<open>mdecrypt\<close> return 0 and restores every byte and, but for the accessed and the dirty bit, the
  entry; the page is then in the queue and nothing else has changed.
\<close>

theorem mdecrypt_mencrypt:
  assumes "runs s p pgd ps" "hw_ok hw" "page_rw (mem s) pgd va"
    and "pte_at (mem s) pgd va AND PTE_U \<noteq> 0" "pte_at (mem s) pgd va AND PTE_E = 0"
    and "mem s (frame (mem s) pgd va) \<noteq> 0xFF" "PGROUNDDOWN vb = PGROUNDDOWN va"
    and "length (clock (ptable s ! p)) = CLOCKSIZE" "inQ (ptable s ! p) vb = -1"
    and "free_slot (clock (ptable s ! p)) (head (ptable s ! p) + CLOCKSIZE) CLOCKSIZE = Some i"
  shows "\<exists>t u. mencrypt hw va 1 s = Inr (0, t) \<and> mdecrypt hw vb t = Inr (0, u) \<and>
    same_space pgd va (mem s) (mem u) \<and> ad_eq (pte_at (mem s) pgd va) (pte_at (mem u) pgd va) \<and>
    (\<forall>a. PGROUNDDOWN a \<notin> pt_pages (mem s) pgd \<longrightarrow> mem u a = mem s a) \<and>
    PGROUNDDOWN va \<in> set (clock (ptable u ! p))"
proof -
  obtain m where m: "mencrypt hw va 1 s = Inr (0, s\<lparr>mem := m\<rparr>)" "runs (s\<lparr>mem := m\<rparr>) p pgd ps" "crypts pgd va (mem s) m"
    by (rule mencrypt_one [OF assms(1-5)])
  show ?thesis by (rule mdecrypt_restores [OF assms m(2,3)]) (use m(1) in blast)
qed

theorem mdecrypt_mencrypt_witness:
  "\<exists>t u. mencrypt demo_hw 0x1234 1 demo = Inr (0, t) \<and> mdecrypt demo_hw 0x1FFF t = Inr (0, u) \<and>
    same_space 0x80200000 0x1234 (mem demo) (mem u) \<and>
    ad_eq (pte_at (mem demo) 0x80200000 0x1234) (pte_at (mem u) 0x80200000 0x1234) \<and>
    (\<forall>a. PGROUNDDOWN a \<notin> pt_pages (mem demo) 0x80200000 \<longrightarrow> mem u a = mem demo a) \<and>
    PGROUNDDOWN 0x1234 \<in> set (clock (ptable u ! 0))"
  by (rule mdecrypt_mencrypt [OF demo_runs demo_hw_ok demo_rw demo_flags _ _ _ _ demo_room])
    (simp_all add: demo_queue demo_byte PDX_demo)

text \<open>
  C9: A page whose first byte is 255 is lost. If the first byte of a page is 255, then the fault that
  follows its encryption makes \<^verbatim>\<open>mdecrypt\<close> fail with -1 (on which \<^verbatim>\<open>trap\<close> ends the process), although the
  page is mapped and encrypted; and it leaves the page marked present and not encrypted with its
  bytes still flipped.
\<close>

theorem mdecrypt_fails_on_255:
  assumes "runs s p pgd ps" "hw_ok hw" "page_rw (mem s) pgd va"
    and "pte_at (mem s) pgd va AND PTE_U \<noteq> 0" "pte_at (mem s) pgd va AND PTE_E = 0"
    and "mem s (frame (mem s) pgd va) = 0xFF" "PGROUNDDOWN vb = PGROUNDDOWN va"
    and "inQ (ptable s ! p) vb = -1"
    and "free_slot (clock (ptable s ! p)) (head (ptable s ! p) + CLOCKSIZE) CLOCKSIZE = Some i"
  shows "\<exists>t u. mencrypt hw va 1 s = Inr (0, t) \<and> mdecrypt hw vb t = Inr (-1, u) \<and>
    pte_at (mem u) pgd va AND PTE_P \<noteq> 0 \<and> pte_at (mem u) pgd va AND PTE_E = 0 \<and>
    (\<forall>a. PGROUNDDOWN a = frame (mem s) pgd va \<longrightarrow> mem u a = mem s a XOR 0xFF)"
proof -
  have sv: "pte_at m pgd vb = pte_at m pgd va" for m using assms(7) by (rule pte_at_page)
  obtain m where m: "mencrypt hw va 1 s = Inr (0, s\<lparr>mem := m\<rparr>)" "runs (s\<lparr>mem := m\<rparr>) p pgd ps"
    "crypts pgd va (mem s) m" by (rule mencrypt_one [OF assms(1-5)])
  obtain t where t: "runs t p pgd ps" "\<And>a. PGROUNDDOWN a \<notin> pt_pages (mem s) pgd \<Longrightarrow> mem t a = m a"
    "mdecrypt hw vb (s\<lparr>mem := m\<rparr>) = mdecrypt_tail hw pgd (pte_addr (mem t) pgd vb) vb t"
    "frame (mem t) pgd vb = frame (mem s) pgd va" "vb < KERNBASE"
    "present (mem t) pgd (PDX vb)" "load32 (mem t) (pgd + 4 * PDX vb) AND PTE_W \<noteq> 0" "mapped (mem t) pgd vb"
    "pte_at (mem t) pgd vb AND PTE_U \<noteq> 0" "pte_at (mem t) pgd vb AND PTE_W \<noteq> 0" "same_space pgd va m (mem t)"
    by (rule touch_encrypted [OF assms(1-4) m(2,3) assms(7-9)]) blast
  have nf: "frame (mem s) pgd va \<notin> pt_pages (mem s) pgd"
    using uvm_invD(4) [OF runsD(6) [OF assms(1)]] page_rw_frame [OF assms(3)] by auto
  have by1: "mem t a = mem s a XOR 0xFF" if "PGROUNDDOWN a = frame (mem s) pgd va" for a
    using t(2) [of a] m(3) nf that by (simp add: crypts_def)
  have "mem t (frame (mem t) pgd vb) = 0"
    unfolding t(4) using by1 [of "frame (mem s) pgd va"] assms(6) by (simp add: PGROUNDDOWN_aligned)
  then obtain m2 where m2: "mdecrypt hw vb (s\<lparr>mem := m\<rparr>) = Inr (-1, t\<lparr>mem := m2\<rparr>)"
    "pte_at m2 pgd vb = decrypted_pte (pte_at (mem t) pgd vb)"
    "\<And>a. PGROUNDDOWN a \<notin> pt_pages (mem t) pgd \<Longrightarrow> m2 a = mem t a"
    using mdecrypt_tail_ok(2) [OF t(1) assms(2) t(5-10)] t(3) by auto
  have "pt_pages (mem t) pgd = pt_pages (mem s) pgd"
    using same_space_dir(4) [OF t(11)] m(3) same_space_dir(4) by (auto simp: crypts_def)
  then have "m2 a = mem s a XOR 0xFF" if "PGROUNDDOWN a = frame (mem s) pgd va" for a
    using m2(3) [of a] by1 [OF that] nf that by simp
  then show ?thesis
    using m(1) m2(1,2) by (intro exI [of _ "s\<lparr>mem := m\<rparr>"] exI [of _ "t\<lparr>mem := m2\<rparr>"]) (simp add: sv decrypted_pte_bits)
qed

theorem mdecrypt_fails_on_255_witness:
  "\<exists>t u. mencrypt demo_hw 0x1234 1 demo255 = Inr (0, t) \<and> mdecrypt demo_hw 0x1234 t = Inr (-1, u) \<and>
    pte_at (mem u) 0x80200000 0x1234 AND PTE_P \<noteq> 0 \<and> pte_at (mem u) 0x80200000 0x1234 AND PTE_E = 0 \<and>
    (\<forall>a. PGROUNDDOWN a = frame (mem demo255) 0x80200000 0x1234 \<longrightarrow> mem u a = mem demo255 a XOR 0xFF)"
  by (rule mdecrypt_fails_on_255 [OF demo255_facts(1) demo_hw_ok demo255_facts(2-5) refl demo255_facts(6,7)])

text \<open>
  C3: Eviction from a full queue. Whatever the reference bits of the queued pages are, \<^verbatim>\<open>addClock\<close> on a
  full queue ends within two rounds and evicts the page at the old head: it encrypts that page and
  puts the new one in its slot. A set reference bit does not save the page, it only moves \<^verbatim>\<open>head\<close>
  one slot further.
\<close>

theorem addClock_evicts_head:
  assumes "runs s p pgd ps" "hw_ok hw" "head (ptable s ! p) < CLOCKSIZE"
    and "\<forall>k < CLOCKSIZE. clock (ptable s ! p) ! k \<noteq> 0" "cur = clock (ptable s ! p) ! head (ptable s ! p)"
    and "page_rw (mem s) pgd cur" "pte_at (mem s) pgd cur AND PTE_U \<noteq> 0" "pte_at (mem s) pgd cur AND PTE_E = 0"
  shows "\<exists>t. addClock hw p va s = Inr t \<and> runs t p pgd ps \<and> crypts pgd cur (mem s) (mem t) \<and>
    clock (ptable t ! p) = (clock (ptable s ! p))[head (ptable s ! p) := PGROUNDDOWN va] \<and>
    head (ptable t ! p) =
      (head (ptable s ! p) + (if pte_at (mem s) pgd cur AND PTE_A \<noteq> 0 then 2 else 1)) mod CLOCKSIZE"
proof -
  let ?h = "head (ptable s ! p)"
  have "free_slot (clock (ptable s ! p)) (?h + CLOCKSIZE) CLOCKSIZE = None"
    using assms(4) by (subst free_slot_None) (auto intro!: assms(4) [rule_format])
  then have ev: "addClock hw p va s = evict_loop hw (Suc (Suc 0)) p ?h va s"
    by (simp add: addClock_def Let_def numeral_2_eq_2 del: evict_loop.simps)
  show ?thesis
  proof (cases "pte_at (mem s) pgd cur AND PTE_A = 0")
    case True
    with ev evict_clear [OF assms(1,2) assms(5) [symmetric] assms(6-8) True, of "Suc 0" va] show ?thesis by simp
  next
    case False
    obtain t where t: "evict_loop hw (Suc (Suc 0)) p ?h va s = evict_loop hw (Suc 0) p ?h va t" "runs t p pgd ps"
      "same_space pgd cur (mem s) (mem t)" "pte_at (mem t) pgd cur = pte_at (mem s) pgd cur AND NOT PTE_A"
      "\<forall>b. PGROUNDDOWN b \<notin> pt_pages (mem s) pgd \<longrightarrow> mem t b = mem s b"
      "clock (ptable t ! p) = clock (ptable s ! p)" "head (ptable t ! p) = (?h + 1) mod CLOCKSIZE"
      using evict_referenced [OF assms(1) assms(5) [symmetric] assms(6) False, of hw "Suc 0" va] by blast
    have ad: "ad_eq (pte_at (mem s) pgd cur) (pte_at (mem t) pgd cur)" using t(4) ad_eq_clear_A by simp
    have c: "clock (ptable t ! p) ! ?h = cur" using t(6) assms(5) by simp
    have b: "page_rw (mem t) pgd cur" "pte_at (mem t) pgd cur AND PTE_U \<noteq> 0" "pte_at (mem t) pgd cur AND PTE_E = 0"
      "pte_at (mem t) pgd cur AND PTE_A = 0"
      using page_rw_same [OF t(3) ad] ad_eq_bits(5,6) [OF ad] assms(6-8) t(4) by (simp_all add: and.assoc)
    obtain w where w: "evict_loop hw (Suc 0) p ?h va t = Inr w" "runs w p pgd ps" "crypts pgd cur (mem t) (mem w)"
      "clock (ptable w ! p) = (clock (ptable t ! p))[?h := PGROUNDDOWN va]"
      "head (ptable w ! p) = (head (ptable t ! p) + 1) mod CLOCKSIZE"
      using evict_clear [OF t(2) assms(2) c b, of 0 va] by blast
    have "crypts pgd cur (mem s) (mem w)" by (rule crypts_ad_eq [OF t(3) ad w(3)]) (use t(5) in blast)
    moreover have "head (ptable w ! p) = (?h + 2) mod CLOCKSIZE"
      using w(5) t(7) by (simp add: mod_Suc_eq)
    ultimately show ?thesis using ev t(1,6) w False by simp
  qed
qed

theorem addClock_evicts_head_witness:
  "\<exists>t. addClock demo_hw 0 0x2000 demo_full = Inr t \<and> runs t 0 0x80200000 [] \<and>
    crypts 0x80200000 0x1000 (mem demo_full) (mem t) \<and>
    clock (ptable t ! 0) = (clock (ptable demo_full ! 0))[head (ptable demo_full ! 0) := PGROUNDDOWN 0x2000] \<and>
    head (ptable t ! 0) = (head (ptable demo_full ! 0) +
      (if pte_at (mem demo_full) 0x80200000 0x1000 AND PTE_A \<noteq> 0 then 2 else 1)) mod CLOCKSIZE"
  by (rule addClock_evicts_head [OF demo_full_facts(1) demo_hw_ok demo_full_facts(2-7)])

end
