(* ===== verification/Proc.thy ===== *)
theory Proc
  imports Vmcrypt
begin

text \<open>
  Scheduling in \<^verbatim>\<open>proc.c\<close>: slots of the process table, the switch into the scheduler, sleeping
  and waking, killing, waiting for children, growing the heap. A call that gives up the processor
  is split at \<^verbatim>\<open>swtch\<close>: the part before it ends in a state in which the scheduler runs, the part
  after it starts from the state in which the scheduler resumes the process.
\<close>

section \<open>Locks that are fields of the state\<close>

definition acq ::
    "('a kmem_scheme \<Rightarrow> spinlock) \<Rightarrow> ((spinlock \<Rightarrow> spinlock) \<Rightarrow> 'a kmem_scheme \<Rightarrow> 'a kmem_scheme) \<Rightarrow>
     'a kmem_scheme \<Rightarrow> 'a kmem_scheme res" where
  "acq g u s = bnd (acquire (kcpu s) (g s)) (\<lambda>(c, l). Inr (u (\<lambda>_. l) (s\<lparr>kcpu := c\<rparr>)))"

definition rel ::
    "('a kmem_scheme \<Rightarrow> spinlock) \<Rightarrow> ((spinlock \<Rightarrow> spinlock) \<Rightarrow> 'a kmem_scheme \<Rightarrow> 'a kmem_scheme) \<Rightarrow>
     'a kmem_scheme \<Rightarrow> 'a kmem_scheme res" where
  "rel g u s = bnd (release (kcpu s) (g s)) (\<lambda>(c, l). Inr (u (\<lambda>_. l) (s\<lparr>kcpu := c\<rparr>)))"

abbreviation acq_ptable :: "'a kproc_scheme \<Rightarrow> 'a kproc_scheme res" where
  "acq_ptable \<equiv> acq ptable_lock ptable_lock_update"

abbreviation rel_ptable :: "'a kproc_scheme \<Rightarrow> 'a kproc_scheme res" where
  "rel_ptable \<equiv> rel ptable_lock ptable_lock_update"

text \<open>The lock argument of \<^verbatim>\<open>sleep\<close>: null, \<^verbatim>\<open>&ptable.lock\<close>, or another lock of the state.\<close>

datatype 's lkref = NullLk | PtableLk | OtherLk "'s \<Rightarrow> spinlock" "(spinlock \<Rightarrow> spinlock) \<Rightarrow> 's \<Rightarrow> 's"

text \<open>
  How a kernel path that may block comes out: it returns, or it has switched to the scheduler. Then
  the local variables that it goes on with are the saved \<^verbatim>\<open>intena\<close> of \<^verbatim>\<open>sched\<close> and its own \<open>'l\<close>.
\<close>

datatype ('l, 'r, 's) outcome = Ret 'r 's | Blk 'l bool 's

section \<open>Slots of the process table\<close>

text \<open>The addresses of the assembly entries \<^verbatim>\<open>trapret\<close> and \<^verbatim>\<open>forkret\<close>, and the flag \<^verbatim>\<open>first\<close>.\<close>

record kthread = kproc +
  trapret_addr :: addr
  forkret_addr :: addr
  first :: bool

abbreviation sizeof_trapframe :: "32 word" where "sizeof_trapframe \<equiv> 76"
abbreviation sizeof_context :: "32 word" where "sizeof_context \<equiv> 20"

fun find_proc :: "(proc \<Rightarrow> bool) \<Rightarrow> proc list \<Rightarrow> nat option" where
  "find_proc P [] = None"
| "find_proc P (p # ps) = (if P p then Some 0 else map_option Suc (find_proc P ps))"

definition allocproc :: "'a kthread_scheme \<Rightarrow> (nat option \<times> 'a kthread_scheme) res" where
  "allocproc s =
     bnd (acq_ptable s) (\<lambda>s.
       case find_proc (\<lambda>p. pstate p = UNUSED) (ptable s) of
         None \<Rightarrow> bnd (rel_ptable s) (\<lambda>s. Inr (None, s))
       | Some p \<Rightarrow>
         (let s = upd_proc p (pstate_update (\<lambda>_. EMBRYO)) s;
              s = upd_proc p (pid_update (\<lambda>_. nextpid s)) s;
              s = s\<lparr>nextpid := nextpid s + 1\<rparr> in
          bnd (rel_ptable s) (\<lambda>s.
          bnd (kalloc s) (\<lambda>(k, s).
            let s = upd_proc p (kstack_update (\<lambda>_. k)) s in
            if k = 0 then Inr (None, upd_proc p (pstate_update (\<lambda>_. UNUSED)) s)
            else
              let sp = k + KSTACKSIZE;
                  sp = sp - sizeof_trapframe;
                  s = upd_proc p (tf_update (\<lambda>_. sp)) s;
                  sp = sp - 4;
                  s = s\<lparr>mem := store32 (mem s) sp (trapret_addr s)\<rparr>;
                  sp = sp - sizeof_context;
                  s = upd_proc p (pcontext_update (\<lambda>_. sp)) s;
                  s = s\<lparr>mem := memset (mem s) sp 0 sizeof_context\<rparr>;
                  s = s\<lparr>mem := store32 (mem s) (sp + 16) (forkret_addr s)\<rparr>
              in Inr (Some p, s)))))"

section \<open>Switching\<close>

text \<open>
  \<^verbatim>\<open>sched\<close> before and after \<^verbatim>\<open>swtch\<close>. What \<^verbatim>\<open>swtch\<close> leaves in \<^verbatim>\<open>p->context\<close> is the depth of
  the kernel stack at the call, an argument here.
\<close>

definition sched_out :: "addr \<Rightarrow> 'a kproc_scheme \<Rightarrow> (bool \<times> 'a kproc_scheme) res" where
  "sched_out sp s =
     bnd (myproc s) (\<lambda>(p, s).
     bnd (holding (kcpu s) (ptable_lock s)) (\<lambda>(h, c).
       let s = s\<lparr>kcpu := c\<rparr> in
       if \<not> h then Inl (Panic ''sched ptable.lock'')
       else bnd (mycpu s) (\<lambda>c.
         if ncli c \<noteq> 1 then Inl (Panic ''sched locks'')
         else case p of None \<Rightarrow> Inl NullDeref
         | Some i \<Rightarrow>
           if pstate (ptable s ! i) = RUNNING then Inl (Panic ''sched running'')
           else if eflags_if (kcpu s) then Inl (Panic ''sched interruptible'')
           else Inr (intena c, upd_proc i (pcontext_update (\<lambda>_. sp)) s))))"

definition sched_in :: "bool \<Rightarrow> 'a kproc_scheme \<Rightarrow> 'a kproc_scheme res" where
  "sched_in i s = bnd (mycpu s) (\<lambda>c. Inr (s\<lparr>kcpu := c\<lparr>intena := i\<rparr>\<rparr>))"

definition yield_out :: "addr \<Rightarrow> 'a kproc_scheme \<Rightarrow> (bool \<times> 'a kproc_scheme) res" where
  "yield_out sp s =
     bnd (acq_ptable s) (\<lambda>s.
     bnd (curproc s) (\<lambda>(p, s). sched_out sp (upd_proc p (pstate_update (\<lambda>_. RUNNABLE)) s)))"

definition yield_in :: "bool \<Rightarrow> 'a kproc_scheme \<Rightarrow> 'a kproc_scheme res" where
  "yield_in i s = bnd (sched_in i s) rel_ptable"

text \<open>
  One iteration of the \<^verbatim>\<open>for(;;)\<close> of \<^verbatim>\<open>scheduler\<close>. Between the two calls of \<^verbatim>\<open>swtch\<close> the chosen
  process runs until it calls \<^verbatim>\<open>sched\<close>; \<open>run\<close> stands for what happens in that time.
\<close>

fun scheduler_loop ::
    "(nat \<Rightarrow> 'a kproc_scheme \<Rightarrow> 'a kproc_scheme res) \<Rightarrow> nat \<Rightarrow> nat \<Rightarrow> 'a kproc_scheme \<Rightarrow> 'a kproc_scheme res" where
  "scheduler_loop run 0 p s = Inr s"
| "scheduler_loop run (Suc n) p s =
     (if pstate (ptable s ! p) \<noteq> RUNNABLE then scheduler_loop run n (Suc p) s
      else let s = s\<lparr>kcpu := (kcpu s)\<lparr>cproc := Some p\<rparr>\<rparr> in
        bnd (switchuvm (Some p) s) (\<lambda>s.
          let s = upd_proc p (pstate_update (\<lambda>_. RUNNING)) s in
          bnd (run p s) (\<lambda>s.
            let s = switchkvm s;
                s = s\<lparr>kcpu := (kcpu s)\<lparr>cproc := None\<rparr>\<rparr>
            in scheduler_loop run n (Suc p) s)))"

definition scheduler_round ::
    "(nat \<Rightarrow> 'a kproc_scheme \<Rightarrow> 'a kproc_scheme res) \<Rightarrow> 'a kproc_scheme \<Rightarrow> 'a kproc_scheme res" where
  "scheduler_round run s =
     (let s = s\<lparr>kcpu := (kcpu s)\<lparr>eflags_if := True\<rparr>\<rparr> in
      bnd (acq_ptable s) (\<lambda>s. bnd (scheduler_loop run (length (ptable s)) 0 s) rel_ptable))"

section \<open>Sleeping and waking\<close>

definition sleep_out ::
    "chan \<Rightarrow> 'a kproc_scheme lkref \<Rightarrow> addr \<Rightarrow> 'a kproc_scheme \<Rightarrow> (bool \<times> 'a kproc_scheme) res" where
  "sleep_out ch lk sp s =
     bnd (myproc s) (\<lambda>(p, s).
       case p of None \<Rightarrow> Inl (Panic ''sleep'')
       | Some p \<Rightarrow>
         bnd (case lk of NullLk \<Rightarrow> Inl (Panic ''sleep without lk'')
              | PtableLk \<Rightarrow> Inr s
              | OtherLk g u \<Rightarrow> bnd (acq_ptable s) (rel g u)) (\<lambda>s.
           let s = upd_proc p (pchan_update (\<lambda>_. ch)) s;
               s = upd_proc p (pstate_update (\<lambda>_. SLEEPING)) s
           in sched_out sp s))"

definition sleep_in ::
    "nat \<Rightarrow> 'a kproc_scheme lkref \<Rightarrow> bool \<Rightarrow> 'a kproc_scheme \<Rightarrow> 'a kproc_scheme res" where
  "sleep_in p lk i s =
     bnd (sched_in i s) (\<lambda>s.
       let s = upd_proc p (pchan_update (\<lambda>_. NoChan)) s in
       case lk of OtherLk g u \<Rightarrow> bnd (rel_ptable s) (acq g u) | _ \<Rightarrow> Inr s)"

definition wakeup1 :: "chan \<Rightarrow> 'a kproc_scheme \<Rightarrow> 'a kproc_scheme" where
  "wakeup1 ch s =
     s\<lparr>ptable := map (\<lambda>p. if pstate p = SLEEPING \<and> pchan p = ch then p\<lparr>pstate := RUNNABLE\<rparr> else p) (ptable s)\<rparr>"

definition wakeup :: "chan \<Rightarrow> 'a kproc_scheme \<Rightarrow> 'a kproc_scheme res" where
  "wakeup ch s = bnd (acq_ptable s) (\<lambda>s. rel_ptable (wakeup1 ch s))"

definition kill :: "int \<Rightarrow> 'a kproc_scheme \<Rightarrow> (int \<times> 'a kproc_scheme) res" where
  "kill n s =
     bnd (acq_ptable s) (\<lambda>s.
       case find_proc (\<lambda>p. pid p = n) (ptable s) of
         None \<Rightarrow> bnd (rel_ptable s) (\<lambda>s. Inr (-1, s))
       | Some p \<Rightarrow>
         (let s = upd_proc p (killed_update (\<lambda>_. True)) s;
              s = (if pstate (ptable s ! p) = SLEEPING then upd_proc p (pstate_update (\<lambda>_. RUNNABLE)) s else s)
          in bnd (rel_ptable s) (\<lambda>s. Inr (0, s))))"

section \<open>Waiting for children\<close>

text \<open>The scan of the table: the identifier of a child that was reaped, or whether there are children.\<close>

fun wait_scan :: "nat \<Rightarrow> nat \<Rightarrow> nat \<Rightarrow> bool \<Rightarrow> 'a kproc_scheme \<Rightarrow> ((int + bool) \<times> 'a kproc_scheme) res" where
  "wait_scan cur 0 i havekids s = Inr (Inr havekids, s)"
| "wait_scan cur (Suc n) i havekids s =
     (let p = ptable s ! i in
      if parent p \<noteq> Some cur then wait_scan cur n (Suc i) havekids s
      else if pstate p = ZOMBIE then
        let n = pid p in
        bnd (kfree (kstack p) s) (\<lambda>s.
          let s = upd_proc i (kstack_update (\<lambda>_. 0)) s in
          bnd (freevm (pgdir (ptable s ! i)) s) (\<lambda>s.
            let s = upd_proc i (pid_update (\<lambda>_. 0)) s;
                s = upd_proc i (parent_update (\<lambda>_. None)) s;
                s = upd_proc i (pname_update (\<lambda>_. [])) s;
                s = upd_proc i (killed_update (\<lambda>_. False)) s;
                s = upd_proc i (pstate_update (\<lambda>_. UNUSED)) s
            in Inr (Inl n, s)))
      else wait_scan cur n (Suc i) True s)"

text \<open>An iteration of the \<^verbatim>\<open>for(;;)\<close> of \<^verbatim>\<open>wait\<close>: it returns or falls asleep on the process itself.\<close>

definition wait_round :: "addr \<Rightarrow> nat \<Rightarrow> 'a kproc_scheme \<Rightarrow> (unit, int, 'a kproc_scheme) outcome res" where
  "wait_round sp cur s =
     bnd (wait_scan cur (length (ptable s)) 0 False s) (\<lambda>(r, s).
       case r of
         Inl n \<Rightarrow> bnd (rel_ptable s) (\<lambda>s. Inr (Ret n s))
       | Inr havekids \<Rightarrow>
           if \<not> havekids \<or> killed (ptable s ! cur) then bnd (rel_ptable s) (\<lambda>s. Inr (Ret (-1) s))
           else bnd (sleep_out (ChProc cur) PtableLk sp s) (\<lambda>(i, s). Inr (Blk () i s)))"

definition wait :: "addr \<Rightarrow> 'a kproc_scheme \<Rightarrow> (unit, int, 'a kproc_scheme) outcome res" where
  "wait sp s = bnd (myproc s) (\<lambda>(p, s). bnd (acq_ptable s) (\<lambda>s.
     case p of None \<Rightarrow> Inl NullDeref | Some cur \<Rightarrow> wait_round sp cur s))"

definition wait_resume :: "addr \<Rightarrow> nat \<Rightarrow> bool \<Rightarrow> 'a kproc_scheme \<Rightarrow> (unit, int, 'a kproc_scheme) outcome res" where
  "wait_resume sp cur i s = bnd (sleep_in cur PtableLk i s) (wait_round sp cur)"

section \<open>Growing the heap\<close>

text \<open>
  The loop that encrypts the new pages, from the old size on. Below the kernel, where \<^verbatim>\<open>allocuvm\<close>
  keeps the end, the address cannot wrap; a run that wraps comes back to where it was.
\<close>

function grow_loop :: "hw_walk \<Rightarrow> addr \<Rightarrow> addr \<Rightarrow> 'a kproc_scheme \<Rightarrow> 'a kproc_scheme res" where
  "grow_loop hw a e s =
     (if a < e then bnd (mencrypt hw a 1 s) (\<lambda>(_, s).
        if a + PGSIZE < a then Inl Diverges else grow_loop hw (a + PGSIZE) e s) else Inr s)"
  by pat_completeness auto
termination
proof (relation "measure (\<lambda>(hw, a, e, s). 4294967296 - unat a)")
  fix hw :: hw_walk and a e :: addr and s t :: "'a kproc_scheme" and x
  assume "\<not> a + PGSIZE < a"
  then have "a \<le> a + PGSIZE" by (rule leI)
  moreover have "a \<noteq> a + PGSIZE" by simp
  ultimately have "a < a + PGSIZE" by (rule le_neq_trans)
  then show "((hw, a + PGSIZE, e, t), hw, a, e, s) \<in> measure (\<lambda>(hw, a, e, s). 4294967296 - unat a)"
    by (simp add: upwards)
qed simp

declare grow_loop.simps [simp del]

definition growproc :: "hw_walk \<Rightarrow> int \<Rightarrow> 'a kproc_scheme \<Rightarrow> (int \<times> 'a kproc_scheme) res" where
  "growproc hw n s =
     bnd (curproc s) (\<lambda>(cur, s).
       let p = ptable s ! cur; sz = psz p;
           finish = (\<lambda>sz s. let s = upd_proc cur (psz_update (\<lambda>_. sz)) s in
             bnd (switchuvm (Some cur) s) (\<lambda>s. Inr (0, s))) in
       if n > 0 then
         bnd (allocuvm (pgdir p) sz (sz + word_of_int n) s) (\<lambda>(nsz, s).
           if nsz = 0 then Inr (-1, s)
           else let m = (if n mod 4096 \<noteq> 0 then PGROUNDUP (word_of_int n) else word_of_int n) in
             bnd (grow_loop hw sz (sz + m) s) (finish nsz))
       else if n < 0 then
         bnd (deallocuvm (pgdir p) sz (sz + word_of_int n) s) (\<lambda>(nsz, s).
           if nsz = 0 then Inr (-1, s) else finish nsz s)
       else finish sz s)"

end
