(* ===== verification/Sleeplock.thy ===== *)
theory Sleeplock
  imports Proc
begin

text \<open>
  Sleep locks of \<^verbatim>\<open>sleeplock.c\<close>. A sleep lock is a field of the state, given by its selector and
  its update function.
\<close>

record sleeplock =
  slocked :: bool
  slk :: spinlock
  sname :: string
  spid :: int

definition initsleeplock :: "sleeplock \<Rightarrow> string \<Rightarrow> sleeplock" where
  "initsleeplock lk nm =
     lk\<lparr>slk := initlock (slk lk) ''sleep lock'', sname := nm, slocked := False, spid := 0\<rparr>"

abbreviation acq_slk ::
    "('a kmem_scheme \<Rightarrow> sleeplock) \<Rightarrow> ((sleeplock \<Rightarrow> sleeplock) \<Rightarrow> 'a kmem_scheme \<Rightarrow> 'a kmem_scheme) \<Rightarrow>
     'a kmem_scheme \<Rightarrow> 'a kmem_scheme res" where
  "acq_slk g u \<equiv> acq (\<lambda>s. slk (g s)) (\<lambda>f. u (slk_update f))"

abbreviation rel_slk ::
    "('a kmem_scheme \<Rightarrow> sleeplock) \<Rightarrow> ((sleeplock \<Rightarrow> sleeplock) \<Rightarrow> 'a kmem_scheme \<Rightarrow> 'a kmem_scheme) \<Rightarrow>
     'a kmem_scheme \<Rightarrow> 'a kmem_scheme res" where
  "rel_slk g u \<equiv> rel (\<lambda>s. slk (g s)) (\<lambda>f. u (slk_update f))"

text \<open>
  An iteration of the loop of \<^verbatim>\<open>acquiresleep\<close>, entered with the inner spin lock held: it takes
  the lock, or goes to sleep on \<open>ch\<close>, the channel that the lock is.
\<close>

definition acquiresleep_round ::
    "('a kproc_scheme \<Rightarrow> sleeplock) \<Rightarrow> ((sleeplock \<Rightarrow> sleeplock) \<Rightarrow> 'a kproc_scheme \<Rightarrow> 'a kproc_scheme) \<Rightarrow>
     chan \<Rightarrow> addr \<Rightarrow> 'a kproc_scheme \<Rightarrow> (unit, unit, 'a kproc_scheme) outcome res" where
  "acquiresleep_round g u ch sp s =
     (if slocked (g s)
      then bnd (sleep_out ch (OtherLk (\<lambda>s. slk (g s)) (\<lambda>f. u (slk_update f))) sp s) (\<lambda>(i, s). Inr (Blk () i s))
      else let s = u (slocked_update (\<lambda>_. True)) s in
        bnd (curproc s) (\<lambda>(p, s).
          let s = u (spid_update (\<lambda>_. pid (ptable s ! p))) s in
          bnd (rel_slk g u s) (\<lambda>s. Inr (Ret () s))))"

definition acquiresleep_start ::
    "('a kproc_scheme \<Rightarrow> sleeplock) \<Rightarrow> ((sleeplock \<Rightarrow> sleeplock) \<Rightarrow> 'a kproc_scheme \<Rightarrow> 'a kproc_scheme) \<Rightarrow>
     chan \<Rightarrow> addr \<Rightarrow> 'a kproc_scheme \<Rightarrow> (unit, unit, 'a kproc_scheme) outcome res" where
  "acquiresleep_start g u ch sp s = bnd (acq_slk g u s) (acquiresleep_round g u ch sp)"

definition acquiresleep_resume ::
    "('a kproc_scheme \<Rightarrow> sleeplock) \<Rightarrow> ((sleeplock \<Rightarrow> sleeplock) \<Rightarrow> 'a kproc_scheme \<Rightarrow> 'a kproc_scheme) \<Rightarrow>
     chan \<Rightarrow> addr \<Rightarrow> nat \<Rightarrow> bool \<Rightarrow> 'a kproc_scheme \<Rightarrow> (unit, unit, 'a kproc_scheme) outcome res" where
  "acquiresleep_resume g u ch sp p i s =
     bnd (sleep_in p (OtherLk (\<lambda>s. slk (g s)) (\<lambda>f. u (slk_update f))) i s) (acquiresleep_round g u ch sp)"

text \<open>
  The call as the file system makes it: a path that finds the lock taken is given up with the
  outcome \<^term>\<open>Sleeps\<close>.
\<close>

definition acquiresleep ::
    "('a kproc_scheme \<Rightarrow> sleeplock) \<Rightarrow> ((sleeplock \<Rightarrow> sleeplock) \<Rightarrow> 'a kproc_scheme \<Rightarrow> 'a kproc_scheme) \<Rightarrow>
     chan \<Rightarrow> 'a kproc_scheme \<Rightarrow> 'a kproc_scheme res" where
  "acquiresleep g u ch s =
     bnd (acquiresleep_start g u ch 0 s) (\<lambda>r. case r of Ret _ s \<Rightarrow> Inr s | Blk _ _ _ \<Rightarrow> Inl Sleeps)"

definition releasesleep ::
    "('a kproc_scheme \<Rightarrow> sleeplock) \<Rightarrow> ((sleeplock \<Rightarrow> sleeplock) \<Rightarrow> 'a kproc_scheme \<Rightarrow> 'a kproc_scheme) \<Rightarrow>
     chan \<Rightarrow> 'a kproc_scheme \<Rightarrow> 'a kproc_scheme res" where
  "releasesleep g u ch s =
     bnd (acq_slk g u s) (\<lambda>s.
       let s = u (slocked_update (\<lambda>_. False)) s;
           s = u (spid_update (\<lambda>_. 0)) s in
       bnd (wakeup ch s) (rel_slk g u))"

definition holdingsleep ::
    "('a kproc_scheme \<Rightarrow> sleeplock) \<Rightarrow> ((sleeplock \<Rightarrow> sleeplock) \<Rightarrow> 'a kproc_scheme \<Rightarrow> 'a kproc_scheme) \<Rightarrow>
     'a kproc_scheme \<Rightarrow> (bool \<times> 'a kproc_scheme) res" where
  "holdingsleep g u s =
     bnd (acq_slk g u s) (\<lambda>s.
     bnd (if slocked (g s) then bnd (curproc s) (\<lambda>(p, s). Inr (spid (g s) = pid (ptable s ! p), s))
          else Inr (False, s)) (\<lambda>(r, s).
     bnd (rel_slk g u s) (\<lambda>s. Inr (r, s))))"

end
