(* ===== verification/Bytes.thy ===== *)
theory Bytes
  imports Prelude
begin

text \<open>
  Blocks of bytes with the little-endian 16-bit and 32-bit fields that the file system keeps in
  them.
\<close>

definition get16 :: "byte list \<Rightarrow> nat \<Rightarrow> 16 word" where
  "get16 xs i = ucast (xs ! i) OR push_bit 8 (ucast (xs ! (i + 1)))"

definition get32 :: "byte list \<Rightarrow> nat \<Rightarrow> 32 word" where
  "get32 xs i = ucast (xs ! i) OR push_bit 8 (ucast (xs ! (i + 1))) OR
     push_bit 16 (ucast (xs ! (i + 2))) OR push_bit 24 (ucast (xs ! (i + 3)))"

definition le16 :: "16 word \<Rightarrow> byte list" where
  "le16 w = [ucast w, ucast (drop_bit 8 w)]"

definition le32 :: "32 word \<Rightarrow> byte list" where
  "le32 w = [ucast w, ucast (drop_bit 8 w), ucast (drop_bit 16 w), ucast (drop_bit 24 w)]"

text \<open>Overwriting a part of a block, as \<^verbatim>\<open>memmove(data + i, src, n)\<close> does.\<close>

definition blit :: "byte list \<Rightarrow> nat \<Rightarrow> byte list \<Rightarrow> byte list" where
  "blit xs i ys = take i xs @ ys @ drop (i + length ys) xs"

definition slice :: "byte list \<Rightarrow> nat \<Rightarrow> nat \<Rightarrow> byte list" where
  "slice xs i n = take n (drop i xs)"

definition put16 :: "byte list \<Rightarrow> nat \<Rightarrow> 16 word \<Rightarrow> byte list" where
  "put16 xs i w = blit xs i (le16 w)"

definition put32 :: "byte list \<Rightarrow> nat \<Rightarrow> 32 word \<Rightarrow> byte list" where
  "put32 xs i w = blit xs i (le32 w)"

lemma length_le [simp]: "length (le16 v) = 2" "length (le32 w) = 4"
  by (simp_all add: le16_def le32_def)

lemma length_blit [simp]: "i + length ys \<le> length xs \<Longrightarrow> length (blit xs i ys) = length xs"
  by (simp add: blit_def)

lemma length_put [simp]:
  "i + 2 \<le> length xs \<Longrightarrow> length (put16 xs i v) = length xs"
  "i + 4 \<le> length xs \<Longrightarrow> length (put32 xs i w) = length xs"
  by (simp_all add: put16_def put32_def)

lemma length_slice [simp]: "i + n \<le> length xs \<Longrightarrow> length (slice xs i n) = n"
  by (simp add: slice_def)

lemma nth_blit:
  "i + length ys \<le> length xs \<Longrightarrow> k < length xs \<Longrightarrow>
   blit xs i ys ! k = (if i \<le> k \<and> k < i + length ys then ys ! (k - i) else xs ! k)"
  by (auto simp: blit_def nth_append)

lemma slice_blit_same [simp]: "i + length ys \<le> length xs \<Longrightarrow> slice (blit xs i ys) i (length ys) = ys"
  by (simp add: slice_def blit_def)

lemma slice_blit_other:
  "i + length ys \<le> length xs \<Longrightarrow> j + n \<le> i \<or> i + length ys \<le> j \<Longrightarrow> j + n \<le> length xs \<Longrightarrow>
   slice (blit xs i ys) j n = slice xs j n"
  by (rule nth_equalityI) (auto simp: slice_def nth_blit)

lemma slice_nth: "k < n \<Longrightarrow> i + n \<le> length xs \<Longrightarrow> slice xs i n ! k = xs ! (i + k)"
  by (simp add: slice_def)

lemma get32_slice: "i + 4 \<le> length xs \<Longrightarrow> get32 xs i = get32 (slice xs i 4) 0"
  by (simp add: get32_def slice_nth)

lemma get16_slice: "i + 2 \<le> length xs \<Longrightarrow> get16 xs i = get16 (slice xs i 2) 0"
  by (simp add: get16_def slice_nth)

lemma get32_le32 [simp]: "get32 (le32 w) 0 = w"
proof (rule bit_word_eqI)
  fix n assume "n < LENGTH(32)"
  then consider "n < 8" | "8 \<le> n" "n < 16" | "16 \<le> n" "n < 24" | "24 \<le> n" "n < 32" by fastforce
  then show "bit (get32 (le32 w) 0) n \<longleftrightarrow> bit w n"
    by cases (auto simp: get32_def le32_def bit_simps)
qed

lemma get16_le16 [simp]: "get16 (le16 w) 0 = w"
proof (rule bit_word_eqI)
  fix n assume "n < LENGTH(16)"
  then consider "n < 8" | "8 \<le> n" "n < 16" by fastforce
  then show "bit (get16 (le16 w) 0) n \<longleftrightarrow> bit w n"
    by cases (auto simp: get16_def le16_def bit_simps)
qed

lemma get32_put32 [simp]: "i + 4 \<le> length xs \<Longrightarrow> get32 (put32 xs i w) i = w"
  using slice_blit_same [of i "le32 w" xs] by (simp add: put32_def get32_slice [of i])

lemma get16_put16 [simp]: "i + 2 \<le> length xs \<Longrightarrow> get16 (put16 xs i w) i = w"
  using slice_blit_same [of i "le16 w" xs] by (simp add: put16_def get16_slice [of i])

lemma get32_put32_other:
  "i + 4 \<le> length xs \<Longrightarrow> j + 4 \<le> length xs \<Longrightarrow> j + 4 \<le> i \<or> i + 4 \<le> j \<Longrightarrow>
   get32 (put32 xs i w) j = get32 xs j"
  by (simp add: put32_def get32_slice [of j] slice_blit_other)

end
