(* ===== verification/Bio.thy ===== *)
theory Bio
  imports Sleeplock Bytes
begin

text \<open>
  The buffer cache of \<^verbatim>\<open>bio.c\<close> over the disk in memory of \<^verbatim>\<open>memide.c\<close>. The buffers are named by
  their index in \<^verbatim>\<open>bcache.buf\<close>, the list head is the index after the last; the list runs through
  the \<^verbatim>\<open>prev\<close> and \<^verbatim>\<open>next\<close> fields, as in the code.
\<close>

abbreviation BSIZE :: nat where "BSIZE \<equiv> 512"
abbreviation NBUF :: nat where "NBUF \<equiv> 30"

record buf =
  bvalid :: bool
  bdirty :: bool
  bdev :: "32 word"
  blockno :: "32 word"
  block :: sleeplock
  refcnt :: "32 word"
  bprev :: nat
  bnext :: nat
  bdata :: "byte list"

text \<open>
  \<open>disk\<close> holds the blocks of \<^verbatim>\<open>memdisk\<close>. \<open>dwrites\<close> records the block writes in the order in
  which they reach the disk: after a crash the disk holds a prefix of them.
\<close>

record kbio = kthread +
  bcache_lock :: spinlock
  bufs :: "buf list"
  disk :: "byte list list"
  dwrites :: "(32 word \<times> byte list) list"

definition upd_buf :: "nat \<Rightarrow> (buf \<Rightarrow> buf) \<Rightarrow> 'a kbio_scheme \<Rightarrow> 'a kbio_scheme" where
  "upd_buf i f s = s\<lparr>bufs := (bufs s)[i := f (bufs s ! i)]\<rparr>"

abbreviation blk_get :: "nat \<Rightarrow> 'a kbio_scheme \<Rightarrow> sleeplock" where
  "blk_get i \<equiv> \<lambda>s. block (bufs s ! i)"

abbreviation blk_upd :: "nat \<Rightarrow> (sleeplock \<Rightarrow> sleeplock) \<Rightarrow> 'a kbio_scheme \<Rightarrow> 'a kbio_scheme" where
  "blk_upd i \<equiv> \<lambda>f. upd_buf i (block_update f)"

abbreviation acq_bcache :: "'a kbio_scheme \<Rightarrow> 'a kbio_scheme res" where
  "acq_bcache \<equiv> acq bcache_lock bcache_lock_update"

abbreviation rel_bcache :: "'a kbio_scheme \<Rightarrow> 'a kbio_scheme res" where
  "rel_bcache \<equiv> rel bcache_lock bcache_lock_update"

section \<open>The disk\<close>

definition iderw :: "nat \<Rightarrow> 'a kbio_scheme \<Rightarrow> 'a kbio_scheme res" where
  "iderw i s =
     bnd (holdingsleep (blk_get i) (blk_upd i) s) (\<lambda>(h, s).
       let b = bufs s ! i in
       if \<not> h then Inl (Panic ''iderw: buf not locked'')
       else if bvalid b \<and> \<not> bdirty b then Inl (Panic ''iderw: nothing to do'')
       else if bdev b \<noteq> 1 then Inl (Panic ''iderw: request not for disk 1'')
       else if unat (blockno b) \<ge> length (disk s) then Inl (Panic ''iderw: block out of range'')
       else let s = (if bdirty b
           then (let s = upd_buf i (bdirty_update (\<lambda>_. False)) s
                 in s\<lparr>disk := (disk s)[unat (blockno b) := bdata b], dwrites := dwrites s @ [(blockno b, bdata b)]\<rparr>)
           else upd_buf i (bdata_update (\<lambda>_. disk s ! unat (blockno b))) s)
         in Inr (upd_buf i (bvalid_update (\<lambda>_. True)) s))"

section \<open>The cache\<close>

text \<open>\<open>push_front\<close>: the four assignments that put a buffer behind the list head.\<close>

definition push_front :: "nat \<Rightarrow> 'a kbio_scheme \<Rightarrow> 'a kbio_scheme" where
  "push_front b s =
     (let s = upd_buf b (bnext_update (\<lambda>_. bnext (bufs s ! NBUF))) s;
          s = upd_buf b (bprev_update (\<lambda>_. NBUF)) s;
          s = upd_buf (bnext (bufs s ! NBUF)) (bprev_update (\<lambda>_. b)) s
      in upd_buf NBUF (bnext_update (\<lambda>_. b)) s)"

fun binit_loop :: "nat \<Rightarrow> nat \<Rightarrow> 'a kbio_scheme \<Rightarrow> 'a kbio_scheme" where
  "binit_loop 0 b s = s"
| "binit_loop (Suc n) b s =
     binit_loop n (Suc b) (push_front b (upd_buf b (block_update (\<lambda>l. initsleeplock l ''buffer'')) s))"

definition binit :: "'a kbio_scheme \<Rightarrow> 'a kbio_scheme" where
  "binit s =
     (let s = s\<lparr>bcache_lock := initlock (bcache_lock s) ''bcache''\<rparr>;
          s = upd_buf NBUF (bprev_update (\<lambda>_. NBUF)) s;
          s = upd_buf NBUF (bnext_update (\<lambda>_. NBUF)) s
      in binit_loop NBUF 0 s)"

text \<open>
  The two searches of \<^verbatim>\<open>bget\<close>, along \<open>nxt\<close> from \<open>b\<close> to the list head. A list of all buffers has
  come back to the head after \<^term>\<open>Suc NBUF\<close> rounds; a search that needs more goes in circles.
\<close>

fun bget_scan :: "nat \<Rightarrow> (buf \<Rightarrow> bool) \<Rightarrow> (buf \<Rightarrow> nat) \<Rightarrow> buf list \<Rightarrow> nat \<Rightarrow> nat option res" where
  "bget_scan 0 P nxt bs b = Inl Diverges"
| "bget_scan (Suc n) P nxt bs b =
     (if b = NBUF then Inr None
      else if P (bs ! b) then Inr (Some b)
      else bget_scan n P nxt bs (nxt (bs ! b)))"

definition bget :: "32 word \<Rightarrow> 32 word \<Rightarrow> 'a kbio_scheme \<Rightarrow> (nat \<times> 'a kbio_scheme) res" where
  "bget dev bno s =
     bnd (acq_bcache s) (\<lambda>s.
     bnd (bget_scan (Suc NBUF) (\<lambda>b. bdev b = dev \<and> blockno b = bno) bnext (bufs s) (bnext (bufs s ! NBUF))) (\<lambda>r.
       case r of
         Some b \<Rightarrow>
           let s = upd_buf b (refcnt_update (\<lambda>n. n + 1)) s in
           bnd (rel_bcache s) (\<lambda>s.
           bnd (acquiresleep (blk_get b) (blk_upd b) (ChBuf b) s) (\<lambda>s. Inr (b, s)))
       | None \<Rightarrow>
           bnd (bget_scan (Suc NBUF) (\<lambda>b. refcnt b = 0 \<and> \<not> bdirty b) bprev (bufs s) (bprev (bufs s ! NBUF))) (\<lambda>r.
             case r of
               Some b \<Rightarrow>
                 let s = upd_buf b (bdev_update (\<lambda>_. dev)) s;
                     s = upd_buf b (blockno_update (\<lambda>_. bno)) s;
                     s = upd_buf b (\<lambda>b. b\<lparr>bvalid := False, bdirty := False\<rparr>) s;
                     s = upd_buf b (refcnt_update (\<lambda>_. 1)) s in
                 bnd (rel_bcache s) (\<lambda>s.
                 bnd (acquiresleep (blk_get b) (blk_upd b) (ChBuf b) s) (\<lambda>s. Inr (b, s)))
             | None \<Rightarrow> Inl (Panic ''bget: no buffers''))))"

definition bread :: "32 word \<Rightarrow> 32 word \<Rightarrow> 'a kbio_scheme \<Rightarrow> (nat \<times> 'a kbio_scheme) res" where
  "bread dev bno s =
     bnd (bget dev bno s) (\<lambda>(b, s).
       if \<not> bvalid (bufs s ! b) then bnd (iderw b s) (\<lambda>s. Inr (b, s)) else Inr (b, s))"

definition bwrite :: "nat \<Rightarrow> 'a kbio_scheme \<Rightarrow> 'a kbio_scheme res" where
  "bwrite b s =
     bnd (holdingsleep (blk_get b) (blk_upd b) s) (\<lambda>(h, s).
       if \<not> h then Inl (Panic ''bwrite'')
       else iderw b (upd_buf b (bdirty_update (\<lambda>_. True)) s))"

definition brelse :: "nat \<Rightarrow> 'a kbio_scheme \<Rightarrow> 'a kbio_scheme res" where
  "brelse b s =
     bnd (holdingsleep (blk_get b) (blk_upd b) s) (\<lambda>(h, s).
       if \<not> h then Inl (Panic ''brelse'')
       else bnd (releasesleep (blk_get b) (blk_upd b) (ChBuf b) s) (\<lambda>s.
         bnd (acq_bcache s) (\<lambda>s.
           let s = upd_buf b (refcnt_update (\<lambda>n. n - 1)) s;
               s = (if refcnt (bufs s ! b) = 0
                    then (let s = upd_buf (bnext (bufs s ! b)) (bprev_update (\<lambda>_. bprev (bufs s ! b))) s;
                              s = upd_buf (bprev (bufs s ! b)) (bnext_update (\<lambda>_. bnext (bufs s ! b))) s
                          in push_front b s)
                    else s)
           in rel_bcache s)))"

text \<open>What a client does with the data of a buffer it has locked.\<close>

abbreviation bufdata :: "nat \<Rightarrow> 'a kbio_scheme \<Rightarrow> byte list" where
  "bufdata b s \<equiv> bdata (bufs s ! b)"

abbreviation set_bufdata :: "nat \<Rightarrow> byte list \<Rightarrow> 'a kbio_scheme \<Rightarrow> 'a kbio_scheme" where
  "set_bufdata b d s \<equiv> upd_buf b (bdata_update (\<lambda>_. d)) s"

end
