(* ===== verification/Log.thy ===== *)
theory Log
  imports Bio
begin

text \<open>
  The write-ahead log of \<^verbatim>\<open>log.c\<close>: transactions, absorption, commit and recovery, all through the
  buffer cache.
\<close>

abbreviation LOGSIZE :: nat where "LOGSIZE \<equiv> 30"
abbreviation MAXOPBLOCKS :: int where "MAXOPBLOCKS \<equiv> 10"

record superblock =
  sbsize :: "32 word"
  nblocks :: "32 word"
  ninodes :: "32 word"
  nlog :: "32 word"
  logstart :: "32 word"
  inodestart :: "32 word"
  bmapstart :: "32 word"

record klog = kbio +
  log_lock :: spinlock
  lstart :: "32 word"
  lsize :: int
  outstanding :: int
  committing :: bool
  ldev :: "32 word"
  lhn :: int
  lhblock :: "32 word list"

abbreviation acq_log :: "'a klog_scheme \<Rightarrow> 'a klog_scheme res" where
  "acq_log \<equiv> acq log_lock log_lock_update"

abbreviation rel_log :: "'a klog_scheme \<Rightarrow> 'a klog_scheme res" where
  "rel_log \<equiv> rel log_lock log_lock_update"

definition parse_superblock :: "byte list \<Rightarrow> superblock" where
  "parse_superblock d = \<lparr>sbsize = get32 d 0, nblocks = get32 d 4, ninodes = get32 d 8, nlog = get32 d 12,
     logstart = get32 d 16, inodestart = get32 d 20, bmapstart = get32 d 24\<rparr>"

definition readsb :: "32 word \<Rightarrow> 'a kbio_scheme \<Rightarrow> (superblock \<times> 'a kbio_scheme) res" where
  "readsb dev s =
     bnd (bread dev 1 s) (\<lambda>(bp, s).
       let sb = parse_superblock (bufdata bp s) in
       bnd (brelse bp s) (\<lambda>s. Inr (sb, s)))"

section \<open>Commit and recovery\<close>

fun install_trans_loop :: "nat \<Rightarrow> nat \<Rightarrow> 'a klog_scheme \<Rightarrow> 'a klog_scheme res" where
  "install_trans_loop 0 tail s = Inr s"
| "install_trans_loop (Suc n) tail s =
     bnd (bread (ldev s) (lstart s + of_nat tail + 1) s) (\<lambda>(lbuf, s).
     bnd (bread (ldev s) (lhblock s ! tail) s) (\<lambda>(dbuf, s).
       let s = set_bufdata dbuf (bufdata lbuf s) s in
       bnd (bwrite dbuf s) (\<lambda>s.
       bnd (brelse lbuf s) (\<lambda>s.
       bnd (brelse dbuf s) (\<lambda>s. install_trans_loop n (Suc tail) s)))))"

definition install_trans :: "'a klog_scheme \<Rightarrow> 'a klog_scheme res" where
  "install_trans s = install_trans_loop (nat (lhn s)) 0 s"

text \<open>The header block: the count, then the block numbers. A count beyond the array overruns it.\<close>

definition read_head :: "'a klog_scheme \<Rightarrow> 'a klog_scheme res" where
  "read_head s =
     bnd (bread (ldev s) (lstart s) s) (\<lambda>(bp, s).
       let d = bufdata bp s; n = sint (get32 d 0); s = s\<lparr>lhn := n\<rparr> in
       if n > int LOGSIZE then Inl OutOfBounds
       else let s = s\<lparr>lhblock := map (\<lambda>i. get32 d (4 + 4 * i)) [0..<nat n] @ drop (nat n) (lhblock s)\<rparr>
         in brelse bp s)"

fun put_blocks :: "32 word list \<Rightarrow> nat \<Rightarrow> byte list \<Rightarrow> byte list" where
  "put_blocks [] i d = d"
| "put_blocks (b # bs) i d = put_blocks bs (Suc i) (put32 d (4 + 4 * i) b)"

definition write_head :: "'a klog_scheme \<Rightarrow> 'a klog_scheme res" where
  "write_head s =
     bnd (bread (ldev s) (lstart s) s) (\<lambda>(bp, s).
       let d = put32 (bufdata bp s) 0 (word_of_int (lhn s));
           d = put_blocks (take (nat (lhn s)) (lhblock s)) 0 d;
           s = set_bufdata bp d s in
       bnd (bwrite bp s) (\<lambda>s. brelse bp s))"

definition recover_from_log :: "'a klog_scheme \<Rightarrow> 'a klog_scheme res" where
  "recover_from_log s =
     bnd (read_head s) (\<lambda>s. bnd (install_trans s) (\<lambda>s. write_head (s\<lparr>lhn := 0\<rparr>)))"

definition initlog :: "32 word \<Rightarrow> 'a klog_scheme \<Rightarrow> 'a klog_scheme res" where
  "initlog dev s =
     (let s = s\<lparr>log_lock := initlock (log_lock s) ''log''\<rparr> in
      bnd (readsb dev s) (\<lambda>(sb, s).
        recover_from_log (s\<lparr>lstart := logstart sb, lsize := sint (nlog sb), ldev := dev\<rparr>)))"

fun write_log_loop :: "nat \<Rightarrow> nat \<Rightarrow> 'a klog_scheme \<Rightarrow> 'a klog_scheme res" where
  "write_log_loop 0 tail s = Inr s"
| "write_log_loop (Suc n) tail s =
     bnd (bread (ldev s) (lstart s + of_nat tail + 1) s) (\<lambda>(to, s).
     bnd (bread (ldev s) (lhblock s ! tail) s) (\<lambda>(from, s).
       let s = set_bufdata to (bufdata from s) s in
       bnd (bwrite to s) (\<lambda>s.
       bnd (brelse from s) (\<lambda>s.
       bnd (brelse to s) (\<lambda>s. write_log_loop n (Suc tail) s)))))"

definition write_log :: "'a klog_scheme \<Rightarrow> 'a klog_scheme res" where
  "write_log s = write_log_loop (nat (lhn s)) 0 s"

definition commit :: "'a klog_scheme \<Rightarrow> 'a klog_scheme res" where
  "commit s =
     (if lhn s > 0 then
        bnd (write_log s) (\<lambda>s.
        bnd (write_head s) (\<lambda>s.
        bnd (install_trans s) (\<lambda>s. write_head (s\<lparr>lhn := 0\<rparr>))))
      else Inr s)"

section \<open>Transactions\<close>

text \<open>An iteration of the loop of \<^verbatim>\<open>begin_op\<close>, with \<^verbatim>\<open>log.lock\<close> held: it sleeps or reserves space.\<close>

definition begin_op_round :: "addr \<Rightarrow> 'a klog_scheme \<Rightarrow> (unit, unit, 'a klog_scheme) outcome res" where
  "begin_op_round sp s =
     (if committing s then bnd (sleep_out ChLog (OtherLk log_lock log_lock_update) sp s) (\<lambda>(i, s). Inr (Blk () i s))
      else if lhn s + (outstanding s + 1) * MAXOPBLOCKS > int LOGSIZE
      then bnd (sleep_out ChLog (OtherLk log_lock log_lock_update) sp s) (\<lambda>(i, s). Inr (Blk () i s))
      else bnd (rel_log (s\<lparr>outstanding := outstanding s + 1\<rparr>)) (\<lambda>s. Inr (Ret () s)))"

definition begin_op_start :: "addr \<Rightarrow> 'a klog_scheme \<Rightarrow> (unit, unit, 'a klog_scheme) outcome res" where
  "begin_op_start sp s = bnd (acq_log s) (begin_op_round sp)"

definition begin_op_resume :: "addr \<Rightarrow> nat \<Rightarrow> bool \<Rightarrow> 'a klog_scheme \<Rightarrow> (unit, unit, 'a klog_scheme) outcome res" where
  "begin_op_resume sp p i s = bnd (sleep_in p (OtherLk log_lock log_lock_update) i s) (begin_op_round sp)"

definition begin_op :: "'a klog_scheme \<Rightarrow> 'a klog_scheme res" where
  "begin_op s = bnd (begin_op_start 0 s) (\<lambda>r. case r of Ret _ s \<Rightarrow> Inr s | Blk _ _ _ \<Rightarrow> Inl Sleeps)"

definition end_op :: "'a klog_scheme \<Rightarrow> 'a klog_scheme res" where
  "end_op s =
     bnd (acq_log s) (\<lambda>s.
       let s = s\<lparr>outstanding := outstanding s - 1\<rparr> in
       if committing s then Inl (Panic ''log.committing'')
       else let do_commit = (outstanding s = 0) in
         bnd (if do_commit then Inr (s\<lparr>committing := True\<rparr>) else wakeup ChLog s) (\<lambda>s.
         bnd (rel_log s) (\<lambda>s.
           if do_commit then
             bnd (commit s) (\<lambda>s.
             bnd (acq_log s) (\<lambda>s.
             bnd (wakeup ChLog (s\<lparr>committing := False\<rparr>)) (\<lambda>s. rel_log s)))
           else Inr s)))"

fun absorb :: "32 word list \<Rightarrow> 32 word \<Rightarrow> nat \<Rightarrow> nat \<Rightarrow> nat" where
  "absorb bs b i 0 = i"
| "absorb bs b i (Suc n) = (if bs ! i = b then i else absorb bs b (Suc i) n)"

definition log_write :: "nat \<Rightarrow> 'a klog_scheme \<Rightarrow> 'a klog_scheme res" where
  "log_write b s =
     (if lhn s \<ge> int LOGSIZE \<or> lhn s \<ge> lsize s - 1 then Inl (Panic ''too big a transaction'')
      else if outstanding s < 1 then Inl (Panic ''log_write outside of trans'')
      else bnd (acq_log s) (\<lambda>s.
        let bno = blockno (bufs s ! b); i = absorb (lhblock s) bno 0 (nat (lhn s));
            s = s\<lparr>lhblock := (lhblock s)[i := bno]\<rparr>;
            s = (if int i = lhn s then s\<lparr>lhn := lhn s + 1\<rparr> else s);
            s = upd_buf b (bdirty_update (\<lambda>_. True)) s
        in rel_log s))"

end
