(* ===== verification/Fs.thy ===== *)
theory Fs
  imports Log
begin

text \<open>
  The file system of \<^verbatim>\<open>fs.c\<close>: the block allocator, the inode cache, file contents, directories and
  path names. Inodes are named by their index in \<^verbatim>\<open>icache.inode\<close>. Bytes that are read are returned
  and bytes to be written are an argument; the caller moves them from and to its memory. The
  table \<^verbatim>\<open>devsw\<close> of function pointers is the argument \<open>dsw\<close>.
\<close>

abbreviation NDIRECT :: nat where "NDIRECT \<equiv> 12"
abbreviation NINDIRECT :: nat where "NINDIRECT \<equiv> 128"
abbreviation MAXFILE :: nat where "MAXFILE \<equiv> 140"
abbreviation IPB :: nat where "IPB \<equiv> 8"
abbreviation BPB :: nat where "BPB \<equiv> 4096"
abbreviation DIRSIZ :: nat where "DIRSIZ \<equiv> 14"
abbreviation NINODE :: nat where "NINODE \<equiv> 50"
abbreviation NDEV :: int where "NDEV \<equiv> 10"
abbreviation ROOTDEV :: "32 word" where "ROOTDEV \<equiv> 1"
abbreviation ROOTINO :: "32 word" where "ROOTINO \<equiv> 1"
abbreviation T_DIR :: "16 word" where "T_DIR \<equiv> 1"
abbreviation T_FILE :: "16 word" where "T_FILE \<equiv> 2"
abbreviation T_DEV :: "16 word" where "T_DEV \<equiv> 3"

record inode =
  idev :: "32 word"
  inum :: "32 word"
  iref :: int
  ilk :: sleeplock
  ivalid :: bool
  itype :: "16 word"
  major :: "16 word"
  minor :: "16 word"
  nlink :: "16 word"
  isize :: "32 word"
  addrs :: "32 word list"

record kfs = klog +
  sb :: superblock
  icache_lock :: spinlock
  inodes :: "inode list"

definition upd_ino :: "nat \<Rightarrow> (inode \<Rightarrow> inode) \<Rightarrow> 'a kfs_scheme \<Rightarrow> 'a kfs_scheme" where
  "upd_ino i f s = s\<lparr>inodes := (inodes s)[i := f (inodes s ! i)]\<rparr>"

abbreviation ilk_get :: "nat \<Rightarrow> 'a kfs_scheme \<Rightarrow> sleeplock" where
  "ilk_get i \<equiv> \<lambda>s. ilk (inodes s ! i)"

abbreviation ilk_upd :: "nat \<Rightarrow> (sleeplock \<Rightarrow> sleeplock) \<Rightarrow> 'a kfs_scheme \<Rightarrow> 'a kfs_scheme" where
  "ilk_upd i \<equiv> \<lambda>f. upd_ino i (ilk_update f)"

abbreviation acq_icache :: "'a kfs_scheme \<Rightarrow> 'a kfs_scheme res" where
  "acq_icache \<equiv> acq icache_lock icache_lock_update"

abbreviation rel_icache :: "'a kfs_scheme \<Rightarrow> 'a kfs_scheme res" where
  "rel_icache \<equiv> rel icache_lock icache_lock_update"

definition IBLOCK :: "32 word \<Rightarrow> superblock \<Rightarrow> 32 word" where
  "IBLOCK i sp = i div of_nat IPB + inodestart sp"

definition BBLOCK :: "32 word \<Rightarrow> superblock \<Rightarrow> 32 word" where
  "BBLOCK b sp = b div of_nat BPB + bmapstart sp"

section \<open>Blocks\<close>

definition bzero :: "32 word \<Rightarrow> 32 word \<Rightarrow> 'a klog_scheme \<Rightarrow> 'a klog_scheme res" where
  "bzero dev bno s =
     bnd (bread dev bno s) (\<lambda>(bp, s).
     bnd (log_write bp (set_bufdata bp (replicate BSIZE 0) s)) (brelse bp))"

text \<open>The bit of block \<open>bi\<close> in a block of the free map, and the search for a clear one.\<close>

definition bit_set :: "byte list \<Rightarrow> nat \<Rightarrow> bool" where
  "bit_set d bi \<longleftrightarrow> d ! (bi div 8) AND push_bit (bi mod 8) 1 \<noteq> 0"

definition mark_bit :: "byte list \<Rightarrow> nat \<Rightarrow> byte list" where
  "mark_bit d bi = d[bi div 8 := d ! (bi div 8) OR push_bit (bi mod 8) 1]"

definition clear_bit :: "byte list \<Rightarrow> nat \<Rightarrow> byte list" where
  "clear_bit d bi = d[bi div 8 := d ! (bi div 8) AND NOT (push_bit (bi mod 8) 1)]"

fun free_bit :: "byte list \<Rightarrow> nat \<Rightarrow> nat \<Rightarrow> nat option" where
  "free_bit d bi 0 = None"
| "free_bit d bi (Suc n) = (if \<not> bit_set d bi then Some bi else free_bit d (Suc bi) n)"

function balloc_loop :: "32 word \<Rightarrow> nat \<Rightarrow> nat \<Rightarrow> 'a kfs_scheme \<Rightarrow> (32 word \<times> 'a kfs_scheme) res" where
  "balloc_loop dev b bsz s =
     (if b < bsz then
        bnd (bread dev (BBLOCK (of_nat b) (sb s)) s) (\<lambda>(bp, s).
          case free_bit (bufdata bp s) 0 (min BPB (bsz - b)) of
            Some bi \<Rightarrow>
              bnd (log_write bp (set_bufdata bp (mark_bit (bufdata bp s) bi) s)) (\<lambda>s.
              bnd (brelse bp s) (\<lambda>s.
              bnd (bzero dev (of_nat (b + bi)) s) (\<lambda>s. Inr (of_nat (b + bi), s))))
          | None \<Rightarrow> bnd (brelse bp s) (\<lambda>s. balloc_loop dev (b + BPB) bsz s))
      else Inl (Panic ''balloc: out of blocks''))"
  by pat_completeness auto
termination by (relation "measure (\<lambda>(dev, b, bsz, s). bsz - b)") auto

declare balloc_loop.simps [simp del]

definition balloc :: "32 word \<Rightarrow> 'a kfs_scheme \<Rightarrow> (32 word \<times> 'a kfs_scheme) res" where
  "balloc dev s = balloc_loop dev 0 (unat (sbsize (sb s))) s"

definition bfree :: "32 word \<Rightarrow> 32 word \<Rightarrow> 'a kfs_scheme \<Rightarrow> 'a kfs_scheme res" where
  "bfree dev b s =
     bnd (bread dev (BBLOCK b (sb s)) s) (\<lambda>(bp, s).
       let bi = unat b mod BPB in
       if \<not> bit_set (bufdata bp s) bi then Inl (Panic ''freeing free block'')
       else bnd (log_write bp (set_bufdata bp (clear_bit (bufdata bp s) bi) s)) (brelse bp))"

section \<open>The inode cache\<close>

definition iinit :: "32 word \<Rightarrow> 'a kfs_scheme \<Rightarrow> 'a kfs_scheme res" where
  "iinit dev s =
     (let s = s\<lparr>icache_lock := initlock (icache_lock s) ''icache''\<rparr>;
          s = s\<lparr>inodes := map (ilk_update (\<lambda>l. initsleeplock l ''inode'')) (inodes s)\<rparr>
      in bnd (readsb dev s) (\<lambda>(b, s). Inr (s\<lparr>sb := b\<rparr>)))"

text \<open>
  The scan of \<^verbatim>\<open>iget\<close>: the cached inode, or the first entry without references.
\<close>

fun iget_scan :: "inode list \<Rightarrow> nat \<Rightarrow> 32 word \<Rightarrow> 32 word \<Rightarrow> nat option \<Rightarrow> nat option \<times> nat option" where
  "iget_scan [] i dev n free = (None, free)"
| "iget_scan (ip # ips) i dev n free =
     (if iref ip > 0 \<and> idev ip = dev \<and> inum ip = n then (Some i, free)
      else iget_scan ips (Suc i) dev n (if free = None \<and> iref ip = 0 then Some i else free))"

definition iget :: "32 word \<Rightarrow> 32 word \<Rightarrow> 'a kfs_scheme \<Rightarrow> (nat \<times> 'a kfs_scheme) res" where
  "iget dev n s =
     bnd (acq_icache s) (\<lambda>s.
       case iget_scan (inodes s) 0 dev n None of
         (Some ip, _) \<Rightarrow> bnd (rel_icache (upd_ino ip (iref_update (\<lambda>r. r + 1)) s)) (\<lambda>s. Inr (ip, s))
       | (None, None) \<Rightarrow> Inl (Panic ''iget: no inodes'')
       | (None, Some ip) \<Rightarrow>
           bnd (rel_icache (upd_ino ip (\<lambda>i. i\<lparr>idev := dev, inum := n, iref := 1, ivalid := False\<rparr>) s)) (\<lambda>s. Inr (ip, s)))"

definition idup :: "nat \<Rightarrow> 'a kfs_scheme \<Rightarrow> (nat \<times> 'a kfs_scheme) res" where
  "idup ip s =
     bnd (acq_icache s) (\<lambda>s.
     bnd (rel_icache (upd_ino ip (iref_update (\<lambda>r. r + 1)) s)) (\<lambda>s. Inr (ip, s)))"

text \<open>
  The inode on disk: 64 bytes at offset \<open>o\<close> of its block, the four short fields, the size and the
  block addresses.
\<close>

definition dinode_off :: "32 word \<Rightarrow> nat" where
  "dinode_off n = 64 * (unat n mod IPB)"

fun put_addrs :: "32 word list \<Rightarrow> nat \<Rightarrow> byte list \<Rightarrow> byte list" where
  "put_addrs [] o1 d = d"
| "put_addrs (a # as) o1 d = put_addrs as (o1 + 4) (put32 d o1 a)"

definition put_dinode :: "inode \<Rightarrow> nat \<Rightarrow> byte list \<Rightarrow> byte list" where
  "put_dinode ip o1 d =
     put_addrs (addrs ip) (o1 + 12)
       (put32 (put16 (put16 (put16 (put16 d o1 (itype ip)) (o1 + 2) (major ip)) (o1 + 4) (minor ip)) (o1 + 6) (nlink ip))
          (o1 + 8) (isize ip))"

definition get_dinode :: "byte list \<Rightarrow> nat \<Rightarrow> inode \<Rightarrow> inode" where
  "get_dinode d o1 ip =
     ip\<lparr>itype := get16 d o1, major := get16 d (o1 + 2), minor := get16 d (o1 + 4), nlink := get16 d (o1 + 6),
        isize := get32 d (o1 + 8), addrs := map (\<lambda>k. get32 d (o1 + 12 + 4 * k)) [0..<NDIRECT + 1]\<rparr>"

function ialloc_loop :: "32 word \<Rightarrow> 16 word \<Rightarrow> nat \<Rightarrow> nat \<Rightarrow> 'a kfs_scheme \<Rightarrow> (nat \<times> 'a kfs_scheme) res" where
  "ialloc_loop dev ty n nmax s =
     (if n < nmax then
        bnd (bread dev (IBLOCK (of_nat n) (sb s)) s) (\<lambda>(bp, s).
          let o1 = dinode_off (of_nat n) in
          if get16 (bufdata bp s) o1 = 0 then
            let d = put16 (blit (bufdata bp s) o1 (replicate 64 0)) o1 ty in
            bnd (log_write bp (set_bufdata bp d s)) (\<lambda>s.
            bnd (brelse bp s) (\<lambda>s. iget dev (of_nat n) s))
          else bnd (brelse bp s) (\<lambda>s. ialloc_loop dev ty (Suc n) nmax s))
      else Inl (Panic ''ialloc: no inodes''))"
  by pat_completeness auto
termination by (relation "measure (\<lambda>(dev, ty, n, nmax, s). nmax - n)") auto

declare ialloc_loop.simps [simp del]

definition ialloc :: "32 word \<Rightarrow> 16 word \<Rightarrow> 'a kfs_scheme \<Rightarrow> (nat \<times> 'a kfs_scheme) res" where
  "ialloc dev ty s = ialloc_loop dev ty 1 (unat (ninodes (sb s))) s"

definition iupdate :: "nat \<Rightarrow> 'a kfs_scheme \<Rightarrow> 'a kfs_scheme res" where
  "iupdate ip s =
     (let i = inodes s ! ip in
      bnd (bread (idev i) (IBLOCK (inum i) (sb s)) s) (\<lambda>(bp, s).
        let d = put_dinode (inodes s ! ip) (dinode_off (inum i)) (bufdata bp s) in
        bnd (log_write bp (set_bufdata bp d s)) (brelse bp)))"

text \<open>A null inode pointer is \<^term>\<open>None\<close>.\<close>

definition ilock :: "nat option \<Rightarrow> 'a kfs_scheme \<Rightarrow> 'a kfs_scheme res" where
  "ilock ipo s =
     (case ipo of None \<Rightarrow> Inl (Panic ''ilock'')
      | Some ip \<Rightarrow>
        if iref (inodes s ! ip) < 1 then Inl (Panic ''ilock'')
        else bnd (acquiresleep (ilk_get ip) (ilk_upd ip) (ChInode ip) s) (\<lambda>s.
          let i = inodes s ! ip in
          if \<not> ivalid i then
            bnd (bread (idev i) (IBLOCK (inum i) (sb s)) s) (\<lambda>(bp, s).
              let s = upd_ino ip (get_dinode (bufdata bp s) (dinode_off (inum i))) s in
              bnd (brelse bp s) (\<lambda>s.
                let s = upd_ino ip (ivalid_update (\<lambda>_. True)) s in
                if itype (inodes s ! ip) = 0 then Inl (Panic ''ilock: no type'') else Inr s))
          else Inr s))"

definition iunlock :: "nat option \<Rightarrow> 'a kfs_scheme \<Rightarrow> 'a kfs_scheme res" where
  "iunlock ipo s =
     (case ipo of None \<Rightarrow> Inl (Panic ''iunlock'')
      | Some ip \<Rightarrow>
        bnd (holdingsleep (ilk_get ip) (ilk_upd ip) s) (\<lambda>(h, s).
          if \<not> h \<or> iref (inodes s ! ip) < 1 then Inl (Panic ''iunlock'')
          else releasesleep (ilk_get ip) (ilk_upd ip) (ChInode ip) s))"

section \<open>File contents\<close>

definition bmap :: "nat \<Rightarrow> 32 word \<Rightarrow> 'a kfs_scheme \<Rightarrow> (32 word \<times> 'a kfs_scheme) res" where
  "bmap ip bn s =
     (let dev = idev (inodes s ! ip) in
      if unat bn < NDIRECT then
        (let a = addrs (inodes s ! ip) ! unat bn in
         if a = 0 then bnd (balloc dev s) (\<lambda>(a, s). Inr (a, upd_ino ip (addrs_update (\<lambda>as. as[unat bn := a])) s))
         else Inr (a, s))
      else let bn = unat bn - NDIRECT in
        if bn < NINDIRECT then
          (let a = addrs (inodes s ! ip) ! NDIRECT in
           bnd (if a = 0 then bnd (balloc dev s) (\<lambda>(a, s). Inr (a, upd_ino ip (addrs_update (\<lambda>as. as[NDIRECT := a])) s))
                else Inr (a, s)) (\<lambda>(a, s).
           bnd (bread dev a s) (\<lambda>(bp, s).
             let a = get32 (bufdata bp s) (4 * bn) in
             bnd (if a = 0 then
                    bnd (balloc dev s) (\<lambda>(a, s).
                    bnd (log_write bp (set_bufdata bp (put32 (bufdata bp s) (4 * bn) a) s)) (\<lambda>s. Inr (a, s)))
                  else Inr (a, s)) (\<lambda>(a, s).
             bnd (brelse bp s) (\<lambda>s. Inr (a, s))))))
        else Inl (Panic ''bmap: out of range''))"

fun itrunc_direct :: "nat \<Rightarrow> nat \<Rightarrow> nat \<Rightarrow> 'a kfs_scheme \<Rightarrow> 'a kfs_scheme res" where
  "itrunc_direct ip 0 i s = Inr s"
| "itrunc_direct ip (Suc n) i s =
     (let a = addrs (inodes s ! ip) ! i in
      bnd (if a \<noteq> 0 then
             bnd (bfree (idev (inodes s ! ip)) a s) (\<lambda>s. Inr (upd_ino ip (addrs_update (\<lambda>as. as[i := 0])) s))
           else Inr s) (\<lambda>s. itrunc_direct ip n (Suc i) s))"

fun itrunc_indirect :: "32 word \<Rightarrow> nat \<Rightarrow> nat \<Rightarrow> nat \<Rightarrow> 'a kfs_scheme \<Rightarrow> 'a kfs_scheme res" where
  "itrunc_indirect dev bp 0 j s = Inr s"
| "itrunc_indirect dev bp (Suc n) j s =
     (let a = get32 (bufdata bp s) (4 * j) in
      bnd (if a \<noteq> 0 then bfree dev a s else Inr s) (\<lambda>s. itrunc_indirect dev bp n (Suc j) s))"

definition itrunc :: "nat \<Rightarrow> 'a kfs_scheme \<Rightarrow> 'a kfs_scheme res" where
  "itrunc ip s =
     bnd (itrunc_direct ip NDIRECT 0 s) (\<lambda>s.
       let dev = idev (inodes s ! ip); a = addrs (inodes s ! ip) ! NDIRECT in
       bnd (if a \<noteq> 0 then
              bnd (bread dev a s) (\<lambda>(bp, s).
              bnd (itrunc_indirect dev bp NINDIRECT 0 s) (\<lambda>s.
              bnd (brelse bp s) (\<lambda>s.
              bnd (bfree dev a s) (\<lambda>s. Inr (upd_ino ip (addrs_update (\<lambda>as. as[NDIRECT := 0])) s)))))
            else Inr s) (\<lambda>s.
         iupdate ip (upd_ino ip (isize_update (\<lambda>_. 0)) s)))"

definition iput :: "nat \<Rightarrow> 'a kfs_scheme \<Rightarrow> 'a kfs_scheme res" where
  "iput ip s =
     bnd (acquiresleep (ilk_get ip) (ilk_upd ip) (ChInode ip) s) (\<lambda>s.
     bnd (if ivalid (inodes s ! ip) \<and> nlink (inodes s ! ip) = 0 then
            bnd (acq_icache s) (\<lambda>s.
              let r = iref (inodes s ! ip) in
              bnd (rel_icache s) (\<lambda>s.
                if r = 1 then
                  bnd (itrunc ip s) (\<lambda>s.
                  bnd (iupdate ip (upd_ino ip (itype_update (\<lambda>_. 0)) s)) (\<lambda>s.
                    Inr (upd_ino ip (ivalid_update (\<lambda>_. False)) s)))
                else Inr s))
          else Inr s) (\<lambda>s.
     bnd (releasesleep (ilk_get ip) (ilk_upd ip) (ChInode ip) s) (\<lambda>s.
     bnd (acq_icache s) (\<lambda>s. rel_icache (upd_ino ip (iref_update (\<lambda>r. r - 1)) s)))))"

definition iunlockput :: "nat \<Rightarrow> 'a kfs_scheme \<Rightarrow> 'a kfs_scheme res" where
  "iunlockput ip s = bnd (iunlock (Some ip) s) (iput ip)"

record stat =
  st_type :: "16 word"
  st_dev :: "32 word"
  st_ino :: "32 word"
  st_nlink :: "16 word"
  st_size :: "32 word"

definition stati :: "inode \<Rightarrow> stat" where
  "stati ip = \<lparr>st_type = itype ip, st_dev = idev ip, st_ino = inum ip, st_nlink = nlink ip, st_size = isize ip\<rparr>"

end
