(* ===== verification/Dir.thy ===== *)
theory Dir
  imports Fs
begin

text \<open>
  The upper half of \<^verbatim>\<open>fs.c\<close>: reading and writing files, directories, and path names.
\<close>

section \<open>Reading and writing\<close>

text \<open>
  \<^verbatim>\<open>devsw\<close>: for a major number the read function (inode and count to result and bytes) and the
  write function (inode and bytes to result), either may be null.
\<close>

record 's devsw =
  dread :: "nat \<Rightarrow> (nat \<Rightarrow> int \<Rightarrow> 's \<Rightarrow> ((int \<times> byte list) \<times> 's) res) option"
  dwrite :: "nat \<Rightarrow> (nat \<Rightarrow> byte list \<Rightarrow> 's \<Rightarrow> (int \<times> 's) res) option"

text \<open>
  \<open>r\<close> is the number of bytes that are left, \<^verbatim>\<open>n - tot\<close>, and \<open>acc\<close> holds what was read.
\<close>

function readi_loop :: "nat \<Rightarrow> 32 word \<Rightarrow> nat \<Rightarrow> byte list \<Rightarrow> 'a kfs_scheme \<Rightarrow> (byte list \<times> 'a kfs_scheme) res" where
  "readi_loop ip off r acc s =
     (if r = 0 then Inr (acc, s)
      else bnd (bmap ip (off div 512) s) (\<lambda>(a, s).
        bnd (bread (idev (inodes s ! ip)) a s) (\<lambda>(bp, s).
          let m = min r (BSIZE - unat off mod BSIZE);
              acc = acc @ slice (bufdata bp s) (unat off mod BSIZE) m in
          bnd (brelse bp s) (\<lambda>s. readi_loop ip (off + of_nat m) (r - m) acc s))))"
  by pat_completeness auto
termination
  by (relation "measure (\<lambda>(ip, off, r, acc, s). r)") (auto simp: min_def)

declare readi_loop.simps [simp del]

definition readi ::
    "'a kfs_scheme devsw \<Rightarrow> nat \<Rightarrow> 32 word \<Rightarrow> 32 word \<Rightarrow> 'a kfs_scheme \<Rightarrow> ((int \<times> byte list) \<times> 'a kfs_scheme) res" where
  "readi dsw ip off n s =
     (let i = inodes s ! ip in
      if itype i = T_DEV then
        (if sint (major i) < 0 \<or> sint (major i) \<ge> NDEV then Inr ((-1, []), s)
         else case dread dsw (nat (sint (major i))) of
           None \<Rightarrow> Inr ((-1, []), s)
         | Some rd \<Rightarrow> rd ip (sint n) s)
      else if off > isize i \<or> off + n < off then Inr ((-1, []), s)
      else let n = (if off + n > isize i then isize i - off else n) in
        bnd (readi_loop ip off (unat n) [] s) (\<lambda>(d, s). Inr ((sint n, d), s)))"

function writei_loop :: "nat \<Rightarrow> byte list \<Rightarrow> 32 word \<Rightarrow> 'a kfs_scheme \<Rightarrow> (32 word \<times> 'a kfs_scheme) res" where
  "writei_loop ip src off s =
     (if src = [] then Inr (off, s)
      else bnd (bmap ip (off div 512) s) (\<lambda>(a, s).
        bnd (bread (idev (inodes s ! ip)) a s) (\<lambda>(bp, s).
          let m = min (length src) (BSIZE - unat off mod BSIZE);
              d = blit (bufdata bp s) (unat off mod BSIZE) (take m src) in
          bnd (log_write bp (set_bufdata bp d s)) (\<lambda>s.
          bnd (brelse bp s) (\<lambda>s. writei_loop ip (drop m src) (off + of_nat m) s)))))"
  by pat_completeness auto
termination
  by (relation "measure (\<lambda>(ip, src, off, s). length src)") (auto simp: min_def)

declare writei_loop.simps [simp del]

definition writei ::
    "'a kfs_scheme devsw \<Rightarrow> nat \<Rightarrow> byte list \<Rightarrow> 32 word \<Rightarrow> 'a kfs_scheme \<Rightarrow> (int \<times> 'a kfs_scheme) res" where
  "writei dsw ip src off s =
     (let i = inodes s ! ip; n = of_nat (length src) in
      if itype i = T_DEV then
        (if sint (major i) < 0 \<or> sint (major i) \<ge> NDEV then Inr (-1, s)
         else case dwrite dsw (nat (sint (major i))) of
           None \<Rightarrow> Inr (-1, s)
         | Some wr \<Rightarrow> wr ip src s)
      else if off > isize i \<or> off + n < off then Inr (-1, s)
      else if off + n > of_nat (MAXFILE * BSIZE) then Inr (-1, s)
      else bnd (writei_loop ip src off s) (\<lambda>(off, s).
        bnd (if n > 0 \<and> off > isize (inodes s ! ip)
             then iupdate ip (upd_ino ip (isize_update (\<lambda>_. off)) s) else Inr s) (\<lambda>s. Inr (sint n, s))))"

section \<open>Directories\<close>

text \<open>
  C strings are lists of bytes; the byte after the end of the list is the terminating 0.
  \<open>strncmp_bytes\<close> is \<^verbatim>\<open>strncmp\<close> on them.
\<close>

fun c_hd :: "byte list \<Rightarrow> byte" where
  "c_hd [] = 0"
| "c_hd (c # cs) = c"

fun strncmp_bytes :: "nat \<Rightarrow> byte list \<Rightarrow> byte list \<Rightarrow> int" where
  "strncmp_bytes 0 p q = 0"
| "strncmp_bytes (Suc n) p q =
     (if c_hd p \<noteq> 0 \<and> c_hd p = c_hd q then strncmp_bytes n (tl p) (tl q)
      else uint (c_hd p) - uint (c_hd q))"

definition namecmp :: "byte list \<Rightarrow> byte list \<Rightarrow> int" where
  "namecmp s t = strncmp_bytes DIRSIZ s t"

text \<open>A directory entry: a 16-bit inode number and the name, padded with zeros by \<^verbatim>\<open>strncpy\<close>.\<close>

definition de_inum :: "byte list \<Rightarrow> 16 word" where
  "de_inum de = get16 de 0"

definition de_name :: "byte list \<Rightarrow> byte list" where
  "de_name de = drop 2 de"

definition strncpy_bytes :: "nat \<Rightarrow> byte list \<Rightarrow> byte list" where
  "strncpy_bytes n s = take n (takeWhile (\<lambda>c. c \<noteq> 0) s @ replicate n 0)"

definition mk_dirent :: "byte list \<Rightarrow> 32 word \<Rightarrow> byte list" where
  "mk_dirent name n = le16 (ucast n) @ strncpy_bytes DIRSIZ name"

text \<open>
  The scan of a directory. An offset within 16 bytes of the end of the 32-bit range makes
  \<^verbatim>\<open>readi\<close> fail, so the offset does not wrap.
\<close>

function dirlookup_loop ::
    "'a kfs_scheme devsw \<Rightarrow> nat \<Rightarrow> byte list \<Rightarrow> nat \<Rightarrow> 'a kfs_scheme \<Rightarrow> ((nat \<times> nat) option \<times> 'a kfs_scheme) res" where
  "dirlookup_loop dsw dp name off s =
     (if off < unat (isize (inodes s ! dp)) then
        bnd (readi dsw dp (of_nat off) 16 s) (\<lambda>((r, de), s).
          if r \<noteq> 16 then Inl (Panic ''dirlookup read'')
          else if de_inum de = 0 then dirlookup_loop dsw dp name (off + 16) s
          else if namecmp name (de_name de) = 0 then
            bnd (iget (idev (inodes s ! dp)) (ucast (de_inum de)) s) (\<lambda>(ip, s). Inr (Some (ip, off), s))
          else dirlookup_loop dsw dp name (off + 16) s)
      else Inr (None, s))"
  by pat_completeness auto
termination
proof (relation "measure (\<lambda>(dsw, dp, name, off, s). 4294967296 - off)", goal_cases)
  case (2 dsw dp name off s)
  then show ?case using unat32_less [of "isize (inodes s ! dp)"] by simp
next
  case (3 dsw dp name off s)
  then show ?case using unat32_less [of "isize (inodes s ! dp)"] by simp
qed simp

declare dirlookup_loop.simps [simp del]

definition dirlookup ::
    "'a kfs_scheme devsw \<Rightarrow> nat \<Rightarrow> byte list \<Rightarrow> 'a kfs_scheme \<Rightarrow> ((nat \<times> nat) option \<times> 'a kfs_scheme) res" where
  "dirlookup dsw dp name s =
     (if itype (inodes s ! dp) \<noteq> T_DIR then Inl (Panic ''dirlookup not DIR'')
      else dirlookup_loop dsw dp name 0 s)"

function dirlink_scan :: "'a kfs_scheme devsw \<Rightarrow> nat \<Rightarrow> nat \<Rightarrow> 'a kfs_scheme \<Rightarrow> (nat \<times> 'a kfs_scheme) res" where
  "dirlink_scan dsw dp off s =
     (if off < unat (isize (inodes s ! dp)) then
        bnd (readi dsw dp (of_nat off) 16 s) (\<lambda>((r, de), s).
          if r \<noteq> 16 then Inl (Panic ''dirlink read'')
          else if de_inum de = 0 then Inr (off, s)
          else dirlink_scan dsw dp (off + 16) s)
      else Inr (off, s))"
  by pat_completeness auto
termination
proof (relation "measure (\<lambda>(dsw, dp, off, s). 4294967296 - off)", goal_cases)
  case (2 dsw dp off s)
  then show ?case using unat32_less [of "isize (inodes s ! dp)"] by simp
qed simp

declare dirlink_scan.simps [simp del]

definition dirlink ::
    "'a kfs_scheme devsw \<Rightarrow> nat \<Rightarrow> byte list \<Rightarrow> 32 word \<Rightarrow> 'a kfs_scheme \<Rightarrow> (int \<times> 'a kfs_scheme) res" where
  "dirlink dsw dp name n s =
     bnd (dirlookup dsw dp name s) (\<lambda>(r, s).
       case r of
         Some (ip, _) \<Rightarrow> bnd (iput ip s) (\<lambda>s. Inr (-1, s))
       | None \<Rightarrow>
           bnd (dirlink_scan dsw dp 0 s) (\<lambda>(off, s).
           bnd (writei dsw dp (mk_dirent name n) (of_nat off) s) (\<lambda>(r, s).
             if r \<noteq> 16 then Inl (Panic ''dirlink'') else Inr (0, s))))"

section \<open>Paths\<close>

abbreviation slash :: byte where "slash \<equiv> 47"

definition skipelem :: "byte list \<Rightarrow> (byte list \<times> byte list) option" where
  "skipelem path =
     (let path = dropWhile (\<lambda>c. c = slash) path in
      if path = [] then None
      else let s = takeWhile (\<lambda>c. c \<noteq> slash) path;
               path = dropWhile (\<lambda>c. c \<noteq> slash) path;
               name = (if length s \<ge> DIRSIZ then take DIRSIZ s else s)
           in Some (dropWhile (\<lambda>c. c = slash) path, name))"

lemma skipelem_shorter: "skipelem path = Some (rest, name) \<Longrightarrow> length rest < length path"
proof -
  assume a: "skipelem path = Some (rest, name)"
  let ?p = "dropWhile (\<lambda>c. c = slash) path" and ?r = "dropWhile (\<lambda>c. c \<noteq> slash)"
  have "?p \<noteq> []" and r: "rest = dropWhile (\<lambda>c. c = slash) (?r ?p)"
    using a by (auto simp: skipelem_def Let_def split: if_splits)
  moreover from this have "hd ?p \<noteq> slash" using hd_dropWhile [of "\<lambda>c. c = slash" path] by auto
  ultimately obtain c cs where "?p = c # cs" "c \<noteq> slash" by (cases ?p) auto
  then have "length (?r ?p) < length ?p" using length_dropWhile_le [of _ cs] by (simp add: le_imp_less_Suc)
  then show ?thesis
    unfolding r
    using length_dropWhile_le [of "\<lambda>c. c = slash" path] length_dropWhile_le [of "\<lambda>c. c = slash" "?r ?p"]
    by linarith
qed

text \<open>The loop of \<^verbatim>\<open>namex\<close>; the result is the inode, and the last element for \<^verbatim>\<open>nameiparent\<close>.\<close>

function namex_loop ::
    "'a kfs_scheme devsw \<Rightarrow> bool \<Rightarrow> nat \<Rightarrow> byte list \<Rightarrow> byte list \<Rightarrow> 'a kfs_scheme \<Rightarrow>
     ((nat \<times> byte list) option \<times> 'a kfs_scheme) res" where
  "namex_loop dsw par ip path name s =
     (case skipelem path of
        None \<Rightarrow> if par then bnd (iput ip s) (\<lambda>s. Inr (None, s)) else Inr (Some (ip, name), s)
      | Some (path', name) \<Rightarrow>
          bnd (ilock (Some ip) s) (\<lambda>s.
            if itype (inodes s ! ip) \<noteq> T_DIR then bnd (iunlockput ip s) (\<lambda>s. Inr (None, s))
            else if par \<and> path' = [] then bnd (iunlock (Some ip) s) (\<lambda>s. Inr (Some (ip, name), s))
            else bnd (dirlookup dsw ip name s) (\<lambda>(r, s).
              case r of
                None \<Rightarrow> bnd (iunlockput ip s) (\<lambda>s. Inr (None, s))
              | Some (nxt, _) \<Rightarrow> bnd (iunlockput ip s) (\<lambda>s. namex_loop dsw par nxt path' name s))))"
  by pat_completeness auto
termination
  by (relation "measure (\<lambda>(dsw, par, ip, path, name, s). length path)") (auto simp: skipelem_shorter)

declare namex_loop.simps [simp del]

definition namex ::
    "'a kfs_scheme devsw \<Rightarrow> byte list \<Rightarrow> bool \<Rightarrow> 'a kfs_scheme \<Rightarrow> ((nat \<times> byte list) option \<times> 'a kfs_scheme) res" where
  "namex dsw path par s =
     bnd (if c_hd path = slash then iget ROOTDEV ROOTINO s
          else bnd (curproc s) (\<lambda>(p, s).
            case cwd (ptable s ! p) of None \<Rightarrow> Inl NullDeref | Some ip \<Rightarrow> idup ip s)) (\<lambda>(ip, s).
       namex_loop dsw par ip path [] s)"

definition namei :: "'a kfs_scheme devsw \<Rightarrow> byte list \<Rightarrow> 'a kfs_scheme \<Rightarrow> (nat option \<times> 'a kfs_scheme) res" where
  "namei dsw path s = bnd (namex dsw path False s) (\<lambda>(r, s). Inr (map_option fst r, s))"

definition nameiparent ::
    "'a kfs_scheme devsw \<Rightarrow> byte list \<Rightarrow> 'a kfs_scheme \<Rightarrow> ((nat \<times> byte list) option \<times> 'a kfs_scheme) res" where
  "nameiparent dsw path s = namex dsw path True s"

end
