(* ===== verification/File.thy ===== *)
theory File
  imports Dir
begin

text \<open>
  Open files (\<^verbatim>\<open>file.c\<close>) and pipes (\<^verbatim>\<open>pipe.c\<close>). Files are named by their index in \<^verbatim>\<open>ftable.file\<close>,
  pipes by the address of their page. The bytes that a read call delivers are part of its result,
  the bytes that a write call takes are an argument: the accesses of \<^verbatim>\<open>pipewrite\<close> and \<^verbatim>\<open>piperead\<close> to user memory,
  which the code makes with the lock of the pipe held and which can fault on an encrypted page, are made by the caller.
\<close>

abbreviation NFILE :: nat where "NFILE \<equiv> 100"
abbreviation PIPESIZE :: nat where "PIPESIZE \<equiv> 512"

datatype ftype = FD_NONE | FD_PIPE | FD_INODE

record sfile =
  ftype :: ftype
  fref :: int
  readable :: bool
  writable :: bool
  fpipe :: addr
  fip :: "nat option"
  foff :: "32 word"

record pipe =
  plock :: spinlock
  pdata :: "byte list"
  nread :: "32 word"
  nwrite :: "32 word"
  readopen :: bool
  writeopen :: bool

record kfile = kfs +
  ftable_lock :: spinlock
  ftable :: "sfile list"
  pipes :: "addr \<Rightarrow> pipe"

definition upd_file :: "nat \<Rightarrow> (sfile \<Rightarrow> sfile) \<Rightarrow> 'a kfile_scheme \<Rightarrow> 'a kfile_scheme" where
  "upd_file f g s = s\<lparr>ftable := (ftable s)[f := g (ftable s ! f)]\<rparr>"

definition upd_pipe :: "addr \<Rightarrow> (pipe \<Rightarrow> pipe) \<Rightarrow> 'a kfile_scheme \<Rightarrow> 'a kfile_scheme" where
  "upd_pipe p g s = s\<lparr>pipes := (pipes s)(p := g (pipes s p))\<rparr>"

abbreviation acq_ftable :: "'a kfile_scheme \<Rightarrow> 'a kfile_scheme res" where
  "acq_ftable \<equiv> acq ftable_lock ftable_lock_update"

abbreviation rel_ftable :: "'a kfile_scheme \<Rightarrow> 'a kfile_scheme res" where
  "rel_ftable \<equiv> rel ftable_lock ftable_lock_update"

abbreviation plock_get :: "addr \<Rightarrow> 'a kfile_scheme \<Rightarrow> spinlock" where
  "plock_get p \<equiv> \<lambda>s. plock (pipes s p)"

abbreviation plock_upd :: "addr \<Rightarrow> (spinlock \<Rightarrow> spinlock) \<Rightarrow> 'a kfile_scheme \<Rightarrow> 'a kfile_scheme" where
  "plock_upd p \<equiv> \<lambda>f. upd_pipe p (plock_update f)"

section \<open>The file table\<close>

definition fileinit :: "'a kfile_scheme \<Rightarrow> 'a kfile_scheme" where
  "fileinit s = s\<lparr>ftable_lock := initlock (ftable_lock s) ''ftable''\<rparr>"

fun find_file :: "sfile list \<Rightarrow> nat \<Rightarrow> nat option" where
  "find_file [] i = None"
| "find_file (f # fs) i = (if fref f = 0 then Some i else find_file fs (Suc i))"

definition filealloc :: "'a kfile_scheme \<Rightarrow> (nat option \<times> 'a kfile_scheme) res" where
  "filealloc s =
     bnd (acq_ftable s) (\<lambda>s.
       case find_file (ftable s) 0 of
         Some f \<Rightarrow> bnd (rel_ftable (upd_file f (fref_update (\<lambda>_. 1)) s)) (\<lambda>s. Inr (Some f, s))
       | None \<Rightarrow> bnd (rel_ftable s) (\<lambda>s. Inr (None, s)))"

definition filedup :: "nat \<Rightarrow> 'a kfile_scheme \<Rightarrow> (nat \<times> 'a kfile_scheme) res" where
  "filedup f s =
     bnd (acq_ftable s) (\<lambda>s.
       if fref (ftable s ! f) < 1 then Inl (Panic ''filedup'')
       else bnd (rel_ftable (upd_file f (fref_update (\<lambda>r. r + 1)) s)) (\<lambda>s. Inr (f, s)))"

definition pipeclose :: "addr \<Rightarrow> bool \<Rightarrow> 'a kfile_scheme \<Rightarrow> 'a kfile_scheme res" where
  "pipeclose p w s =
     bnd (acq (plock_get p) (plock_upd p) s) (\<lambda>s.
     bnd (if w then wakeup (ChPipeRead p) (upd_pipe p (writeopen_update (\<lambda>_. False)) s)
          else wakeup (ChPipeWrite p) (upd_pipe p (readopen_update (\<lambda>_. False)) s)) (\<lambda>s.
       if \<not> readopen (pipes s p) \<and> \<not> writeopen (pipes s p)
       then bnd (rel (plock_get p) (plock_upd p) s) (kfree p)
       else rel (plock_get p) (plock_upd p) s))"

definition fileclose :: "nat \<Rightarrow> 'a kfile_scheme \<Rightarrow> 'a kfile_scheme res" where
  "fileclose f s =
     bnd (acq_ftable s) (\<lambda>s.
       if fref (ftable s ! f) < 1 then Inl (Panic ''fileclose'')
       else let s = upd_file f (fref_update (\<lambda>r. r - 1)) s in
         if fref (ftable s ! f) > 0 then rel_ftable s
         else let ff = ftable s ! f;
                  s = upd_file f (fref_update (\<lambda>_. 0)) s;
                  s = upd_file f (ftype_update (\<lambda>_. FD_NONE)) s in
           bnd (rel_ftable s) (\<lambda>s.
             if ftype ff = FD_PIPE then pipeclose (fpipe ff) (writable ff) s
             else if ftype ff = FD_INODE then
               bnd (begin_op s) (\<lambda>s.
               bnd (case fip ff of None \<Rightarrow> Inl NullDeref | Some ip \<Rightarrow> iput ip s) end_op)
             else Inr s))"

definition filestat :: "nat \<Rightarrow> 'a kfile_scheme \<Rightarrow> (stat option \<times> 'a kfile_scheme) res" where
  "filestat f s =
     (let ff = ftable s ! f in
      if ftype ff = FD_INODE then
        bnd (ilock (fip ff) s) (\<lambda>s.
          let st = stati (inodes s ! the (fip ff)) in
          bnd (iunlock (fip ff) s) (\<lambda>s. Inr (Some st, s)))
      else Inr (None, s))"

section \<open>Pipes\<close>

definition pipealloc :: "'a kfile_scheme \<Rightarrow> ((nat \<times> nat) option \<times> 'a kfile_scheme) res" where
  "pipealloc s =
     (let bad = (\<lambda>f0 f1 s.
        bnd (case f0 of Some f \<Rightarrow> fileclose f s | None \<Rightarrow> Inr s) (\<lambda>s.
        bnd (case f1 of Some f \<Rightarrow> fileclose f s | None \<Rightarrow> Inr s) (\<lambda>s. Inr (None, s)))) in
      bnd (filealloc s) (\<lambda>(f0, s).
        case f0 of None \<Rightarrow> bad None None s
        | Some a \<Rightarrow>
          bnd (filealloc s) (\<lambda>(f1, s).
            case f1 of None \<Rightarrow> bad f0 None s
            | Some b \<Rightarrow>
              bnd (kalloc s) (\<lambda>(p, s).
                if p = 0 then bad f0 f1 s
                else let s = upd_pipe p (\<lambda>q. q\<lparr>readopen := True, writeopen := True, nwrite := 0, nread := 0,
                             plock := initlock (plock q) ''pipe''\<rparr>) s;
                         s = upd_file a (\<lambda>f. f\<lparr>ftype := FD_PIPE, readable := True, writable := False, fpipe := p\<rparr>) s;
                         s = upd_file b (\<lambda>f. f\<lparr>ftype := FD_PIPE, readable := False, writable := True, fpipe := p\<rparr>) s
                     in Inr (Some (a, b), s)))))"

text \<open>
  The loop of \<^verbatim>\<open>pipewrite\<close>, entered with the lock held: \<open>src\<close> is what is left to write and \<open>n\<close> the
  whole count. When the pipe is full it returns or sleeps; a sleep leaves \<open>src\<close> as its local state.
\<close>

fun pipewrite_loop ::
    "addr \<Rightarrow> int \<Rightarrow> addr \<Rightarrow> byte list \<Rightarrow> 'a kfile_scheme \<Rightarrow> (byte list, int, 'a kfile_scheme) outcome res" where
  "pipewrite_loop p n sp [] s =
     bnd (wakeup (ChPipeRead p) s) (\<lambda>s. bnd (rel (plock_get p) (plock_upd p) s) (\<lambda>s. Inr (Ret n s)))"
| "pipewrite_loop p n sp (c # cs) s =
     (if nwrite (pipes s p) = nread (pipes s p) + of_nat PIPESIZE then
        bnd (if \<not> readopen (pipes s p) then Inr (True, s)
             else bnd (curproc s) (\<lambda>(i, s). Inr (killed (ptable s ! i), s))) (\<lambda>(stop, s).
          if stop then bnd (rel (plock_get p) (plock_upd p) s) (\<lambda>s. Inr (Ret (-1) s))
          else bnd (wakeup (ChPipeRead p) s) (\<lambda>s.
            bnd (sleep_out (ChPipeWrite p) (OtherLk (plock_get p) (plock_upd p)) sp s) (\<lambda>(i, s). Inr (Blk (c # cs) i s))))
      else let s = upd_pipe p (\<lambda>q. q\<lparr>pdata := (pdata q)[unat (nwrite q) mod PIPESIZE := c], nwrite := nwrite q + 1\<rparr>) s
        in pipewrite_loop p n sp cs s)"

definition pipewrite_start ::
    "addr \<Rightarrow> byte list \<Rightarrow> addr \<Rightarrow> 'a kfile_scheme \<Rightarrow> (byte list, int, 'a kfile_scheme) outcome res" where
  "pipewrite_start p src sp s =
     bnd (acq (plock_get p) (plock_upd p) s) (pipewrite_loop p (int (length src)) sp src)"

definition pipewrite_resume ::
    "addr \<Rightarrow> int \<Rightarrow> byte list \<Rightarrow> addr \<Rightarrow> nat \<Rightarrow> bool \<Rightarrow> 'a kfile_scheme \<Rightarrow> (byte list, int, 'a kfile_scheme) outcome res" where
  "pipewrite_resume p n src sp me i s =
     bnd (sleep_in me (OtherLk (plock_get p) (plock_upd p)) i s) (pipewrite_loop p n sp src)"

definition pipewrite :: "addr \<Rightarrow> byte list \<Rightarrow> 'a kfile_scheme \<Rightarrow> (int \<times> 'a kfile_scheme) res" where
  "pipewrite p src s =
     bnd (pipewrite_start p src 0 s) (\<lambda>r. case r of Ret n s \<Rightarrow> Inr (n, s) | Blk _ _ _ \<Rightarrow> Inl Sleeps)"

text \<open>The copying loop of \<^verbatim>\<open>piperead\<close>.\<close>

fun piperead_copy :: "nat \<Rightarrow> pipe \<Rightarrow> byte list \<times> pipe" where
  "piperead_copy 0 q = ([], q)"
| "piperead_copy (Suc n) q =
     (if nread q = nwrite q then ([], q)
      else let c = pdata q ! (unat (nread q) mod PIPESIZE);
               (cs, q) = piperead_copy n (q\<lparr>nread := nread q + 1\<rparr>)
           in (c # cs, q))"

definition piperead_round ::
    "addr \<Rightarrow> int \<Rightarrow> addr \<Rightarrow> 'a kfile_scheme \<Rightarrow> (unit, int \<times> byte list, 'a kfile_scheme) outcome res" where
  "piperead_round p n sp s =
     (if nread (pipes s p) = nwrite (pipes s p) \<and> writeopen (pipes s p) then
        bnd (curproc s) (\<lambda>(i, s).
          if killed (ptable s ! i) then bnd (rel (plock_get p) (plock_upd p) s) (\<lambda>s. Inr (Ret (-1, []) s))
          else bnd (sleep_out (ChPipeRead p) (OtherLk (plock_get p) (plock_upd p)) sp s) (\<lambda>(i, s). Inr (Blk () i s)))
      else let (cs, q) = piperead_copy (nat n) (pipes s p); s = upd_pipe p (\<lambda>_. q) s in
        bnd (wakeup (ChPipeWrite p) s) (\<lambda>s.
        bnd (rel (plock_get p) (plock_upd p) s) (\<lambda>s. Inr (Ret (int (length cs), cs) s))))"

definition piperead_start ::
    "addr \<Rightarrow> int \<Rightarrow> addr \<Rightarrow> 'a kfile_scheme \<Rightarrow> (unit, int \<times> byte list, 'a kfile_scheme) outcome res" where
  "piperead_start p n sp s = bnd (acq (plock_get p) (plock_upd p) s) (piperead_round p n sp)"

definition piperead_resume ::
    "addr \<Rightarrow> int \<Rightarrow> addr \<Rightarrow> nat \<Rightarrow> bool \<Rightarrow> 'a kfile_scheme \<Rightarrow> (unit, int \<times> byte list, 'a kfile_scheme) outcome res" where
  "piperead_resume p n sp me i s =
     bnd (sleep_in me (OtherLk (plock_get p) (plock_upd p)) i s) (piperead_round p n sp)"

definition piperead :: "addr \<Rightarrow> int \<Rightarrow> 'a kfile_scheme \<Rightarrow> ((int \<times> byte list) \<times> 'a kfile_scheme) res" where
  "piperead p n s =
     bnd (piperead_start p n 0 s) (\<lambda>r. case r of Ret x s \<Rightarrow> Inr (x, s) | Blk _ _ _ \<Rightarrow> Inl Sleeps)"

section \<open>Reading and writing a file\<close>

definition fileread ::
    "'a kfile_scheme devsw \<Rightarrow> nat \<Rightarrow> int \<Rightarrow> 'a kfile_scheme \<Rightarrow> ((int \<times> byte list) \<times> 'a kfile_scheme) res" where
  "fileread dsw f n s =
     (let ff = ftable s ! f in
      if \<not> readable ff then Inr ((-1, []), s)
      else if ftype ff = FD_PIPE then piperead (fpipe ff) n s
      else if ftype ff = FD_INODE then
        bnd (ilock (fip ff) s) (\<lambda>s.
        bnd (readi dsw (the (fip ff)) (foff (ftable s ! f)) (word_of_int n) s) (\<lambda>((r, d), s).
          let s = (if r > 0 then upd_file f (foff_update (\<lambda>x. x + word_of_int r)) s else s) in
          bnd (iunlock (fip ff) s) (\<lambda>s. Inr ((r, d), s))))
      else Inl (Panic ''fileread''))"

text \<open>Chunks of at most \<^verbatim>\<open>max\<close> = 1536 bytes, each in a transaction of its own. Result: all was written.\<close>

function filewrite_loop ::
    "'a kfile_scheme devsw \<Rightarrow> nat \<Rightarrow> nat option \<Rightarrow> byte list \<Rightarrow> 'a kfile_scheme \<Rightarrow> (bool \<times> 'a kfile_scheme) res" where
  "filewrite_loop dsw f ip src s =
     (if src = [] then Inr (True, s)
      else let n1 = min (length src) 1536 in
        bnd (begin_op s) (\<lambda>s.
        bnd (ilock ip s) (\<lambda>s.
        bnd (writei dsw (the ip) (take n1 src) (foff (ftable s ! f)) s) (\<lambda>(r, s).
          let s = (if r > 0 then upd_file f (foff_update (\<lambda>x. x + word_of_int r)) s else s) in
          bnd (iunlock ip s) (\<lambda>s.
          bnd (end_op s) (\<lambda>s.
            if r < 0 then Inr (False, s)
            else if r \<noteq> int n1 then Inl (Panic ''short filewrite'')
            else filewrite_loop dsw f ip (drop n1 src) s))))))"
  by pat_completeness auto
termination
  by (relation "measure (\<lambda>(dsw, f, ip, src, s). length src)") (auto simp: min_def)

declare filewrite_loop.simps [simp del]

definition filewrite ::
    "'a kfile_scheme devsw \<Rightarrow> nat \<Rightarrow> byte list \<Rightarrow> 'a kfile_scheme \<Rightarrow> (int \<times> 'a kfile_scheme) res" where
  "filewrite dsw f src s =
     (let ff = ftable s ! f in
      if \<not> writable ff then Inr (-1, s)
      else if ftype ff = FD_PIPE then pipewrite (fpipe ff) src s
      else if ftype ff = FD_INODE then
        bnd (filewrite_loop dsw f (fip ff) src s) (\<lambda>(ok, s). Inr (if ok then int (length src) else -1, s))
      else Inl (Panic ''filewrite''))"

end
