(* ===== verification/Console.thy ===== *)
theory Console
  imports File
begin

text \<open>
  The console of \<^verbatim>\<open>console.c\<close>: formatted output, the text screen, the line editor that fills the
  input ring from interrupts, and the read and write functions that \<^verbatim>\<open>devsw\<close> holds. Also the serial
  port of \<^verbatim>\<open>uart.c\<close> as far as characters pass through it.
\<close>

abbreviation INPUT_BUF :: nat where "INPUT_BUF \<equiv> 128"
abbreviation BACKSPACE :: int where "BACKSPACE \<equiv> 0x100"

text \<open>
  \<open>crt\<close> is the screen memory, \<open>crtpos\<close> the cursor position in the registers of the controller,
  \<open>uart_out\<close> what was sent to the serial port.
\<close>

record kcons = kfile +
  cons_lock :: spinlock
  cons_locking :: bool
  panicked :: bool
  crt :: "16 word list"
  crtpos :: int
  uart :: bool
  uart_out :: "byte list"
  ibuf :: "byte list"
  ir :: "32 word"
  iw :: "32 word"
  ie :: "32 word"

abbreviation acq_cons :: "'a kcons_scheme \<Rightarrow> 'a kcons_scheme res" where
  "acq_cons \<equiv> acq cons_lock cons_lock_update"

abbreviation rel_cons :: "'a kcons_scheme \<Rightarrow> 'a kcons_scheme res" where
  "rel_cons \<equiv> rel cons_lock cons_lock_update"

section \<open>Output\<close>

text \<open>The status polling before the write gives up after 128 rounds, so the character is sent in any case.\<close>

definition uartputc :: "int \<Rightarrow> 'a kcons_scheme \<Rightarrow> 'a kcons_scheme" where
  "uartputc c s = (if \<not> uart s then s else s\<lparr>uart_out := uart_out s @ [word_of_int c]\<rparr>)"

text \<open>
  The screen: 25 rows of 80 cells. The cursor moves, the text scrolls at row 24, and the cell
  under the cursor becomes a blank.
\<close>

definition cga_put :: "int \<Rightarrow> 16 word list \<times> int \<Rightarrow> (16 word list \<times> int) res" where
  "cga_put c st =
     (let (cells, pos) = st;
          (cells, pos) =
            (if c = 10 then (cells, pos + (80 - pos mod 80))
             else if c = BACKSPACE then (cells, if pos > 0 then pos - 1 else pos)
             else (cells[nat pos := (word_of_int c AND 0xFF) OR 0x0700], pos + 1)) in
      if pos < 0 \<or> pos > 25 * 80 then Inl (Panic ''pos under/overflow'')
      else let (cells, pos) =
            (if pos div 80 \<ge> 24
             then (let cells = take (23 * 80) (drop 80 cells) @ drop (23 * 80) cells; pos = pos - 80;
                       k = nat (24 * 80 - pos)
                   in (take (nat pos) cells @ replicate k 0 @ drop (nat pos + k) cells, pos))
             else (cells, pos))
        in Inr (cells[nat pos := 0x0720], pos))"

definition cgaputc :: "int \<Rightarrow> 'a kcons_scheme \<Rightarrow> 'a kcons_scheme res" where
  "cgaputc c s = bnd (cga_put c (crt s, crtpos s)) (\<lambda>(cells, pos). Inr (s\<lparr>crt := cells, crtpos := pos\<rparr>))"

definition consputc :: "int \<Rightarrow> 'a kcons_scheme \<Rightarrow> 'a kcons_scheme res" where
  "consputc c s =
     (if panicked s then Inl Diverges
      else let s = (if c = BACKSPACE then uartputc 8 (uartputc 32 (uartputc 8 s)) else uartputc c s)
        in cgaputc c s)"

fun consputs :: "byte list \<Rightarrow> 'a kcons_scheme \<Rightarrow> 'a kcons_scheme res" where
  "consputs [] s = Inr s"
| "consputs (c # cs) s = bnd (consputc (uint c) s) (consputs cs)"

text \<open>
  \<^verbatim>\<open>printint\<close> collects the digits from the last to the first in a buffer of 16 bytes and writes
  them back to front; \<open>digits_loop\<close> is its \<^verbatim>\<open>do\<close> loop.
\<close>

definition digits :: "byte list" where
  "digits = [48, 49, 50, 51, 52, 53, 54, 55, 56, 57, 97, 98, 99, 100, 101, 102]"

function digits_loop :: "byte list \<Rightarrow> 32 word \<Rightarrow> 32 word \<Rightarrow> byte list" where
  "digits_loop ds b x =
     (if b \<le> 1 then []
      else ds ! unat (x mod b) # (if x div b \<noteq> 0 then digits_loop ds b (x div b) else []))"
  by pat_completeness auto
termination
proof (relation "measure (\<lambda>(ds, b, x). unat x)")
  fix ds :: "byte list" and b x :: "32 word"
  assume b: "\<not> b \<le> 1" and x: "x div b \<noteq> 0"
  then have "x \<noteq> 0" by auto
  then have "0 < unat x" by (simp add: unat_gt_0)
  moreover have "1 < unat b" using b by (simp add: word_le_nat_alt)
  ultimately show "((ds, b, x div b), ds, b, x) \<in> measure (\<lambda>(ds, b, x). unat x)"
    by (simp add: unat_div)
qed simp

declare digits_loop.simps [simp del]

definition printint_text :: "int \<Rightarrow> 32 word \<Rightarrow> bool \<Rightarrow> byte list" where
  "printint_text xx b sign =
     (let neg = (sign \<and> xx < 0); x = (if neg then word_of_int (- xx) else word_of_int xx);
          buf = digits_loop digits b x
      in rev (if neg then buf @ [45] else buf))"

text \<open>
  The arguments of \<^verbatim>\<open>cprintf\<close> are words; one that is used as a string pointer is the string here,
  or null.
\<close>

datatype cparg = CWord "32 word" | CStr "byte list option"

definition cpword :: "cparg list \<Rightarrow> 32 word" where
  "cpword as = (case as of CWord w # _ \<Rightarrow> w | _ \<Rightarrow> 0)"

definition cpstr :: "cparg list \<Rightarrow> byte list" where
  "cpstr as = (case as of CStr (Some t) # _ \<Rightarrow> t | _ \<Rightarrow> [40, 110, 117, 108, 108, 41])"

fun cformat :: "byte list \<Rightarrow> cparg list \<Rightarrow> byte list" where
  "cformat [] as = []"
| "cformat [c] as = (if c \<noteq> 37 then [c] else [])"
| "cformat (c # d # cs) as =
     (if c \<noteq> 37 then c # cformat (d # cs) as
      else if d = 100 then printint_text (sint (cpword as)) 10 True @ cformat cs (tl as)
      else if d = 120 \<or> d = 112 then printint_text (sint (cpword as)) 16 False @ cformat cs (tl as)
      else if d = 115 then cpstr as @ cformat cs (tl as)
      else if d = 99 then ucast (cpword as) # cformat cs (tl as)
      else if d = 37 then 37 # cformat cs as
      else 37 # d # cformat cs as)"

definition cprintf :: "byte list option \<Rightarrow> cparg list \<Rightarrow> 'a kcons_scheme \<Rightarrow> 'a kcons_scheme res" where
  "cprintf fmt as s =
     (let locking = cons_locking s in
      bnd (if locking then
             bnd (holding (kcpu s) (cons_lock s)) (\<lambda>(h, c).
               let s = s\<lparr>kcpu := c\<rparr> in if \<not> h then acq_cons s else Inr s)
           else Inr s) (\<lambda>s.
        case fmt of None \<Rightarrow> Inl (Panic ''null fmt'')
        | Some f \<Rightarrow> bnd (consputs (cformat f as) s) (\<lambda>s. if locking then rel_cons s else Inr s)))"

section \<open>The line editor\<close>

lemma uartputc_input [simp]:
  "ie (uartputc c s) = ie s" "iw (uartputc c s) = iw s" "ir (uartputc c s) = ir s" "ibuf (uartputc c s) = ibuf s"
  by (simp_all add: uartputc_def)

lemma consputc_input:
  "consputc c s = Inr t \<Longrightarrow> ie t = ie s \<and> iw t = iw s \<and> ir t = ir s \<and> ibuf t = ibuf s"
  by (auto simp: consputc_def cgaputc_def bnd_eq_Inr Let_def split: if_splits)

text \<open>Erasing back to the start of the line, at most to \<^verbatim>\<open>input.w\<close>.\<close>

function kill_line :: "'a kcons_scheme \<Rightarrow> 'a kcons_scheme res" where
  "kill_line s =
     (if ie s \<noteq> iw s \<and> ibuf s ! (unat (ie s - 1) mod INPUT_BUF) \<noteq> 10
      then bnd (consputc BACKSPACE (s\<lparr>ie := ie s - 1\<rparr>)) (\<lambda>s. kill_line s)
      else Inr s)"
  by pat_completeness auto
termination
proof (relation "measure (\<lambda>s. unat (ie s - iw s))", goal_cases)
  case (2 s t)
  then have "ie s - iw s \<noteq> 0" "ie t - iw t = ie s - iw s - 1"
    using consputc_input [of BACKSPACE "s\<lparr>ie := ie s - 1\<rparr>" t] by (simp_all add: diff_right_commute)
  then show ?case by (simp add: unat_minus_one unat_gt_0)
qed simp

declare kill_line.simps [simp del]

definition input_char :: "int \<Rightarrow> 'a kcons_scheme \<Rightarrow> 'a kcons_scheme res" where
  "input_char c s =
     (if c = 21 then kill_line s
      else if c = 8 \<or> c = 127 then
        (if ie s \<noteq> iw s then consputc BACKSPACE (s\<lparr>ie := ie s - 1\<rparr>) else Inr s)
      else if c \<noteq> 0 \<and> ie s - ir s < of_nat INPUT_BUF then
        (let c = (if c = 13 then 10 else c);
             s = s\<lparr>ibuf := (ibuf s)[unat (ie s) mod INPUT_BUF := word_of_int c], ie := ie s + 1\<rparr> in
         bnd (consputc c s) (\<lambda>s.
           if c = 10 \<or> c = 4 \<or> ie s = ir s + of_nat INPUT_BUF
           then wakeup ChInput (s\<lparr>iw := ie s\<rparr>) else Inr s))
      else Inr s)"

text \<open>\<open>cs\<close> are the characters that \<^verbatim>\<open>getc\<close> returns before it returns a negative number.\<close>

fun consoleintr_loop :: "int list \<Rightarrow> bool \<Rightarrow> 'a kcons_scheme \<Rightarrow> (bool \<times> 'a kcons_scheme) res" where
  "consoleintr_loop [] doprocdump s = Inr (doprocdump, s)"
| "consoleintr_loop (c # cs) doprocdump s =
     (if c = 16 then consoleintr_loop cs True s
      else bnd (input_char c s) (consoleintr_loop cs doprocdump))"

section \<open>The device functions\<close>

text \<open>
  The loop of \<^verbatim>\<open>consoleread\<close>, with the lock held: \<open>n\<close> bytes are wanted and \<open>acc\<close> holds those
  delivered. The result of a return is whether the process was killed while it waited.
\<close>

function consoleread_loop ::
    "nat \<Rightarrow> byte list \<Rightarrow> addr \<Rightarrow> 'a kcons_scheme \<Rightarrow> (nat \<times> byte list, bool \<times> byte list, 'a kcons_scheme) outcome res" where
  "consoleread_loop n acc sp s =
     (if n = 0 then Inr (Ret (False, acc) s)
      else if ir s = iw s then
        bnd (curproc s) (\<lambda>(p, s).
          if killed (ptable s ! p) then Inr (Ret (True, acc) s)
          else bnd (sleep_out ChInput (OtherLk cons_lock cons_lock_update) sp s) (\<lambda>(i, s). Inr (Blk (n, acc) i s)))
      else let c = ibuf s ! (unat (ir s) mod INPUT_BUF); s = s\<lparr>ir := ir s + 1\<rparr> in
        if c = 4 then Inr (Ret (False, acc) (if acc \<noteq> [] then s\<lparr>ir := ir s - 1\<rparr> else s))
        else let acc = acc @ [c] in
          if c = 10 then Inr (Ret (False, acc) s) else consoleread_loop (n - 1) acc sp s)"
  by pat_completeness auto
termination by (relation "measure (\<lambda>(n, acc, sp, s). n)") auto

declare consoleread_loop.simps [simp del]

definition consoleread_end ::
    "nat \<Rightarrow> (nat \<times> byte list, bool \<times> byte list, 'a kcons_scheme) outcome \<Rightarrow>
     (nat \<times> byte list, int \<times> byte list, 'a kcons_scheme) outcome res" where
  "consoleread_end ip r =
     (case r of
        Ret (dead, acc) s \<Rightarrow>
          bnd (rel_cons s) (\<lambda>s.
          bnd (ilock (Some ip) s) (\<lambda>s. Inr (Ret (if dead then -1 else int (length acc), acc) s)))
      | Blk l i s \<Rightarrow> Inr (Blk l i s))"

definition consoleread_start ::
    "addr \<Rightarrow> nat \<Rightarrow> int \<Rightarrow> 'a kcons_scheme \<Rightarrow> (nat \<times> byte list, int \<times> byte list, 'a kcons_scheme) outcome res" where
  "consoleread_start sp ip n s =
     bnd (iunlock (Some ip) s) (\<lambda>s.
     bnd (acq_cons s) (\<lambda>s.
     bnd (consoleread_loop (nat n) [] sp s) (consoleread_end ip)))"

definition consoleread_resume ::
    "addr \<Rightarrow> nat \<Rightarrow> nat \<times> byte list \<Rightarrow> nat \<Rightarrow> bool \<Rightarrow> 'a kcons_scheme \<Rightarrow>
     (nat \<times> byte list, int \<times> byte list, 'a kcons_scheme) outcome res" where
  "consoleread_resume sp ip l p i s =
     bnd (sleep_in p (OtherLk cons_lock cons_lock_update) i s) (\<lambda>s.
     bnd (consoleread_loop (fst l) (snd l) sp s) (consoleread_end ip))"

definition consoleread :: "nat \<Rightarrow> int \<Rightarrow> 'a kcons_scheme \<Rightarrow> ((int \<times> byte list) \<times> 'a kcons_scheme) res" where
  "consoleread ip n s =
     bnd (consoleread_start 0 ip n s) (\<lambda>r. case r of Ret x s \<Rightarrow> Inr (x, s) | Blk _ _ _ \<Rightarrow> Inl Sleeps)"

definition consolewrite :: "nat \<Rightarrow> byte list \<Rightarrow> 'a kcons_scheme \<Rightarrow> (int \<times> 'a kcons_scheme) res" where
  "consolewrite ip bs s =
     bnd (iunlock (Some ip) s) (\<lambda>s.
     bnd (acq_cons s) (\<lambda>s.
     bnd (consputs bs s) (\<lambda>s.
     bnd (rel_cons s) (\<lambda>s.
     bnd (ilock (Some ip) s) (\<lambda>s. Inr (int (length bs), s))))))"

text \<open>\<^verbatim>\<open>consoleinit\<close>; the table that it leaves in \<^verbatim>\<open>devsw\<close> has the console at major number 1.\<close>

definition console_devsw :: "'a kcons_scheme devsw" where
  "console_devsw = \<lparr>dread = (\<lambda>m. if m = 1 then Some consoleread else None),
     dwrite = (\<lambda>m. if m = 1 then Some consolewrite else None)\<rparr>"

definition consoleinit :: "'a kcons_scheme \<Rightarrow> 'a kcons_scheme" where
  "consoleinit s = s\<lparr>cons_lock := initlock (cons_lock s) ''console'', cons_locking := True\<rparr>"

end
