(* ===== verification/Proc_Life.thy ===== *)
theory Proc_Life
  imports Console
begin

text \<open>
  The life of a process in \<^verbatim>\<open>proc.c\<close>: the first process, \<^verbatim>\<open>fork\<close>, \<^verbatim>\<open>exit\<close>, the first return of a
  child, and the listing for debugging.
\<close>

section \<open>Trap frames\<close>

text \<open>Byte offsets in \<^verbatim>\<open>struct trapframe\<close>; the frame lies in kernel memory.\<close>

abbreviation tf_eax :: addr where "tf_eax \<equiv> 28"
abbreviation tf_es :: addr where "tf_es \<equiv> 40"
abbreviation tf_ds :: addr where "tf_ds \<equiv> 44"
abbreviation tf_trapno :: addr where "tf_trapno \<equiv> 48"
abbreviation tf_err :: addr where "tf_err \<equiv> 52"
abbreviation tf_eip :: addr where "tf_eip \<equiv> 56"
abbreviation tf_cs :: addr where "tf_cs \<equiv> 60"
abbreviation tf_eflags :: addr where "tf_eflags \<equiv> 64"
abbreviation tf_esp :: addr where "tf_esp \<equiv> 68"
abbreviation tf_ss :: addr where "tf_ss \<equiv> 72"

abbreviation put_tf :: "nat \<Rightarrow> addr \<Rightarrow> 32 word \<Rightarrow> 'a kproc_scheme \<Rightarrow> 'a kproc_scheme" where
  "put_tf p o1 v s \<equiv> s\<lparr>mem := store32 (mem s) (tf (ptable s ! p) + o1) v\<rparr>"

definition store16 :: "mem \<Rightarrow> addr \<Rightarrow> 16 word \<Rightarrow> mem" where
  "store16 m a v = m(a := ucast v, a + 1 := ucast (drop_bit 8 v))"

abbreviation put_tf16 :: "nat \<Rightarrow> addr \<Rightarrow> 16 word \<Rightarrow> 'a kproc_scheme \<Rightarrow> 'a kproc_scheme" where
  "put_tf16 p o1 v s \<equiv> s\<lparr>mem := store16 (mem s) (tf (ptable s ! p) + o1) v\<rparr>"

text \<open>\<^verbatim>\<open>safestrcpy\<close> into the 16 bytes of \<^verbatim>\<open>p->name\<close>, as the string that it leaves there.\<close>

definition proc_name :: "byte list \<Rightarrow> byte list" where
  "proc_name t = take 15 (takeWhile (\<lambda>c. c \<noteq> 0) t)"

section \<open>The first process\<close>

text \<open>
  \<open>initcode\<close> and \<open>initsz\<close> are the linker symbols of the embedded program. The user code and data
  selectors are 0x1B and 0x23, \<^verbatim>\<open>FL_IF\<close> is 0x200.
\<close>

definition userinit :: "addr \<Rightarrow> 32 word \<Rightarrow> 'a kcons_scheme \<Rightarrow> 'a kcons_scheme res" where
  "userinit initcode initsz s =
     bnd (allocproc s) (\<lambda>(po, s).
       let s = s\<lparr>initproc := po\<rparr> in
       case po of None \<Rightarrow> Inl NullDeref
       | Some p \<Rightarrow>
         bnd (setupkvm s) (\<lambda>(pgd, s).
           let s = upd_proc p (pgdir_update (\<lambda>_. pgd)) s in
           if pgd = 0 then Inl (Panic ''userinit: out of memory?'')
           else bnd (inituvm pgd initcode initsz s) (\<lambda>s.
             let s = upd_proc p (psz_update (\<lambda>_. PGSIZE)) s;
                 s = s\<lparr>mem := memset (mem s) (tf (ptable s ! p)) 0 sizeof_trapframe\<rparr>;
                 s = put_tf16 p tf_cs 0x1B s;
                 s = put_tf16 p tf_ds 0x23 s;
                 s = put_tf16 p tf_es 0x23 s;
                 s = put_tf16 p tf_ss 0x23 s;
                 s = put_tf p tf_eflags 0x200 s;
                 s = put_tf p tf_esp PGSIZE s;
                 s = put_tf p tf_eip 0 s;
                 s = upd_proc p (pname_update (\<lambda>_. proc_name [105, 110, 105, 116, 99, 111, 100, 101])) s in
             bnd (namei console_devsw [slash] s) (\<lambda>(ip, s).
               let s = upd_proc p (cwd_update (\<lambda>_. ip)) s in
               bnd (acq_ptable s) (\<lambda>s. rel_ptable (upd_proc p (pstate_update (\<lambda>_. RUNNABLE)) s))))))"

section \<open>Fork\<close>

text \<open>The copy of the clock queue: from the head on, the slots that are in use.\<close>

fun copy_clock :: "nat \<Rightarrow> nat \<Rightarrow> addr list \<Rightarrow> addr list \<Rightarrow> addr list" where
  "copy_clock 0 i src dst = dst"
| "copy_clock (Suc n) i src dst =
     copy_clock n (Suc i) src
       (if src ! (i mod CLOCKSIZE) \<noteq> 0 then dst[i mod CLOCKSIZE := src ! (i mod CLOCKSIZE)] else dst)"

fun dup_files :: "nat \<Rightarrow> nat \<Rightarrow> nat \<Rightarrow> nat \<Rightarrow> 'a kfile_scheme \<Rightarrow> 'a kfile_scheme res" where
  "dup_files cur np 0 i s = Inr s"
| "dup_files cur np (Suc n) i s =
     bnd (case ofile (ptable s ! cur) ! i of
            None \<Rightarrow> Inr s
          | Some f \<Rightarrow> bnd (filedup f s) (\<lambda>(f, s). Inr (upd_proc np (ofile_update (\<lambda>fs. fs[i := Some f])) s))) (\<lambda>s.
       dup_files cur np n (Suc i) s)"

definition fork :: "'a kfile_scheme \<Rightarrow> (int \<times> 'a kfile_scheme) res" where
  "fork s =
     bnd (curproc s) (\<lambda>(cur, s).
     bnd (allocproc s) (\<lambda>(npo, s).
       case npo of None \<Rightarrow> Inr (-1, s)
       | Some np \<Rightarrow>
         bnd (copyuvm (pgdir (ptable s ! cur)) (psz (ptable s ! cur)) s) (\<lambda>(pgd, s).
           let s = upd_proc np (pgdir_update (\<lambda>_. pgd)) s in
           if pgd = 0 then
             bnd (kfree (kstack (ptable s ! np)) s) (\<lambda>s.
               let s = upd_proc np (kstack_update (\<lambda>_. 0)) s
               in Inr (-1, upd_proc np (pstate_update (\<lambda>_. UNUSED)) s))
           else
             let s = upd_proc np (psz_update (\<lambda>_. psz (ptable s ! cur))) s;
                 s = upd_proc np (parent_update (\<lambda>_. Some cur)) s;
                 s = s\<lparr>mem := memmove (mem s) (tf (ptable s ! np)) (tf (ptable s ! cur)) sizeof_trapframe\<rparr>;
                 s = upd_proc np (clock_update (\<lambda>_. replicate CLOCKSIZE 0)) s;
                 s = upd_proc np (head_update (\<lambda>_. head (ptable s ! cur))) s;
                 s = upd_proc np (clock_update (\<lambda>c.
                       copy_clock CLOCKSIZE (head (ptable s ! np)) (clock (ptable s ! cur)) c)) s;
                 s = put_tf np tf_eax 0 s in
             bnd (dup_files cur np NOFILE 0 s) (\<lambda>s.
             bnd (case cwd (ptable s ! cur) of None \<Rightarrow> Inl NullDeref | Some ip \<Rightarrow> idup ip s) (\<lambda>(ip, s).
               let s = upd_proc np (cwd_update (\<lambda>_. Some ip)) s;
                   s = upd_proc np (pname_update (\<lambda>_. proc_name (pname (ptable s ! cur)))) s;
                   n = pid (ptable s ! np) in
               bnd (acq_ptable s) (\<lambda>s.
               bnd (rel_ptable (upd_proc np (pstate_update (\<lambda>_. RUNNABLE)) s)) (\<lambda>s. Inr (n, s))))))))"

section \<open>Exit\<close>

fun close_files :: "nat \<Rightarrow> nat \<Rightarrow> nat \<Rightarrow> 'a kfile_scheme \<Rightarrow> 'a kfile_scheme res" where
  "close_files cur 0 fd s = Inr s"
| "close_files cur (Suc n) fd s =
     bnd (case ofile (ptable s ! cur) ! fd of
            None \<Rightarrow> Inr s
          | Some f \<Rightarrow> bnd (fileclose f s) (\<lambda>s. Inr (upd_proc cur (ofile_update (\<lambda>fs. fs[fd := None])) s))) (\<lambda>s.
       close_files cur n (Suc fd) s)"

definition init_chan :: "nat option \<Rightarrow> chan" where
  "init_chan p = (case p of None \<Rightarrow> NoChan | Some i \<Rightarrow> ChProc i)"

fun abandon :: "nat \<Rightarrow> nat \<Rightarrow> nat \<Rightarrow> 'a kproc_scheme \<Rightarrow> 'a kproc_scheme" where
  "abandon cur 0 i s = s"
| "abandon cur (Suc n) i s =
     abandon cur n (Suc i)
       (if parent (ptable s ! i) = Some cur
        then (let s = upd_proc i (parent_update (\<lambda>_. initproc s)) s
              in if pstate (ptable s ! i) = ZOMBIE then wakeup1 (init_chan (initproc s)) s else s)
        else s)"

text \<open>
  \<^verbatim>\<open>exit\<close> up to the switch to the scheduler, from which it does not come back.
\<close>

definition exit_out :: "addr \<Rightarrow> 'a kfile_scheme \<Rightarrow> (bool \<times> 'a kfile_scheme) res" where
  "exit_out sp s =
     bnd (myproc s) (\<lambda>(p, s).
       if p = initproc s then Inl (Panic ''init exiting'')
       else case p of None \<Rightarrow> Inl NullDeref
       | Some cur \<Rightarrow>
         bnd (close_files cur NOFILE 0 s) (\<lambda>s.
         bnd (begin_op s) (\<lambda>s.
         bnd (case cwd (ptable s ! cur) of None \<Rightarrow> Inl NullDeref | Some ip \<Rightarrow> iput ip s) (\<lambda>s.
         bnd (end_op s) (\<lambda>s.
           let s = upd_proc cur (cwd_update (\<lambda>_. None)) s in
           bnd (acq_ptable s) (\<lambda>s.
             let s = wakeup1 (init_chan (parent (ptable s ! cur))) s;
                 s = abandon cur (length (ptable s)) 0 s;
                 s = upd_proc cur (pstate_update (\<lambda>_. ZOMBIE)) s
             in sched_out sp s))))))"

text \<open>A new process starts in \<^verbatim>\<open>forkret\<close>; the very first one initialises the file system.\<close>

definition forkret :: "'a kfs_scheme \<Rightarrow> 'a kfs_scheme res" where
  "forkret s =
     bnd (rel_ptable s) (\<lambda>s.
       if first s then bnd (iinit ROOTDEV (s\<lparr>first := False\<rparr>)) (initlog ROOTDEV) else Inr s)"

section \<open>Listing\<close>

definition state_name :: "procstate \<Rightarrow> string" where
  "state_name st = (case st of UNUSED \<Rightarrow> ''unused'' | EMBRYO \<Rightarrow> ''embryo'' | SLEEPING \<Rightarrow> ''sleep ''
     | RUNNABLE \<Rightarrow> ''runble'' | RUNNING \<Rightarrow> ''run   '' | ZOMBIE \<Rightarrow> ''zombie'')"

definition to_bytes :: "string \<Rightarrow> byte list" where
  "to_bytes = map of_char"

fun procdump_pcs :: "32 word list \<Rightarrow> 'a kcons_scheme \<Rightarrow> 'a kcons_scheme res" where
  "procdump_pcs [] s = Inr s"
| "procdump_pcs (pc # pcs) s =
     (if pc = 0 then Inr s
      else bnd (cprintf (Some (to_bytes '' %p'')) [CWord pc] s) (procdump_pcs pcs))"

fun procdump_loop :: "proc list \<Rightarrow> 'a kcons_scheme \<Rightarrow> 'a kcons_scheme res" where
  "procdump_loop [] s = Inr s"
| "procdump_loop (p # ps) s =
     (if pstate p = UNUSED then procdump_loop ps s
      else bnd (cprintf (Some (to_bytes ''%d %s %s''))
                 [CWord (word_of_int (pid p)), CStr (Some (to_bytes (state_name (pstate p)))), CStr (Some (pname p))] s) (\<lambda>s.
        bnd (if pstate p = SLEEPING
             then procdump_pcs (getcallerpcs (mem s) (load32 (mem s) (pcontext p + 12) + 8)) s else Inr s) (\<lambda>s.
        bnd (cprintf (Some [10]) [] s) (procdump_loop ps))))"

definition procdump :: "'a kcons_scheme \<Rightarrow> 'a kcons_scheme res" where
  "procdump s = procdump_loop (ptable s) s"

text \<open>The interrupt handler of the console runs the listing after it has released its lock.\<close>

definition consoleintr :: "int list \<Rightarrow> 'a kcons_scheme \<Rightarrow> 'a kcons_scheme res" where
  "consoleintr cs s =
     bnd (acq_cons s) (\<lambda>s.
     bnd (consoleintr_loop cs False s) (\<lambda>(dump, s).
     bnd (rel_cons s) (\<lambda>s. if dump then procdump s else Inr s)))"

end
