(* ===== verification/Syscall_Args.thy ===== *)
theory Syscall_Args
  imports Proc_Life
begin

text \<open>
  Access of the kernel to user memory and the fetching of system call arguments
  (\<^verbatim>\<open>syscall.c\<close>). A kernel access to an encrypted page faults, the trap handler decrypts the page
  and the access is repeated.
\<close>

section \<open>User memory\<close>

text \<open>
  The page fault branch of \<^verbatim>\<open>trap\<close> for a fault in the kernel: when \<^verbatim>\<open>mdecrypt\<close> fails the process
  ends in \<^verbatim>\<open>exit\<close>.
\<close>

definition kfault :: "hw_walk \<Rightarrow> addr \<Rightarrow> 'a kproc_scheme \<Rightarrow> 'a kproc_scheme res" where
  "kfault hw va s = bnd (mdecrypt hw va s) (\<lambda>(r, s). if r \<noteq> 0 then Inl Exits else Inr s)"

definition uload :: "hw_walk \<Rightarrow> addr \<Rightarrow> 'a kproc_scheme \<Rightarrow> (byte \<times> 'a kproc_scheme) res" where
  "uload hw va s =
     (case vload hw va s of
        Inl (PageFault a) \<Rightarrow> bnd (kfault hw a s) (vload hw va)
      | r \<Rightarrow> r)"

definition ustore :: "hw_walk \<Rightarrow> addr \<Rightarrow> byte \<Rightarrow> 'a kproc_scheme \<Rightarrow> 'a kproc_scheme res" where
  "ustore hw va b s =
     (case vstore hw va b s of
        Inl (PageFault a) \<Rightarrow> bnd (kfault hw a s) (vstore hw va b)
      | r \<Rightarrow> r)"

fun uload_bytes :: "hw_walk \<Rightarrow> nat \<Rightarrow> addr \<Rightarrow> 'a kproc_scheme \<Rightarrow> (byte list \<times> 'a kproc_scheme) res" where
  "uload_bytes hw 0 va s = Inr ([], s)"
| "uload_bytes hw (Suc n) va s =
     bnd (uload hw va s) (\<lambda>(b, s). bnd (uload_bytes hw n (va + 1) s) (\<lambda>(bs, s). Inr (b # bs, s)))"

fun ustore_bytes :: "hw_walk \<Rightarrow> byte list \<Rightarrow> addr \<Rightarrow> 'a kproc_scheme \<Rightarrow> 'a kproc_scheme res" where
  "ustore_bytes hw [] va s = Inr s"
| "ustore_bytes hw (b # bs) va s = bnd (ustore hw va b s) (ustore_bytes hw bs (va + 1))"

section \<open>Arguments\<close>

text \<open>\<^term>\<open>None\<close> is the return value -1.\<close>

definition fetchint :: "hw_walk \<Rightarrow> addr \<Rightarrow> 'a kproc_scheme \<Rightarrow> (32 word option \<times> 'a kproc_scheme) res" where
  "fetchint hw a s =
     bnd (curproc s) (\<lambda>(p, s).
       let sz = psz (ptable s ! p) in
       if a \<ge> sz \<or> a + 4 > sz then Inr (None, s)
       else bnd (uload_bytes hw 4 a s) (\<lambda>(bs, s). Inr (Some (get32 bs 0), s)))"

text \<open>The string found at \<open>a\<close>; \<open>n\<close> is the number of bytes up to the end of the process.\<close>

fun fetchstr_loop :: "hw_walk \<Rightarrow> nat \<Rightarrow> addr \<Rightarrow> byte list \<Rightarrow> 'a kproc_scheme \<Rightarrow> (byte list option \<times> 'a kproc_scheme) res" where
  "fetchstr_loop hw 0 a acc s = Inr (None, s)"
| "fetchstr_loop hw (Suc n) a acc s =
     bnd (uload hw a s) (\<lambda>(b, s).
       if b = 0 then Inr (Some acc, s) else fetchstr_loop hw n (a + 1) (acc @ [b]) s)"

definition fetchstr :: "hw_walk \<Rightarrow> addr \<Rightarrow> 'a kproc_scheme \<Rightarrow> (byte list option \<times> 'a kproc_scheme) res" where
  "fetchstr hw a s =
     bnd (curproc s) (\<lambda>(p, s).
       let sz = psz (ptable s ! p) in
       if a \<ge> sz then Inr (None, s) else fetchstr_loop hw (unat (sz - a)) a [] s)"

definition argint :: "hw_walk \<Rightarrow> nat \<Rightarrow> 'a kproc_scheme \<Rightarrow> (32 word option \<times> 'a kproc_scheme) res" where
  "argint hw n s =
     bnd (curproc s) (\<lambda>(p, s).
       fetchint hw (load32 (mem s) (tf (ptable s ! p) + tf_esp) + 4 + 4 * of_nat n) s)"

definition argptr :: "hw_walk \<Rightarrow> nat \<Rightarrow> int \<Rightarrow> 'a kproc_scheme \<Rightarrow> (addr option \<times> 'a kproc_scheme) res" where
  "argptr hw n sz s =
     bnd (curproc s) (\<lambda>(p, s).
     bnd (argint hw n s) (\<lambda>(i, s).
       case i of None \<Rightarrow> Inr (None, s)
       | Some i \<Rightarrow>
         if sz < 0 \<or> i \<ge> psz (ptable s ! p) \<or> i + word_of_int sz > psz (ptable s ! p) then Inr (None, s)
         else Inr (Some i, s)))"

definition argstr :: "hw_walk \<Rightarrow> nat \<Rightarrow> 'a kproc_scheme \<Rightarrow> (byte list option \<times> 'a kproc_scheme) res" where
  "argstr hw n s =
     bnd (argint hw n s) (\<lambda>(a, s). case a of None \<Rightarrow> Inr (None, s) | Some a \<Rightarrow> fetchstr hw a s)"

end
