(* ===== verification/Exec.thy ===== *)
theory Exec
  imports Syscall_Args
begin

text \<open>
  \<^verbatim>\<open>exec.c\<close>: loading a program into a new address space, building its stack, and encrypting what
  was set up. Also \<^verbatim>\<open>loaduvm\<close> of \<^verbatim>\<open>vm.c\<close>, and \<^verbatim>\<open>copyout\<close> for a source given by its bytes.
\<close>

fun put_bytes :: "mem \<Rightarrow> addr \<Rightarrow> byte list \<Rightarrow> mem" where
  "put_bytes m a [] = m"
| "put_bytes m a (b # bs) = put_bytes (m(a := b)) (a + 1) bs"

text \<open>
  The loop of \<^verbatim>\<open>loaduvm\<close>; the index stays below the kernel, where the segment was allocated.
\<close>

function loaduvm_loop ::
    "'a kfs_scheme devsw \<Rightarrow> addr \<Rightarrow> addr \<Rightarrow> nat \<Rightarrow> 32 word \<Rightarrow> nat \<Rightarrow> nat \<Rightarrow> 'a kfs_scheme \<Rightarrow> (int \<times> 'a kfs_scheme) res" where
  "loaduvm_loop dsw pgd a ip off i sz s =
     (if i < sz then
        bnd (walkpgdir pgd (a + of_nat i) False s) (\<lambda>(pte, s).
          if pte = 0 then Inl (Panic ''loaduvm: address should exist'')
          else let pa = PTE_ADDR (load32 (mem s) pte); n = min (sz - i) 4096 in
            bnd (readi dsw ip (off + of_nat i) (of_nat n) s) (\<lambda>((r, d), s).
              let s = s\<lparr>mem := put_bytes (mem s) (P2V pa) d\<rparr> in
              if r \<noteq> int n then Inr (-1, s) else loaduvm_loop dsw pgd a ip off (i + 4096) sz s))
      else Inr (0, s))"
  by pat_completeness auto
termination
  by (relation "measure (\<lambda>(dsw, pgd, a, ip, off, i, sz, s). sz - i)") auto

declare loaduvm_loop.simps [simp del]

definition loaduvm ::
    "'a kfs_scheme devsw \<Rightarrow> addr \<Rightarrow> addr \<Rightarrow> nat \<Rightarrow> 32 word \<Rightarrow> 32 word \<Rightarrow> 'a kfs_scheme \<Rightarrow> (int \<times> 'a kfs_scheme) res" where
  "loaduvm dsw pgd a ip off sz s =
     (if a mod PGSIZE \<noteq> 0 then Inl (Panic ''loaduvm: addr must be page aligned'')
      else loaduvm_loop dsw pgd a ip off 0 (unat sz) s)"

function copyout_bytes :: "addr \<Rightarrow> addr \<Rightarrow> byte list \<Rightarrow> 'a kmem_scheme \<Rightarrow> (int \<times> 'a kmem_scheme) res" where
  "copyout_bytes pgd va src s =
     (if src = [] then Inr (0, s)
      else let va0 = PGROUNDDOWN va in
        bnd (uva2ka pgd va0 s) (\<lambda>pa0.
          if pa0 = 0 then Inr (-1, s)
          else let n = min (length src) (4096 - unat (OFFSET va));
                   s = s\<lparr>mem := put_bytes (mem s) (pa0 + (va - va0)) (take n src)\<rparr>
               in copyout_bytes pgd (va0 + PGSIZE) (drop n src) s))"
  by pat_completeness auto
termination
proof (relation "measure (\<lambda>(pgd, va, src, s). length src)", goal_cases)
  case (2 pgd va src s)
  then show ?case by (auto simp: unat_OFFSET min_def)
qed simp

declare copyout_bytes.simps [simp del]

section \<open>The program image\<close>

record elfhdr =
  elf_magic :: "32 word"
  elf_entry :: "32 word"
  elf_phoff :: "32 word"
  elf_phnum :: "16 word"

record proghdr =
  ph_type :: "32 word"
  ph_off :: "32 word"
  ph_vaddr :: "32 word"
  ph_filesz :: "32 word"
  ph_memsz :: "32 word"

definition parse_elfhdr :: "byte list \<Rightarrow> elfhdr" where
  "parse_elfhdr d = \<lparr>elf_magic = get32 d 0, elf_entry = get32 d 24, elf_phoff = get32 d 28, elf_phnum = get16 d 44\<rparr>"

definition parse_proghdr :: "byte list \<Rightarrow> proghdr" where
  "parse_proghdr d = \<lparr>ph_type = get32 d 0, ph_off = get32 d 4, ph_vaddr = get32 d 8, ph_filesz = get32 d 16,
     ph_memsz = get32 d 20\<rparr>"

abbreviation ELF_MAGIC :: "32 word" where "ELF_MAGIC \<equiv> 0x464C457F"
abbreviation MAXARG :: nat where "MAXARG \<equiv> 32"

text \<open>The segments; \<^term>\<open>None\<close> is the jump to \<^verbatim>\<open>bad\<close>.\<close>

fun load_segments ::
    "'a kfs_scheme devsw \<Rightarrow> addr \<Rightarrow> nat \<Rightarrow> nat \<Rightarrow> 32 word \<Rightarrow> 32 word \<Rightarrow> 'a kfs_scheme \<Rightarrow> (32 word option \<times> 'a kfs_scheme) res" where
  "load_segments dsw pgd ip 0 off sz s = Inr (Some sz, s)"
| "load_segments dsw pgd ip (Suc n) off sz s =
     bnd (readi dsw ip off 32 s) (\<lambda>((r, d), s).
       let ph = parse_proghdr d in
       if r \<noteq> 32 then Inr (None, s)
       else if ph_type ph \<noteq> 1 then load_segments dsw pgd ip n (off + 32) sz s
       else if ph_memsz ph < ph_filesz ph then Inr (None, s)
       else if ph_vaddr ph + ph_memsz ph < ph_vaddr ph then Inr (None, s)
       else bnd (allocuvm pgd sz (ph_vaddr ph + ph_memsz ph) s) (\<lambda>(sz, s).
         if sz = 0 then Inr (None, s)
         else if ph_vaddr ph mod PGSIZE \<noteq> 0 then Inr (None, s)
         else bnd (loaduvm dsw pgd (ph_vaddr ph) ip (ph_off ph) (ph_filesz ph) s) (\<lambda>(r, s).
           if r < 0 then Inr (None, s) else load_segments dsw pgd ip n (off + 32) sz s)))"

text \<open>The argument strings, each aligned to a word below the last one, and their addresses.\<close>

fun push_args ::
    "addr \<Rightarrow> byte list list \<Rightarrow> nat \<Rightarrow> 32 word \<Rightarrow> 32 word list \<Rightarrow> 'a kmem_scheme \<Rightarrow>
     ((32 word \<times> 32 word list) option \<times> 'a kmem_scheme) res" where
  "push_args pgd [] argc sp us s = Inr (Some (sp, us), s)"
| "push_args pgd (a # as) argc sp us s =
     (if argc \<ge> MAXARG then Inr (None, s)
      else let sp = (sp - (of_nat (length a) + 1)) AND NOT 3 in
        bnd (copyout_bytes pgd sp (a @ [0]) s) (\<lambda>(r, s).
          if r < 0 then Inr (None, s) else push_args pgd as (Suc argc) sp (us @ [sp]) s))"

definition ustack :: "32 word \<Rightarrow> 32 word list \<Rightarrow> byte list" where
  "ustack sp us =
     concat (map le32 ([0xffffffff, of_nat (length us), sp - (of_nat (length us) + 1) * 4] @ us @ [0]))"

definition last_elem :: "byte list \<Rightarrow> byte list" where
  "last_elem path = rev (takeWhile (\<lambda>c. c \<noteq> slash) (rev path))"

section \<open>Exec\<close>

definition exec_bad :: "addr \<Rightarrow> nat option \<Rightarrow> 'a kfs_scheme \<Rightarrow> (int \<times> 'a kfs_scheme) res" where
  "exec_bad pgd ipo s =
     bnd (if pgd \<noteq> 0 then freevm pgd s else Inr s) (\<lambda>s.
     bnd (case ipo of None \<Rightarrow> Inr s | Some ip \<Rightarrow> bnd (iunlockput ip s) end_op) (\<lambda>s. Inr (-1, s)))"

text \<open>The switch to the new image and the encryption of its pages.\<close>

definition exec_commit ::
    "hw_walk \<Rightarrow> nat \<Rightarrow> byte list \<Rightarrow> addr \<Rightarrow> 32 word \<Rightarrow> 32 word \<Rightarrow> 32 word \<Rightarrow> 'a kproc_scheme \<Rightarrow> (int \<times> 'a kproc_scheme) res" where
  "exec_commit hw cur path pgd sz sp entry s =
     (let s = upd_proc cur (pname_update (\<lambda>_. proc_name (last_elem path))) s;
          oldpgdir = pgdir (ptable s ! cur);
          s = upd_proc cur (pgdir_update (\<lambda>_. pgd)) s;
          s = upd_proc cur (psz_update (\<lambda>_. sz)) s;
          s = put_tf cur tf_eip entry s;
          s = put_tf cur tf_esp sp s in
      bnd (switchuvm (Some cur) s) (\<lambda>s.
        let s = upd_proc cur (clock_update (\<lambda>_. replicate CLOCKSIZE 0)) s;
            s = upd_proc cur (head_update (\<lambda>_. 0)) s;
            t = uint (sz div PGSIZE); t = (if sz mod PGSIZE \<noteq> 0 then t + 1 else t) in
        bnd (mencrypt hw 0 (t - 2) s) (\<lambda>(_, s).
        bnd (mencrypt hw (word_of_int ((t - 1) * 4096)) 1 s) (\<lambda>(_, s).
        bnd (freevm oldpgdir s) (\<lambda>s. Inr (0, s))))))"

definition exec_stack ::
    "hw_walk \<Rightarrow> nat \<Rightarrow> byte list \<Rightarrow> byte list list \<Rightarrow> addr \<Rightarrow> 32 word \<Rightarrow> 32 word \<Rightarrow> 'a kfs_scheme \<Rightarrow> (int \<times> 'a kfs_scheme) res" where
  "exec_stack hw cur path argv pgd sz entry s =
     (let sz = PGROUNDUP sz in
      bnd (allocuvm pgd sz (sz + 2 * PGSIZE) s) (\<lambda>(sz, s).
        if sz = 0 then exec_bad pgd None s
        else bnd (clearpteu pgd (sz - 2 * PGSIZE) s) (\<lambda>s.
          bnd (push_args pgd argv 0 sz [] s) (\<lambda>(r, s).
            case r of None \<Rightarrow> exec_bad pgd None s
            | Some (sp, us) \<Rightarrow>
              let st = ustack sp us; sp = sp - of_nat (length st) in
              bnd (copyout_bytes pgd sp st s) (\<lambda>(r, s).
                if r < 0 then exec_bad pgd None s
                else exec_commit hw cur path pgd sz sp entry s)))))"

definition exec ::
    "hw_walk \<Rightarrow> byte list \<Rightarrow> byte list list \<Rightarrow> 'a kcons_scheme \<Rightarrow> (int \<times> 'a kcons_scheme) res" where
  "exec hw path argv s =
     bnd (curproc s) (\<lambda>(cur, s).
       let s = upd_proc cur (head_update (\<lambda>_. 0)) s in
       bnd (begin_op s) (\<lambda>s.
       bnd (namei console_devsw path s) (\<lambda>(ipo, s).
         case ipo of
           None \<Rightarrow> bnd (end_op s) (\<lambda>s. Inr (-1, s))
         | Some ip \<Rightarrow>
             bnd (ilock ipo s) (\<lambda>s.
             bnd (readi console_devsw ip 0 52 s) (\<lambda>((r, d), s).
               let elf = parse_elfhdr d in
               if r \<noteq> 52 then exec_bad 0 ipo s
               else if elf_magic elf \<noteq> ELF_MAGIC then exec_bad 0 ipo s
               else bnd (setupkvm s) (\<lambda>(pgd, s).
                 if pgd = 0 then exec_bad 0 ipo s
                 else bnd (load_segments console_devsw pgd ip (unat (elf_phnum elf)) (elf_phoff elf) 0 s) (\<lambda>(szo, s).
                   case szo of None \<Rightarrow> exec_bad pgd ipo s
                   | Some sz \<Rightarrow>
                     bnd (iunlockput ip s) (\<lambda>s.
                     bnd (end_op s) (\<lambda>s. exec_stack hw cur path argv pgd sz (elf_entry elf) s)))))))))"

end
