(* ===== verification/Sysfile.thy ===== *)
theory Sysfile
  imports Exec
begin

text \<open>
  The file system calls of \<^verbatim>\<open>sysfile.c\<close>: they fetch and check their arguments and call into the
  file layer. A failed check returns -1.
\<close>

section \<open>Descriptors\<close>

definition argfd :: "hw_walk \<Rightarrow> nat \<Rightarrow> 'a kproc_scheme \<Rightarrow> ((nat \<times> nat) option \<times> 'a kproc_scheme) res" where
  "argfd hw n s =
     bnd (argint hw n s) (\<lambda>(w, s).
       case w of None \<Rightarrow> Inr (None, s)
       | Some w \<Rightarrow>
         (let fd = sint w in
          if fd < 0 \<or> fd \<ge> int NOFILE then Inr (None, s)
          else bnd (curproc s) (\<lambda>(p, s).
            case ofile (ptable s ! p) ! nat fd of None \<Rightarrow> Inr (None, s) | Some f \<Rightarrow> Inr (Some (nat fd, f), s))))"

fun fd_scan :: "nat option list \<Rightarrow> nat \<Rightarrow> nat option" where
  "fd_scan [] i = None"
| "fd_scan (f # fs) i = (if f = None then Some i else fd_scan fs (Suc i))"

definition fdalloc :: "nat \<Rightarrow> 'a kproc_scheme \<Rightarrow> (nat option \<times> 'a kproc_scheme) res" where
  "fdalloc f s =
     bnd (curproc s) (\<lambda>(p, s).
       case fd_scan (ofile (ptable s ! p)) 0 of
         None \<Rightarrow> Inr (None, s)
       | Some fd \<Rightarrow> Inr (Some fd, upd_proc p (ofile_update (\<lambda>fs. fs[fd := Some f])) s))"

text \<open>\<open>orfail r f\<close>: the common shape \<^verbatim>\<open>if(... < 0) return -1\<close>.\<close>

definition orfail :: "('x option \<times> 's) res \<Rightarrow> ('x \<Rightarrow> 's \<Rightarrow> (int \<times> 's) res) \<Rightarrow> (int \<times> 's) res" where
  "orfail r f = bnd r (\<lambda>(x, s). case x of None \<Rightarrow> Inr (-1, s) | Some x \<Rightarrow> f x s)"

definition sys_dup :: "hw_walk \<Rightarrow> 'a kfile_scheme \<Rightarrow> (int \<times> 'a kfile_scheme) res" where
  "sys_dup hw s =
     orfail (argfd hw 0 s) (\<lambda>(_, f) s.
     orfail (fdalloc f s) (\<lambda>fd s.
     bnd (filedup f s) (\<lambda>(_, s). Inr (int fd, s))))"

text \<open>
  \<^verbatim>\<open>sys_read\<close> stores the bytes in user memory after \<^verbatim>\<open>fileread\<close>, \<^verbatim>\<open>sys_write\<close> loads them before
  \<^verbatim>\<open>filewrite\<close>; the code moves them inside of these calls.
\<close>

definition sys_read :: "hw_walk \<Rightarrow> 'a kcons_scheme \<Rightarrow> (int \<times> 'a kcons_scheme) res" where
  "sys_read hw s =
     orfail (argfd hw 0 s) (\<lambda>(_, f) s.
     orfail (argint hw 2 s) (\<lambda>n s.
     orfail (argptr hw 1 (sint n) s) (\<lambda>p s.
     bnd (fileread console_devsw f (sint n) s) (\<lambda>((r, d), s).
     bnd (ustore_bytes hw d p s) (\<lambda>s. Inr (r, s))))))"

definition sys_write :: "hw_walk \<Rightarrow> 'a kcons_scheme \<Rightarrow> (int \<times> 'a kcons_scheme) res" where
  "sys_write hw s =
     orfail (argfd hw 0 s) (\<lambda>(_, f) s.
     orfail (argint hw 2 s) (\<lambda>n s.
     orfail (argptr hw 1 (sint n) s) (\<lambda>p s.
     bnd (uload_bytes hw (nat (sint n)) p s) (\<lambda>(d, s). filewrite console_devsw f d s))))"

definition sys_close :: "hw_walk \<Rightarrow> 'a kfile_scheme \<Rightarrow> (int \<times> 'a kfile_scheme) res" where
  "sys_close hw s =
     orfail (argfd hw 0 s) (\<lambda>(fd, f) s.
     bnd (curproc s) (\<lambda>(p, s).
     bnd (fileclose f (upd_proc p (ofile_update (\<lambda>fs. fs[fd := None])) s)) (\<lambda>s. Inr (0, s))))"

text \<open>\<^verbatim>\<open>struct stat\<close> in memory: type, two bytes of padding, dev, ino, nlink, two bytes of padding, size.\<close>

definition sys_fstat :: "hw_walk \<Rightarrow> 'a kfile_scheme \<Rightarrow> (int \<times> 'a kfile_scheme) res" where
  "sys_fstat hw s =
     orfail (argfd hw 0 s) (\<lambda>(_, f) s.
     orfail (argptr hw 1 20 s) (\<lambda>p s.
     bnd (filestat f s) (\<lambda>(sto, s).
       case sto of None \<Rightarrow> Inr (-1, s)
       | Some st \<Rightarrow>
         bnd (ustore_bytes hw (le32 (st_dev st)) (p + 4) s) (\<lambda>s.
         bnd (ustore_bytes hw (le32 (st_ino st)) (p + 8) s) (\<lambda>s.
         bnd (ustore_bytes hw (le16 (st_type st)) p s) (\<lambda>s.
         bnd (ustore_bytes hw (le16 (st_nlink st)) (p + 12) s) (\<lambda>s.
         bnd (ustore_bytes hw (le32 (st_size st)) (p + 16) s) (\<lambda>s. Inr (0, s)))))))))"

section \<open>Links\<close>

definition sys_link_bad :: "nat \<Rightarrow> 'a kfs_scheme \<Rightarrow> (int \<times> 'a kfs_scheme) res" where
  "sys_link_bad ip s =
     bnd (ilock (Some ip) s) (\<lambda>s.
     bnd (iupdate ip (upd_ino ip (nlink_update (\<lambda>n. n - 1)) s)) (\<lambda>s.
     bnd (iunlockput ip s) (\<lambda>s.
     bnd (end_op s) (\<lambda>s. Inr (-1, s)))))"

definition sys_link :: "hw_walk \<Rightarrow> 'a kcons_scheme \<Rightarrow> (int \<times> 'a kcons_scheme) res" where
  "sys_link hw s =
     orfail (argstr hw 0 s) (\<lambda>old s.
     orfail (argstr hw 1 s) (\<lambda>new s.
     bnd (begin_op s) (\<lambda>s.
     bnd (namei console_devsw old s) (\<lambda>(ipo, s).
       case ipo of None \<Rightarrow> bnd (end_op s) (\<lambda>s. Inr (-1, s))
       | Some ip \<Rightarrow>
         bnd (ilock ipo s) (\<lambda>s.
           if itype (inodes s ! ip) = T_DIR
           then bnd (iunlockput ip s) (\<lambda>s. bnd (end_op s) (\<lambda>s. Inr (-1, s)))
           else
             bnd (iupdate ip (upd_ino ip (nlink_update (\<lambda>n. n + 1)) s)) (\<lambda>s.
             bnd (iunlock ipo s) (\<lambda>s.
             bnd (nameiparent console_devsw new s) (\<lambda>(dpo, s).
               case dpo of None \<Rightarrow> sys_link_bad ip s
               | Some (dp, name) \<Rightarrow>
                 bnd (ilock (Some dp) s) (\<lambda>s.
                 bnd (if idev (inodes s ! dp) \<noteq> idev (inodes s ! ip) then Inr (-1, s)
                      else dirlink console_devsw dp name (inum (inodes s ! ip)) s) (\<lambda>(r, s).
                   if r < 0 then bnd (iunlockput dp s) (sys_link_bad ip)
                   else bnd (iunlockput dp s) (\<lambda>s.
                        bnd (iput ip s) (\<lambda>s.
                        bnd (end_op s) (\<lambda>s. Inr (0, s))))))))))))))"

function isdirempty_loop :: "'a kfs_scheme devsw \<Rightarrow> nat \<Rightarrow> nat \<Rightarrow> 'a kfs_scheme \<Rightarrow> (bool \<times> 'a kfs_scheme) res" where
  "isdirempty_loop dsw dp off s =
     (if off < unat (isize (inodes s ! dp)) then
        bnd (readi dsw dp (of_nat off) 16 s) (\<lambda>((r, de), s).
          if r \<noteq> 16 then Inl (Panic ''isdirempty: readi'')
          else if de_inum de \<noteq> 0 then Inr (False, s)
          else isdirempty_loop dsw dp (off + 16) s)
      else Inr (True, s))"
  by pat_completeness auto
termination
proof (relation "measure (\<lambda>(dsw, dp, off, s). 4294967296 - off)", goal_cases)
  case (2 dsw dp off s)
  then show ?case using unat32_less [of "isize (inodes s ! dp)"] by simp
qed simp

declare isdirempty_loop.simps [simp del]

definition isdirempty :: "'a kfs_scheme devsw \<Rightarrow> nat \<Rightarrow> 'a kfs_scheme \<Rightarrow> (bool \<times> 'a kfs_scheme) res" where
  "isdirempty dsw dp s = isdirempty_loop dsw dp 32 s"

definition sys_unlink :: "hw_walk \<Rightarrow> 'a kcons_scheme \<Rightarrow> (int \<times> 'a kcons_scheme) res" where
  "sys_unlink hw s =
     orfail (argstr hw 0 s) (\<lambda>path s.
     bnd (begin_op s) (\<lambda>s.
     bnd (nameiparent console_devsw path s) (\<lambda>(dpo, s).
       case dpo of None \<Rightarrow> bnd (end_op s) (\<lambda>s. Inr (-1, s))
       | Some (dp, name) \<Rightarrow>
         let bad = (\<lambda>s. bnd (iunlockput dp s) (\<lambda>s. bnd (end_op s) (\<lambda>s. Inr (-1, s)))) in
         bnd (ilock (Some dp) s) (\<lambda>s.
           if namecmp name [46] = 0 \<or> namecmp name [46, 46] = 0 then bad s
           else bnd (dirlookup console_devsw dp name s) (\<lambda>(r, s).
             case r of None \<Rightarrow> bad s
             | Some (ip, off) \<Rightarrow>
               bnd (ilock (Some ip) s) (\<lambda>s.
                 if sint (nlink (inodes s ! ip)) < 1 then Inl (Panic ''unlink: nlink < 1'')
                 else bnd (if itype (inodes s ! ip) = T_DIR then isdirempty console_devsw ip s else Inr (True, s)) (\<lambda>(em, s).
                   if \<not> em then bnd (iunlockput ip s) bad
                   else bnd (writei console_devsw dp (replicate 16 0) (of_nat off) s) (\<lambda>(r, s).
                     if r \<noteq> 16 then Inl (Panic ''unlink: writei'')
                     else
                       bnd (if itype (inodes s ! ip) = T_DIR
                            then iupdate dp (upd_ino dp (nlink_update (\<lambda>n. n - 1)) s) else Inr s) (\<lambda>s.
                       bnd (iunlockput dp s) (\<lambda>s.
                       bnd (iupdate ip (upd_ino ip (nlink_update (\<lambda>n. n - 1)) s)) (\<lambda>s.
                       bnd (iunlockput ip s) (\<lambda>s.
                       bnd (end_op s) (\<lambda>s. Inr (0, s)))))))))))))) "

section \<open>Creating and opening\<close>

definition create ::
    "byte list \<Rightarrow> 16 word \<Rightarrow> 16 word \<Rightarrow> 16 word \<Rightarrow> 'a kcons_scheme \<Rightarrow> (nat option \<times> 'a kcons_scheme) res" where
  "create path ty ma mi s =
     bnd (nameiparent console_devsw path s) (\<lambda>(dpo, s).
       case dpo of None \<Rightarrow> Inr (None, s)
       | Some (dp, name) \<Rightarrow>
         bnd (ilock (Some dp) s) (\<lambda>s.
         bnd (dirlookup console_devsw dp name s) (\<lambda>(r, s).
           case r of
             Some (ip, _) \<Rightarrow>
               bnd (iunlockput dp s) (\<lambda>s.
               bnd (ilock (Some ip) s) (\<lambda>s.
                 if ty = T_FILE \<and> itype (inodes s ! ip) = T_FILE then Inr (Some ip, s)
                 else bnd (iunlockput ip s) (\<lambda>s. Inr (None, s))))
           | None \<Rightarrow>
               bnd (ialloc (idev (inodes s ! dp)) ty s) (\<lambda>(ip, s).
               bnd (ilock (Some ip) s) (\<lambda>s.
               bnd (iupdate ip (upd_ino ip (\<lambda>i. i\<lparr>major := ma, minor := mi, nlink := 1\<rparr>) s)) (\<lambda>s.
               bnd (if ty = T_DIR then
                      bnd (iupdate dp (upd_ino dp (nlink_update (\<lambda>n. n + 1)) s)) (\<lambda>s.
                      bnd (dirlink console_devsw ip [46] (inum (inodes s ! ip)) s) (\<lambda>(r, s).
                        if r < 0 then Inl (Panic ''create dots'')
                        else bnd (dirlink console_devsw ip [46, 46] (inum (inodes s ! dp)) s) (\<lambda>(r, s).
                          if r < 0 then Inl (Panic ''create dots'') else Inr s)))
                    else Inr s) (\<lambda>s.
               bnd (dirlink console_devsw dp name (inum (inodes s ! ip)) s) (\<lambda>(r, s).
                 if r < 0 then Inl (Panic ''create: dirlink'')
                 else bnd (iunlockput dp s) (\<lambda>s. Inr (Some ip, s))))))))))"

abbreviation O_RDONLY :: "32 word" where "O_RDONLY \<equiv> 0"
abbreviation O_WRONLY :: "32 word" where "O_WRONLY \<equiv> 1"
abbreviation O_RDWR :: "32 word" where "O_RDWR \<equiv> 2"
abbreviation O_CREATE :: "32 word" where "O_CREATE \<equiv> 0x200"

text \<open>Opening a file whose locked inode is \<open>ip\<close>.\<close>

definition open_inode :: "nat \<Rightarrow> 32 word \<Rightarrow> 'a kfile_scheme \<Rightarrow> (int \<times> 'a kfile_scheme) res" where
  "open_inode ip omode s =
     (let fail = (\<lambda>s. bnd (iunlockput ip s) (\<lambda>s. bnd (end_op s) (\<lambda>s. Inr (-1, s)))) in
      bnd (filealloc s) (\<lambda>(fo, s).
        case fo of None \<Rightarrow> fail s
        | Some f \<Rightarrow>
          bnd (fdalloc f s) (\<lambda>(fdo, s).
            case fdo of None \<Rightarrow> bnd (fileclose f s) fail
            | Some fd \<Rightarrow>
              bnd (iunlock (Some ip) s) (\<lambda>s.
              bnd (end_op s) (\<lambda>s.
                Inr (int fd, upd_file f (\<lambda>ff. ff\<lparr>ftype := FD_INODE, fip := Some ip, foff := 0,
                  readable := (omode AND O_WRONLY = 0),
                  writable := (omode AND O_WRONLY \<noteq> 0 \<or> omode AND O_RDWR \<noteq> 0)\<rparr>) s))))))"

definition sys_open :: "hw_walk \<Rightarrow> 'a kcons_scheme \<Rightarrow> (int \<times> 'a kcons_scheme) res" where
  "sys_open hw s =
     orfail (argstr hw 0 s) (\<lambda>path s.
     orfail (argint hw 1 s) (\<lambda>omode s.
     bnd (begin_op s) (\<lambda>s.
       if omode AND O_CREATE \<noteq> 0 then
         bnd (create path T_FILE 0 0 s) (\<lambda>(ipo, s).
           case ipo of None \<Rightarrow> bnd (end_op s) (\<lambda>s. Inr (-1, s))
           | Some ip \<Rightarrow> open_inode ip omode s)
       else
         bnd (namei console_devsw path s) (\<lambda>(ipo, s).
           case ipo of None \<Rightarrow> bnd (end_op s) (\<lambda>s. Inr (-1, s))
           | Some ip \<Rightarrow>
             bnd (ilock ipo s) (\<lambda>s.
               if itype (inodes s ! ip) = T_DIR \<and> omode \<noteq> O_RDONLY
               then bnd (iunlockput ip s) (\<lambda>s. bnd (end_op s) (\<lambda>s. Inr (-1, s)))
               else open_inode ip omode s)))))"

text \<open>\<open>mk_node\<close>: the end of \<^verbatim>\<open>sys_mkdir\<close> and \<^verbatim>\<open>sys_mknod\<close>, with what \<^verbatim>\<open>create\<close> returned.\<close>

definition mk_node :: "(nat option \<times> 'a kfs_scheme) res \<Rightarrow> (int \<times> 'a kfs_scheme) res" where
  "mk_node r =
     bnd r (\<lambda>(ipo, s).
       case ipo of None \<Rightarrow> bnd (end_op s) (\<lambda>s. Inr (-1, s))
       | Some ip \<Rightarrow> bnd (iunlockput ip s) (\<lambda>s. bnd (end_op s) (\<lambda>s. Inr (0, s))))"

definition sys_mkdir :: "hw_walk \<Rightarrow> 'a kcons_scheme \<Rightarrow> (int \<times> 'a kcons_scheme) res" where
  "sys_mkdir hw s =
     bnd (begin_op s) (\<lambda>s.
     mk_node (bnd (argstr hw 0 s) (\<lambda>(path, s).
       case path of None \<Rightarrow> Inr (None, s) | Some path \<Rightarrow> create path T_DIR 0 0 s)))"

definition sys_mknod :: "hw_walk \<Rightarrow> 'a kcons_scheme \<Rightarrow> (int \<times> 'a kcons_scheme) res" where
  "sys_mknod hw s =
     bnd (begin_op s) (\<lambda>s.
     mk_node (bnd (argstr hw 0 s) (\<lambda>(path, s).
       case path of None \<Rightarrow> Inr (None, s) | Some path \<Rightarrow>
       bnd (argint hw 1 s) (\<lambda>(ma, s).
         case ma of None \<Rightarrow> Inr (None, s) | Some ma \<Rightarrow>
         bnd (argint hw 2 s) (\<lambda>(mi, s).
           case mi of None \<Rightarrow> Inr (None, s) | Some mi \<Rightarrow> create path T_DEV (ucast ma) (ucast mi) s)))))"

definition sys_chdir :: "hw_walk \<Rightarrow> 'a kcons_scheme \<Rightarrow> (int \<times> 'a kcons_scheme) res" where
  "sys_chdir hw s =
     bnd (curproc s) (\<lambda>(p, s).
     bnd (begin_op s) (\<lambda>s.
     bnd (bnd (argstr hw 0 s) (\<lambda>(path, s).
            case path of None \<Rightarrow> Inr (None, s) | Some path \<Rightarrow> namei console_devsw path s)) (\<lambda>(ipo, s).
       case ipo of None \<Rightarrow> bnd (end_op s) (\<lambda>s. Inr (-1, s))
       | Some ip \<Rightarrow>
         bnd (ilock ipo s) (\<lambda>s.
           if itype (inodes s ! ip) \<noteq> T_DIR
           then bnd (iunlockput ip s) (\<lambda>s. bnd (end_op s) (\<lambda>s. Inr (-1, s)))
           else bnd (iunlock ipo s) (\<lambda>s.
             bnd (case cwd (ptable s ! p) of None \<Rightarrow> Inl NullDeref | Some c \<Rightarrow> iput c s) (\<lambda>s.
             bnd (end_op s) (\<lambda>s. Inr (0, upd_proc p (cwd_update (\<lambda>_. Some ip)) s))))))))"

section \<open>Exec and pipe\<close>

fun exec_args :: "hw_walk \<Rightarrow> nat \<Rightarrow> nat \<Rightarrow> addr \<Rightarrow> byte list list \<Rightarrow> 'a kproc_scheme \<Rightarrow> (byte list list option \<times> 'a kproc_scheme) res" where
  "exec_args hw 0 i uargv as s = Inr (None, s)"
| "exec_args hw (Suc n) i uargv as s =
     bnd (fetchint hw (uargv + 4 * of_nat i) s) (\<lambda>(w, s).
       case w of None \<Rightarrow> Inr (None, s)
       | Some uarg \<Rightarrow>
         if uarg = 0 then Inr (Some as, s)
         else bnd (fetchstr hw uarg s) (\<lambda>(t, s).
           case t of None \<Rightarrow> Inr (None, s) | Some t \<Rightarrow> exec_args hw n (Suc i) uargv (as @ [t]) s))"

definition sys_exec :: "hw_walk \<Rightarrow> 'a kcons_scheme \<Rightarrow> (int \<times> 'a kcons_scheme) res" where
  "sys_exec hw s =
     orfail (argstr hw 0 s) (\<lambda>path s.
     orfail (argint hw 1 s) (\<lambda>uargv s.
     orfail (exec_args hw MAXARG 0 uargv [] s) (\<lambda>argv s. exec hw path argv s)))"

definition sys_pipe :: "hw_walk \<Rightarrow> 'a kfile_scheme \<Rightarrow> (int \<times> 'a kfile_scheme) res" where
  "sys_pipe hw s =
     orfail (argptr hw 0 8 s) (\<lambda>fd s.
     orfail (pipealloc s) (\<lambda>(rf, wf) s.
       let fail = (\<lambda>s. bnd (fileclose rf s) (\<lambda>s. bnd (fileclose wf s) (\<lambda>s. Inr (-1, s)))) in
       bnd (fdalloc rf s) (\<lambda>(o0, s).
         case o0 of None \<Rightarrow> fail s
         | Some fd0 \<Rightarrow>
           bnd (fdalloc wf s) (\<lambda>(o1, s).
             case o1 of
               None \<Rightarrow> bnd (curproc s) (\<lambda>(p, s). fail (upd_proc p (ofile_update (\<lambda>fs. fs[fd0 := None])) s))
             | Some fd1 \<Rightarrow>
               bnd (ustore_bytes hw (le32 (of_nat fd0)) fd s) (\<lambda>s.
               bnd (ustore_bytes hw (le32 (of_nat fd1)) (fd + 4) s) (\<lambda>s. Inr (0, s)))))))"

end
