(* ===== verification/Kbd.thy ===== *)
theory Kbd
  imports Prelude
begin

text \<open>
  The keyboard driver of \<^verbatim>\<open>kbd.c\<close> with the tables of \<^verbatim>\<open>kbd.h\<close>: scan codes to characters, with
  the state of the modifier keys. The bytes that wait at the controller are a list.
\<close>

section \<open>Tables\<close>

abbreviation SHIFT :: "32 word" where "SHIFT \<equiv> 1"
abbreviation CTL :: "32 word" where "CTL \<equiv> 2"
abbreviation ALT :: "32 word" where "ALT \<equiv> 4"
abbreviation CAPSLOCK :: "32 word" where "CAPSLOCK \<equiv> 8"
abbreviation E0ESC :: "32 word" where "E0ESC \<equiv> 64"

text \<open>A table of 256 entries: a dense part from 0 on, single entries, and 0 elsewhere.\<close>

definition table :: "32 word list \<Rightarrow> (nat \<times> 32 word) list \<Rightarrow> nat \<Rightarrow> 32 word" where
  "table dense sparse i =
     (if i < length dense then dense ! i else case map_of sparse i of None \<Rightarrow> 0 | Some v \<Rightarrow> v)"

definition shiftcode :: "nat \<Rightarrow> 32 word" where
  "shiftcode = table
     []
     [(0x1D, 2), (0x2A, 1), (0x36, 1), (0x38, 4), (0x9D, 2), (0xB8, 4)]"

definition togglecode :: "nat \<Rightarrow> 32 word" where
  "togglecode = table
     []
     [(0x3A, 8), (0x45, 16), (0x46, 32)]"

definition normalmap :: "nat \<Rightarrow> 32 word" where
  "normalmap = table
     [0, 27, 49, 50, 51, 52, 53, 54, 55, 56, 57, 48, 45, 61, 8, 9,
      113, 119, 101, 114, 116, 121, 117, 105, 111, 112, 91, 93, 10, 0, 97, 115,
      100, 102, 103, 104, 106, 107, 108, 59, 39, 96, 0, 92, 122, 120, 99, 118,
      98, 110, 109, 44, 46, 47, 0, 42, 0, 32, 0, 0, 0, 0, 0, 0,
      0, 0, 0, 0, 0, 0, 0, 55, 56, 57, 45, 52, 53, 54, 43, 49,
      50, 51, 48, 46]
     [(0x97, 0xE0), (0x9C, 10), (0xB5, 47), (0xC8, 0xE2), (0xC9, 0xE6), (0xCB, 0xE4), (0xCD, 0xE5), (0xCF, 0xE1),
      (0xD0, 0xE3), (0xD1, 0xE7), (0xD2, 0xE8), (0xD3, 0xE9)]"

definition shiftmap :: "nat \<Rightarrow> 32 word" where
  "shiftmap = table
     [0, 27, 33, 64, 35, 36, 37, 94, 38, 42, 40, 41, 95, 43, 8, 9,
      81, 87, 69, 82, 84, 89, 85, 73, 79, 80, 123, 125, 10, 0, 65, 83,
      68, 70, 71, 72, 74, 75, 76, 58, 34, 126, 0, 124, 90, 88, 67, 86,
      66, 78, 77, 60, 62, 63, 0, 42, 0, 32, 0, 0, 0, 0, 0, 0,
      0, 0, 0, 0, 0, 0, 0, 55, 56, 57, 45, 52, 53, 54, 43, 49,
      50, 51, 48, 46]
     [(0x97, 0xE0), (0x9C, 10), (0xB5, 47), (0xC8, 0xE2), (0xC9, 0xE6), (0xCB, 0xE4), (0xCD, 0xE5), (0xCF, 0xE1),
      (0xD0, 0xE3), (0xD1, 0xE7), (0xD2, 0xE8), (0xD3, 0xE9)]"

definition ctlmap :: "nat \<Rightarrow> 32 word" where
  "ctlmap = table
     [0, 0, 0, 0, 0, 0, 0, 0, 0, 0, 0, 0, 0, 0, 0, 0,
      17, 23, 5, 18, 20, 25, 21, 9, 15, 16, 0, 0, 13, 0, 1, 19,
      4, 6, 7, 8, 10, 11, 12, 0, 0, 0, 0, 28, 26, 24, 3, 22,
      2, 14, 13, 0, 0, 239]
     [(0x97, 0xE0), (0x9C, 13), (0xB5, 0xEF), (0xC8, 0xE2), (0xC9, 0xE6), (0xCB, 0xE4), (0xCD, 0xE5), (0xCF, 0xE1),
      (0xD0, 0xE3), (0xD1, 0xE7), (0xD2, 0xE8), (0xD3, 0xE9)]"

definition charcode :: "32 word \<Rightarrow> nat \<Rightarrow> 32 word" where
  "charcode m = (if m = 0 then normalmap else if m = 1 then shiftmap else ctlmap)"

section \<open>The driver\<close>

text \<open>
  \<^verbatim>\<open>kbdgetc\<close> with the static variable \<^verbatim>\<open>shift\<close>. An empty list is a status without \<^verbatim>\<open>KBS_DIB\<close>.
\<close>

definition kbd_case :: "32 word \<Rightarrow> 32 word \<Rightarrow> 32 word" where
  "kbd_case sh c =
     (if sh AND CAPSLOCK \<noteq> 0 then
        (if 97 \<le> c \<and> c \<le> 122 then c - 32 else if 65 \<le> c \<and> c \<le> 90 then c + 32 else c)
      else c)"

definition kbdgetc :: "32 word \<Rightarrow> byte list \<Rightarrow> int \<times> 32 word \<times> byte list" where
  "kbdgetc sh codes =
     (case codes of
        [] \<Rightarrow> (-1, sh, [])
      | b # bs \<Rightarrow>
        (let d = ucast b :: 32 word in
         if d = 0xE0 then (0, sh OR E0ESC, bs)
         else if d AND 0x80 \<noteq> 0 then
           (let d = (if sh AND E0ESC \<noteq> 0 then d else d AND 0x7F)
            in (0, sh AND NOT (shiftcode (unat d) OR E0ESC), bs))
         else
           let (d, sh) = (if sh AND E0ESC \<noteq> 0 then (d OR 0x80, sh AND NOT E0ESC) else (d, sh));
               sh = sh OR shiftcode (unat d);
               sh = sh XOR togglecode (unat d);
               c = charcode (sh AND (CTL OR SHIFT)) (unat d)
           in (uint (kbd_case sh c), sh, bs)))"

text \<open>The characters that \<^verbatim>\<open>consoleintr\<close> gets from a run of scan codes.\<close>

fun kbd_chars :: "32 word \<Rightarrow> byte list \<Rightarrow> int list \<times> 32 word" where
  "kbd_chars sh [] = ([], sh)"
| "kbd_chars sh (b # bs) =
     (let (c, sh, _) = kbdgetc sh [b]; (cs, sh) = kbd_chars sh bs in (c # cs, sh))"

end
