(* ===== verification/Trap.thy ===== *)
theory Trap
  imports Sysfile Kbd
begin

text \<open>
  System calls about processes (\<^verbatim>\<open>sysproc.c\<close>), the system call table (\<^verbatim>\<open>syscall.c\<close>) and the trap
  handler (\<^verbatim>\<open>trap.c\<close>), which decrypts a page on a page fault.
\<close>

record ksys = kcons +
  tickslock :: spinlock
  ticks :: "32 word"
  cr2 :: addr
  kshift :: "32 word"

abbreviation acq_ticks :: "'a ksys_scheme \<Rightarrow> 'a ksys_scheme res" where
  "acq_ticks \<equiv> acq tickslock tickslock_update"

abbreviation rel_ticks :: "'a ksys_scheme \<Rightarrow> 'a ksys_scheme res" where
  "rel_ticks \<equiv> rel tickslock tickslock_update"

text \<open>Where a system call can wait or end; the arguments are its live local variables.\<close>

datatype kpoint = AtExit | AtWait | AtSleep "32 word" "32 word" | AtYield

type_synonym 's call = "(kpoint, int, 's) outcome res"

section \<open>Process calls\<close>

definition ret_call :: "(int \<times> 's) res \<Rightarrow> 's call" where
  "ret_call r = bnd r (\<lambda>(x, s). Inr (Ret x s))"

definition sys_fork :: "'a kfile_scheme \<Rightarrow> (int \<times> 'a kfile_scheme) res" where
  "sys_fork s = fork s"

definition sys_exit :: "addr \<Rightarrow> 'a kfile_scheme \<Rightarrow> 'a kfile_scheme call" where
  "sys_exit sp s = bnd (exit_out sp s) (\<lambda>(i, s). Inr (Blk AtExit i s))"

definition sys_wait :: "addr \<Rightarrow> 'a kproc_scheme \<Rightarrow> 'a kproc_scheme call" where
  "sys_wait sp s =
     bnd (wait sp s) (\<lambda>r. Inr (case r of Ret x s \<Rightarrow> Ret x s | Blk _ i s \<Rightarrow> Blk AtWait i s))"

definition sys_kill :: "hw_walk \<Rightarrow> 'a kproc_scheme \<Rightarrow> (int \<times> 'a kproc_scheme) res" where
  "sys_kill hw s = orfail (argint hw 0 s) (\<lambda>n s. kill (sint n) s)"

definition sys_getpid :: "'a kproc_scheme \<Rightarrow> (int \<times> 'a kproc_scheme) res" where
  "sys_getpid s = bnd (curproc s) (\<lambda>(p, s). Inr (pid (ptable s ! p), s))"

definition sys_sbrk :: "hw_walk \<Rightarrow> 'a kproc_scheme \<Rightarrow> (int \<times> 'a kproc_scheme) res" where
  "sys_sbrk hw s =
     orfail (argint hw 0 s) (\<lambda>n s.
     bnd (curproc s) (\<lambda>(p, s).
       let a = sint (psz (ptable s ! p)) in
       bnd (growproc hw (sint n) s) (\<lambda>(r, s). if r < 0 then Inr (-1, s) else Inr (a, s))))"

text \<open>An iteration of the loop of \<^verbatim>\<open>sys_sleep\<close>, with \<^verbatim>\<open>tickslock\<close> held.\<close>

definition sleep_round :: "addr \<Rightarrow> 32 word \<Rightarrow> 32 word \<Rightarrow> 'a ksys_scheme \<Rightarrow> 'a ksys_scheme call" where
  "sleep_round sp t0 n s =
     (if ticks s - t0 < n then
        bnd (curproc s) (\<lambda>(p, s).
          if killed (ptable s ! p) then bnd (rel_ticks s) (\<lambda>s. Inr (Ret (-1) s))
          else bnd (sleep_out ChTicks (OtherLk tickslock tickslock_update) sp s) (\<lambda>(i, s).
            Inr (Blk (AtSleep t0 n) i s)))
      else bnd (rel_ticks s) (\<lambda>s. Inr (Ret 0 s)))"

definition sys_sleep :: "hw_walk \<Rightarrow> addr \<Rightarrow> 'a ksys_scheme \<Rightarrow> 'a ksys_scheme call" where
  "sys_sleep hw sp s =
     bnd (argint hw 0 s) (\<lambda>(n, s).
       case n of None \<Rightarrow> Inr (Ret (-1) s)
       | Some n \<Rightarrow> bnd (acq_ticks s) (\<lambda>s. sleep_round sp (ticks s) n s))"

definition sys_sleep_resume :: "addr \<Rightarrow> nat \<Rightarrow> 32 word \<Rightarrow> 32 word \<Rightarrow> bool \<Rightarrow> 'a ksys_scheme \<Rightarrow> 'a ksys_scheme call" where
  "sys_sleep_resume sp p t0 n i s =
     bnd (sleep_in p (OtherLk tickslock tickslock_update) i s) (sleep_round sp t0 n)"

definition sys_uptime :: "'a ksys_scheme \<Rightarrow> (int \<times> 'a ksys_scheme) res" where
  "sys_uptime s =
     bnd (acq_ticks s) (\<lambda>s. let x = ticks s in bnd (rel_ticks s) (\<lambda>s. Inr (sint x, s)))"

definition sys_mencrypt :: "hw_walk \<Rightarrow> 'a kproc_scheme \<Rightarrow> (int \<times> 'a kproc_scheme) res" where
  "sys_mencrypt hw s =
     orfail (argint hw 1 s) (\<lambda>len s.
       if sint len \<le> 0 then Inr (-1, s)
       else orfail (argptr hw 0 1 s) (\<lambda>va s.
         if va \<ge> P2V PHYSTOP then Inr (-1, s) else mencrypt hw va (sint len) s))"

text \<open>
  An entry as it lies in the caller's array: two words of bit fields, of which the field \<^verbatim>\<open>user\<close>
  and the padding keep their old values. The model writes the entries after the walk.
\<close>

definition bit_field :: "nat \<Rightarrow> nat \<Rightarrow> 32 word \<Rightarrow> 32 word \<Rightarrow> 32 word" where
  "bit_field i n v w = (w AND NOT (push_bit i (mask n))) OR push_bit i (v AND mask n)"

definition put_pt_entry :: "pt_entry \<Rightarrow> 32 word \<times> 32 word \<Rightarrow> 32 word \<times> 32 word" where
  "put_pt_entry e w =
     (bit_field 10 10 (ptx e) (bit_field 0 10 (pdx e) (fst w)),
      bit_field 24 1 (of_bool (pref e)) (bit_field 23 1 (of_bool (pencrypted e))
        (bit_field 21 1 (of_bool (pwritable e)) (bit_field 20 1 (of_bool (ppresent e))
          (bit_field 0 20 (ppage e) (snd w))))))"

fun store_entries :: "hw_walk \<Rightarrow> pt_entry list \<Rightarrow> addr \<Rightarrow> 'a kproc_scheme \<Rightarrow> 'a kproc_scheme res" where
  "store_entries hw [] a s = Inr s"
| "store_entries hw (e # es) a s =
     bnd (uload_bytes hw 8 a s) (\<lambda>(bs, s).
       let (w0, w1) = put_pt_entry e (get32 bs 0, get32 bs 4) in
       bnd (ustore_bytes hw (le32 w0 @ le32 w1) a s) (store_entries hw es (a + 8)))"

definition sys_getpgtable :: "hw_walk \<Rightarrow> 'a kproc_scheme \<Rightarrow> (int \<times> 'a kproc_scheme) res" where
  "sys_getpgtable hw s =
     orfail (argint hw 1 s) (\<lambda>num s.
     orfail (argint hw 2 s) (\<lambda>wset s.
     orfail (argptr hw 0 (sint (num * 8)) s) (\<lambda>entries s.
       case getpgtable (sint num) (sint wset) s of
         None \<Rightarrow> Inl Diverges
       | Some r \<Rightarrow> bnd r (\<lambda>(n, es). bnd (store_entries hw es entries s) (\<lambda>s. Inr (n, s))))))"

definition sys_dump_rawphymem :: "hw_walk \<Rightarrow> 'a kproc_scheme \<Rightarrow> (int \<times> 'a kproc_scheme) res" where
  "sys_dump_rawphymem hw s =
     orfail (argptr hw 1 4096 s) (\<lambda>buffer s.
     orfail (argint hw 0 s) (\<lambda>pa s. dump_rawphymem hw pa buffer s))"

section \<open>The system call table\<close>

text \<open>The table \<^verbatim>\<open>syscalls\<close>, by number.\<close>

definition syscalls :: "hw_walk \<Rightarrow> addr \<Rightarrow> nat \<Rightarrow> ('a ksys_scheme \<Rightarrow> 'a ksys_scheme call) option" where
  "syscalls hw sp n =
     (if n = 1 then Some (\<lambda>s. ret_call (sys_fork s))
      else if n = 2 then Some (sys_exit sp)
      else if n = 3 then Some (sys_wait sp)
      else if n = 4 then Some (\<lambda>s. ret_call (sys_pipe hw s))
      else if n = 5 then Some (\<lambda>s. ret_call (sys_read hw s))
      else if n = 6 then Some (\<lambda>s. ret_call (sys_kill hw s))
      else if n = 7 then Some (\<lambda>s. ret_call (sys_exec hw s))
      else if n = 8 then Some (\<lambda>s. ret_call (sys_fstat hw s))
      else if n = 9 then Some (\<lambda>s. ret_call (sys_chdir hw s))
      else if n = 10 then Some (\<lambda>s. ret_call (sys_dup hw s))
      else if n = 11 then Some (\<lambda>s. ret_call (sys_getpid s))
      else if n = 12 then Some (\<lambda>s. ret_call (sys_sbrk hw s))
      else if n = 13 then Some (sys_sleep hw sp)
      else if n = 14 then Some (\<lambda>s. ret_call (sys_uptime s))
      else if n = 15 then Some (\<lambda>s. ret_call (sys_open hw s))
      else if n = 16 then Some (\<lambda>s. ret_call (sys_write hw s))
      else if n = 17 then Some (\<lambda>s. ret_call (sys_mknod hw s))
      else if n = 18 then Some (\<lambda>s. ret_call (sys_unlink hw s))
      else if n = 19 then Some (\<lambda>s. ret_call (sys_link hw s))
      else if n = 20 then Some (\<lambda>s. ret_call (sys_mkdir hw s))
      else if n = 21 then Some (\<lambda>s. ret_call (sys_close hw s))
      else if n = 22 then Some (\<lambda>s. ret_call (sys_mencrypt hw s))
      else if n = 23 then Some (\<lambda>s. ret_call (sys_getpgtable hw s))
      else if n = 24 then Some (\<lambda>s. ret_call (sys_dump_rawphymem hw s))
      else None)"

text \<open>
  \<^verbatim>\<open>syscall\<close>: the result of the call goes to \<^verbatim>\<open>eax\<close> of the trap frame that the process had before
  the call; a call that blocks sets it when it is resumed, by \<open>syscall_return\<close>. The message about an
  unknown call is left out.
\<close>

definition syscall_return :: "nat \<Rightarrow> int \<Rightarrow> 'a kproc_scheme \<Rightarrow> 'a kproc_scheme" where
  "syscall_return p x s = put_tf p tf_eax (word_of_int x) s"

definition syscall :: "hw_walk \<Rightarrow> addr \<Rightarrow> 'a ksys_scheme \<Rightarrow> (kpoint, unit, 'a ksys_scheme) outcome res" where
  "syscall hw sp s =
     bnd (curproc s) (\<lambda>(p, s).
       let num = sint (load32 (mem s) (tf (ptable s ! p) + tf_eax)) in
       case (if num > 0 \<and> num < 25 then syscalls hw sp (nat num) else None) of
         None \<Rightarrow> Inr (Ret () (syscall_return p (-1) s))
       | Some f \<Rightarrow>
         bnd (f s) (\<lambda>r. Inr (case r of Ret x s \<Rightarrow> Ret () (syscall_return p x s) | Blk l i s \<Rightarrow> Blk l i s)))"

section \<open>Traps\<close>

definition tvinit :: "'a ksys_scheme \<Rightarrow> 'a ksys_scheme" where
  "tvinit s = s\<lparr>tickslock := initlock (tickslock s) ''time''\<rparr>"

definition trap_exit :: "addr \<Rightarrow> 'a ksys_scheme \<Rightarrow> (kpoint, unit, 'a ksys_scheme) outcome res" where
  "trap_exit sp s = bnd (exit_out sp s) (\<lambda>(i, s). Inr (Blk AtExit i s))"

text \<open>Is the current process killed, and did the trap come from user mode.\<close>

definition killed_in_user :: "addr \<Rightarrow> 'a kproc_scheme \<Rightarrow> (bool \<times> 'a kproc_scheme) res" where
  "killed_in_user frame s =
     bnd (myproc s) (\<lambda>(p, s). Inr ((case p of None \<Rightarrow> False
       | Some i \<Rightarrow> killed (ptable s ! i) \<and> load32 (mem s) (frame + tf_cs) AND 3 = 3), s))"

text \<open>
  The \<^verbatim>\<open>switch\<close> of \<^verbatim>\<open>trap\<close>; the result is false when the page fault branch ends in \<^verbatim>\<open>exit\<close>. \<open>inp\<close> are the bytes that
  wait at the device that interrupts. The interrupt of the disk does nothing for a disk in memory.
\<close>

definition trap_switch :: "hw_walk \<Rightarrow> byte list \<Rightarrow> addr \<Rightarrow> 'a ksys_scheme \<Rightarrow> (bool \<times> 'a ksys_scheme) res" where
  "trap_switch hw inp frame s =
     (let no = load32 (mem s) (frame + tf_trapno) in
      if no = 32 then
        bnd (cpuid s) (\<lambda>c.
          if c = 0 then
            bnd (acq_ticks s) (\<lambda>s.
            bnd (wakeup ChTicks (s\<lparr>ticks := ticks s + 1\<rparr>)) (\<lambda>s.
            bnd (rel_ticks s) (\<lambda>s. Inr (True, s))))
          else Inr (True, s))
      else if no = 32 + 14 \<or> no = 32 + 15 then Inr (True, s)
      else if no = 32 + 1 then
        (let (cs, sh) = kbd_chars (kshift s) inp
         in bnd (consoleintr cs (s\<lparr>kshift := sh\<rparr>)) (\<lambda>s. Inr (True, s)))
      else if no = 32 + 4 then
        bnd (consoleintr (if uart s then map uint inp else []) s) (\<lambda>s. Inr (True, s))
      else if no = 32 + 7 \<or> no = 32 + 31 then bnd (cpuid s) (\<lambda>_. Inr (True, s))
      else if no = 14 then bnd (mdecrypt hw (cr2 s) s) (\<lambda>(r, s). Inr (r = 0, s))
      else
        bnd (myproc s) (\<lambda>(p, s).
          case p of
            None \<Rightarrow> Inl (Panic ''trap'')
          | Some i \<Rightarrow>
            if load32 (mem s) (frame + tf_cs) AND 3 = 0 then Inl (Panic ''trap'')
            else Inr (True, upd_proc i (killed_update (\<lambda>_. True)) s)))"

definition trap ::
    "hw_walk \<Rightarrow> addr \<Rightarrow> byte list \<Rightarrow> addr \<Rightarrow> 'a ksys_scheme \<Rightarrow> (kpoint, unit, 'a ksys_scheme) outcome res" where
  "trap hw sp inp frame s =
     (if load32 (mem s) (frame + tf_trapno) = 64 then
        bnd (curproc s) (\<lambda>(p, s).
          if killed (ptable s ! p) then trap_exit sp s
          else bnd (syscall hw sp (upd_proc p (tf_update (\<lambda>_. frame)) s)) (\<lambda>r.
            case r of
              Blk l i s \<Rightarrow> Inr (Blk l i s)
            | Ret _ s \<Rightarrow> bnd (curproc s) (\<lambda>(p, s).
                if killed (ptable s ! p) then trap_exit sp s else Inr (Ret () s))))
      else
        bnd (trap_switch hw inp frame s) (\<lambda>(go, s).
          if \<not> go then trap_exit sp s
          else bnd (killed_in_user frame s) (\<lambda>(dead, s).
            if dead then trap_exit sp s
            else bnd (myproc s) (\<lambda>(p, s).
              if (case p of None \<Rightarrow> False | Some i \<Rightarrow> pstate (ptable s ! i) = RUNNING) \<and> load32 (mem s) (frame + tf_trapno) = 32
              then bnd (yield_out sp s) (\<lambda>(i, s). Inr (Blk AtYield i s))
              else bnd (killed_in_user frame s) (\<lambda>(dead, s).
                if dead then trap_exit sp s else Inr (Ret () s))))))"

text \<open>What \<^verbatim>\<open>trap\<close> does after its call of \<^verbatim>\<open>yield\<close> comes back.\<close>

definition trap_after_yield ::
    "addr \<Rightarrow> addr \<Rightarrow> bool \<Rightarrow> 'a ksys_scheme \<Rightarrow> (kpoint, unit, 'a ksys_scheme) outcome res" where
  "trap_after_yield sp frame i s =
     bnd (yield_in i s) (\<lambda>s.
     bnd (killed_in_user frame s) (\<lambda>(dead, s). if dead then trap_exit sp s else Inr (Ret () s)))"

end
