(* ===== verification/Locks.thy ===== *)
theory Locks
  imports Sleeplock
begin

text \<open>
  Reasoning about critical sections. A lock that is a field of the state satisfies the laws of a
  lens; from them it follows that \<^verbatim>\<open>acquire\<close> on a free lock enters a state from which \<^verbatim>\<open>release\<close>
  leaves again, whatever other fields the section has changed.
\<close>

text \<open>The state inside of a critical section.\<close>

definition enter ::
    "((spinlock \<Rightarrow> spinlock) \<Rightarrow> 'a kmem_scheme \<Rightarrow> 'a kmem_scheme) \<Rightarrow> 'a kmem_scheme \<Rightarrow> 'a kmem_scheme" where
  "enter u s = u (\<lambda>l. l\<lparr>locked := True, lcpu := Some (cid (kcpu s))\<rparr>) (s\<lparr>kcpu := pushcli (kcpu s)\<rparr>)"

locale lock_field =
  fixes g :: "'a kmem_scheme \<Rightarrow> spinlock"
    and u :: "(spinlock \<Rightarrow> spinlock) \<Rightarrow> 'a kmem_scheme \<Rightarrow> 'a kmem_scheme"
    and ok :: "'a kmem_scheme \<Rightarrow> bool"
  assumes get_upd: "ok s \<Longrightarrow> g (u f s) = f (g s)"
    and upd_upd: "ok s \<Longrightarrow> u f (u h s) = u (\<lambda>l. f (h l)) s"
    and upd_id: "ok s \<Longrightarrow> f (g s) = g s \<Longrightarrow> u f s = s"
    and upd_cong: "ok s \<Longrightarrow> f (g s) = h (g s) \<Longrightarrow> u f s = u h s"
    and kcpu_upd: "kcpu (u f s) = kcpu s"
    and upd_kcpu: "u f (s\<lparr>kcpu := c\<rparr>) = (u f s)\<lparr>kcpu := c\<rparr>"
    and get_kcpu: "g (s\<lparr>kcpu := c\<rparr>) = g s"
    and ok_kcpu: "ok (s\<lparr>kcpu := c\<rparr>) = ok s"
    and ok_upd: "ok (u f s) = ok s"
begin

lemma acq_enter: "cpu_ok (kcpu s) \<Longrightarrow> ok s \<Longrightarrow> lock_free (g s) \<Longrightarrow> acq g u s = Inr (enter u s)"
  by (simp add: acq_def enter_def acquire_free)
    (rule upd_cong, simp_all add: get_kcpu ok_kcpu)

lemma rel_enter: "cpu_ok (kcpu s) \<Longrightarrow> ok s \<Longrightarrow> lock_free (g s) \<Longrightarrow> rel g u (enter u s) = Inr s"
proof -
  assume a: "cpu_ok (kcpu s)" "ok s" "lock_free (g s)"
  let ?h = "\<lambda>l :: spinlock. l\<lparr>locked := True, lcpu := Some (cid (kcpu s))\<rparr>"
  have g: "g (enter u s) = ?h (g s)" and c: "kcpu (enter u s) = pushcli (kcpu s)"
    using a by (simp_all add: enter_def get_upd ok_kcpu get_kcpu kcpu_upd)
  have "u (\<lambda>_. g s) (enter u s) = (u (\<lambda>_. g s) s)\<lparr>kcpu := pushcli (kcpu s)\<rparr>"
    using a by (simp add: enter_def upd_upd ok_kcpu upd_kcpu)
  also have "u (\<lambda>_. g s) s = s" using a by (intro upd_id) simp_all
  finally have "u (\<lambda>_. g s) (enter u s) = s\<lparr>kcpu := pushcli (kcpu s)\<rparr>" .
  then show ?thesis
    using release_acquired [OF a(1,3)] by (simp add: rel_def g c upd_kcpu)
qed

lemma kcpu_enter: "kcpu (enter u s) = pushcli (kcpu s)"
  by (simp add: enter_def kcpu_upd)

lemma get_enter: "ok s \<Longrightarrow> g (enter u s) = (g s)\<lparr>locked := True, lcpu := Some (cid (kcpu s))\<rparr>"
  by (simp add: enter_def get_upd ok_kcpu get_kcpu)

end

text \<open>The lock of the process table, and sleep locks with their inner spin lock.\<close>

interpretation pl: lock_field ptable_lock "ptable_lock_update :: _ \<Rightarrow> 'a kproc_scheme \<Rightarrow> _" "\<lambda>_. True"
  by unfold_locales simp_all

locale sleep_field =
  fixes g :: "'a kproc_scheme \<Rightarrow> sleeplock"
    and u :: "(sleeplock \<Rightarrow> sleeplock) \<Rightarrow> 'a kproc_scheme \<Rightarrow> 'a kproc_scheme"
    and ok :: "'a kproc_scheme \<Rightarrow> bool"
  assumes get_upd: "ok s \<Longrightarrow> g (u f s) = f (g s)"
    and upd_upd: "ok s \<Longrightarrow> u f (u h s) = u (\<lambda>l. f (h l)) s"
    and upd_id: "ok s \<Longrightarrow> f (g s) = g s \<Longrightarrow> u f s = s"
    and upd_cong: "ok s \<Longrightarrow> f (g s) = h (g s) \<Longrightarrow> u f s = u h s"
    and kcpu_upd: "kcpu (u f s) = kcpu s"
    and upd_kcpu: "u f (s\<lparr>kcpu := c\<rparr>) = (u f s)\<lparr>kcpu := c\<rparr>"
    and get_kcpu: "g (s\<lparr>kcpu := c\<rparr>) = g s"
    and ok_kcpu: "ok (s\<lparr>kcpu := c\<rparr>) = ok s"
    and ok_upd: "ok (u f s) = ok s"
    and ptable_upd: "ptable (u f s) = ptable s"
    and plock_upd: "ptable_lock (u f s) = ptable_lock s"
    and upd_ptable: "u f (s\<lparr>ptable := ps\<rparr>) = (u f s)\<lparr>ptable := ps\<rparr>"
    and get_ptable: "g (s\<lparr>ptable := ps\<rparr>) = g s"
    and ok_ptable: "ok (s\<lparr>ptable := ps\<rparr>) = ok s"

sublocale sleep_field \<subseteq> inner: lock_field "\<lambda>s. slk (g s)" "\<lambda>f. u (slk_update f)" ok
proof unfold_locales
  show "ok s \<Longrightarrow> u (slk_update f) s = u (slk_update h) s" if "f (slk (g s)) = h (slk (g s))" for s f h
    using that by (intro upd_cong) (cases "g s", simp_all)
  show "ok s \<Longrightarrow> u (slk_update f) s = s" if "f (slk (g s)) = slk (g s)" for s f
    using that by (intro upd_id) (cases "g s", simp_all)
  show "ok s \<Longrightarrow> u (slk_update f) (u (slk_update h) s) = u (slk_update (\<lambda>l. f (h l))) s" for s f h
    by (simp add: upd_upd) (rule upd_cong, simp_all)
qed (simp_all add: get_upd kcpu_upd upd_kcpu get_kcpu ok_kcpu ok_upd)

text \<open>A processor with a running process, and nobody in the process table.\<close>

definition quiet :: "nat \<Rightarrow> 'a kproc_scheme \<Rightarrow> bool" where
  "quiet p s \<longleftrightarrow> cpu_ok (kcpu s) \<and> lock_free (ptable_lock s) \<and> cproc (kcpu s) = Some p"

lemma wakeup1_enter: "wakeup1 ch (enter ptable_lock_update s) = enter ptable_lock_update (wakeup1 ch s)"
  by (simp add: wakeup1_def enter_def)

lemma wakeup_ok: "cpu_ok (kcpu s) \<Longrightarrow> lock_free (ptable_lock s) \<Longrightarrow> wakeup ch s = Inr (wakeup1 ch s)"
  by (simp add: wakeup_def pl.acq_enter wakeup1_enter) (simp add: wakeup1_def pl.rel_enter)

lemma wakeup1_kcpu: "wakeup1 ch (s\<lparr>kcpu := c\<rparr>) = (wakeup1 ch s)\<lparr>kcpu := c\<rparr>"
  by (simp add: wakeup1_def)

lemma kcpu_wakeup1 [simp]: "kcpu (wakeup1 ch s) = kcpu s"
  by (simp add: wakeup1_def)

lemma quiet_wakeup1 [simp]: "quiet p (wakeup1 ch s) = quiet p s"
  by (simp add: quiet_def wakeup1_def)

context sleep_field
begin

abbreviation su :: "(spinlock \<Rightarrow> spinlock) \<Rightarrow> 'a kproc_scheme \<Rightarrow> 'a kproc_scheme" where
  "su \<equiv> \<lambda>f. u (slk_update f)"

lemma upd_enter:
  assumes "ok s" "\<And>l h. f (slk_update h l) = slk_update h (f l)"
  shows "u f (enter su s) = enter su (u f s)"
  using assms by (simp add: enter_def upd_kcpu upd_upd ok_kcpu kcpu_upd)

lemma enter_fields:
  "ptable (enter su s) = ptable s" "ptable_lock (enter su s) = ptable_lock s"
  "ok (enter su s) = ok s"
  by (simp_all add: enter_def ptable_upd plock_upd ok_upd ok_kcpu)

lemma get_inner:
  "ok s \<Longrightarrow> slocked (g (enter su s)) = slocked (g s)" "ok s \<Longrightarrow> spid (g (enter su s)) = spid (g s)"
  by (simp_all add: enter_def get_upd get_kcpu ok_kcpu)

lemma quiet_upd [simp]: "quiet p (u f s) = quiet p s"
  by (simp add: quiet_def kcpu_upd plock_upd)

lemma curproc_enter: "quiet p s \<Longrightarrow> curproc (enter su s) = Inr (p, enter su s)"
  by (intro curproc_ok) (simp_all add: quiet_def inner.kcpu_enter)

lemma holdingsleep_quiet:
  assumes "quiet p s" "ok s" "lock_free (slk (g s))"
  shows "holdingsleep g u s = Inr (slocked (g s) \<and> spid (g s) = pid (ptable s ! p), s)"
proof -
  have "cpu_ok (kcpu s)" using assms(1) by (simp add: quiet_def)
  with assms show ?thesis
    by (simp add: holdingsleep_def inner.acq_enter inner.rel_enter get_inner curproc_enter enter_fields)
qed

lemma acquiresleep_quiet:
  assumes "quiet p s" "ok s" "lock_free (slk (g s))" "\<not> slocked (g s)"
  shows "acquiresleep g u ch s = Inr (u (\<lambda>l. l\<lparr>slocked := True, spid := pid (ptable s ! p)\<rparr>) s)"
proof -
  let ?t = "u (slocked_update (\<lambda>_. True)) s" and ?v = "u (\<lambda>l. l\<lparr>slocked := True, spid := pid (ptable s ! p)\<rparr>) s"
  have c: "cpu_ok (kcpu s)" using assms(1) by (simp add: quiet_def)
  have e1: "u (slocked_update (\<lambda>_. True)) (enter su s) = enter su ?t"
    using assms(2) by (rule upd_enter) simp
  have e2: "u (spid_update (\<lambda>_. n)) (enter su ?t) = enter su (u (spid_update (\<lambda>_. n)) ?t)" for n
    by (rule upd_enter) (simp_all add: ok_upd assms(2))
  have e3: "u (spid_update (\<lambda>_. pid (ptable s ! p))) ?t = ?v"
    using assms(2) by (simp add: upd_upd)
  have "acquiresleep_start g u ch 0 s = Inr (Ret () ?v)"
    using assms c
    by (simp add: acquiresleep_start_def acquiresleep_round_def inner.acq_enter get_inner e1 curproc_enter
        enter_fields ptable_upd e2 e3 inner.rel_enter kcpu_upd ok_upd get_upd)
  then show ?thesis by (simp add: acquiresleep_def)
qed

lemma wakeup1_upd: "wakeup1 ch (u f s) = u f (wakeup1 ch s)"
  by (simp add: wakeup1_def ptable_upd upd_ptable)

lemma wakeup1_enter_inner: "wakeup1 ch (enter su s) = enter su (wakeup1 ch s)"
  by (simp add: enter_def wakeup1_upd wakeup1_kcpu)

lemma releasesleep_quiet:
  assumes "quiet p s" "ok s" "lock_free (slk (g s))"
  shows "releasesleep g u ch s = Inr (wakeup1 ch (u (\<lambda>l. l\<lparr>slocked := False, spid := 0\<rparr>) s))"
proof -
  let ?t = "u (slocked_update (\<lambda>_. False)) s" and ?v = "u (\<lambda>l. l\<lparr>slocked := False, spid := 0\<rparr>) s"
  have c: "cpu_ok (kcpu s)" and f: "lock_free (ptable_lock s)" using assms(1) by (simp_all add: quiet_def)
  have e1: "u (slocked_update (\<lambda>_. False)) (enter su s) = enter su ?t"
    using assms(2) by (rule upd_enter) simp
  have e2: "u (spid_update (\<lambda>_. 0)) (enter su ?t) = enter su ?v"
    using upd_enter [of ?t "spid_update (\<lambda>_. 0)"] assms(2) by (simp add: ok_upd upd_upd)
  have "wakeup ch (enter su ?v) = Inr (enter su (wakeup1 ch ?v))"
    using c f by (subst wakeup_ok) (simp_all add: inner.kcpu_enter kcpu_upd enter_fields plock_upd wakeup1_enter_inner)
  moreover have "rel (\<lambda>s. slk (g s)) su (enter su (wakeup1 ch ?v)) = Inr (wakeup1 ch ?v)"
    using assms c
    by (intro inner.rel_enter) (simp_all add: wakeup1_def kcpu_upd ok_ptable ok_upd get_ptable get_upd)
  ultimately show ?thesis
    using assms c by (simp add: releasesleep_def inner.acq_enter e1 e2)
qed

end

end
