(* ===== verification/Paths.thy ===== *)
theory Paths
  imports Main
begin

text \<open>
  Paths through a successor function: the shape of a linked list, for the list of the buffer cache and
  for the free list of the user-level allocator.
\<close>

fun path :: "('a \<Rightarrow> 'a) \<Rightarrow> 'a \<Rightarrow> 'a list \<Rightarrow> 'a \<Rightarrow> bool" where
  "path nx a [] e \<longleftrightarrow> nx a = e"
| "path nx a (x # xs) e \<longleftrightarrow> nx a = x \<and> path nx x xs e"

lemma path_append: "path nx a (xs @ x # ys) e \<longleftrightarrow> path nx a xs x \<and> path nx x ys e"
  by (induction xs arbitrary: a) auto

lemma path_cong: "(\<And>x. x \<in> insert a (set xs) \<Longrightarrow> nx x = ny x) \<Longrightarrow> path nx a xs e = path ny a xs e"
  by (induction xs arbitrary: a) auto

lemma path_update_other: "y \<notin> insert a (set xs) \<Longrightarrow> path (nx(y := z)) a xs e = path nx a xs e"
  by (rule path_cong) auto

lemma path_first: "path nx a xs e \<Longrightarrow> nx a = hd (xs @ [e])"
  by (cases xs) auto

lemma path_start: "path nx a xs e \<Longrightarrow> nx b = nx a \<Longrightarrow> path nx b xs e"
  by (cases xs) auto

lemma last_other: "a \<notin> set (x # xs) \<Longrightarrow> last (x # xs) \<noteq> a"
  using last_in_set [of "x # xs"] by blast

lemma path_remove:
  "distinct (a # as @ b # cs) \<Longrightarrow> path nx a (as @ b # cs) e \<Longrightarrow>
   path (nx(last (a # as) := nx b)) a (as @ cs) e"
proof (induction as arbitrary: a)
  case Nil
  then have "path nx b cs e" by simp
  then have "path (nx(a := nx b)) b cs e" using Nil.prems(1) by (subst path_update_other) auto
  then have "path (nx(a := nx b)) a cs e" by (rule path_start) (use Nil.prems(1) in simp)
  moreover have "last [a] = a" by simp
  ultimately show ?case by (simp only: append_Nil)
next
  case (Cons x as)
  define l where "l = last (x # as)"
  have "path (nx(l := nx b)) x (as @ cs) e" unfolding l_def by (rule Cons.IH) (use Cons.prems in auto)
  moreover have "l \<noteq> a" unfolding l_def using Cons.prems(1) by (intro last_other) simp
  moreover have "last (a # x # as) = l" by (simp add: l_def)
  ultimately show ?case using Cons.prems(2) by (simp add: fun_upd_def del: last.simps)
qed

lemma path_push:
  assumes p: "path nx a xs e" and b: "b \<notin> insert a (set xs)" and a: "a \<notin> set xs"
  shows "path (nx(b := nx a, a := b)) a (b # xs) e"
proof -
  have "path (nx(b := nx a)) a xs e" using p b by (subst path_update_other) auto
  then have "path (nx(b := nx a)) b xs e" by (rule path_start) (use b in simp)
  then have "path (nx(b := nx a, a := b)) b xs e" using a b by (subst path_update_other) auto
  then show ?thesis by simp
qed

lemma path_snoc:
  "path nx a xs e \<Longrightarrow> distinct (a # xs) \<Longrightarrow> b \<notin> insert a (set xs) \<Longrightarrow>
   path (nx(last (a # xs) := b, b := e)) a (xs @ [b]) e"
proof (induction xs arbitrary: a)
  case (Cons x xs)
  define l where "l = last (x # xs)"
  have "path (nx(l := b, b := e)) x (xs @ [b]) e" unfolding l_def by (rule Cons.IH) (use Cons.prems in auto)
  moreover have "l \<noteq> a" unfolding l_def using Cons.prems(2) by (intro last_other) simp
  moreover have "last (a # x # xs) = l" by (simp add: l_def)
  ultimately show ?case using Cons.prems by (auto simp: fun_upd_def simp del: last.simps)
qed simp

lemma path_replace_tail:
  assumes "path f a (as @ cs) e" "\<forall>x \<in> set (butlast (a # as)). g x = f x" "path g (last (a # as)) ds e"
  shows "path g a (as @ ds) e"
  using assms by (induction as arbitrary: a) (auto split: if_splits)

lemma path_tail: "path f a (as @ cs) e \<Longrightarrow> path f (last (a # as)) cs e"
  by (induction as arbitrary: a) auto

end
