(* ===== verification/Bio_List.thy ===== *)
theory Bio_List
  imports Bio Locks Paths
begin

text \<open>
  The doubly linked list of the buffer cache. \<open>ring bs xs\<close> relates the \<^verbatim>\<open>prev\<close> and \<^verbatim>\<open>next\<close> fields to
  the list \<open>xs\<close> of buffers from the most to the least recently used; the searches of \<^verbatim>\<open>bget\<close> are
  searches of \<open>xs\<close>, and \<^verbatim>\<open>brelse\<close> moves a buffer to its front.
\<close>

section \<open>The ring\<close>

abbreviation nxt :: "buf list \<Rightarrow> nat \<Rightarrow> nat" where "nxt bs \<equiv> \<lambda>i. bnext (bs ! i)"
abbreviation prv :: "buf list \<Rightarrow> nat \<Rightarrow> nat" where "prv bs \<equiv> \<lambda>i. bprev (bs ! i)"

definition ring :: "buf list \<Rightarrow> nat list \<Rightarrow> bool" where
  "ring bs xs \<longleftrightarrow> length bs = Suc NBUF \<and> distinct xs \<and> set xs = {..<NBUF} \<and>
     path (nxt bs) NBUF xs NBUF \<and> path (prv bs) NBUF (rev xs) NBUF"

lemma ringD:
  assumes "ring bs xs"
  shows "length bs = Suc NBUF" "distinct xs" "set xs = {..<NBUF}" "path (nxt bs) NBUF xs NBUF"
    "path (prv bs) NBUF (rev xs) NBUF" "NBUF \<notin> set xs" "i \<in> set xs \<longleftrightarrow> i < NBUF"
  using assms unfolding ring_def by (iprover, iprover, iprover, iprover, iprover, simp, simp)

lemma ring_length: "ring bs xs \<Longrightarrow> length xs = NBUF"
  using distinct_card [of xs] ringD(2,3) [of bs xs] by simp

lemma ring_cong:
  assumes r: "ring bs xs" and "length bs' = length bs" "\<And>i. i \<le> NBUF \<Longrightarrow> bnext (bs' ! i) = bnext (bs ! i)"
    "\<And>i. i \<le> NBUF \<Longrightarrow> bprev (bs' ! i) = bprev (bs ! i)"
  shows "ring bs' xs"
proof -
  have s: "x \<le> NBUF" if "x \<in> insert NBUF (set xs)" for x
    using ringD(7) [OF r, of x] that by force
  have "path (nxt bs') NBUF xs NBUF = path (nxt bs) NBUF xs NBUF"
    by (rule path_cong) (use s assms(3) in blast)
  moreover have "path (prv bs') NBUF (rev xs) NBUF = path (prv bs) NBUF (rev xs) NBUF"
    by (rule path_cong) (use s assms(4) in simp)
  ultimately show ?thesis unfolding ring_def using ringD(1-5) [OF r] assms(2) by simp
qed

lemma bget_scan_path:
  "path (\<lambda>i. nx (bs ! i)) a xs NBUF \<Longrightarrow> NBUF \<notin> set xs \<Longrightarrow> length xs < n \<Longrightarrow>
   bget_scan n P nx bs (nx (bs ! a)) = Inr (find (\<lambda>i. P (bs ! i)) xs)"
proof (induction xs arbitrary: a n)
  case Nil
  then show ?case by (cases n) auto
next
  case (Cons x xs)
  then show ?case by (cases n) auto
qed

lemma scan_forward:
  "ring bs xs \<Longrightarrow> bget_scan (Suc NBUF) P bnext bs (bnext (bs ! NBUF)) = Inr (find (\<lambda>i. P (bs ! i)) xs)"
  using ring_length [of bs xs] ringD [of bs xs] by (intro bget_scan_path) simp_all

lemma scan_backward:
  "ring bs xs \<Longrightarrow> bget_scan (Suc NBUF) P bprev bs (bprev (bs ! NBUF)) = Inr (find (\<lambda>i. P (bs ! i)) (rev xs))"
  using ring_length [of bs xs] ringD [of bs xs] by (intro bget_scan_path) simp_all

section \<open>Moving a buffer to the front\<close>

text \<open>The assignments of \<^verbatim>\<open>brelse\<close> to the list, on the buffers alone.\<close>

definition set_next :: "nat \<Rightarrow> nat \<Rightarrow> buf list \<Rightarrow> buf list" where
  "set_next i j bs = bs[i := (bs ! i)\<lparr>bnext := j\<rparr>]"

definition set_prev :: "nat \<Rightarrow> nat \<Rightarrow> buf list \<Rightarrow> buf list" where
  "set_prev i j bs = bs[i := (bs ! i)\<lparr>bprev := j\<rparr>]"

definition unlinked :: "nat \<Rightarrow> buf list \<Rightarrow> buf list" where
  "unlinked b bs =
     (let bs = set_prev (bnext (bs ! b)) (bprev (bs ! b)) bs
      in set_next (bprev (bs ! b)) (bnext (bs ! b)) bs)"

definition pushed :: "nat \<Rightarrow> buf list \<Rightarrow> buf list" where
  "pushed b bs =
     (let bs = set_next b (bnext (bs ! NBUF)) bs;
          bs = set_prev b NBUF bs;
          bs = set_prev (bnext (bs ! NBUF)) b bs
      in set_next NBUF b bs)"

lemma nth_update: "xs[i := x] ! j = (if i = j \<and> j < length xs then x else xs ! j)"
  by (cases "i < length xs") (auto simp: nth_list_update list_update_beyond)

lemma set_link_simps [simp]:
  "length (set_next i j bs) = length bs" "length (set_prev i j bs) = length bs"
  "i < length bs \<Longrightarrow> bnext (set_next i j bs ! k) = (if k = i then j else bnext (bs ! k))"
  "i < length bs \<Longrightarrow> bprev (set_prev i j bs ! k) = (if k = i then j else bprev (bs ! k))"
  "bprev (set_next i j bs ! k) = bprev (bs ! k)" "bnext (set_prev i j bs ! k) = bnext (bs ! k)"
  by (auto simp: set_next_def set_prev_def nth_update)

lemma nxt_set_next: "i < length bs \<Longrightarrow> nxt (set_next i j bs) = (nxt bs)(i := j)"
  and prv_set_prev: "i < length bs \<Longrightarrow> prv (set_prev i j bs) = (prv bs)(i := j)"
  by auto

lemma ring_pushed:
  assumes "length bs = Suc NBUF" "b < NBUF" "distinct (b # xs)" "set xs \<subseteq> {..<NBUF}"
    and "path (nxt bs) NBUF xs NBUF" "path (prv bs) NBUF (rev xs) NBUF"
  shows "path (nxt (pushed b bs)) NBUF (b # xs) NBUF" "path (prv (pushed b bs)) NBUF (rev (b # xs)) NBUF"
proof -
  let ?f = "bnext (bs ! NBUF)"
  have f: "?f = hd (xs @ [NBUF])" using path_first [OF assms(5)] .
  have fl: "?f < length bs" "?f \<noteq> b" using assms(1-4) unfolding f by (cases xs; auto)+
  have n: "nxt (pushed b bs) = (nxt bs)(b := ?f, NBUF := b)"
    using assms(1,2) fl by (simp add: pushed_def Let_def fun_eq_iff)
  show "path (nxt (pushed b bs)) NBUF (b # xs) NBUF"
    unfolding n using assms by (intro path_push) auto
  have p: "prv (pushed b bs) = (prv bs)(last (NBUF # rev xs) := b, b := NBUF)"
    using assms(1,2) fl f by (cases xs) (auto simp: pushed_def Let_def fun_eq_iff)
  show "path (prv (pushed b bs)) NBUF (rev (b # xs)) NBUF"
    unfolding p rev.simps using assms by (intro path_snoc) auto
qed

lemma ring_unlinked:
  assumes "ring bs xs" "xs = as @ b # cs"
  shows "path (nxt (unlinked b bs)) NBUF (as @ cs) NBUF" "path (prv (unlinked b bs)) NBUF (rev (as @ cs)) NBUF"
proof -
  let ?n = "bnext (bs ! b)" and ?p = "bprev (bs ! b)"
  have nb: "NBUF \<notin> set (as @ b # cs)" using ringD(6) [OF assms(1)] unfolding assms(2) .
  moreover have "distinct (as @ b # cs)" using ringD(2) [OF assms(1)] unfolding assms(2) .
  ultimately have d: "distinct (NBUF # as @ b # cs)" and dr: "distinct (NBUF # rev cs @ b # rev as)" by auto
  have L: "length bs = Suc NBUF" and in_range: "set (as @ b # cs) \<subseteq> {..<NBUF}"
    and pn: "path (nxt bs) NBUF (as @ b # cs) NBUF" and pp: "path (prv bs) NBUF (rev cs @ b # rev as) NBUF"
    using ringD [OF assms(1)] unfolding assms(2) by simp_all
  have n: "?n = hd (cs @ [NBUF])" using pn path_first [of "nxt bs" b cs NBUF] by (simp add: path_append)
  have p: "?p = hd (rev as @ [NBUF])" using pp path_first [of "prv bs" b "rev as" NBUF] by (simp add: path_append)
  have nl: "?n < length bs" "?n \<noteq> b" and plt: "?p < length bs" "?p \<noteq> b"
    unfolding n p using L in_range d by (cases cs; cases as rule: rev_cases; auto)+
  have ln: "last (NBUF # as) = ?p" unfolding p by (cases as rule: rev_cases) auto
  have lp: "last (NBUF # rev cs) = ?n" unfolding n by (cases cs) auto
  have "nxt (unlinked b bs) = (nxt bs)(last (NBUF # as) := ?n)"
    unfolding ln using nl plt by (simp add: unlinked_def Let_def fun_eq_iff)
  then show "path (nxt (unlinked b bs)) NBUF (as @ cs) NBUF" using path_remove [OF d pn] by simp
  have "prv (unlinked b bs) = (prv bs)(last (NBUF # rev cs) := ?p)"
    unfolding lp using nl plt by (simp add: unlinked_def Let_def fun_eq_iff)
  then show "path (prv (unlinked b bs)) NBUF (rev (as @ cs)) NBUF" using path_remove [OF dr pp] by simp
qed

lemma length_unlinked [simp]: "length (unlinked b bs) = length bs"
  and length_pushed [simp]: "length (pushed b bs) = length bs"
  by (simp_all add: unlinked_def pushed_def Let_def)

lemma ring_to_front:
  assumes "ring bs xs" "b < NBUF"
  shows "ring (pushed b (unlinked b bs)) (b # remove1 b xs)"
proof -
  have "b \<in> set xs" using ringD(7) [OF assms(1)] assms(2) by simp
  then obtain as cs where xs: "xs = as @ b # cs" and "b \<notin> set as" by (meson split_list_first)
  then have r: "remove1 b xs = as @ cs" by (simp add: remove1_append)
  have s: "distinct (b # as @ cs)" "set (b # as @ cs) = {..<NBUF}" using ringD(2,3) [OF assms(1)] unfolding xs by auto
  have "path (nxt (pushed b (unlinked b bs))) NBUF (b # as @ cs) NBUF"
    "path (prv (pushed b (unlinked b bs))) NBUF (rev (b # as @ cs)) NBUF"
    using assms(2) s ringD(1) [OF assms(1)] ring_unlinked [OF assms(1) xs]
    by (intro ring_pushed; simp; blast?)+
  then show ?thesis using s ringD(1) [OF assms(1)] by (simp add: r ring_def)
qed

lemma upd_buf_links:
  "upd_buf i (bnext_update (\<lambda>_. j)) s = s\<lparr>bufs := set_next i j (bufs s)\<rparr>"
  "upd_buf i (bprev_update (\<lambda>_. j)) s = s\<lparr>bufs := set_prev i j (bufs s)\<rparr>"
  by (simp_all add: upd_buf_def set_next_def set_prev_def)

lemma push_front_pushed: "push_front b s = s\<lparr>bufs := pushed b (bufs s)\<rparr>"
  by (simp add: push_front_def pushed_def upd_buf_links Let_def)

text \<open>The links are all that changes.\<close>

definition unlink_core :: "buf \<Rightarrow> buf" where
  "unlink_core b = b\<lparr>bnext := 0, bprev := 0\<rparr>"

lemma core_set_link:
  "unlink_core (set_next i j bs ! k) = unlink_core (bs ! k)"
  "unlink_core (set_prev i j bs ! k) = unlink_core (bs ! k)"
  by (auto simp: set_next_def set_prev_def unlink_core_def nth_update)

lemma core_moved: "unlink_core (pushed b (unlinked b bs) ! k) = unlink_core (bs ! k)"
  by (simp add: pushed_def unlinked_def Let_def core_set_link)

end
