(* ===== verification/Bio_Facts.thy ===== *)
theory Bio_Facts
  imports Bio_List
begin

text \<open>
  What the buffer cache promises to the log: the contents that matter (\<open>cores\<close>), an invariant, and
  the effect of \<^verbatim>\<open>bread\<close>, \<^verbatim>\<open>bwrite\<close> and \<^verbatim>\<open>brelse\<close> on it. \<open>H\<close> is the set of buffers that the running
  process has locked.
\<close>

lemma block_update_cong: "f (block b) = h (block b) \<Longrightarrow> block_update f b = block_update h b"
  and block_update_id: "f (block b) = block b \<Longrightarrow> block_update f b = b"
  by (cases b, simp)+

interpretation bl: sleep_field "blk_get i" "blk_upd i" "\<lambda>s. i < length (bufs s)" for i
proof unfold_locales
  show "blk_upd i f s = s" if "i < length (bufs s)" "f (blk_get i s) = blk_get i s" for f s
  proof -
    have "block_update f (bufs s ! i) = bufs s ! i" using that(2) by (rule block_update_id)
    then show ?thesis by (simp add: upd_buf_def)
  qed
  show "blk_upd i f s = blk_upd i h s" if "f (blk_get i s) = h (blk_get i s)" for f h s
  proof -
    have "block_update f (bufs s ! i) = block_update h (bufs s ! i)" using that by (rule block_update_cong)
    then show ?thesis by (simp add: upd_buf_def)
  qed
qed (simp_all add: upd_buf_def comp_def)

interpretation bc: lock_field bcache_lock "bcache_lock_update :: _ \<Rightarrow> 'a kbio_scheme \<Rightarrow> _" "\<lambda>_. True"
  by unfold_locales simp_all

section \<open>The invariant\<close>

definition core :: "buf \<Rightarrow> buf" where
  "core b = b\<lparr>bnext := 0, bprev := 0, refcnt := 0,
     block := \<lparr>slocked = False, slk = \<lparr>locked = False, lname = [], lcpu = None\<rparr>, sname = [], spid = 0\<rparr>\<rparr>"

lemma core_simps [simp]:
  "bvalid (core b) = bvalid b" "bdirty (core b) = bdirty b" "bdev (core b) = bdev b"
  "blockno (core b) = blockno b" "bdata (core b) = bdata b"
  by (simp_all add: core_def)

definition cores :: "'a kbio_scheme \<Rightarrow> buf list" where
  "cores s = map core (take NBUF (bufs s))"

text \<open>A buffer holds block \<open>b\<close> of the disk.\<close>

definition cached :: "32 word \<Rightarrow> buf list \<Rightarrow> nat \<Rightarrow> bool" where
  "cached b cs i \<longleftrightarrow> i < NBUF \<and> bdev (cs ! i) = 1 \<and> blockno (cs ! i) = b"

definition core_ok :: "bool \<Rightarrow> buf \<Rightarrow> byte list list \<Rightarrow> bool" where
  "core_ok h c d \<longleftrightarrow> length (bdata c) = BSIZE \<and> (bdev c = 1 \<longleftrightarrow> bvalid c) \<and> (bdirty c \<longrightarrow> bvalid c) \<and>
     (h \<longrightarrow> bvalid c) \<and>
     (bvalid c \<longrightarrow> unat (blockno c) < length d \<and> (\<not> bdirty c \<and> \<not> h \<longrightarrow> bdata c = d ! unat (blockno c)))"

definition cache_ok :: "nat set \<Rightarrow> buf list \<Rightarrow> byte list list \<Rightarrow> bool" where
  "cache_ok H cs d \<longleftrightarrow> length cs = NBUF \<and> (\<forall>i < NBUF. core_ok (i \<in> H) (cs ! i) d) \<and>
     (\<forall>b i j. cached b cs i \<longrightarrow> cached b cs j \<longrightarrow> i = j) \<and> (\<forall>b \<in> set d. length b = BSIZE)"

definition buf_ok :: "int \<Rightarrow> bool \<Rightarrow> buf \<Rightarrow> bool" where
  "buf_ok n h b \<longleftrightarrow> lock_free (slk (block b)) \<and> slocked (block b) = h \<and> (h \<longrightarrow> spid (block b) = n) \<and>
     refcnt b = (if h then 1 else 0)"

definition binv :: "nat \<Rightarrow> nat set \<Rightarrow> 'a kbio_scheme \<Rightarrow> bool" where
  "binv p H s \<longleftrightarrow> quiet p s \<and> lock_free (bcache_lock s) \<and> (\<exists>xs. ring (bufs s) xs) \<and>
     (\<forall>i < NBUF. buf_ok (pid (ptable s ! p)) (i \<in> H) (bufs s ! i)) \<and>
     H \<subseteq> {..<NBUF} \<and> p < length (ptable s) \<and> cache_ok H (cores s) (disk s)"

text \<open>Everything but the cache and the disk is as before; sleeping processes may have been woken.\<close>

definition bframe :: "'a kbio_scheme \<Rightarrow> 'a kbio_scheme \<Rightarrow> bool" where
  "bframe s t \<longleftrightarrow> t\<lparr>bufs := bufs s, disk := disk s, dwrites := dwrites s, ptable := ptable s\<rparr> = s \<and>
     map pid (ptable t) = map pid (ptable s)"

lemma bframe_refl [simp]: "bframe s s"
  by (simp add: bframe_def)

lemma bframe_trans [trans]: "bframe s t \<Longrightarrow> bframe t v \<Longrightarrow> bframe s v"
  unfolding bframe_def
proof (elim conjE, intro conjI)
  assume a: "t\<lparr>bufs := bufs s, disk := disk s, dwrites := dwrites s, ptable := ptable s\<rparr> = s"
    and b: "v\<lparr>bufs := bufs t, disk := disk t, dwrites := dwrites t, ptable := ptable t\<rparr> = t"
  have "v\<lparr>bufs := bufs s, disk := disk s, dwrites := dwrites s, ptable := ptable s\<rparr> =
      (v\<lparr>bufs := bufs t, disk := disk t, dwrites := dwrites t, ptable := ptable t\<rparr>)
        \<lparr>bufs := bufs s, disk := disk s, dwrites := dwrites s, ptable := ptable s\<rparr>" by simp
  also have "\<dots> = s" unfolding b using a .
  finally show "v\<lparr>bufs := bufs s, disk := disk s, dwrites := dwrites s, ptable := ptable s\<rparr> = s" .
qed simp

lemma binv_length: "binv p H s \<Longrightarrow> length (bufs s) = Suc NBUF"
  using ringD(1) by (auto simp: binv_def)

lemma binvD:
  assumes "binv p H s"
  shows "quiet p s" "lock_free (bcache_lock s)" "length (bufs s) = Suc NBUF" "cache_ok H (cores s) (disk s)"
    "H \<subseteq> {..<NBUF}" "p < length (ptable s)" "i < NBUF \<Longrightarrow> buf_ok (pid (ptable s ! p)) (i \<in> H) (bufs s ! i)"
    "\<exists>xs. ring (bufs s) xs"
  using assms binv_length [OF assms] by (simp_all add: binv_def)

lemma length_cores: "length (bufs s) = Suc NBUF \<Longrightarrow> length (cores s) = NBUF"
  by (simp add: cores_def)

lemma nth_cores: "length (bufs s) = Suc NBUF \<Longrightarrow> i < NBUF \<Longrightarrow> cores s ! i = core (bufs s ! i)"
  by (simp add: cores_def)

lemma upd_buf_twice: "i < length (bufs s) \<Longrightarrow> upd_buf i f (upd_buf i h s) = upd_buf i (\<lambda>b. f (h b)) s"
  by (simp add: upd_buf_def)

lemma upd_buf_enter: "upd_buf i f (enter bcache_lock_update s) = enter bcache_lock_update (upd_buf i f s)"
  by (simp add: enter_def upd_buf_def)

lemma bufs_enter [simp]: "bufs (enter bcache_lock_update s) = bufs s"
  by (simp add: enter_def)

lemma upd_buf_simps [simp]:
  "kcpu (upd_buf i f s) = kcpu s" "bcache_lock (upd_buf i f s) = bcache_lock s"
  "ptable_lock (upd_buf i f s) = ptable_lock s" "ptable (upd_buf i f s) = ptable s"
  "disk (upd_buf i f s) = disk s" "dwrites (upd_buf i f s) = dwrites s"
  "length (bufs (upd_buf i f s)) = length (bufs s)" "quiet p (upd_buf i f s) = quiet p s"
  "i < length (bufs s) \<Longrightarrow> bufs (upd_buf i f s) ! i = f (bufs s ! i)"
  by (simp_all add: upd_buf_def quiet_def)

lemma bframe_upd_buf [simp]: "bframe s (upd_buf i f s)"
  by (simp add: bframe_def upd_buf_def)

lemma cores_upd_buf:
  "length (bufs s) = Suc NBUF \<Longrightarrow> i < NBUF \<Longrightarrow> cores (upd_buf i f s) = (cores s)[i := core (f (bufs s ! i))]"
  by (simp add: cores_def upd_buf_def take_update_swap map_update)

text \<open>Changing one buffer without touching the list.\<close>

lemma binv_upd_buf:
  assumes inv: "binv p H s" and i: "i < NBUF"
    and links: "\<And>b. bnext (f b) = bnext b" "\<And>b. bprev (f b) = bprev b"
    and ok: "buf_ok (pid (ptable s ! p)) (i \<in> H') (f (bufs s ! i))"
    and H': "H' - {i} = H - {i}"
    and cache: "cache_ok H' ((cores s)[i := core (f (bufs s ! i))]) (disk s)"
  shows "binv p H' (upd_buf i f s)"
proof -
  have L: "length (bufs s) = Suc NBUF" using inv by (rule binv_length)
  obtain xs where "ring (bufs s) xs" using inv by (auto simp: binv_def)
  then have "ring (bufs (upd_buf i f s)) xs"
    by (rule ring_cong) (simp_all add: upd_buf_def nth_update links)
  moreover have "buf_ok (pid (ptable s ! p)) (j \<in> H') (bufs (upd_buf i f s) ! j)" if "j < NBUF" for j
  proof (cases "j = i")
    case False
    then have "(j \<in> H') = (j \<in> H)" using H' by blast
    then show ?thesis using inv that False by (simp add: binv_def upd_buf_def)
  qed (use ok L i in simp)
  moreover have "H' \<subseteq> {..<NBUF}" using inv H' i unfolding binv_def by blast
  ultimately show ?thesis
    using inv cache L i by (auto simp: binv_def cores_upd_buf)
qed

lemma cache_ok_update:
  assumes "cache_ok H cs d" "i < NBUF" "core_ok (i \<in> H') c d" "H' - {i} = H - {i}"
    and "\<And>j. bdev c = 1 \<Longrightarrow> cached (blockno c) cs j \<Longrightarrow> j = i"
  shows "cache_ok H' (cs[i := c]) d"
proof -
  have "core_ok (k \<in> H') (cs[i := c] ! k) d" if "k < NBUF" for k
  proof (cases "k = i")
    case False
    then have "(k \<in> H') = (k \<in> H)" using assms(4) by blast
    then show ?thesis using assms(1) that False by (simp add: cache_ok_def)
  qed (use assms in \<open>simp add: cache_ok_def\<close>)
  moreover have "k = l" if "cached b (cs[i := c]) k" "cached b (cs[i := c]) l" for b k l
  proof -
    have L: "length cs = NBUF" and u: "cached b cs m \<Longrightarrow> cached b cs n \<Longrightarrow> m = n" for m n
      using assms(1) by (auto simp: cache_ok_def)
    have o1: "cached b cs m" if "cached b (cs[i := c]) m" "m \<noteq> i" for m
      using that L by (simp add: cached_def)
    have o2: "bdev c = 1 \<and> blockno c = b" if "cached b (cs[i := c]) i"
      using that L by (auto simp: cached_def)
    show ?thesis
    proof (cases "k = i \<or> l = i")
      case True
      then have c: "bdev c = 1" "blockno c = b" using that o2 by auto
      have "m = i" if "cached b (cs[i := c]) m" for m
      proof (rule ccontr)
        assume "m \<noteq> i"
        then have "cached b cs m" using that o1 by blast
        then show False using assms(5) [of m] \<open>m \<noteq> i\<close> c by simp
      qed
      from this [OF that(1)] this [OF that(2)] show ?thesis by simp
    next
      case False
      then show ?thesis using that o1 u by blast
    qed
  qed
  ultimately show ?thesis using assms(1) unfolding cache_ok_def by simp
qed

section \<open>Locking a buffer\<close>

definition lock_buf :: "int \<Rightarrow> buf \<Rightarrow> buf" where
  "lock_buf n b = block_update (\<lambda>l. l\<lparr>slocked := True, spid := n\<rparr>) b"

lemma bread_lock:
  assumes "quiet p s" "i < length (bufs s)" "lock_free (slk (block (bufs s ! i)))" "\<not> slocked (block (bufs s ! i))"
  shows "acquiresleep (blk_get i) (blk_upd i) ch s = Inr (upd_buf i (lock_buf (pid (ptable s ! p))) s)"
  using bl.acquiresleep_quiet [where i = i, OF assms] by (simp add: upd_buf_def lock_buf_def)

lemma rel_bcache_enter:
  "quiet p s \<Longrightarrow> lock_free (bcache_lock s) \<Longrightarrow> rel_bcache (enter bcache_lock_update s) = Inr s"
  by (simp add: bc.rel_enter quiet_def)

lemma bget_hit:
  assumes inv: "binv p H s" and r: "ring (bufs s) xs" and i: "i < NBUF" "i \<notin> H"
    and f: "find (\<lambda>i. bdev (bufs s ! i) = dev \<and> blockno (bufs s ! i) = b) xs = Some i"
  shows "bget dev b s = Inr (i, upd_buf i (\<lambda>c. lock_buf (pid (ptable s ! p)) (refcnt_update (\<lambda>n. n + 1) c)) s)"
proof -
  have q: "quiet p s" "lock_free (bcache_lock s)" and L: "length (bufs s) = Suc NBUF"
    and b: "buf_ok (pid (ptable s ! p)) False (bufs s ! i)"
    using binvD(1-3) [OF inv] binvD(7) [OF inv i(1)] i by simp_all
  let ?t = "upd_buf i (refcnt_update (\<lambda>n. n + 1)) s"
  have "acquiresleep (blk_get i) (blk_upd i) (ChBuf i) ?t = Inr (upd_buf i (lock_buf (pid (ptable s ! p))) ?t)"
    using q b i L by (subst bread_lock) (simp_all add: buf_ok_def)
  then show ?thesis
    using q i L rel_bcache_enter [of p ?t]
    by (simp add: bget_def bc.acq_enter quiet_def [of p s] scan_forward [OF r, simplified] f upd_buf_enter upd_buf_twice)
qed

definition claim_buf :: "32 word \<Rightarrow> 32 word \<Rightarrow> buf \<Rightarrow> buf" where
  "claim_buf dev b c = c\<lparr>bdev := dev, blockno := b, bvalid := False, bdirty := False, refcnt := 1\<rparr>"

lemma bget_miss:
  assumes inv: "binv p H s" and r: "ring (bufs s) xs" and i: "i < NBUF" "i \<notin> H"
    and n: "find (\<lambda>i. bdev (bufs s ! i) = dev \<and> blockno (bufs s ! i) = b) xs = None"
    and f: "find (\<lambda>i. refcnt (bufs s ! i) = 0 \<and> \<not> bdirty (bufs s ! i)) (rev xs) = Some i"
  shows "bget dev b s = Inr (i, upd_buf i (\<lambda>c. lock_buf (pid (ptable s ! p)) (claim_buf dev b c)) s)"
proof -
  have q: "quiet p s" "lock_free (bcache_lock s)" and L: "length (bufs s) = Suc NBUF"
    and b: "buf_ok (pid (ptable s ! p)) False (bufs s ! i)"
    using binvD(1-3) [OF inv] binvD(7) [OF inv i(1)] i by simp_all
  let ?t = "upd_buf i (claim_buf dev b) s"
  have c: "refcnt_update (\<lambda>_. 1) (bdirty_update (\<lambda>_. False) (bvalid_update (\<lambda>_. False)
      (blockno_update (\<lambda>_. b) (bdev_update (\<lambda>_. dev) x)))) = claim_buf dev b x" for x
    by (simp add: claim_buf_def)
  have "acquiresleep (blk_get i) (blk_upd i) (ChBuf i) ?t = Inr (upd_buf i (lock_buf (pid (ptable s ! p))) ?t)"
    using q b i L by (subst bread_lock) (simp_all add: buf_ok_def claim_buf_def)
  then show ?thesis
    using q i L rel_bcache_enter [of p ?t]
    by (simp add: bget_def bc.acq_enter quiet_def [of p s] scan_forward [OF r, simplified] scan_backward [OF r, simplified] n f
        upd_buf_enter upd_buf_twice c)
qed

section \<open>Reading\<close>

lemma holding_buf:
  assumes "quiet p s" "i < length (bufs s)" "lock_free (slk (block (bufs s ! i)))"
    "slocked (block (bufs s ! i))" "spid (block (bufs s ! i)) = pid (ptable s ! p)"
  shows "holdingsleep (blk_get i) (blk_upd i) s = Inr (True, s)"
  using bl.holdingsleep_quiet [where i = i, OF assms(1-3)] assms(4,5) by simp

lemma iderw_read:
  assumes "quiet p s" "i < length (bufs s)" "lock_free (slk (block (bufs s ! i)))"
    "slocked (block (bufs s ! i))" "spid (block (bufs s ! i)) = pid (ptable s ! p)"
    "\<not> bvalid (bufs s ! i)" "\<not> bdirty (bufs s ! i)" "bdev (bufs s ! i) = 1"
    "unat (blockno (bufs s ! i)) < length (disk s)"
  shows "iderw i s = Inr (upd_buf i (\<lambda>b. b\<lparr>bdata := disk s ! unat (blockno b), bvalid := True\<rparr>) s)"
  using assms(6-9) assms(2)
  by (simp add: iderw_def holding_buf [OF assms(1-5)] Let_def upd_buf_twice) (simp add: upd_buf_def)

lemma core_links [simp]:
  "core (lock_buf n b) = core b" "core (b\<lparr>refcnt := k\<rparr>) = core b" "core (refcnt_update f b) = core b"
  "core (block_update g b) = core b"
  by (cases b; simp add: core_def lock_buf_def)+

lemma cached_core: "length (bufs s) = Suc NBUF \<Longrightarrow> i < NBUF \<Longrightarrow>
    cached b (cores s) i \<longleftrightarrow> bdev (bufs s ! i) = 1 \<and> blockno (bufs s ! i) = b"
  by (simp add: cached_def nth_cores)

lemma cache_ok_hold:
  assumes "cache_ok H cs d" "i < NBUF" "bvalid (cs ! i)"
  shows "cache_ok (insert i H) cs d"
proof -
  have c: "core_ok (i \<in> H) (cs ! i) d" and u: "cached b cs k \<Longrightarrow> cached b cs l \<Longrightarrow> k = l" for b k l
    using assms(1,2) unfolding cache_ok_def by blast+
  have "cache_ok (insert i H) (cs[i := cs ! i]) d"
  proof (rule cache_ok_update [OF assms(1,2)])
    show "core_ok (i \<in> insert i H) (cs ! i) d" using c assms(3) by (simp add: core_ok_def)
    show "j = i" if "bdev (cs ! i) = 1" "cached (blockno (cs ! i)) cs j" for j
      using u [OF that(2), of i] that(1) assms(2) by (simp add: cached_def)
  qed blast
  then show ?thesis by simp
qed

lemma bread_hit:
  assumes inv: "binv p H s" and i: "cached b (cores s) i" "i \<notin> H"
  obtains t where "bread 1 b s = Inr (i, t)" "binv p (insert i H) t" "bframe s t" "disk t = disk s"
    "dwrites t = dwrites s" "cores t = cores s"
proof -
  note q = binvD(1-4) [OF inv]
  obtain xs where r: "ring (bufs s) xs" using binvD(8) [OF inv] by blast
  let ?P = "\<lambda>i. bdev (bufs s ! i) = 1 \<and> blockno (bufs s ! i) = b"
  have iN: "i < NBUF" using i(1) by (simp add: cached_def)
  have c: "?P i" using i(1) iN q(3) by (simp add: cached_core)
  have "find ?P xs = Some i"
  proof (cases "find ?P xs")
    case None
    then show ?thesis using c iN ringD(7) [OF r, of i] by (auto simp: find_None_iff)
  next
    case (Some j)
    then have "?P j" "j \<in> set xs" by (auto simp: find_Some_iff)
    then have "cached b (cores s) j" using ringD(7) [OF r, of j] q(3) by (simp add: cached_core)
    then show ?thesis using i(1) q(4) Some unfolding cache_ok_def by metis
  qed
  then have g: "bget 1 b s = Inr (i, upd_buf i (\<lambda>c. lock_buf (pid (ptable s ! p)) (refcnt_update (\<lambda>n. n + 1) c)) s)"
    (is "_ = Inr (i, ?t)") by (rule bget_hit [OF inv r iN i(2)])
  have v: "bvalid (bufs s ! i)" "bvalid (cores s ! i)"
    using q(3,4) c iN by (auto simp: cache_ok_def core_ok_def nth_cores)
  have k: "(cores s)[i := core (bufs s ! i)] = cores s" using q(3) iN by (simp flip: nth_cores)
  have "bread 1 b s = Inr (i, ?t)" using g v q(3) iN by (simp add: bread_def lock_buf_def)
  moreover have "binv p (insert i H) ?t"
    using binvD(7) [OF inv iN] i(2)
    by (intro binv_upd_buf [OF inv iN])
      (auto simp: lock_buf_def buf_ok_def k cache_ok_hold [OF q(4) iN v(2)])
  moreover have "cores ?t = cores s" using q(3) iN by (simp add: cores_upd_buf k)
  ultimately show thesis using that [of ?t] by simp
qed

text \<open>A buffer that was just read from the disk.\<close>

definition fresh :: "32 word \<Rightarrow> byte list \<Rightarrow> buf \<Rightarrow> buf" where
  "fresh b d c = c\<lparr>bdev := 1, blockno := b, bvalid := True, bdirty := False, bdata := d\<rparr>"

lemma bread_miss:
  assumes inv: "binv p H s" and b: "unat b < length (disk s)" and n: "\<And>i. \<not> cached b (cores s) i"
    and room: "j < NBUF" "j \<notin> H" "\<not> bdirty (cores s ! j)"
  obtains i t where "bread 1 b s = Inr (i, t)" "i < NBUF" "i \<notin> H" "binv p (insert i H) t" "bframe s t"
    "disk t = disk s" "dwrites t = dwrites s" "\<not> bdirty (cores s ! i)"
    "cores t = (cores s)[i := fresh b (disk s ! unat b) (cores s ! i)]"
proof -
  note q = binvD(1-4) [OF inv]
  obtain xs where r: "ring (bufs s) xs" using binvD(8) [OF inv] by blast
  let ?P = "\<lambda>i. bdev (bufs s ! i) = 1 \<and> blockno (bufs s ! i) = b"
  let ?Q = "\<lambda>i. refcnt (bufs s ! i) = 0 \<and> \<not> bdirty (bufs s ! i)"
  have "\<not> ?P k" if "k < NBUF" for k using n [of k] q(3) that by (simp add: cached_core)
  then have none: "find ?P xs = None" using ringD(7) [OF r] unfolding find_None_iff by blast
  have "?Q j" using binvD(7) [OF inv room(1)] room q(3) by (simp add: buf_ok_def nth_cores)
  then have "find ?Q (rev xs) \<noteq> None"
    using room(1) ringD(7) [OF r, of j] unfolding find_None_iff by auto
  then obtain i where f: "find ?Q (rev xs) = Some i" by blast
  then have "?Q i" "i \<in> set (rev xs)" unfolding find_Some_iff by (metis, metis nth_mem)
  then have iN: "i < NBUF" and Q: "refcnt (bufs s ! i) = 0" "\<not> bdirty (bufs s ! i)"
    using ringD(7) [OF r, of i] by simp_all
  then have iH: "i \<notin> H" using binvD(7) [OF inv iN] by (auto simp: buf_ok_def)
  have bi: "buf_ok (pid (ptable s ! p)) False (bufs s ! i)" using binvD(7) [OF inv iN] iH by simp
  let ?f = "\<lambda>c. lock_buf (pid (ptable s ! p)) (claim_buf 1 b c)"
  let ?h = "\<lambda>c. (?f c)\<lparr>bdata := disk s ! unat b, bvalid := True\<rparr>"
  let ?t = "upd_buf i ?h s"
  have g: "bget 1 b s = Inr (i, upd_buf i ?f s)" by (rule bget_miss [OF inv r iN iH none f])
  have "iderw i (upd_buf i ?f s) = Inr (upd_buf i (\<lambda>c. c\<lparr>bdata := disk s ! unat (blockno c), bvalid := True\<rparr>) (upd_buf i ?f s))"
    by (subst iderw_read [of p]) (use q iN bi b in \<open>simp_all add: lock_buf_def claim_buf_def buf_ok_def\<close>)
  also have "upd_buf i (\<lambda>c. c\<lparr>bdata := disk s ! unat (blockno c), bvalid := True\<rparr>) (upd_buf i ?f s) = ?t"
    using q(3) iN by (simp add: upd_buf_def lock_buf_def claim_buf_def)
  finally have br: "bread 1 b s = Inr (i, ?t)"
    using g q(3) iN by (simp add: bread_def lock_buf_def claim_buf_def)
  have c: "core (?h (bufs s ! i)) = fresh b (disk s ! unat b) (cores s ! i)"
    using q(3) iN by (simp add: nth_cores core_def fresh_def lock_buf_def claim_buf_def)
  have "length (disk s ! unat b) = BSIZE" using q(4) b unfolding cache_ok_def by auto
  then have "cache_ok (insert i H) ((cores s)[i := core (?h (bufs s ! i))]) (disk s)"
    unfolding c using n b by (intro cache_ok_update [OF q(4) iN]) (auto simp: core_ok_def fresh_def)
  then have "binv p (insert i H) ?t"
    using bi by (intro binv_upd_buf [OF inv iN]) (auto simp: lock_buf_def claim_buf_def buf_ok_def)
  moreover have "cores ?t = (cores s)[i := fresh b (disk s ! unat b) (cores s ! i)]"
    using q(3) iN c by (simp add: cores_upd_buf)
  moreover have "\<not> bdirty (cores s ! i)" using Q q(3) iN by (simp add: nth_cores)
  ultimately show thesis using that [OF br iN iH] by simp
qed

section \<open>Writing and releasing\<close>

lemma held_buf:
  assumes inv: "binv p H s" and i: "i \<in> H"
  shows "i < NBUF" "i < length (bufs s)" "holdingsleep (blk_get i) (blk_upd i) s = Inr (True, s)"
    "bvalid (cores s ! i)" "bdev (cores s ! i) = 1" "unat (blockno (cores s ! i)) < length (disk s)"
proof -
  note q = binvD(1-5) [OF inv]
  show iN: "i < NBUF" using q(5) i by auto
  then show iL: "i < length (bufs s)" using q(3) by simp
  have b: "buf_ok (pid (ptable s ! p)) True (bufs s ! i)" using binvD(7) [OF inv iN] i by simp
  then show "holdingsleep (blk_get i) (blk_upd i) s = Inr (True, s)"
    using q(1) iL by (intro holding_buf) (simp_all add: buf_ok_def)
  have "core_ok True (cores s ! i) (disk s)" using q(4) iN i unfolding cache_ok_def by auto
  then show "bvalid (cores s ! i)" "bdev (cores s ! i) = 1" "unat (blockno (cores s ! i)) < length (disk s)"
    by (simp_all add: core_ok_def)
qed

lemma set_bufdata_spec:
  assumes inv: "binv p H s" and i: "i \<in> H" and d: "length d = BSIZE"
  shows "binv p H (set_bufdata i d s)" "bframe s (set_bufdata i d s)"
    "cores (set_bufdata i d s) = (cores s)[i := (cores s ! i)\<lparr>bdata := d\<rparr>]"
proof -
  note q = binvD(1-5) [OF inv] and h = held_buf [OF inv i]
  have c: "core ((bufs s ! i)\<lparr>bdata := d\<rparr>) = (cores s ! i)\<lparr>bdata := d\<rparr>"
    using q(3) h(1) by (simp add: nth_cores core_def)
  have ok: "core_ok (i \<in> H) (cores s ! i) (disk s)" and u: "\<And>b k l. cached b (cores s) k \<Longrightarrow> cached b (cores s) l \<Longrightarrow> k = l"
    using q(4) h(1) unfolding cache_ok_def by blast+
  have "cached (blockno (cores s ! i)) (cores s) i" using h by (simp add: cached_def)
  then have "cache_ok H ((cores s)[i := (cores s ! i)\<lparr>bdata := d\<rparr>]) (disk s)"
    using ok i d u by (intro cache_ok_update [OF q(4) h(1)]) (auto simp: core_ok_def)
  then show "binv p H (set_bufdata i d s)"
    using binvD(7) [OF inv h(1)] by (intro binv_upd_buf [OF inv h(1)]) (auto simp: c buf_ok_def)
  show "cores (set_bufdata i d s) = (cores s)[i := (cores s ! i)\<lparr>bdata := d\<rparr>]"
    using q(3) h(1) by (simp add: cores_upd_buf c)
qed simp

text \<open>A disk write changes the disk under a buffer that holds the same data.\<close>

lemma cache_ok_disk:
  assumes c: "cache_ok H cs d" and i: "i < NBUF" "i \<in> H"
  shows "cache_ok H (cs[i := (cs ! i)\<lparr>bdirty := False\<rparr>]) (d[unat (blockno (cs ! i)) := bdata (cs ! i)])"
proof -
  let ?c = "(cs ! i)\<lparr>bdirty := False\<rparr>" and ?n = "unat (blockno (cs ! i))"
  let ?d = "d[?n := bdata (cs ! i)]"
  have L: "length cs = NBUF" and ok: "\<And>k. k < NBUF \<Longrightarrow> core_ok (k \<in> H) (cs ! k) d"
    and u: "\<And>b k l. cached b cs k \<Longrightarrow> cached b cs l \<Longrightarrow> k = l" and dl: "\<forall>b \<in> set d. length b = BSIZE"
    using c unfolding cache_ok_def by blast+
  have oki: "core_ok True (cs ! i) d" using ok [OF i(1)] i(2) by simp
  have key: "cached b (cs[i := ?c]) k \<longleftrightarrow> cached b cs k" for b k
    using L i(1) by (auto simp: cached_def nth_update)
  have "core_ok (k \<in> H) (cs[i := ?c] ! k) ?d" if k: "k < NBUF" for k
  proof (cases "k = i")
    case True
    then show ?thesis using oki L i by (simp add: core_ok_def)
  next
    case False
    have "blockno (cs ! k) \<noteq> blockno (cs ! i)" if "bvalid (cs ! k)"
    proof
      assume "blockno (cs ! k) = blockno (cs ! i)"
      then have "cached (blockno (cs ! i)) cs k" "cached (blockno (cs ! i)) cs i"
        using that ok [OF k] oki k i(1) by (simp_all add: cached_def core_ok_def)
      then show False using u False by blast
    qed
    then have "?n \<noteq> unat (blockno (cs ! k))" if "bvalid (cs ! k)" using that by (metis word_unat_eq_iff)
    then show ?thesis using ok [OF k] False by (auto simp: core_ok_def)
  qed
  moreover have "length b = BSIZE" if "b \<in> set ?d" for b
    using that dl oki set_update_subset_insert [of d ?n "bdata (cs ! i)"] by (auto simp: core_ok_def)
  ultimately show ?thesis using L u unfolding cache_ok_def key by simp
qed

lemma bwrite_spec:
  assumes inv: "binv p H s" and i: "i \<in> H"
  obtains t where "bwrite i s = Inr t" "binv p H t" "bframe s t"
    "disk t = (disk s)[unat (blockno (cores s ! i)) := bdata (cores s ! i)]"
    "dwrites t = dwrites s @ [(blockno (cores s ! i), bdata (cores s ! i))]"
    "cores t = (cores s)[i := (cores s ! i)\<lparr>bdirty := False\<rparr>]"
proof -
  note q = binvD(1-8) [OF inv] and h = held_buf [OF inv i]
  let ?b = "bufs s ! i"
  let ?s1 = "upd_buf i (bdirty_update (\<lambda>_. True)) s"
  let ?s2 = "upd_buf i (\<lambda>b. b\<lparr>bdirty := False, bvalid := True\<rparr>) s"
  let ?t = "?s2\<lparr>disk := (disk s)[unat (blockno ?b) := bdata ?b], dwrites := dwrites s @ [(blockno ?b, bdata ?b)]\<rparr>"
  have k: "cores s ! i = core ?b" using q(3) h(1) by (simp add: nth_cores)
  have b: "buf_ok (pid (ptable s ! p)) True ?b" using q(7) [OF h(1)] i by simp
  have h1: "holdingsleep (blk_get i) (blk_upd i) ?s1 = Inr (True, ?s1)"
    using q(1) h(2) b by (intro holding_buf [of p]) (simp_all add: buf_ok_def)
  have "iderw i ?s1 = Inr ?t"
    using h k unfolding iderw_def h1
    by (simp add: Let_def upd_buf_twice) (simp add: upd_buf_def)
  then have w: "bwrite i s = Inr ?t" by (simp add: bwrite_def h(3))
  have c: "cores ?t = (cores s)[i := (cores s ! i)\<lparr>bdirty := False\<rparr>]"
  proof -
    have "cores ?t = cores ?s2" by (simp add: cores_def)
    also have "\<dots> = (cores s)[i := core (?b\<lparr>bdirty := False, bvalid := True\<rparr>)]"
      using q(3) h(1) by (simp add: cores_upd_buf)
    also have "core (?b\<lparr>bdirty := False, bvalid := True\<rparr>) = (cores s ! i)\<lparr>bdirty := False\<rparr>"
      using h(4) k by (simp add: core_def)
    finally show ?thesis .
  qed
  have n: "blockno (cores s ! i) = blockno ?b" "bdata (cores s ! i) = bdata ?b" using k by simp_all
  obtain xs where "ring (bufs s) xs" using q(8) by blast
  then have "ring (bufs ?t) xs" by (rule ring_cong) (simp_all add: upd_buf_def nth_update)
  moreover have "buf_ok (pid (ptable s ! p)) (j \<in> H) (bufs ?t ! j)" if "j < NBUF" for j
    using q(7) [OF that] b i h(2) by (cases "j = i") (simp_all add: upd_buf_def buf_ok_def)
  moreover have "cache_ok H (cores ?t) (disk ?t)"
    using cache_ok_disk [OF q(4) h(1) i] unfolding c n by simp
  moreover have "quiet p ?t" using q(1) by (simp add: quiet_def)
  ultimately have "binv p H ?t" using q(2,5,6) unfolding binv_def by simp blast
  moreover have "bframe s ?t" by (simp add: bframe_def upd_buf_def)
  ultimately show thesis using that [OF w] c n by simp
qed

definition free_buf :: "buf \<Rightarrow> buf" where
  "free_buf b = refcnt_update (\<lambda>n. n - 1) (block_update (\<lambda>l. l\<lparr>slocked := False, spid := 0\<rparr>) b)"

lemma core_free_buf [simp]: "core (free_buf b) = core b"
  by (simp add: free_buf_def)

lemma links_enter:
  "(enter bcache_lock_update s)\<lparr>bufs := bs\<rparr> = enter bcache_lock_update (s\<lparr>bufs := bs\<rparr>)"
  by (simp add: enter_def)

lemma unlink_core_fields:
  assumes "unlink_core b = unlink_core c"
  shows "core b = core c" "block b = block c" "refcnt b = refcnt c"
  using assms by (cases b; cases c; simp add: unlink_core_def core_def)+

lemma map_pid_wakeup1 [simp]: "map pid (ptable (wakeup1 ch s)) = map pid (ptable s)"
  by (simp add: wakeup1_def)

lemma bufs_wakeup1 [simp]:
  "bufs (wakeup1 ch s) = bufs s" "disk (wakeup1 ch s) = disk s" "dwrites (wakeup1 ch s) = dwrites s"
  "bcache_lock (wakeup1 ch s) = bcache_lock s" "ptable_lock (wakeup1 ch s) = ptable_lock s"
  by (simp_all add: wakeup1_def)

text \<open>
  \<^verbatim>\<open>brelse\<close> of a buffer that the process has locked, whoever else waits for it: only when nobody does is
  the buffer moved.
\<close>

definition released :: "nat \<Rightarrow> buf list \<Rightarrow> buf list" where
  "released i bs =
     (let bs' = bs[i := free_buf (bs ! i)] in if refcnt (bs ! i) = 1 then pushed i (unlinked i bs') else bs')"

lemma brelse_locked:
  assumes q: "quiet p s" "lock_free (bcache_lock s)" and i: "i < length (bufs s)" and l: "lock_free (slk (block (bufs s ! i)))"
    and h: "slocked (block (bufs s ! i))" "spid (block (bufs s ! i)) = pid (ptable s ! p)"
  shows "brelse i s = Inr ((wakeup1 (ChBuf i) s)\<lparr>bufs := released i (bufs s)\<rparr>)"
proof -
  let ?u = "block_update (\<lambda>l. l\<lparr>slocked := False, spid := 0\<rparr>)"
  let ?s1 = "wakeup1 (ChBuf i) (upd_buf i ?u s)"
  have h3: "holdingsleep (blk_get i) (blk_upd i) s = Inr (True, s)" by (rule holding_buf [OF q(1) i l h])
  have r: "releasesleep (blk_get i) (blk_upd i) (ChBuf i) s = Inr ?s1"
    using q(1) i l by (intro bl.releasesleep_quiet [of p]) simp_all
  have a: "acq_bcache ?s1 = Inr (enter bcache_lock_update ?s1)"
    using q by (intro bc.acq_enter) (simp_all add: quiet_def)
  let ?bs = "(bufs s)[i := free_buf (bufs s ! i)]"
  have e: "upd_buf i (refcnt_update (\<lambda>n. n - 1)) ?s1 = ?s1\<lparr>bufs := ?bs\<rparr>"
    using i by (simp add: upd_buf_def free_buf_def)
  have z: "refcnt (free_buf (bufs s ! i)) = 0 \<longleftrightarrow> refcnt (bufs s ! i) = 1" by (simp add: free_buf_def)
  let ?v = "?s1\<lparr>bufs := released i (bufs s)\<rparr>"
  have "rel_bcache (enter bcache_lock_update ?v) = Inr ?v"
    using q by (intro rel_bcache_enter [of p]) (simp_all add: quiet_def)
  moreover have "?v = (wakeup1 (ChBuf i) s)\<lparr>bufs := released i (bufs s)\<rparr>"
    by (simp add: wakeup1_def upd_buf_def)
  ultimately have v: "rel_bcache (enter bcache_lock_update (?s1\<lparr>bufs := released i (bufs s)\<rparr>)) =
      Inr ((wakeup1 (ChBuf i) s)\<lparr>bufs := released i (bufs s)\<rparr>)" by simp
  show ?thesis
  proof (cases "refcnt (bufs s ! i) = 1")
    case True
    then have "released i (bufs s) = pushed i (unlinked i ?bs)" by (simp add: released_def)
    with v True show ?thesis
      using i z by (simp add: brelse_def h3 r a upd_buf_enter e links_enter upd_buf_links push_front_pushed unlinked_def [of _ ?bs] Let_def)
  next
    case False
    then have "released i (bufs s) = ?bs" by (simp add: released_def)
    with v False show ?thesis using i z by (simp add: brelse_def h3 r a upd_buf_enter e Let_def)
  qed
qed

lemma brelse_run:
  assumes inv: "binv p H s" and i: "i \<in> H"
  shows "brelse i s = Inr ((wakeup1 (ChBuf i) s)\<lparr>bufs := pushed i (unlinked i ((bufs s)[i := free_buf (bufs s ! i)]))\<rparr>)"
proof -
  note q = binvD(1-8) [OF inv] and h = held_buf [OF inv i]
  have b: "buf_ok (pid (ptable s ! p)) True (bufs s ! i)" using q(7) [OF h(1)] i by simp
  then show ?thesis using brelse_locked [OF q(1,2) h(2)] by (simp add: buf_ok_def released_def Let_def)
qed

lemma cache_ok_release:
  assumes c: "cache_ok H cs d" and i: "i < NBUF" "i \<in> H"
    and data: "bdirty (cs ! i) \<or> bdata (cs ! i) = d ! unat (blockno (cs ! i))"
  shows "cache_ok (H - {i}) cs d"
proof -
  have ok: "core_ok True (cs ! i) d" using c i unfolding cache_ok_def by auto
  have u: "\<And>b k l. cached b cs k \<Longrightarrow> cached b cs l \<Longrightarrow> k = l" using c unfolding cache_ok_def by blast
  have "cache_ok (H - {i}) (cs[i := cs ! i]) d"
  proof (rule cache_ok_update [OF c i(1)])
    show "core_ok (i \<in> H - {i}) (cs ! i) d" using ok data by (auto simp: core_ok_def)
    show "j = i" if "bdev (cs ! i) = 1" "cached (blockno (cs ! i)) cs j" for j
      using u [OF that(2), of i] that(1) i by (simp add: cached_def)
  qed blast
  then show ?thesis by simp
qed

lemma brelse_spec:
  assumes inv: "binv p H s" and i: "i \<in> H"
    and data: "bdirty (cores s ! i) \<or> bdata (cores s ! i) = disk s ! unat (blockno (cores s ! i))"
  obtains t where "brelse i s = Inr t" "binv p (H - {i}) t" "bframe s t" "disk t = disk s"
    "dwrites t = dwrites s" "cores t = cores s" "\<And>xs. ring (bufs s) xs \<Longrightarrow> ring (bufs t) (i # remove1 i xs)"
proof -
  note q = binvD(1-8) [OF inv] and h = held_buf [OF inv i]
  let ?bs = "(bufs s)[i := free_buf (bufs s ! i)]"
  let ?m = "pushed i (unlinked i ?bs)"
  let ?t = "(wakeup1 (ChBuf i) s)\<lparr>bufs := ?m\<rparr>"
  have bt: "bufs ?t = ?m" by simp
  have r: "ring ?m (i # remove1 i xs)" if "ring (bufs s) xs" for xs
    using ring_cong [OF that, of ?bs] h(1) by (intro ring_to_front) (simp_all add: nth_update free_buf_def)
  have f: "core (?m ! j) = core (?bs ! j)" "block (?m ! j) = block (?bs ! j)" "refcnt (?m ! j) = refcnt (?bs ! j)" for j
    by (rule unlink_core_fields; rule core_moved)+
  have c: "cores ?t = cores s"
    using q(3) h(2) by (intro nth_equalityI) (auto simp: cores_def f nth_update)
  have pid: "pid (ptable ?t ! p) = pid (ptable s ! p)"
    using q(6) by (simp add: wakeup1_def)
  have "buf_ok (pid (ptable ?t ! p)) (j \<in> H - {i}) (bufs ?t ! j)" if "j < NBUF" for j
    using q(7) [OF that] q(7) [OF h(1)] h(2) i unfolding pid bt buf_ok_def f
    by (cases "j = i") (simp_all add: free_buf_def)
  moreover have "\<exists>xs. ring (bufs ?t) xs" using r q(8) unfolding bt by blast
  moreover have "cache_ok (H - {i}) (cores ?t) (disk ?t)"
    unfolding c using cache_ok_release [OF q(4) h(1) i data] by simp
  moreover have "quiet p ?t" using q(1) by (simp add: quiet_def)
  moreover have "p < length (ptable ?t)" using q(6) by (simp add: wakeup1_def)
  ultimately have "binv p (H - {i}) ?t" using q(2,5) unfolding binv_def by auto
  moreover have "bframe s ?t" by (simp add: bframe_def wakeup1_def)
  ultimately show thesis using that [OF brelse_run [OF inv i]] c r by simp
qed

end
