(* ===== verification/Block_Store.thy ===== *)
theory Block_Store
  imports Bio_Facts
begin

text \<open>
  The contract of the buffer cache as its clients see it, a locale, and its interpretation on
  \<^verbatim>\<open>bread\<close>, \<^verbatim>\<open>bwrite\<close> and \<^verbatim>\<open>brelse\<close>. The contract speaks of the current contents \<open>blk\<close> of every block, of
  the blocks \<open>pinned\<close> in the cache by the log, of the disk and of the writes to it.
\<close>

section \<open>The contract\<close>

locale block_store =
  fixes rd :: "32 word \<Rightarrow> 's \<Rightarrow> (nat \<times> 's) res"
    and wr :: "nat \<Rightarrow> 's \<Rightarrow> 's res"
    and rls :: "nat \<Rightarrow> 's \<Rightarrow> 's res"
    and getd :: "nat \<Rightarrow> 's \<Rightarrow> byte list"
    and setd :: "nat \<Rightarrow> byte list \<Rightarrow> 's \<Rightarrow> 's"
    and inv :: "nat set \<Rightarrow> 's \<Rightarrow> bool"
    and key :: "'s \<Rightarrow> nat \<Rightarrow> 32 word"
    and blk :: "'s \<Rightarrow> 32 word \<Rightarrow> byte list"
    and pinned :: "'s \<Rightarrow> 32 word set"
    and dsk :: "'s \<Rightarrow> byte list list"
    and trace :: "'s \<Rightarrow> (32 word \<times> byte list) list"
    and frame :: "'s \<Rightarrow> 's \<Rightarrow> bool"
  assumes rd_ok: "inv H s \<Longrightarrow> unat b < length (dsk s) \<Longrightarrow> \<forall>i\<in>H. key s i \<noteq> b \<Longrightarrow>
      b \<in> pinned s \<or> card (pinned s) + card H < NBUF \<Longrightarrow>
      \<exists>i t. rd b s = Inr (i, t) \<and> i \<notin> H \<and> inv (insert i H) t \<and> frame s t \<and> dsk t = dsk s \<and>
        trace t = trace s \<and> blk t = blk s \<and> pinned t = pinned s \<and> key t = (key s)(i := b)"
    and getd_ok: "inv H s \<Longrightarrow> i \<in> H \<Longrightarrow> getd i s = blk s (key s i)"
    and setd_ok: "inv H s \<Longrightarrow> i \<in> H \<Longrightarrow> length d = BSIZE \<Longrightarrow>
      inv H (setd i d s) \<and> frame s (setd i d s) \<and> dsk (setd i d s) = dsk s \<and> trace (setd i d s) = trace s \<and>
      blk (setd i d s) = (blk s)(key s i := d) \<and> pinned (setd i d s) = pinned s \<and> key (setd i d s) = key s"
    and wr_ok: "inv H s \<Longrightarrow> i \<in> H \<Longrightarrow>
      \<exists>t. wr i s = Inr t \<and> inv H t \<and> frame s t \<and> dsk t = (dsk s)[unat (key s i) := blk s (key s i)] \<and>
        trace t = trace s @ [(key s i, blk s (key s i))] \<and> blk t = blk s \<and>
        pinned t = pinned s - {key s i} \<and> key t = key s"
    and rls_ok: "inv H s \<Longrightarrow> i \<in> H \<Longrightarrow>
      key s i \<in> pinned s \<or> blk s (key s i) = dsk s ! unat (key s i) \<Longrightarrow>
      \<exists>t. rls i s = Inr t \<and> inv (H - {i}) t \<and> frame s t \<and> dsk t = dsk s \<and> trace t = trace s \<and>
        blk t = blk s \<and> pinned t = pinned s \<and> key t = key s"
    and clean: "inv H s \<Longrightarrow> b \<notin> pinned s \<Longrightarrow> \<forall>i\<in>H. key s i \<noteq> b \<Longrightarrow> blk s b = dsk s ! unat b"
    and held: "inv H s \<Longrightarrow> i \<in> H \<Longrightarrow> unat (key s i) < length (dsk s)"
    and block_length: "inv H s \<Longrightarrow> unat b < length (dsk s) \<Longrightarrow> length (blk s b) = BSIZE"
    and frame_trans: "frame s t \<Longrightarrow> frame t v \<Longrightarrow> frame s v"
begin

text \<open>Reading two different blocks.\<close>

lemma rd2:
  assumes "inv {} s" "a \<noteq> b" "unat a < length (dsk s)" "unat b < length (dsk s)"
    and "a \<in> pinned s \<or> card (pinned s) < NBUF" "b \<in> pinned s \<or> card (pinned s) + 1 < NBUF"
  obtains x y t u where "rd a s = Inr (x, t)" "rd b t = Inr (y, u)" "x \<noteq> y" "inv {x, y} u" "frame s u"
    "dsk u = dsk s" "trace u = trace s" "blk u = blk s" "pinned u = pinned s" "key u x = a" "key u y = b"
proof -
  obtain x t where t: "rd a s = Inr (x, t)" "inv {x} t" "frame s t" "dsk t = dsk s" "trace t = trace s"
      "blk t = blk s" "pinned t = pinned s" "key t = (key s)(x := a)"
    using rd_ok [of "{}" s a] assms by auto
  obtain y u where u: "rd b t = Inr (y, u)" "y \<notin> {x}" "inv {y, x} u" "frame t u" "dsk u = dsk t"
      "trace u = trace t" "blk u = blk t" "pinned u = pinned t" "key u = (key t)(y := b)"
    using rd_ok [OF t(2), of b] assms t by auto
  have "x \<noteq> y" "inv {x, y} u" using u(2,3) by (auto simp: insert_commute)
  then show thesis using that [OF t(1) u(1)] frame_trans [OF t(3) u(4)] u t by simp
qed

text \<open>
  From two locked blocks, the one at \<open>x\<close> is copied to the one at \<open>y\<close>, which is written and then
  released after the source.
\<close>

lemma copy_held:
  assumes i: "inv {x, y} s" "x \<noteq> y" "key s x = a" "key s y = b" "a \<noteq> b"
    and ca: "a \<in> pinned s \<or> blk s a = dsk s ! unat a"
  obtains t where "bnd (wr y (setd y (getd x s) s)) (\<lambda>s. bnd (rls x s) (\<lambda>s. rls y s)) = Inr t"
    "inv {} t" "frame s t" "dsk t = (dsk s)[unat b := blk s a]" "trace t = trace s @ [(b, blk s a)]"
    "blk t = (blk s)(b := blk s a)" "pinned t = pinned s - {b}"
proof -
  have ab: "unat a < length (dsk s)" "unat b < length (dsk s)"
    using held [OF i(1), of x] held [OF i(1), of y] i by auto
  let ?s1 = "setd y (getd x s) s"
  have g: "getd x s = blk s a" using getd_ok [OF i(1), of x] i by simp
  have s1: "inv {x, y} ?s1" "frame s ?s1" "dsk ?s1 = dsk s" "trace ?s1 = trace s"
      "blk ?s1 = (blk s)(b := blk s a)" "pinned ?s1 = pinned s" "key ?s1 = key s"
    using setd_ok [OF i(1), of y "getd x s"] block_length [OF i(1) ab(1)] i(3,4) g by simp_all
  obtain s2 where s2: "wr y ?s1 = Inr s2" "inv {x, y} s2" "frame ?s1 s2" "dsk s2 = (dsk s)[unat b := blk s a]"
      "trace s2 = trace s @ [(b, blk s a)]" "blk s2 = (blk s)(b := blk s a)" "pinned s2 = pinned s - {b}" "key s2 = key s"
    using wr_ok [OF s1(1), of y] s1 i(4) by auto
  have "unat a \<noteq> unat b" using i(5) by (simp add: word_unat_eq_iff)
  then have "key s2 x \<in> pinned s2 \<or> blk s2 (key s2 x) = dsk s2 ! unat (key s2 x)"
    using ca s2 i(3-5) by auto
  then obtain s3 where s3: "rls x s2 = Inr s3" "inv {y} s3" "frame s2 s3" "dsk s3 = dsk s2" "trace s3 = trace s2"
      "blk s3 = blk s2" "pinned s3 = pinned s2" "key s3 = key s2"
    using rls_ok [OF s2(2), of x] i(2) by (auto simp: insert_Diff_if)
  have "blk s3 (key s3 y) = dsk s3 ! unat (key s3 y)" using s3 s2 i(4) ab by simp
  then obtain t where t: "rls y s3 = Inr t" "inv {} t" "frame s3 t" "dsk t = dsk s3" "trace t = trace s3"
      "blk t = blk s3" "pinned t = pinned s3"
    using rls_ok [OF s3(2), of y] by auto
  have "frame s t" using frame_trans [OF s1(2)] frame_trans [OF s2(3)] frame_trans [OF s3(3) t(3)] by blast
  then show thesis using that [of t] s2 s3 t by simp
qed

text \<open>Reading, changing and writing back one block.\<close>

lemma rewrite_block:
  assumes i: "inv {} s" "unat b < length (dsk s)" "b \<in> pinned s \<or> card (pinned s) < NBUF"
    and len: "length (f (blk s b)) = BSIZE"
  obtains x t u where "rd b s = Inr (x, t)" "getd x t = blk s b" "frame s t"
    "bnd (wr x (setd x (f (getd x t)) t)) (\<lambda>s. rls x s) = Inr u"
    "inv {} u" "frame s u" "dsk u = (dsk s)[unat b := f (blk s b)]" "trace u = trace s @ [(b, f (blk s b))]"
    "blk u = (blk s)(b := f (blk s b))" "pinned u = pinned s - {b}"
proof -
  obtain x t where t: "rd b s = Inr (x, t)" "inv {x} t" "frame s t" "dsk t = dsk s" "trace t = trace s"
      "blk t = blk s" "pinned t = pinned s" "key t = (key s)(x := b)"
    using rd_ok [of "{}" s b] i by auto
  have g: "getd x t = blk s b" using getd_ok [OF t(2), of x] t by simp
  let ?s1 = "setd x (f (getd x t)) t"
  have s1: "inv {x} ?s1" "frame t ?s1" "dsk ?s1 = dsk s" "trace ?s1 = trace s"
      "blk ?s1 = (blk s)(b := f (blk s b))" "pinned ?s1 = pinned s" "key ?s1 x = b"
    using setd_ok [OF t(2), of x "f (getd x t)"] t len g by simp_all
  obtain s2 where s2: "wr x ?s1 = Inr s2" "inv {x} s2" "frame ?s1 s2" "dsk s2 = (dsk s)[unat b := f (blk s b)]"
      "trace s2 = trace s @ [(b, f (blk s b))]" "blk s2 = (blk s)(b := f (blk s b))" "pinned s2 = pinned s - {b}" "key s2 x = b"
    using wr_ok [OF s1(1), of x] s1 by auto
  have "blk s2 (key s2 x) = dsk s2 ! unat (key s2 x)" using s2 i(2) by simp
  then obtain u where u: "rls x s2 = Inr u" "inv {} u" "frame s2 u" "dsk u = dsk s2" "trace u = trace s2"
      "blk u = blk s2" "pinned u = pinned s2"
    using rls_ok [OF s2(2), of x] by auto
  have "frame s u" using frame_trans [OF t(3)] frame_trans [OF s1(2)] frame_trans [OF s2(3) u(3)] by blast
  then show thesis using that [OF t(1) g t(3)] s2 u by simp
qed

lemma read_block:
  assumes i: "inv {} s" "unat b < length (dsk s)" "b \<in> pinned s \<or> card (pinned s) < NBUF"
  obtains x t u where "rd b s = Inr (x, t)" "getd x t = blk s b" "frame s t" "rls x t = Inr u" "inv {} u"
    "frame t u" "dsk u = dsk s" "trace u = trace s" "blk u = blk s" "pinned u = pinned s"
proof -
  obtain x t where t: "rd b s = Inr (x, t)" "inv {x} t" "frame s t" "dsk t = dsk s" "trace t = trace s"
      "blk t = blk s" "pinned t = pinned s" "key t = (key s)(x := b)"
    using rd_ok [of "{}" s b] i by auto
  have g: "getd x t = blk s b" using getd_ok [OF t(2), of x] t by simp
  have "key t x \<in> pinned t \<or> blk t (key t x) = dsk t ! unat (key t x)"
    using clean [OF i(1), of b] t by auto
  then obtain u where u: "rls x t = Inr u" "inv {} u" "frame t u" "dsk u = dsk t" "trace u = trace t"
      "blk u = blk t" "pinned u = pinned t"
    using rls_ok [OF t(2), of x] by auto
  show thesis using that [OF t(1) g t(3) u(1,2,3)] t u by simp
qed

end

section \<open>The buffer cache keeps the contract\<close>

definition bkey :: "'a kbio_scheme \<Rightarrow> nat \<Rightarrow> 32 word" where
  "bkey s i = (if i < NBUF then blockno (cores s ! i) else 0)"

definition blk :: "'a kbio_scheme \<Rightarrow> 32 word \<Rightarrow> byte list" where
  "blk s b = (case find (cached b (cores s)) [0..<NBUF] of Some i \<Rightarrow> bdata (cores s ! i) | None \<Rightarrow> disk s ! unat b)"

definition pinned :: "'a kbio_scheme \<Rightarrow> 32 word set" where
  "pinned s = (\<lambda>i. blockno (cores s ! i)) ` {i. i < NBUF \<and> bdirty (cores s ! i)}"

lemma cached_range: "cached b cs i \<Longrightarrow> i < NBUF"
  by (simp add: cached_def)

lemma blk_uncached: "(\<And>i. \<not> cached b (cores s) i) \<Longrightarrow> blk s b = disk s ! unat b"
  by (simp add: blk_def find_None_iff [THEN iffD2])

lemma blk_cached:
  assumes "binv p H s" "cached b (cores s) i"
  shows "blk s b = bdata (cores s ! i)"
proof -
  have u: "k = i" if "cached b (cores s) k" for k
    using binvD(4) [OF assms(1)] assms(2) that unfolding cache_ok_def by blast
  have "find (cached b (cores s)) [0..<NBUF] = Some i"
  proof (cases "find (cached b (cores s)) [0..<NBUF]")
    case None
    then show ?thesis using assms(2) cached_range [OF assms(2)] by (auto simp: find_None_iff)
  next
    case (Some k)
    then have "cached b (cores s) k" by (auto simp: find_Some_iff)
    then show ?thesis using u Some by simp
  qed
  then show ?thesis by (simp add: blk_def)
qed

text \<open>The contents of a block only depend on the buffer that holds it.\<close>

lemma blk_cong:
  assumes s: "binv p H s" and t: "binv p H' t"
    and c: "\<And>i. cached b (cores s) i \<Longrightarrow> cached b (cores t) i \<and> bdata (cores t ! i) = bdata (cores s ! i)"
    and n: "\<And>i. (\<And>j. \<not> cached b (cores s) j) \<Longrightarrow> cached b (cores t) i \<Longrightarrow> bdata (cores t ! i) = disk s ! unat b"
    and d: "(\<And>j. \<not> cached b (cores s) j) \<Longrightarrow> disk t ! unat b = disk s ! unat b"
  shows "blk t b = blk s b"
proof (cases "\<exists>i. cached b (cores s) i")
  case True
  then obtain i where "cached b (cores s) i" by blast
  then show ?thesis using c [of i] blk_cached [OF s, of b i] blk_cached [OF t, of b i] by simp
next
  case False
  then show ?thesis using n d blk_cached [OF t] blk_uncached [of b s] blk_uncached [of b t] by metis
qed

lemma dirty_cached:
  assumes "binv p H s" "i < NBUF" "bdirty (cores s ! i)"
  shows "cached (blockno (cores s ! i)) (cores s) i"
  using binvD(4) [OF assms(1)] assms(2,3) by (auto simp: cache_ok_def core_ok_def cached_def)

lemma pinned_cached: "binv p H s \<Longrightarrow> b \<in> pinned s \<Longrightarrow> \<exists>i. cached b (cores s) i"
  using dirty_cached by (fastforce simp: pinned_def)

lemma card_pinned:
  assumes "binv p H s"
  shows "card (pinned s) = card {i. i < NBUF \<and> bdirty (cores s ! i)}"
  unfolding pinned_def
proof (rule card_image, rule inj_onI)
  fix i j assume ij: "i \<in> {i. i < NBUF \<and> bdirty (cores s ! i)}" "j \<in> {i. i < NBUF \<and> bdirty (cores s ! i)}"
    "blockno (cores s ! i) = blockno (cores s ! j)"
  then show "i = j"
    using dirty_cached [OF assms, of i] dirty_cached [OF assms, of j] binvD(4) [OF assms] unfolding cache_ok_def by auto
qed

lemma room_free:
  assumes "binv p H s" "card (pinned s) + card H < NBUF"
  obtains j where "j < NBUF" "j \<notin> H" "\<not> bdirty (cores s ! j)"
proof -
  let ?D = "{i. i < NBUF \<and> bdirty (cores s ! i)}"
  have "card (?D \<union> H) \<le> card ?D + card H" by (rule card_Un_le)
  then have "card (?D \<union> H) < card {..<NBUF}" using assms card_pinned [OF assms(1)] by simp
  moreover have "finite (?D \<union> H)" using binvD(5) [OF assms(1)] finite_subset [of H "{..<NBUF}"] by simp
  ultimately have "\<not> {..<NBUF} \<subseteq> ?D \<union> H" using card_mono [of "?D \<union> H" "{..<NBUF}"] by linarith
  then show thesis using that by auto
qed

lemma bread_contract:
  assumes inv: "binv p H s" and b: "unat b < length (disk s)" and nh: "\<forall>i\<in>H. bkey s i \<noteq> b"
    and room: "b \<in> pinned s \<or> card (pinned s) + card H < NBUF"
  shows "\<exists>i t. bread 1 b s = Inr (i, t) \<and> i \<notin> H \<and> binv p (insert i H) t \<and> bframe s t \<and> disk t = disk s \<and>
     dwrites t = dwrites s \<and> blk t = blk s \<and> pinned t = pinned s \<and> bkey t = (bkey s)(i := b)"
proof (cases "\<exists>i. cached b (cores s) i")
  case True
  then obtain i where i: "cached b (cores s) i" by blast
  then have ib: "bkey s i = b" by (simp add: bkey_def cached_def)
  then have "i \<notin> H" using nh by auto
  then obtain t where t: "bread 1 b s = Inr (i, t)" "binv p (insert i H) t" "bframe s t" "disk t = disk s"
      "dwrites t = dwrites s" "cores t = cores s" by (rule bread_hit [OF inv i])
  have "bkey t = (bkey s)(i := b)" using ib t(6) by (auto simp: bkey_def)
  moreover have "blk t = blk s" "pinned t = pinned s"
    unfolding blk_def [abs_def] pinned_def t(4,6) by simp_all
  ultimately show ?thesis using t \<open>i \<notin> H\<close> by blast
next
  case False
  then have n: "\<And>i. \<not> cached b (cores s) i" by blast
  then have "card (pinned s) + card H < NBUF" using room pinned_cached [OF inv] by blast
  then obtain j where "j < NBUF" "j \<notin> H" "\<not> bdirty (cores s ! j)" by (rule room_free [OF inv])
  then obtain i t where t: "bread 1 b s = Inr (i, t)" "i < NBUF" "i \<notin> H" "binv p (insert i H) t" "bframe s t"
      "disk t = disk s" "dwrites t = dwrites s" "\<not> bdirty (cores s ! i)"
      "cores t = (cores s)[i := fresh b (disk s ! unat b) (cores s ! i)]"
    using bread_miss [OF inv b n] by metis
  have L: "length (cores s) = NBUF" using binvD(4) [OF inv] by (simp add: cache_ok_def)
  have k: "cores t ! k = (if k = i then fresh b (disk s ! unat b) (cores s ! i) else cores s ! k)" if "k < NBUF" for k
    using t(9) L that by (simp add: nth_update)
  have "bkey t = (bkey s)(i := b)" using t(2) k by (auto simp: bkey_def fresh_def fun_eq_iff)
  moreover have "pinned t = pinned s"
  proof -
    have "bdirty (cores t ! k) = bdirty (cores s ! k) \<and> (bdirty (cores s ! k) \<longrightarrow> blockno (cores t ! k) = blockno (cores s ! k))"
      if "k < NBUF" for k using k [OF that] t(8) by (auto simp: fresh_def)
    then show ?thesis unfolding pinned_def by (intro image_cong) auto
  qed
  moreover have "blk t c = blk s c" for c
  proof (cases "c = b")
    case True
    have "cached b (cores t) i" using k [OF t(2)] t(2) by (simp add: cached_def fresh_def)
    then have "blk t b = disk s ! unat b" using blk_cached [OF t(4)] k [OF t(2)] by (simp add: fresh_def)
    then show ?thesis using True n blk_uncached [of b s] by simp
  next
    case cb: False
    show ?thesis
    proof (cases "cached c (cores s) i")
      case True
      have ci: "\<not> cached c (cores t) m" for m
      proof
        assume m: "cached c (cores t) m"
        then have "m \<noteq> i" using k [OF t(2)] cb by (auto simp: cached_def fresh_def)
        then have "cached c (cores s) m" using m k [of m] by (auto simp: cached_def)
        then show False using True \<open>m \<noteq> i\<close> binvD(4) [OF inv] unfolding cache_ok_def by blast
      qed
      have "core_ok False (cores s ! i) (disk s)" using binvD(4) [OF inv] t(2,3) unfolding cache_ok_def by auto
      then have "bdata (cores s ! i) = disk s ! unat c" using True t(8) by (auto simp: core_ok_def cached_def)
      then show ?thesis using blk_cached [OF inv True] blk_uncached [of c t] ci t(6) by simp
    next
      case False
      then have "cached c (cores t) m \<longleftrightarrow> cached c (cores s) m" "m \<noteq> i \<or> \<not> cached c (cores t) m" for m
        using k [of m] cb by (auto simp: cached_def fresh_def split: if_splits)
      then show ?thesis using k False by (intro blk_cong [OF inv t(4)]) (auto simp: t(6) cached_def)
    qed
  qed
  ultimately show ?thesis using t by (auto simp: fun_eq_iff)
qed

lemma setd_contract:
  assumes inv: "binv p H s" and i: "i \<in> H" and d: "length d = BSIZE"
  shows "binv p H (set_bufdata i d s) \<and> bframe s (set_bufdata i d s) \<and> disk (set_bufdata i d s) = disk s \<and>
    dwrites (set_bufdata i d s) = dwrites s \<and> blk (set_bufdata i d s) = (blk s)(bkey s i := d) \<and>
    pinned (set_bufdata i d s) = pinned s \<and> bkey (set_bufdata i d s) = bkey s"
proof -
  let ?t = "set_bufdata i d s"
  note h = held_buf [OF inv i] and t = set_bufdata_spec [OF inv i d]
  have L: "length (cores s) = NBUF" using binvD(4) [OF inv] by (simp add: cache_ok_def)
  have k: "cores ?t ! k = (if k = i then (cores s ! i)\<lparr>bdata := d\<rparr> else cores s ! k)" if "k < NBUF" for k
    unfolding t(3) using L that by (simp add: nth_update)
  have c: "cached b (cores ?t) m \<longleftrightarrow> cached b (cores s) m" for b m
    unfolding cached_def by (cases "m < NBUF") (simp_all add: k)
  have ci: "cached (bkey s i) (cores s) i" using h by (simp add: cached_def bkey_def)
  have "blk ?t b = ((blk s)(bkey s i := d)) b" for b
  proof (cases "b = bkey s i")
    case True
    then show ?thesis using blk_cached [OF t(1), of b i] ci c k [OF h(1)] by simp
  next
    case False
    then have "\<not> cached b (cores s) i" using h(1) by (auto simp: cached_def bkey_def)
    then have "m \<noteq> i" if "cached b (cores s) m" for m using that by blast
    then have "blk ?t b = blk s b"
      by (intro blk_cong [OF inv t(1)]) (simp_all add: c k cached_range)
    then show ?thesis using False by simp
  qed
  moreover have "bkey ?t = bkey s" using k by (auto simp: bkey_def fun_eq_iff)
  moreover have "pinned ?t = pinned s" unfolding pinned_def using k by (intro image_cong) (auto split: if_splits)
  ultimately show ?thesis using t by (simp add: fun_eq_iff)
qed

lemma bwrite_contract:
  assumes inv: "binv p H s" and i: "i \<in> H"
  shows "\<exists>t. bwrite i s = Inr t \<and> binv p H t \<and> bframe s t \<and> disk t = (disk s)[unat (bkey s i) := blk s (bkey s i)] \<and>
    dwrites t = dwrites s @ [(bkey s i, blk s (bkey s i))] \<and> blk t = blk s \<and>
    pinned t = pinned s - {bkey s i} \<and> bkey t = bkey s"
proof -
  note h = held_buf [OF inv i]
  have L: "length (cores s) = NBUF" using binvD(4) [OF inv] by (simp add: cache_ok_def)
  have ci: "cached (bkey s i) (cores s) i" using h by (simp add: cached_def bkey_def)
  have bi: "blk s (bkey s i) = bdata (cores s ! i)" "blockno (cores s ! i) = bkey s i"
    using blk_cached [OF inv ci] h(1) by (simp_all add: bkey_def)
  obtain t where t: "bwrite i s = Inr t" "binv p H t" "bframe s t"
      "disk t = (disk s)[unat (bkey s i) := blk s (bkey s i)]" "dwrites t = dwrites s @ [(bkey s i, blk s (bkey s i))]"
      "cores t = (cores s)[i := (cores s ! i)\<lparr>bdirty := False\<rparr>]"
    using bwrite_spec [OF inv i] unfolding bi by metis
  have k: "cores t ! k = (if k = i then (cores s ! i)\<lparr>bdirty := False\<rparr> else cores s ! k)" if "k < NBUF" for k
    unfolding t(6) using L that by (simp add: nth_update)
  have c: "cached b (cores t) m \<longleftrightarrow> cached b (cores s) m" for b m
    unfolding cached_def by (cases "m < NBUF") (simp_all add: k)
  have "blk t b = blk s b" for b
  proof (rule blk_cong [OF inv t(2)])
    show "disk t ! unat b = disk s ! unat b" if "\<And>j. \<not> cached b (cores s) j"
    proof -
      have "bkey s i \<noteq> b" using that ci by auto
      then have "unat (bkey s i) \<noteq> unat b" by (simp add: word_unat_eq_iff)
      then show ?thesis using t(4) by simp
    qed
  qed (simp_all add: c k cached_range)
  moreover have "bkey t = bkey s" using k by (auto simp: bkey_def fun_eq_iff)
  moreover have "pinned t = pinned s - {bkey s i}"
  proof -
    have o1: "blockno (cores s ! m) \<noteq> bkey s i" if "m < NBUF" "m \<noteq> i" "bdirty (cores s ! m)" for m
      using dirty_cached [OF inv that(1,3)] ci that(2) binvD(4) [OF inv] unfolding cache_ok_def by metis
    have D: "{m. m < NBUF \<and> bdirty (cores t ! m)} = {m. m < NBUF \<and> bdirty (cores s ! m)} - {i}"
      using k by (auto split: if_splits)
    have "pinned t = (\<lambda>m. blockno (cores s ! m)) ` ({m. m < NBUF \<and> bdirty (cores s ! m)} - {i})"
      unfolding pinned_def D using k by (intro image_cong) auto
    also have "\<dots> = pinned s - {bkey s i}" unfolding pinned_def using o1 bi(2) by auto
    finally show ?thesis .
  qed
  ultimately show ?thesis using t by (auto simp: fun_eq_iff)
qed

lemma brelse_contract:
  assumes inv: "binv p H s" and i: "i \<in> H"
    and data: "bkey s i \<in> pinned s \<or> blk s (bkey s i) = disk s ! unat (bkey s i)"
  shows "\<exists>t. brelse i s = Inr t \<and> binv p (H - {i}) t \<and> bframe s t \<and> disk t = disk s \<and> dwrites t = dwrites s \<and>
    blk t = blk s \<and> pinned t = pinned s \<and> bkey t = bkey s"
proof -
  note h = held_buf [OF inv i]
  have ci: "cached (bkey s i) (cores s) i" using h by (simp add: cached_def bkey_def)
  have bi: "blk s (bkey s i) = bdata (cores s ! i)" "blockno (cores s ! i) = bkey s i"
    using blk_cached [OF inv ci] h(1) by (simp_all add: bkey_def)
  have "bdirty (cores s ! i)" if pin: "bkey s i \<in> pinned s"
  proof -
    obtain m where m: "m < NBUF" "bdirty (cores s ! m)" "blockno (cores s ! m) = bkey s i"
      using pin by (auto simp: pinned_def)
    then have "m = i" using dirty_cached [OF inv m(1,2)] ci binvD(4) [OF inv] unfolding cache_ok_def by metis
    then show ?thesis using m by simp
  qed
  then have "bdirty (cores s ! i) \<or> bdata (cores s ! i) = disk s ! unat (blockno (cores s ! i))"
    using data bi by auto
  then obtain t where t: "brelse i s = Inr t" "binv p (H - {i}) t" "bframe s t" "disk t = disk s"
      "dwrites t = dwrites s" "cores t = cores s" using brelse_spec [OF inv i] by metis
  moreover have "blk t = blk s" "pinned t = pinned s" "bkey t = bkey s"
    unfolding blk_def [abs_def] pinned_def bkey_def [abs_def] t(4,6) by simp_all
  ultimately show ?thesis by blast
qed

lemma blk_clean:
  assumes inv: "binv p H s" and b: "b \<notin> pinned s" "\<forall>i\<in>H. bkey s i \<noteq> b"
  shows "blk s b = disk s ! unat b"
proof (cases "\<exists>i. cached b (cores s) i")
  case True
  then obtain i where i: "cached b (cores s) i" by blast
  then have "i < NBUF" "i \<notin> H" using b(2) by (auto simp: cached_def bkey_def)
  moreover have "\<not> bdirty (cores s ! i)" using b(1) i by (auto simp: pinned_def cached_def)
  moreover have "core_ok (i \<in> H) (cores s ! i) (disk s)" using binvD(4) [OF inv] \<open>i < NBUF\<close> unfolding cache_ok_def by blast
  ultimately have "bdata (cores s ! i) = disk s ! unat b" using i by (auto simp: core_ok_def cached_def)
  then show ?thesis using blk_cached [OF inv i] by simp
qed (simp add: blk_uncached)

lemma blk_length:
  assumes inv: "binv p H s" and b: "unat b < length (disk s)"
  shows "length (blk s b) = BSIZE"
proof (cases "\<exists>i. cached b (cores s) i")
  case True
  then obtain i where i: "cached b (cores s) i" by blast
  then have "core_ok (i \<in> H) (cores s ! i) (disk s)"
    using binvD(4) [OF inv] cached_range [OF i] unfolding cache_ok_def by blast
  then show ?thesis using blk_cached [OF inv i] by (simp add: core_ok_def)
next
  case False
  then show ?thesis using binvD(4) [OF inv] b by (simp add: blk_uncached cache_ok_def)
qed

interpretation bs: block_store "bread 1" bwrite brelse bufdata set_bufdata "binv p" bkey blk pinned disk dwrites bframe
  for p
proof unfold_locales
  show "bufdata i s = blk s (bkey s i)" if "binv p H s" "i \<in> H" for H i and s :: "'a kbio_scheme"
  proof -
    note h = held_buf [OF that]
    have "cached (bkey s i) (cores s) i" using h by (simp add: cached_def bkey_def)
    then show ?thesis using blk_cached [OF that(1)] binvD(3) [OF that(1)] h(1) by (simp add: nth_cores)
  qed
  show "unat (bkey s i) < length (disk s)" if "binv p H s" "i \<in> H" for H i and s :: "'a kbio_scheme"
    using held_buf [OF that] by (simp add: bkey_def)
qed (rule bread_contract setd_contract bwrite_contract brelse_contract blk_clean blk_length bframe_trans; assumption)+

end
