(* ===== verification/Log_Facts.thy ===== *)
theory Log_Facts
  imports Log Block_Store
begin

text \<open>
  Commit and recovery as sequences of block writes, on top of the contract of the buffer cache.
\<close>

section \<open>Sequences of writes\<close>

definition apply_writes :: "(32 word \<times> byte list) list \<Rightarrow> byte list list \<Rightarrow> byte list list" where
  "apply_writes ws d = foldl (\<lambda>d (b, x). d[unat b := x]) d ws"

definition upd_blk :: "(32 word \<times> byte list) list \<Rightarrow> (32 word \<Rightarrow> byte list) \<Rightarrow> 32 word \<Rightarrow> byte list" where
  "upd_blk ws f = foldl (\<lambda>f (b, x). f(b := x)) f ws"

lemma apply_writes_simps [simp]:
  "apply_writes [] d = d" "apply_writes ((b, x) # ws) d = apply_writes ws (d[unat b := x])"
  "apply_writes (ws @ vs) d = apply_writes vs (apply_writes ws d)"
  by (simp_all add: apply_writes_def)

lemma upd_blk_simps [simp]:
  "upd_blk [] f = f" "upd_blk ((b, x) # ws) f = upd_blk ws (f(b := x))"
  "upd_blk (ws @ vs) f = upd_blk vs (upd_blk ws f)"
  by (simp_all add: upd_blk_def)

lemma length_apply_writes [simp]: "length (apply_writes ws d) = length d"
  by (induction ws arbitrary: d) auto

lemma apply_writes_other: "b \<notin> fst ` set ws \<Longrightarrow> apply_writes ws d ! unat b = d ! unat b"
proof (induction ws arbitrary: d)
  case (Cons w ws)
  obtain c x where w: "w = (c, x)" by (cases w)
  then have "unat c \<noteq> unat b" using Cons.prems by (auto simp: word_unat_eq_iff)
  then show ?case using Cons w by simp
qed simp

lemma apply_writes_at:
  "distinct (map fst ws) \<Longrightarrow> (b, x) \<in> set ws \<Longrightarrow> unat b < length d \<Longrightarrow> apply_writes ws d ! unat b = x"
proof (induction ws arbitrary: d)
  case (Cons w ws)
  obtain c y where w: "w = (c, y)" by (cases w)
  show ?case
  proof (cases "b = c")
    case True
    then have "b \<notin> fst ` set ws" using Cons.prems(1) w by (simp add: image_set [symmetric])
    moreover from this have "x = y" using Cons.prems(2) w True by force
    ultimately show ?thesis using Cons.prems(3) True w by (simp add: apply_writes_other)
  next
    case False
    then show ?thesis using Cons w by simp
  qed
qed simp

lemma apply_writes_length:
  "\<forall>x \<in> set d. length x = n \<Longrightarrow> \<forall>(b, x) \<in> set ws. length x = n \<Longrightarrow> \<forall>x \<in> set (apply_writes ws d). length x = n"
proof (induction ws arbitrary: d)
  case (Cons w ws)
  obtain c y where w: "w = (c, y)" by (cases w)
  have "\<forall>x \<in> set (d[unat c := y]). length x = n"
    using Cons.prems w set_update_subset_insert [of d "unat c" y] by auto
  then show ?case using Cons w by simp
qed simp

lemma upd_blk_other: "b \<notin> fst ` set ws \<Longrightarrow> upd_blk ws f b = f b"
  by (induction ws arbitrary: f) auto

lemma upd_blk_at: "distinct (map fst ws) \<Longrightarrow> (b, x) \<in> set ws \<Longrightarrow> upd_blk ws f b = x"
proof (induction ws arbitrary: f)
  case (Cons w ws)
  obtain c y where w: "w = (c, y)" by (cases w)
  show ?case
  proof (cases "b = c")
    case True
    then have "b \<notin> fst ` set ws" using Cons.prems(1) w by (simp add: image_set [symmetric])
    moreover from this have "x = y" using Cons.prems(2) w True by force
    ultimately show ?thesis using True w by (simp add: upd_blk_other)
  next
    case False
    then show ?thesis using Cons w by simp
  qed
qed simp

text \<open>A run of the cache that leads from \<open>s\<close> to \<open>t\<close> by the writes \<open>ws\<close>.\<close>

definition writes :: "nat \<Rightarrow> 'a kbio_scheme \<Rightarrow> 'a kbio_scheme \<Rightarrow> (32 word \<times> byte list) list \<Rightarrow> bool" where
  "writes p s t ws \<longleftrightarrow> binv p {} t \<and> bframe s t \<and> disk t = apply_writes ws (disk s) \<and> dwrites t = dwrites s @ ws \<and>
     blk t = upd_blk ws (blk s) \<and> pinned t = pinned s - fst ` set ws"

lemma writes_refl: "binv p {} s \<Longrightarrow> writes p s s []"
  by (simp add: writes_def)

lemma writes_trans: "writes p s t ws \<Longrightarrow> writes p t u vs \<Longrightarrow> writes p s u (ws @ vs)"
  unfolding writes_def using bframe_trans [of s t u] by auto

lemma writesD:
  assumes "writes p s t ws"
  shows "binv p {} t" "bframe s t" "disk t = apply_writes ws (disk s)" "dwrites t = dwrites s @ ws"
    "blk t = upd_blk ws (blk s)" "pinned t = pinned s - fst ` set ws"
  using assms by (simp_all add: writes_def)

lemma bframe_log:
  assumes "bframe s (t :: 'a klog_scheme)"
  shows "ldev t = ldev s" "lstart t = lstart s" "lhn t = lhn s" "lhblock t = lhblock s" "lsize t = lsize s"
    "outstanding t = outstanding s" "committing t = committing s" "log_lock t = log_lock s"
proof -
  have e: "t\<lparr>bufs := bufs s, disk := disk s, dwrites := dwrites s, ptable := ptable s\<rparr> = s"
    using assms by (simp add: bframe_def)
  show "ldev t = ldev s" "lstart t = lstart s" "lhn t = lhn s" "lhblock t = lhblock s" "lsize t = lsize s"
    "outstanding t = outstanding s" "committing t = committing s" "log_lock t = log_lock s"
    by (subst e [symmetric], simp)+
qed

section \<open>The areas of a transaction\<close>

definition logblk :: "32 word \<Rightarrow> nat \<Rightarrow> 32 word" where
  "logblk st k = st + of_nat k + 1"

text \<open>
  \<open>log_area n st d\<close>: the header and \<open>n\<close> log blocks lie on the disk. \<open>homes bs n st d\<close>: the blocks \<open>bs\<close>
  are distinct blocks of the disk outside of that area.
\<close>

definition log_area :: "nat \<Rightarrow> 32 word \<Rightarrow> byte list list \<Rightarrow> bool" where
  "log_area n st d \<longleftrightarrow> unat st + n < length d \<and> unat st + n < 4294967296"

definition in_log :: "nat \<Rightarrow> 32 word \<Rightarrow> 32 word \<Rightarrow> bool" where
  "in_log n st b \<longleftrightarrow> unat st \<le> unat b \<and> unat b \<le> unat st + n"

definition homes :: "32 word list \<Rightarrow> nat \<Rightarrow> 32 word \<Rightarrow> byte list list \<Rightarrow> bool" where
  "homes bs n st d \<longleftrightarrow> distinct bs \<and> (\<forall>b \<in> set bs. unat b < length d \<and> \<not> in_log n st b)"

lemma unat_logblk:
  assumes "log_area n st d" "k < n"
  shows "unat (logblk st k) = unat st + k + 1"
proof -
  have "unat st + k + 1 < 4294967296" using assms by (simp add: log_area_def)
  moreover from this have "unat (of_nat k :: 32 word) = k" by (simp add: unat_of_nat take_bit_nat_eq_self)
  ultimately show ?thesis by (simp add: logblk_def unat_word_ariths)
qed

lemma logblk_area:
  assumes "log_area n st d" "k < n"
  shows "unat (logblk st k) < length d" "in_log n st (logblk st k)" "logblk st k \<noteq> st"
  using assms unat_logblk [OF assms] by (auto simp: log_area_def in_log_def word_unat_eq_iff)

lemma logblk_inj: "log_area n st d \<Longrightarrow> k < n \<Longrightarrow> l < n \<Longrightarrow> logblk st k = logblk st l \<Longrightarrow> k = l"
  using unat_logblk [of n st d k] unat_logblk [of n st d l] by (metis add_left_imp_eq add_right_imp_eq)

lemma homes_nth: "homes bs n st d \<Longrightarrow> j < length bs \<Longrightarrow> unat (bs ! j) < length d \<and> \<not> in_log n st (bs ! j)"
  by (simp add: homes_def)

lemma in_log_start: "in_log n st st"
  by (simp add: in_log_def)

section \<open>Copying blocks\<close>

lemma copy_block:
  assumes i: "binv p {} s" "ldev s = 1" and ab: "a \<noteq> b" "unat a < length (disk s)" "unat b < length (disk s)"
    and room: "a \<in> pinned s \<or> card (pinned s) < NBUF" "b \<in> pinned s \<or> card (pinned s) + 1 < NBUF"
  obtains x y t u v w where "bread 1 a s = Inr (x, t)" "bread 1 b t = Inr (y, u)" "bframe s t" "bframe s u"
    "bnd (bwrite y (set_bufdata y (bufdata x u) u)) (\<lambda>s. bnd (brelse x s) (\<lambda>s. brelse y s)) = Inr v"
    "writes p s v [(b, blk s a)]"
    "bnd (bwrite x (set_bufdata x (bufdata y u) u)) (\<lambda>s. bnd (brelse y s) (\<lambda>s. brelse x s)) = Inr w"
    "writes p s w [(a, blk s b)]"
proof -
  obtain x y t u where u: "bread 1 a s = Inr (x, t)" "bread 1 b t = Inr (y, u)" "x \<noteq> y" "binv p {x, y} u"
      "bframe s u" "disk u = disk s" "dwrites u = dwrites s" "blk u = blk s" "pinned u = pinned s"
      "bkey u x = a" "bkey u y = b"
    by (rule bs.rd2 [OF i(1) ab room])
  have ft: "bframe s t" using bs.rd_ok [OF i(1) ab(2)] room(1) u(1) by auto
  have ca: "a \<in> pinned u \<or> blk u a = disk u ! unat a" and cb: "b \<in> pinned u \<or> blk u b = disk u ! unat b"
    using bs.clean [OF i(1), of a] bs.clean [OF i(1), of b] u by auto
  obtain v where v: "bnd (bwrite y (set_bufdata y (bufdata x u) u)) (\<lambda>s. bnd (brelse x s) (\<lambda>s. brelse y s)) = Inr v"
      "binv p {} v" "bframe u v" "disk v = (disk u)[unat b := blk u a]" "dwrites v = dwrites u @ [(b, blk u a)]"
      "blk v = (blk u)(b := blk u a)" "pinned v = pinned u - {b}"
    by (rule bs.copy_held [OF u(4,3,10,11) ab(1) ca])
  have "binv p {y, x} u" using u(4) by (simp add: insert_commute)
  then obtain w where w: "bnd (bwrite x (set_bufdata x (bufdata y u) u)) (\<lambda>s. bnd (brelse y s) (\<lambda>s. brelse x s)) = Inr w"
      "binv p {} w" "bframe u w" "disk w = (disk u)[unat a := blk u b]" "dwrites w = dwrites u @ [(a, blk u b)]"
      "blk w = (blk u)(a := blk u b)" "pinned w = pinned u - {a}"
    by (rule bs.copy_held [OF _ u(3) [symmetric] u(11,10) ab(1) [symmetric] cb])
  have "writes p s v [(b, blk s a)]" "writes p s w [(a, blk s b)]"
    unfolding writes_def using v w u bframe_trans [OF u(5) v(3)] bframe_trans [OF u(5) w(3)] by simp_all
  then show thesis using that [OF u(1,2) ft u(5) v(1) _ w(1)] by simp
qed

section \<open>The loops of the log\<close>

lemma room_diff: "card A < n \<Longrightarrow> card (A - {x}) < n"
  by (cases "finite A") (auto intro: le_less_trans card_Diff1_le)

lemma bnd_assoc3:
  "bnd a (\<lambda>s. bnd (f s) (\<lambda>s. bnd (g s) h)) = bnd (bnd a (\<lambda>s. bnd (f s) g)) h"
  by (simp add: bnd_def split: sum.splits)

lemma write_log_step:
  assumes "bread (ldev s) (lstart s + of_nat k + 1) s = Inr (x, u)" "bread (ldev u) (lhblock u ! k) u = Inr (y, v)"
    and "bnd (bwrite x (set_bufdata x (bufdata y v) v)) (\<lambda>s. bnd (brelse y s) (\<lambda>s. brelse x s)) = Inr w"
  shows "write_log_loop (Suc m) k s = write_log_loop m (Suc k) w"
  using assms by (simp add: bnd_assoc3)

lemma install_trans_step:
  assumes "bread (ldev s) (lstart s + of_nat k + 1) s = Inr (x, u)" "bread (ldev u) (lhblock u ! k) u = Inr (y, v)"
    and "bnd (bwrite y (set_bufdata y (bufdata x v) v)) (\<lambda>s. bnd (brelse x s) (\<lambda>s. brelse y s)) = Inr w"
  shows "install_trans_loop (Suc m) k s = install_trans_loop m (Suc k) w"
  using assms by (simp add: bnd_assoc3)

lemma write_log_loop_spec:
  assumes "k + m = n" "binv p {} s" "ldev s = 1" "lstart s = st" "log_area n st (disk s)" "homes bs n st (disk s)"
    and "\<forall>j<n. lhblock s ! j = bs ! j" "length bs = n" "set bs \<subseteq> pinned s" "card (pinned s) < NBUF"
  shows "\<exists>t. write_log_loop m k s = Inr t \<and> writes p s t (map (\<lambda>j. (logblk st j, blk s (bs ! j))) [k..<n])"
  using assms
proof (induction m arbitrary: k s)
  case 0
  then show ?case using writes_refl by auto
next
  case (Suc m)
  have k: "k < n" using Suc.prems(1) by simp
  note lb = logblk_area [OF Suc.prems(5) k]
  have hk: "lhblock s ! k = bs ! k" "bs ! k \<in> pinned s" "unat (bs ! k) < length (disk s)" "\<not> in_log n st (bs ! k)"
    using Suc.prems(6-9) k by (auto simp: homes_def)
  have ne: "logblk st k \<noteq> bs ! k" using lb(2) hk(4) by auto
  obtain x y u v w where u: "bread 1 (logblk st k) s = Inr (x, u)" "bread 1 (bs ! k) u = Inr (y, v)"
      "bframe s u" "bnd (bwrite x (set_bufdata x (bufdata y v) v)) (\<lambda>s. bnd (brelse y s) (\<lambda>s. brelse x s)) = Inr w"
      "writes p s w [(logblk st k, blk s (bs ! k))]"
    by (rule copy_block [OF Suc.prems(2,3) ne lb(1) hk(3) disjI2 [OF Suc.prems(10)] disjI1 [OF hk(2)]])
  note fu = bframe_log [OF u(3)] and w = writesD [OF u(5)] and fw = bframe_log [OF writesD(2) [OF u(5)]]
  have out: "bs ! j \<noteq> logblk st k" if "j < n" for j
    using homes_nth [OF Suc.prems(6), of j] Suc.prems(8) that lb(2) by auto
  have "logblk st k \<notin> set bs" using out Suc.prems(8) by (metis in_set_conv_nth)
  then have sub: "set bs \<subseteq> pinned w" using w(6) Suc.prems(9) by auto
  have step: "write_log_loop (Suc m) k s = write_log_loop m (Suc k) w"
    by (rule write_log_step [where u = u, OF _ _ u(4)]) (use u(1,2) fu Suc.prems(3,4) hk(1) in \<open>simp_all add: logblk_def\<close>)
  have area: "log_area n st (disk w)" "homes bs n st (disk w)"
    using Suc.prems(5,6) w(3) by (simp_all add: log_area_def homes_def)
  have "card (pinned w) < NBUF" using room_diff [OF Suc.prems(10)] w(6) by simp
  then obtain t where t: "write_log_loop m (Suc k) w = Inr t"
      "writes p w t (map (\<lambda>j. (logblk st j, blk w (bs ! j))) [Suc k..<n])"
    using Suc.IH [of "Suc k" w] Suc.prems fw w(1) area sub by auto
  have "blk w (bs ! j) = blk s (bs ! j)" if "j < n" for j using w(5) out [OF that] by simp
  then have eq: "map (\<lambda>j. (logblk st j, blk w (bs ! j))) [Suc k..<n] = map (\<lambda>j. (logblk st j, blk s (bs ! j))) [Suc k..<n]"
    by simp
  then show ?case using t(1) step writes_trans [OF u(5) t(2) [unfolded eq]] k by (simp add: upt_conv_Cons)
qed

lemma install_trans_loop_spec:
  assumes "k + m = n" "binv p {} s" "ldev s = 1" "lstart s = st" "log_area n st (disk s)" "homes bs n st (disk s)"
    and "\<forall>j<n. lhblock s ! j = bs ! j" "length bs = n" "card (pinned s) < NBUF"
    and "\<forall>j<n. k \<le> j \<longrightarrow> bs ! j \<in> pinned s \<or> card (pinned s) + 1 < NBUF"
  shows "\<exists>t. install_trans_loop m k s = Inr t \<and> writes p s t (map (\<lambda>j. (bs ! j, blk s (logblk st j))) [k..<n])"
  using assms
proof (induction m arbitrary: k s)
  case 0
  then show ?case using writes_refl by auto
next
  case (Suc m)
  have k: "k < n" using Suc.prems(1) by simp
  note lb = logblk_area [OF Suc.prems(5) k]
  have hk: "lhblock s ! k = bs ! k" "unat (bs ! k) < length (disk s)" "\<not> in_log n st (bs ! k)"
    "bs ! k \<in> pinned s \<or> card (pinned s) + 1 < NBUF"
    using Suc.prems(6-10) k by (auto simp: homes_def)
  have ne: "logblk st k \<noteq> bs ! k" using lb(2) hk(3) by auto
  obtain x y u v w where u: "bread 1 (logblk st k) s = Inr (x, u)" "bread 1 (bs ! k) u = Inr (y, v)"
      "bframe s u" "bnd (bwrite y (set_bufdata y (bufdata x v) v)) (\<lambda>s. bnd (brelse x s) (\<lambda>s. brelse y s)) = Inr w"
      "writes p s w [(bs ! k, blk s (logblk st k))]"
    by (rule copy_block [OF Suc.prems(2,3) ne lb(1) hk(2) disjI2 [OF Suc.prems(9)] hk(4)])
  note fu = bframe_log [OF u(3)] and w = writesD [OF u(5)] and fw = bframe_log [OF writesD(2) [OF u(5)]]
  have out: "bs ! k \<noteq> logblk st j" if "j < n" for j
    using hk(3) logblk_area(2) [OF Suc.prems(5) that] by auto
  have step: "install_trans_loop (Suc m) k s = install_trans_loop m (Suc k) w"
    by (rule install_trans_step [where u = u, OF _ _ u(4)]) (use u(1,2) fu Suc.prems(3,4) hk(1) in \<open>simp_all add: logblk_def\<close>)
  have area: "log_area n st (disk w)" "homes bs n st (disk w)"
    using Suc.prems(5,6) w(3) by (simp_all add: log_area_def homes_def)
  have card: "card (pinned w) < NBUF" using room_diff [OF Suc.prems(9)] w(6) by simp
  have room: "bs ! j \<in> pinned w \<or> card (pinned w) + 1 < NBUF" if "j < n" "Suc k \<le> j" for j
  proof -
    have "bs ! j \<noteq> bs ! k" using Suc.prems(6,8) that k by (auto simp: homes_def nth_eq_iff_index_eq)
    moreover have "bs ! j \<in> pinned s \<or> card (pinned s) + 1 < NBUF" using Suc.prems(10) that by simp
    ultimately show ?thesis using w(6) room_diff [of "pinned s" "NBUF - 1" "bs ! k"] by auto
  qed
  obtain t where t: "install_trans_loop m (Suc k) w = Inr t"
      "writes p w t (map (\<lambda>j. (bs ! j, blk w (logblk st j))) [Suc k..<n])"
    using Suc.IH [of "Suc k" w] Suc.prems(1-8) fw w(1) area card room by auto
  have "blk w (logblk st j) = blk s (logblk st j)" if "j < n" for j using w(5) out [OF that] by simp
  then have eq: "map (\<lambda>j. (bs ! j, blk w (logblk st j))) [Suc k..<n] = map (\<lambda>j. (bs ! j, blk s (logblk st j))) [Suc k..<n]"
    by simp
  then show ?case using t(1) step writes_trans [OF u(5) t(2) [unfolded eq]] k by (simp add: upt_conv_Cons)
qed

section \<open>The header\<close>

definition head_data :: "32 word list \<Rightarrow> byte list \<Rightarrow> byte list" where
  "head_data bs d = put_blocks bs 0 (put32 d 0 (of_nat (length bs)))"

lemma length_put_blocks: "4 + 4 * (i + length bs) \<le> length d \<Longrightarrow> length (put_blocks bs i d) = length d"
  by (induction bs arbitrary: i d) auto

lemma get32_put_blocks_before:
  "4 + 4 * (i + length bs) \<le> length d \<Longrightarrow> j + 4 \<le> 4 + 4 * i \<Longrightarrow> get32 (put_blocks bs i d) j = get32 d j"
  by (induction bs arbitrary: i d) (auto simp: get32_put32_other)

lemma get32_put_blocks:
  "4 + 4 * (i + length bs) \<le> length d \<Longrightarrow> k < length bs \<Longrightarrow> get32 (put_blocks bs i d) (4 + 4 * (i + k)) = bs ! k"
proof (induction bs arbitrary: i d k)
  case (Cons b bs)
  show ?case
  proof (cases k)
    case 0
    then show ?thesis using Cons.prems by (simp add: get32_put_blocks_before)
  next
    case (Suc l)
    then show ?thesis using Cons.IH [of "Suc i" "put32 d (4 + 4 * i) b" l] Cons.prems by (simp add: add.assoc)
  qed
qed simp

lemma head_data_facts:
  assumes "length d = BSIZE" "length bs \<le> LOGSIZE"
  shows "length (head_data bs d) = BSIZE" "sint (get32 (head_data bs d) 0) = int (length bs)"
    "k < length bs \<Longrightarrow> get32 (head_data bs d) (4 + 4 * k) = bs ! k"
proof -
  show "length (head_data bs d) = BSIZE" using assms by (simp add: head_data_def length_put_blocks)
  have "get32 (head_data bs d) 0 = of_nat (length bs)"
    using assms by (simp add: head_data_def get32_put_blocks_before)
  moreover have "sint (of_nat (length bs) :: 32 word) = int (length bs)"
    using assms(2) by (simp add: signed_of_nat signed_take_bit_int_eq_self)
  ultimately show "sint (get32 (head_data bs d) 0) = int (length bs)" by simp
  show "get32 (head_data bs d) (4 + 4 * k) = bs ! k" if "k < length bs"
    using get32_put_blocks [of 0 bs "put32 d 0 (of_nat (length bs))" k] assms that by (simp add: head_data_def)
qed

end
