(* ===== verification/Log_Crash.thy ===== *)
theory Log_Crash
  imports Log_Facts
begin

text \<open>
  The writes of \<^verbatim>\<open>commit\<close> and of \<^verbatim>\<open>recover_from_log\<close> in their order, and what recovery makes of the disk
  after a crash between any two of them.
\<close>

section \<open>The header in memory\<close>

definition set_head :: "int \<Rightarrow> 32 word list \<Rightarrow> 'a klog_scheme \<Rightarrow> 'a klog_scheme" where
  "set_head n bs s = s\<lparr>lhn := n, lhblock := bs\<rparr>"

lemma cores_set_head [simp]: "cores (set_head n bs s) = cores s"
  by (simp add: cores_def set_head_def)

lemma set_head_facts [simp]:
  "disk (set_head n bs s) = disk s" "dwrites (set_head n bs s) = dwrites s" "blk (set_head n bs s) = blk s"
  "pinned (set_head n bs s) = pinned s" "bkey (set_head n bs s) = bkey s" "binv p H (set_head n bs s) = binv p H s"
  "ldev (set_head n bs s) = ldev s" "lstart (set_head n bs s) = lstart s" "lhn (set_head n bs s) = n"
  "lhblock (set_head n bs s) = bs" "set_head n bs (set_head m cs s) = set_head n bs s"
  "set_head (lhn s) (lhblock s) s = s"
  by (simp_all add: binv_def quiet_def blk_def pinned_def bkey_def fun_eq_iff cores_def set_head_def split: option.split)

lemma bframe_set_head: "bframe s t \<Longrightarrow> bframe (set_head n bs s) (set_head n bs t)"
proof -
  assume a: "bframe s t"
  let ?f = "\<lambda>t. t\<lparr>bufs := bufs s, disk := disk s, dwrites := dwrites s, ptable := ptable s\<rparr>"
  have "?f (set_head n bs t) = set_head n bs (?f t)" by (simp add: set_head_def)
  also have "?f t = s" using a by (simp add: bframe_def)
  finally have "?f (set_head n bs t) = set_head n bs s" .
  moreover have "map pid (ptable t) = map pid (ptable s)" using a by (simp add: bframe_def)
  ultimately show ?thesis unfolding bframe_def by (simp add: set_head_def)
qed

lemma writes_set_head: "writes p s t ws \<Longrightarrow> writes p (set_head n bs s) (set_head n bs t) ws"
  by (simp add: writes_def bframe_set_head)

lemma write_head_spec:
  assumes i: "binv p {} s" "ldev s = 1" "unat (lstart s) < length (disk s)" "card (pinned s) < NBUF"
    and n: "lhn s = int (length bs)" "length bs \<le> LOGSIZE" "take (length bs) (lhblock s) = bs"
  shows "\<exists>t. write_head s = Inr t \<and> writes p s t [(lstart s, head_data bs (blk s (lstart s)))]"
proof -
  let ?st = "lstart s"
  have len: "length (blk s ?st) = BSIZE" by (rule bs.block_length [OF i(1,3)])
  obtain x t u where t: "bread 1 ?st s = Inr (x, t)" "bufdata x t = blk s ?st" "bframe s t"
      "bnd (bwrite x (set_bufdata x (head_data bs (bufdata x t)) t)) (\<lambda>s. brelse x s) = Inr u"
      "binv p {} u" "bframe s u" "disk u = (disk s)[unat ?st := head_data bs (blk s ?st)]"
      "dwrites u = dwrites s @ [(?st, head_data bs (blk s ?st))]"
      "blk u = (blk s)(?st := head_data bs (blk s ?st))" "pinned u = pinned s - {?st}"
    by (rule bs.rewrite_block [where f = "head_data bs", OF i(1,3) disjI2 [OF i(4)] head_data_facts(1) [OF len n(2)]])
  note f = bframe_log [OF t(3)]
  have "write_head s = Inr u"
    using t(1,4) f i(2) n by (simp add: write_head_def Let_def head_data_def)
  then show ?thesis using t by (simp add: writes_def)
qed

lemma read_head_spec:
  assumes i: "binv p {} s" "ldev s = 1" "unat (lstart s) < length (disk s)" "pinned s = {}"
    and n: "sint (get32 (disk s ! unat (lstart s)) 0) = int n" "n \<le> LOGSIZE"
  shows "\<exists>t. read_head s = Inr t \<and> lhn t = int n \<and>
    take n (lhblock t) = map (\<lambda>i. get32 (disk s ! unat (lstart s)) (4 + 4 * i)) [0..<n] \<and>
    writes p (set_head (lhn t) (lhblock t) s) t []"
proof -
  let ?st = "lstart s" and ?d = "disk s ! unat (lstart s)"
  have c: "blk s ?st = ?d" by (rule bs.clean [OF i(1)]) (simp_all add: i(4))
  obtain x t where t: "bread 1 ?st s = Inr (x, t)" "binv p {x} t" "bframe s t" "disk t = disk s" "dwrites t = dwrites s"
      "blk t = blk s" "pinned t = pinned s" "bkey t = (bkey s)(x := ?st)"
    using bs.rd_ok [OF i(1,3)] i(4) by auto
  have g: "bufdata x t = ?d" using bs.getd_ok [OF t(2), of x] t(6,8) c by simp
  let ?bs = "map (\<lambda>i. get32 ?d (4 + 4 * i)) [0..<n] @ drop n (lhblock t)"
  let ?t = "set_head (int n) ?bs t"
  have "bkey ?t x \<in> pinned ?t \<or> blk ?t (bkey ?t x) = disk ?t ! unat (bkey ?t x)" using t c by simp
  then obtain u where u: "brelse x ?t = Inr u" "binv p {} u" "bframe ?t u" "disk u = disk s" "dwrites u = dwrites s"
      "blk u = blk s" "pinned u = pinned s"
    using bs.rls_ok [of p "{x}" ?t x] t by auto
  have f: "lhn u = int n" "lhblock u = ?bs" using bframe_log [OF u(3)] by simp_all
  have fr: "bframe (set_head (int n) ?bs s) u" by (rule bframe_trans [OF bframe_set_head [OF t(3)] u(3)])
  have "read_head s = brelse x ?t"
    using t(1) g i(2) n by (simp add: read_head_def Let_def set_head_def)
  moreover have "writes p (set_head (int n) ?bs s) u []" using u fr by (simp add: writes_def)
  ultimately show ?thesis using u(1) f by simp
qed

section \<open>Commit\<close>

definition txn :: "nat \<Rightarrow> 'a klog_scheme \<Rightarrow> bool" where
  "txn p s \<longleftrightarrow> (let n = nat (lhn s); bs = take n (lhblock s) in
     binv p {} s \<and> ldev s = 1 \<and> 0 < lhn s \<and> lhn s < int NBUF \<and> n \<le> length (lhblock s) \<and>
     log_area n (lstart s) (disk s) \<and> homes bs n (lstart s) (disk s) \<and> pinned s = set bs)"

definition log_writes :: "32 word list \<Rightarrow> 'a klog_scheme \<Rightarrow> (32 word \<times> byte list) list" where
  "log_writes bs s = map (\<lambda>j. (logblk (lstart s) j, blk s (bs ! j))) [0..<length bs]"

definition home_writes :: "32 word list \<Rightarrow> 'a klog_scheme \<Rightarrow> (32 word \<times> byte list) list" where
  "home_writes bs s = map (\<lambda>j. (bs ! j, blk s (bs ! j))) [0..<length bs]"

definition commit_writes :: "'a klog_scheme \<Rightarrow> (32 word \<times> byte list) list" where
  "commit_writes s = (let st = lstart s; bs = take (nat (lhn s)) (lhblock s); h = head_data bs (blk s st) in
     log_writes bs s @ [(st, h)] @ home_writes bs s @ [(st, head_data [] h)])"

lemma fst_log_writes: "fst ` set (log_writes bs s) = logblk (lstart s) ` {..<length bs}"
  by (auto simp: log_writes_def image_image)

lemma start_not_logged:
  assumes "log_area (length bs) st d" "lstart s = st"
  shows "st \<notin> fst ` set (log_writes bs s)"
proof
  assume "st \<in> fst ` set (log_writes bs s)"
  then obtain k where "k < length bs" "st = logblk st k" using assms(2) by (auto simp: fst_log_writes)
  then show False using logblk_area(3) [OF assms(1), of k] by simp
qed

lemma fst_home_writes: "fst ` set (home_writes bs s) = set bs"
proof -
  have "fst ` set (home_writes bs s) = set (map ((!) bs) [0..<length bs])"
    by (simp add: home_writes_def image_image)
  also have "\<dots> = set bs" by (simp only: map_nth)
  finally show ?thesis .
qed

lemma finite_pinned: "finite (pinned s)"
  by (simp add: pinned_def)

lemma card_pinned_set: "pinned s = set bs \<Longrightarrow> length bs < NBUF \<Longrightarrow> card (pinned s) < NBUF"
  using card_length [of bs] by simp

lemma distinct_log_writes:
  assumes "log_area (length bs) (lstart s) d"
  shows "distinct (map fst (log_writes bs s))"
  using logblk_inj [OF assms] by (auto simp: log_writes_def distinct_map inj_on_def)

lemma distinct_home_writes: "distinct bs \<Longrightarrow> distinct (map fst (home_writes bs s))"
  by (auto simp: home_writes_def distinct_map inj_on_def nth_eq_iff_index_eq)

text \<open>The blocks go to the log, then the header names them.\<close>

lemma log_phase:
  assumes "binv p {} s" "ldev s = 1" "lstart s = st" "lhn s = int (length bs)" "length bs < NBUF"
    and "take (length bs) (lhblock s) = bs" "log_area (length bs) st (disk s)" "homes bs (length bs) st (disk s)"
    and "pinned s = set bs"
  shows "\<exists>t. bnd (write_log s) write_head = Inr t \<and> writes p s t (log_writes bs s @ [(st, head_data bs (blk s st))])"
proof -
  have card: "card (pinned s) < NBUF" using card_pinned_set assms(5,9) by blast
  have idx: "\<forall>j<length bs. lhblock s ! j = bs ! j" using assms(6) by (metis nth_take)
  obtain s1 where s1: "write_log_loop (length bs) 0 s = Inr s1" "writes p s s1 (log_writes bs s)"
    using write_log_loop_spec [of 0 "length bs" "length bs" p s st bs] assms idx card by (auto simp: log_writes_def)
  note w1 = writesD [OF s1(2)] and f1 = bframe_log [OF writesD(2) [OF s1(2)]]
  have "st \<notin> fst ` set (log_writes bs s)" by (rule start_not_logged [OF assms(7,3)])
  then have b1: "blk s1 st = blk s st" using w1(5) by (simp add: upd_blk_other)
  have "card (pinned s1) \<le> card (set bs)" using w1(6) assms(9) by (auto intro: card_mono)
  then have "card (pinned s1) < NBUF" using card assms(9) by simp
  then have "\<exists>t. write_head s1 = Inr t \<and> writes p s1 t [(lstart s1, head_data bs (blk s1 (lstart s1)))]"
    using write_head_spec [of p s1 bs] w1 f1 assms by (auto simp: log_area_def)
  then obtain s2 where s2: "write_head s1 = Inr s2" "writes p s1 s2 [(st, head_data bs (blk s st))]"
    using f1 b1 assms(3) by auto
  then show ?thesis using s1(1) assms(4) writes_trans [OF s1(2) s2(2)] by (auto simp: write_log_def)
qed

text \<open>The logged blocks go to their homes, then the header is cleared: the end of a commit and of a recovery.\<close>

lemma install_phase:
  assumes "binv p {} s" "ldev s = 1" "lstart s = st" "lhn s = int (length bs)" "take (length bs) (lhblock s) = bs"
    and "log_area (length bs) st (disk s)" "homes bs (length bs) st (disk s)"
    and "card (pinned s) < NBUF" "\<forall>b \<in> set bs. b \<in> pinned s \<or> card (pinned s) + 1 < NBUF"
  shows "\<exists>t. bnd (install_trans s) (\<lambda>s. write_head (s\<lparr>lhn := 0\<rparr>)) = Inr t \<and>
    writes p (set_head 0 (lhblock s) s) t
      (map (\<lambda>j. (bs ! j, blk s (logblk st j))) [0..<length bs] @ [(st, head_data [] (blk s st))])"
proof -
  let ?ws = "map (\<lambda>j. (bs ! j, blk s (logblk st j))) [0..<length bs]"
  have idx: "\<forall>j<length bs. lhblock s ! j = bs ! j" using assms(5) by (metis nth_take)
  obtain s3 where s3: "install_trans_loop (length bs) 0 s = Inr s3" "writes p s s3 ?ws"
    using install_trans_loop_spec [of 0 "length bs" "length bs" p s st bs] assms idx by auto
  note w3 = writesD [OF s3(2)] and f3 = bframe_log [OF writesD(2) [OF s3(2)]]
  have "st \<notin> fst ` set ?ws" using assms(7) in_log_start [of "length bs" st] by (auto simp: homes_def)
  then have b3: "blk s3 st = blk s st" using w3(5) by (simp add: upd_blk_other)
  have "card (pinned s3) < NBUF"
    using assms(8) w3(6) card_mono [OF finite_pinned, of "pinned s3" s] by auto
  let ?s3 = "set_head 0 (lhblock s3) s3"
  obtain s4 where s4: "write_head ?s3 = Inr s4" "writes p ?s3 s4 [(lstart ?s3, head_data [] (blk ?s3 (lstart ?s3)))]"
    using write_head_spec [of p ?s3 "[]"] w3 f3 assms \<open>card (pinned s3) < NBUF\<close> by (auto simp: log_area_def)
  have "writes p (set_head 0 (lhblock s) s) s4 (?ws @ [(st, head_data [] (blk s st))])"
    using writes_trans [OF writes_set_head [OF s3(2), of 0 "lhblock s"]] s4(2) f3 b3 assms(3) by simp
  moreover have "write_head (s3\<lparr>lhn := 0\<rparr>) = Inr s4" using s4(1) by (simp add: set_head_def)
  ultimately show ?thesis using s3(1) assms(4) by (auto simp: install_trans_def)
qed

lemma blk_after_log:
  assumes "log_area (length bs) (lstart s) d" "j < length bs"
  shows "upd_blk (log_writes bs s @ [(lstart s, h)]) f (logblk (lstart s) j) = blk s (bs ! j)"
proof -
  have "(logblk (lstart s) j, blk s (bs ! j)) \<in> set (log_writes bs s)" using assms(2) by (auto simp: log_writes_def)
  then show ?thesis using upd_blk_at [OF distinct_log_writes [OF assms(1)]] logblk_area(3) [OF assms] by simp
qed

lemma txnD:
  assumes "txn p s" "bs = take (nat (lhn s)) (lhblock s)"
  shows "binv p {} s" "ldev s = 1" "lhn s = int (length bs)" "bs \<noteq> []" "length bs < NBUF"
    "take (length bs) (lhblock s) = bs" "log_area (length bs) (lstart s) (disk s)"
    "homes bs (length bs) (lstart s) (disk s)" "pinned s = set bs"
  using assms by (auto simp: txn_def Let_def min_def)

lemma commit_spec:
  assumes "txn p s"
  shows "\<exists>t. commit s = Inr t \<and> writes p (set_head 0 (lhblock s) s) t (commit_writes s)"
proof -
  define st bs where d: "st = lstart s" "bs = take (nat (lhn s)) (lhblock s)"
  note t = txnD [OF assms d(2)]
  let ?h = "head_data bs (blk s st)" and ?n = "length bs"
  obtain s1 s2 where s2: "write_log s = Inr s1" "write_head s1 = Inr s2" "writes p s s2 (log_writes bs s @ [(st, ?h)])"
    using log_phase [OF t(1,2) _ t(3,5,6) _ _ t(9), of st] t(7,8) by (auto simp: d(1) bnd_eq_Inr)
  note w2 = writesD [OF s2(3)] and f2 = bframe_log [OF writesD(2) [OF s2(3)]]
  have "set bs \<inter> fst ` set (log_writes bs s @ [(st, ?h)]) = {}"
    using t(8) logblk_area(2) [OF t(7)] in_log_start [of ?n st] by (auto simp: fst_log_writes homes_def d(1))
  then have p2: "pinned s2 = set bs" using w2(6) t(9) by blast
  have b2: "blk s2 st = ?h" "\<And>j. j < ?n \<Longrightarrow> blk s2 (logblk st j) = blk s (bs ! j)"
    using w2(5) blk_after_log [OF t(7)] by (simp_all add: d(1))
  have "card (pinned s2) < NBUF" using card_pinned_set t(5) p2 by blast
  then obtain s4 where s4: "bnd (install_trans s2) (\<lambda>s. write_head (s\<lparr>lhn := 0\<rparr>)) = Inr s4"
      "writes p (set_head 0 (lhblock s2) s2) s4
        (map (\<lambda>j. (bs ! j, blk s2 (logblk st j))) [0..<?n] @ [(st, head_data [] (blk s2 st))])"
    using install_phase [of p s2 st bs] w2(1,3) f2 t p2 by (auto simp: d(1) log_area_def homes_def)
  have "map (\<lambda>j. (bs ! j, blk s2 (logblk st j))) [0..<?n] = home_writes bs s"
    using b2(2) by (simp add: home_writes_def)
  then have "writes p (set_head 0 (lhblock s) s) s4 (commit_writes s)"
    using writes_trans [OF writes_set_head [OF s2(3), of 0 "lhblock s"]] s4(2) f2 b2(1)
    by (simp add: commit_writes_def Let_def d)
  moreover have "commit s = Inr s4"
    using s2(1,2) s4(1) t(3,4) by (simp add: commit_def)
  ultimately show ?thesis by blast
qed

lemma commit_writes_length:
  assumes "txn p s" "(b, x) \<in> set (commit_writes s)"
  shows "length x = BSIZE"
proof -
  define bs where bs: "bs = take (nat (lhn s)) (lhblock s)"
  note t = txnD [OF assms(1) bs]
  have "unat (lstart s) < length (disk s)" using t(7) by (simp add: log_area_def)
  then have "length (blk s (lstart s)) = BSIZE" by (rule bs.block_length [OF t(1)])
  then have "length (head_data bs (blk s (lstart s))) = BSIZE" "length (head_data [] (head_data bs (blk s (lstart s)))) = BSIZE"
    using head_data_facts(1) t(5) by simp_all
  moreover have "length (blk s (bs ! j)) = BSIZE" if "j < length bs" for j
    using bs.block_length [OF t(1)] homes_nth [OF t(8) that] by simp
  ultimately show ?thesis
    using assms(2) by (auto simp: commit_writes_def Let_def log_writes_def home_writes_def bs [symmetric])
qed

section \<open>Recovery\<close>

definition names :: "byte list \<Rightarrow> 32 word list \<Rightarrow> bool" where
  "names d bs \<longleftrightarrow> length bs \<le> LOGSIZE \<and> sint (get32 d 0) = int (length bs) \<and>
     map (\<lambda>i. get32 d (4 + 4 * i)) [0..<length bs] = bs"

lemma names_head_data: "length d = BSIZE \<Longrightarrow> length bs \<le> LOGSIZE \<Longrightarrow> names (head_data bs d) bs"
  by (auto simp: names_def head_data_facts intro: nth_equalityI)

lemma recover_spec:
  assumes i: "binv p {} r" "ldev r = 1" "pinned r = {}" and h: "names (disk r ! unat (lstart r)) bs"
    and a: "log_area (length bs) (lstart r) (disk r)" "homes bs (length bs) (lstart r) (disk r)"
  shows "\<exists>u. recover_from_log r = Inr u \<and> binv p {} u \<and> pinned u = {} \<and> lhn u = 0 \<and>
    disk u = apply_writes (map (\<lambda>j. (bs ! j, disk r ! unat (logblk (lstart r) j))) [0..<length bs] @
      [(lstart r, head_data [] (disk r ! unat (lstart r)))]) (disk r)"
proof -
  let ?st = "lstart r"
  have st: "unat ?st < length (disk r)" using a(1) by (simp add: log_area_def)
  have c: "blk r b = disk r ! unat b" for b by (rule bs.clean [OF i(1)]) (simp_all add: i(3))
  obtain t where t: "read_head r = Inr t" "lhn t = int (length bs)" "take (length bs) (lhblock t) = bs"
      "writes p (set_head (lhn t) (lhblock t) r) t []"
    using read_head_spec [OF i(1,2) st i(3), of "length bs"] h by (auto simp: names_def)
  note w = writesD [OF t(4)] and f = bframe_log [OF writesD(2) [OF t(4)]]
  have "\<exists>u. bnd (install_trans t) (\<lambda>s. write_head (s\<lparr>lhn := 0\<rparr>)) = Inr u \<and>
    writes p (set_head 0 (lhblock t) t) u
      (map (\<lambda>j. (bs ! j, blk t (logblk ?st j))) [0..<length bs] @ [(?st, head_data [] (blk t ?st))])"
    by (rule install_phase) (use w f t i a in simp_all)
  then obtain u where u: "bnd (install_trans t) (\<lambda>s. write_head (s\<lparr>lhn := 0\<rparr>)) = Inr u"
      "writes p (set_head 0 (lhblock t) t) u
        (map (\<lambda>j. (bs ! j, blk t (logblk ?st j))) [0..<length bs] @ [(?st, head_data [] (blk t ?st))])"
    by blast
  note wu = writesD [OF u(2)] and fu = bframe_log [OF writesD(2) [OF u(2)]]
  have "recover_from_log r = Inr u" using t(1) u(1) by (simp add: recover_from_log_def)
  moreover have "pinned u = {}" using wu(6) w(6) i(3) by simp
  ultimately show ?thesis using wu(1,3) fu(3) w(3,5) c by simp
qed

section \<open>Crashes\<close>

lemma take_commit_writes:
  assumes "lw = log_writes bs s" "hw = home_writes bs s" "length bs = n"
  shows "j \<le> n \<Longrightarrow> take j (lw @ [x] @ hw @ [y]) = take j lw"
    and "n < j \<Longrightarrow> j \<le> 2 * n + 1 \<Longrightarrow> take j (lw @ [x] @ hw @ [y]) = lw @ [x] @ take (j - n - 1) hw"
    and "2 * n + 1 < j \<Longrightarrow> take j (lw @ [x] @ hw @ [y]) = lw @ [x] @ hw @ [y]"
proof -
  have l: "length lw = n" "length hw = n" using assms by (simp_all add: log_writes_def home_writes_def)
  show "j \<le> n \<Longrightarrow> take j (lw @ [x] @ hw @ [y]) = take j lw" using l by simp
  show "n < j \<Longrightarrow> j \<le> 2 * n + 1 \<Longrightarrow> take j (lw @ [x] @ hw @ [y]) = lw @ [x] @ take (j - n - 1) hw"
    using l by (simp add: take_Cons' )
  show "2 * n + 1 < j \<Longrightarrow> take j (lw @ [x] @ hw @ [y]) = lw @ [x] @ hw @ [y]" using l by simp
qed

lemma recover_empty:
  assumes "binv p {} r" "ldev r = 1" "pinned r = {}" "unat (lstart r) < length (disk r)"
    and "names (disk r ! unat (lstart r)) []"
  shows "\<exists>u. recover_from_log r = Inr u \<and> (\<forall>b. b \<noteq> lstart r \<longrightarrow> disk u ! unat b = disk r ! unat b)"
proof -
  have "unat (lstart r) < 4294967296" using unsigned_less [of "lstart r"] by simp
  then obtain u where "recover_from_log r = Inr u"
      "disk u = apply_writes [(lstart r, head_data [] (disk r ! unat (lstart r)))] (disk r)"
    using recover_spec [OF assms(1-3), of "[]"] assms(4,5) by (auto simp: log_area_def homes_def)
  moreover have "b \<noteq> lstart r \<Longrightarrow> disk u ! unat b = disk r ! unat b" for b
    using calculation(2) by (simp add: word_unat_eq_iff)
  ultimately show ?thesis by blast
qed

text \<open>The disk once the header names the blocks, with any of the home blocks written.\<close>

lemma logged_disk:
  assumes t: "log_area (length bs) (lstart s) d" "homes bs (length bs) (lstart s) d"
    and ws: "set ws \<subseteq> set (home_writes bs s)"
    and c: "c = apply_writes (log_writes bs s @ [(lstart s, h)] @ ws) d"
  shows "c ! unat (lstart s) = h" "j < length bs \<Longrightarrow> c ! unat (logblk (lstart s) j) = blk s (bs ! j)"
    "\<not> in_log (length bs) (lstart s) b \<Longrightarrow> b \<notin> set bs \<Longrightarrow> c ! unat b = d ! unat b"
proof -
  let ?st = "lstart s" and ?n = "length bs"
  have sub: "fst ` set ws \<subseteq> set bs" using ws fst_home_writes [of bs s] by blast
  have st: "unat ?st < length d" using t(1) by (simp add: log_area_def)
  have out: "x \<notin> fst ` set ws" if "in_log ?n ?st x" for x using sub t(2) that by (auto simp: homes_def)
  show "c ! unat ?st = h" using c out [OF in_log_start] st by (simp add: apply_writes_other)
  show "c ! unat (logblk ?st j) = blk s (bs ! j)" if j: "j < ?n"
  proof -
    note lb = logblk_area [OF t(1) j]
    have "(logblk ?st j, blk s (bs ! j)) \<in> set (log_writes bs s)" using j by (auto simp: log_writes_def)
    then have "apply_writes (log_writes bs s) d ! unat (logblk ?st j) = blk s (bs ! j)"
      using apply_writes_at [OF distinct_log_writes [OF t(1)]] lb(1) by blast
    then show ?thesis using c out [OF lb(2)] lb(3) by (simp add: apply_writes_other word_unat_eq_iff)
  qed
  show "c ! unat b = d ! unat b" if b: "\<not> in_log ?n ?st b" "b \<notin> set bs"
  proof -
    have "b \<notin> fst ` set (log_writes bs s)" using b(1) logblk_area(2) [OF t(1)] by (auto simp: fst_log_writes)
    moreover have "b \<noteq> ?st" using b(1) in_log_start by blast
    moreover have "b \<notin> fst ` set ws" using sub b(2) by blast
    ultimately have "b \<notin> fst ` set (log_writes bs s @ [(lstart s, h)] @ ws)" by (simp add: image_Un)
    then show ?thesis unfolding c by (rule apply_writes_other)
  qed
qed

definition crashed :: "nat \<Rightarrow> byte list list \<Rightarrow> 'a klog_scheme \<Rightarrow> 'a klog_scheme \<Rightarrow> bool" where
  "crashed p d s r \<longleftrightarrow> binv p {} r \<and> pinned r = {} \<and> ldev r = 1 \<and> lstart r = lstart s \<and> disk r = d"

text \<open>What recovery leaves when the crash came after the header.\<close>

lemma recover_logged:
  assumes t: "txn q s" and bs: "bs = take (nat (lhn s)) (lhblock s)" and ws: "set ws \<subseteq> set (home_writes bs s)"
    and r: "crashed p (apply_writes (log_writes bs s @ [(lstart s, head_data bs (blk s (lstart s)))] @ ws) (disk s)) s r"
  shows "\<exists>u. recover_from_log r = Inr u \<and> (\<forall>b. \<not> in_log (length bs) (lstart s) b \<longrightarrow> disk u ! unat b = blk s b)"
proof -
  let ?st = "lstart s" and ?n = "length bs" and ?h = "head_data bs (blk s (lstart s))"
  note t = txnD [OF t bs]
  have c: "disk r = apply_writes (log_writes bs s @ [(?st, ?h)] @ ws) (disk s)" using r by (simp add: crashed_def)
  note d = logged_disk [OF t(7,8) ws c]
  have st: "unat ?st < length (disk s)" using t(7) by (simp add: log_area_def)
  have "names ?h bs" using names_head_data [OF bs.block_length [OF t(1) st]] t(5) by simp
  moreover have "log_area ?n ?st (disk r)" "homes bs ?n ?st (disk r)"
    using t(7,8) c by (simp_all add: log_area_def homes_def)
  ultimately obtain u where u: "recover_from_log r = Inr u"
      "disk u = apply_writes (map (\<lambda>j. (bs ! j, disk r ! unat (logblk ?st j))) [0..<?n] @
        [(?st, head_data [] (disk r ! unat ?st))]) (disk r)"
    using recover_spec [of p r bs] r d(1) by (auto simp: crashed_def)
  have hw: "map (\<lambda>j. (bs ! j, disk r ! unat (logblk ?st j))) [0..<?n] = home_writes bs s"
    using d(2) by (simp add: home_writes_def)
  have "disk u ! unat b = blk s b" if b: "\<not> in_log ?n ?st b" for b
  proof -
    have "unat b \<noteq> unat ?st" using b by (auto simp: in_log_def)
    then have e: "disk u ! unat b = apply_writes (home_writes bs s) (disk r) ! unat b" using u(2) hw by simp
    show ?thesis
    proof (cases "b \<in> set bs")
      case True
      then have "(b, blk s b) \<in> set (home_writes bs s)" by (auto simp: home_writes_def in_set_conv_nth)
      moreover have "distinct bs" "unat b < length (disk r)" using t(8) True c by (auto simp: homes_def)
      ultimately show ?thesis using e apply_writes_at [OF distinct_home_writes] by metis
    next
      case False
      then have "disk u ! unat b = disk s ! unat b" using e d(3) b by (simp add: apply_writes_other fst_home_writes)
      then show ?thesis using bs.clean [OF t(1), of b] t(9) False by simp
    qed
  qed
  then show ?thesis using u(1) by blast
qed

lemma recover_finished:
  assumes t: "txn q s" and bs: "bs = take (nat (lhn s)) (lhblock s)" and h: "h = head_data bs (blk s (lstart s))"
    and r: "crashed p (apply_writes (log_writes bs s @ [(lstart s, h)] @ home_writes bs s @ [(lstart s, head_data [] h)]) (disk s)) s r"
  shows "\<exists>u. recover_from_log r = Inr u \<and> (\<forall>b. \<not> in_log (length bs) (lstart s) b \<longrightarrow> disk u ! unat b = blk s b)"
proof -
  let ?st = "lstart s" and ?n = "length bs"
  note t = txnD [OF t bs]
  define c where "c = apply_writes (log_writes bs s @ [(?st, h)] @ home_writes bs s) (disk s)"
  have dr: "disk r = c[unat ?st := head_data [] h]" using r by (simp add: crashed_def c_def)
  note d = logged_disk(3) [OF t(7,8) subset_refl c_def]
  have st: "unat ?st < length (disk s)" using t(7) by (simp add: log_area_def)
  have "length h = BSIZE" using head_data_facts(1) [OF bs.block_length [OF t(1) st]] t(5) h by simp
  then have "names (disk r ! unat ?st) []" using names_head_data [of h "[]"] st dr by (simp add: c_def)
  then obtain u where u: "recover_from_log r = Inr u" "\<forall>b. b \<noteq> ?st \<longrightarrow> disk u ! unat b = disk r ! unat b"
    using recover_empty [of p r] r dr st by (auto simp: crashed_def c_def)
  have "disk u ! unat b = blk s b" if b: "\<not> in_log ?n ?st b" for b
  proof -
    have ne: "b \<noteq> ?st" "unat b \<noteq> unat ?st" using b by (auto simp: in_log_def)
    then have e: "disk u ! unat b = c ! unat b" using u(2) dr by simp
    show ?thesis
    proof (cases "b \<in> set bs")
      case True
      then have "(b, blk s b) \<in> set (home_writes bs s)" by (auto simp: home_writes_def in_set_conv_nth)
      moreover have "distinct bs" "unat b < length (disk s)" using t(8) True by (auto simp: homes_def)
      ultimately show ?thesis
        using e apply_writes_at [OF distinct_home_writes, of bs b "blk s b" s] by (simp add: c_def)
    next
      case False
      then show ?thesis using e d [OF b False] bs.clean [OF t(1), of b] t(9) by simp
    qed
  qed
  then show ?thesis using u(1) by blast
qed

lemma recover_unlogged:
  assumes t: "txn q s" and bs: "bs = take (nat (lhn s)) (lhblock s)" and z: "names (disk s ! unat (lstart s)) []"
    and ws: "set ws \<subseteq> set (log_writes bs s)" and r: "crashed p (apply_writes ws (disk s)) s r"
  shows "\<exists>u. recover_from_log r = Inr u \<and>
    (\<forall>b. \<not> in_log (length bs) (lstart s) b \<longrightarrow> disk u ! unat b = disk s ! unat b)"
proof -
  let ?st = "lstart s" and ?n = "length bs"
  note t = txnD [OF t bs]
  have sub: "fst ` set ws \<subseteq> fst ` set (log_writes bs s)" using ws by blast
  have st: "unat ?st < length (disk s)" using t(7) by (simp add: log_area_def)
  have "?st \<notin> fst ` set ws" using start_not_logged [OF t(7) refl] sub by blast
  then have "names (disk r ! unat ?st) []" using z r by (simp add: crashed_def apply_writes_other)
  then obtain u where u: "recover_from_log r = Inr u" "\<forall>b. b \<noteq> ?st \<longrightarrow> disk u ! unat b = disk r ! unat b"
    using recover_empty [of p r] r st by (auto simp: crashed_def)
  have "disk u ! unat b = disk s ! unat b" if b: "\<not> in_log ?n ?st b" for b
  proof -
    have "b \<notin> fst ` set (log_writes bs s)" using b logblk_area(2) [OF t(7)] by (auto simp: fst_log_writes)
    then have "b \<notin> fst ` set ws" using sub by blast
    moreover have "b \<noteq> ?st" using b in_log_start by blast
    ultimately show ?thesis using u(2) r by (simp add: crashed_def apply_writes_other)
  qed
  then show ?thesis using u(1) by blast
qed

lemma recover_any:
  assumes "txn q s" "names (disk s ! unat (lstart s)) []" "n = nat (lhn s)"
    and r: "crashed p (apply_writes (take j (commit_writes s)) (disk s)) s r"
  shows "\<exists>u. recover_from_log r = Inr u \<and> (\<forall>b. \<not> in_log n (lstart s) b \<longrightarrow>
    disk u ! unat b = (if j \<le> n then disk s ! unat b else blk s b))"
proof -
  define bs where bs: "bs = take n (lhblock s)"
  have b: "bs = take (nat (lhn s)) (lhblock s)" using assms(3) bs by simp
  have n: "length bs = n" using txnD(3) [OF assms(1) b] assms(3) by simp
  let ?h = "head_data bs (blk s (lstart s))"
  have cw: "commit_writes s = log_writes bs s @ [(lstart s, ?h)] @ home_writes bs s @ [(lstart s, head_data [] ?h)]"
    by (simp add: commit_writes_def Let_def b)
  note tk = take_commit_writes [OF refl [of "log_writes bs s"] refl [of "home_writes bs s"] n, of j]
  consider "j \<le> n" | "n < j" "j \<le> 2 * n + 1" | "2 * n + 1 < j" by linarith
  then show ?thesis
  proof cases
    case 1
    have e: "take j (commit_writes s) = take j (log_writes bs s)" unfolding cw by (rule tk(1) [OF 1])
    show ?thesis using recover_unlogged [OF assms(1) b assms(2) set_take_subset r [unfolded e]] 1 n by simp
  next
    case 2
    have e: "take j (commit_writes s) = log_writes bs s @ [(lstart s, ?h)] @ take (j - n - 1) (home_writes bs s)"
      unfolding cw by (rule tk(2) [OF 2])
    show ?thesis using recover_logged [OF assms(1) b set_take_subset r [unfolded e]] 2 n by simp
  next
    case 3
    have e: "take j (commit_writes s) = log_writes bs s @ [(lstart s, ?h)] @ home_writes bs s @ [(lstart s, head_data [] ?h)]"
      unfolding cw by (rule tk(3) [OF 3])
    show ?thesis using recover_finished [OF assms(1) b refl r [unfolded e]] 3 n by simp
  qed
qed

end
