(* ===== verification/Log_Write.thy ===== *)
theory Log_Write
  imports Log_Crash
begin

text \<open>
  \<^verbatim>\<open>log_write\<close>: the block joins the transaction once and its buffer stays in the cache until the
  commit.
\<close>

interpretation ll: lock_field log_lock "log_lock_update :: _ \<Rightarrow> 'a klog_scheme \<Rightarrow> _" "\<lambda>_. True"
  by unfold_locales simp_all

definition dirty_buf :: "nat \<Rightarrow> 'a kbio_scheme \<Rightarrow> 'a kbio_scheme" where
  "dirty_buf i s = upd_buf i (bdirty_update (\<lambda>_. True)) s"

lemma dirty_contract:
  assumes inv: "binv p H s" and i: "i \<in> H"
  shows "binv p H (dirty_buf i s)" "bframe s (dirty_buf i s)" "disk (dirty_buf i s) = disk s"
    "dwrites (dirty_buf i s) = dwrites s" "blk (dirty_buf i s) = blk s"
    "pinned (dirty_buf i s) = insert (bkey s i) (pinned s)" "bkey (dirty_buf i s) = bkey s"
proof -
  let ?t = "dirty_buf i s" and ?c = "(cores s ! i)\<lparr>bdirty := True\<rparr>"
  note q = binvD(1-5) [OF inv] and h = held_buf [OF inv i]
  have c: "core ((bufs s ! i)\<lparr>bdirty := True\<rparr>) = ?c" using q(3) h(1) by (simp add: nth_cores core_def)
  have ok: "core_ok (i \<in> H) (cores s ! i) (disk s)" and u: "\<And>b k l. cached b (cores s) k \<Longrightarrow> cached b (cores s) l \<Longrightarrow> k = l"
    using q(4) h(1) unfolding cache_ok_def by blast+
  have ci: "cached (bkey s i) (cores s) i" using h by (simp add: cached_def bkey_def)
  have "cached (blockno (cores s ! i)) (cores s) i" using h by (simp add: cached_def)
  then have "cache_ok H ((cores s)[i := ?c]) (disk s)"
    using ok i u by (intro cache_ok_update [OF q(4) h(1)]) (auto simp: core_ok_def)
  then show b: "binv p H ?t"
    unfolding dirty_buf_def using binvD(7) [OF inv h(1)] by (intro binv_upd_buf [OF inv h(1)]) (auto simp: c buf_ok_def)
  show "bframe s ?t" and dk: "disk ?t = disk s" and "dwrites ?t = dwrites s" by (simp_all add: dirty_buf_def upd_buf_def bframe_def)
  have L: "length (cores s) = NBUF" using q(4) by (simp add: cache_ok_def)
  have t: "cores ?t = (cores s)[i := ?c]" using q(3) h(1) by (simp add: dirty_buf_def cores_upd_buf c)
  have k: "cores ?t ! k = (if k = i then ?c else cores s ! k)" if "k < NBUF" for k
    unfolding t using L that by (simp add: nth_update)
  have e: "cached b (cores ?t) m \<longleftrightarrow> cached b (cores s) m" for b m
    unfolding cached_def by (cases "m < NBUF") (simp_all add: k)
  have "blk ?t b = blk s b" for b
    by (rule blk_cong [OF inv b]) (simp_all add: e k dk cached_range)
  then show "blk ?t = blk s" by (simp add: fun_eq_iff)
  show "bkey ?t = bkey s" using k by (auto simp: bkey_def fun_eq_iff)
  have "{m. m < NBUF \<and> bdirty (cores ?t ! m)} = insert i {m. m < NBUF \<and> bdirty (cores s ! m)}"
    using k h(1) by auto
  moreover have "blockno (cores ?t ! m) = blockno (cores s ! m)" if "m < NBUF" for m using k [OF that] by simp
  ultimately show "pinned ?t = insert (bkey s i) (pinned s)"
    unfolding pinned_def using h(1) by (auto simp: bkey_def intro!: image_eqI)
qed

section \<open>Absorption\<close>

definition logged :: "'a klog_scheme \<Rightarrow> 32 word list" where
  "logged s = take (nat (lhn s)) (lhblock s)"

lemma absorb_hit: "b \<in> set (take n (drop i bs)) \<Longrightarrow> i + n \<le> length bs \<Longrightarrow>
    i \<le> absorb bs b i n \<and> absorb bs b i n < i + n \<and> bs ! absorb bs b i n = b"
proof (induction bs b i n rule: absorb.induct)
  case (2 bs b i n)
  have "drop i bs = bs ! i # drop (Suc i) bs" using 2(3) by (simp add: Cons_nth_drop_Suc)
  then show ?case using 2 by auto
qed simp

lemma absorb_miss: "b \<notin> set (take n (drop i bs)) \<Longrightarrow> i + n \<le> length bs \<Longrightarrow> absorb bs b i n = i + n"
proof (induction bs b i n rule: absorb.induct)
  case (2 bs b i n)
  have "drop i bs = bs ! i # drop (Suc i) bs" using 2(3) by (simp add: Cons_nth_drop_Suc)
  then show ?case using 2 by auto
qed simp

lemma set_head_order:
  "(set_head m bs s)\<lparr>lhn := n\<rparr> = set_head n bs s" "s\<lparr>lhblock := bs\<rparr> = set_head (lhn s) bs s"
  by (simp_all add: set_head_def)

lemma log_write_run:
  assumes "cpu_ok (kcpu s)" "lock_free (log_lock s)" "0 \<le> lhn s" "lhn s < int LOGSIZE" "lhn s < lsize s - 1"
    and "1 \<le> outstanding s" "length (lhblock s) = LOGSIZE"
  shows "\<exists>n bs. log_write b s = Inr (dirty_buf b (set_head n bs s)) \<and> 0 \<le> n \<and> n \<le> lhn s + 1 \<and> length bs = LOGSIZE \<and>
    take (nat n) bs = (if blockno (bufs s ! b) \<in> set (logged s) then logged s else logged s @ [blockno (bufs s ! b)])"
proof -
  let ?b = "blockno (bufs s ! b)" and ?n = "nat (lhn s)"
  define i where "i = absorb (lhblock s) ?b 0 ?n"
  define n where "n = (if int i = lhn s then lhn s + 1 else lhn s)"
  let ?t = "dirty_buf b (set_head n ((lhblock s)[i := ?b]) s)"
  have r: "rel_log (enter log_lock_update ?t) = Inr ?t"
    using assms(1,2) by (intro ll.rel_enter) (simp_all add: dirty_buf_def upd_buf_def set_head_def)
  have e: "enter log_lock_update ?t = upd_buf b (bdirty_update (\<lambda>_. True))
      (set_head n ((lhblock s)[i := ?b]) (enter log_lock_update s))"
    by (simp add: enter_def dirty_buf_def upd_buf_def set_head_def)
  have f: "bufs (enter log_lock_update s) = bufs s" "lhblock (enter log_lock_update s) = lhblock s"
    "lhn (enter log_lock_update s) = lhn s"
    by (simp_all add: enter_def)
  have "log_write b s = rel_log (enter log_lock_update ?t)"
    unfolding e using assms by (simp add: log_write_def ll.acq_enter f Let_def i_def n_def set_head_order)
  then have "log_write b s = Inr ?t" using r by simp
  moreover have "take (nat n) ((lhblock s)[i := ?b]) = (if ?b \<in> set (logged s) then logged s else logged s @ [?b])"
  proof (cases "?b \<in> set (logged s)")
    case True
    then have "i < ?n" "lhblock s ! i = ?b"
      using absorb_hit [of ?b ?n 0 "lhblock s"] assms(3,4,7) by (auto simp: i_def logged_def)
    then have "(lhblock s)[i := ?b] = lhblock s" "n = lhn s"
      using list_update_id [of "lhblock s" i] by (auto simp: n_def)
    then show ?thesis using True by (simp add: logged_def)
  next
    case False
    then have "i = ?n" using absorb_miss [of ?b ?n 0 "lhblock s"] assms(3,4,7) by (auto simp: i_def logged_def)
    then have "nat n = Suc ?n" "i = ?n" using assms(3) by (simp_all add: n_def)
    then show ?thesis using False assms(3,4,7) by (simp add: logged_def take_Suc_conv_app_nth)
  qed
  moreover have "0 \<le> n" "n \<le> lhn s + 1" using assms(3) by (simp_all add: n_def)
  ultimately show ?thesis
    using assms(7) by (intro exI [of _ n] exI [of _ "(lhblock s)[i := ?b]"]) simp
qed

text \<open>The transaction in memory: its blocks are named once each, and they are the ones kept in the cache.\<close>

definition log_ok :: "'a klog_scheme \<Rightarrow> bool" where
  "log_ok s \<longleftrightarrow> lock_free (log_lock s) \<and> 0 \<le> lhn s \<and> lhn s \<le> int LOGSIZE \<and> length (lhblock s) = LOGSIZE \<and>
     distinct (logged s) \<and> pinned s = set (logged s)"

lemma length_logged: "log_ok s \<Longrightarrow> length (logged s) = nat (lhn s)"
  by (auto simp: log_ok_def logged_def)

lemma log_write_spec:
  assumes inv: "binv p H s" and i: "i \<in> H" and ok: "log_ok s" "lhn s < int LOGSIZE" "lhn s < lsize s - 1" "1 \<le> outstanding s"
  shows "\<exists>t. log_write i s = Inr t \<and> binv p H t \<and> log_ok t \<and> blk t = blk s \<and> disk t = disk s \<and>
    dwrites t = dwrites s \<and> bkey t = bkey s \<and> outstanding t = outstanding s \<and> lsize t = lsize s \<and>
    lstart t = lstart s \<and> ldev t = ldev s \<and>
    logged t = (if bkey s i \<in> set (logged s) then logged s else logged s @ [bkey s i])"
proof -
  note h = held_buf [OF inv i] and q = binvD(1-5) [OF inv]
  have key: "blockno (bufs s ! i) = bkey s i" using h(1) q(3) by (simp add: bkey_def nth_cores)
  have l: "lock_free (log_lock s)" "0 \<le> lhn s" "length (lhblock s) = LOGSIZE" "distinct (logged s)" "pinned s = set (logged s)"
    using ok(1) by (simp_all add: log_ok_def)
  have c: "cpu_ok (kcpu s)" using q(1) by (simp add: quiet_def)
  obtain n bs where r: "log_write i s = Inr (dirty_buf i (set_head n bs s))" "0 \<le> n" "n \<le> lhn s + 1" "length bs = LOGSIZE"
      "take (nat n) bs = (if bkey s i \<in> set (logged s) then logged s else logged s @ [bkey s i])"
    using log_write_run [OF c l(1,2) ok(2-4) l(3), of i] key by auto
  let ?s = "set_head n bs s"
  let ?t = "dirty_buf i ?s"
  have d: "binv p H ?t" "bframe ?s ?t" "disk ?t = disk s" "dwrites ?t = dwrites s" "blk ?t = blk s"
      "pinned ?t = insert (bkey s i) (pinned s)" "bkey ?t = bkey s"
    using dirty_contract [of p H ?s i] inv i by simp_all
  note f = bframe_log [OF d(2)]
  have g: "logged ?t = take (nat n) bs" using f by (simp add: logged_def)
  have "n \<le> int LOGSIZE" using r(3) ok(2) by simp
  moreover have "lock_free (log_lock ?t)" using l(1) f(8) by (simp add: set_head_def)
  moreover have "distinct (logged ?t)" "pinned ?t = set (logged ?t)" using g r(5) l(4,5) d(6) by auto
  ultimately have "log_ok ?t" using r(2,4) f by (simp add: log_ok_def)
  moreover have "lsize ?t = lsize s" "outstanding ?t = outstanding s" using f by (simp_all add: set_head_def)
  ultimately show ?thesis using r(1,5) d g f by auto
qed

end
