(* ===== verification/Bio_Boot.thy ===== *)
theory Bio_Boot
  imports Block_Store
begin

text \<open>
  \<^verbatim>\<open>binit\<close> on the zeroed buffers of the kernel's data segment establishes the invariant of the cache.
\<close>

definition init_buf :: "buf \<Rightarrow> buf" where
  "init_buf b = block_update (\<lambda>l. initsleeplock l ''buffer'') b"

fun init_bufs :: "nat \<Rightarrow> nat \<Rightarrow> buf list \<Rightarrow> buf list" where
  "init_bufs 0 b bs = bs"
| "init_bufs (Suc n) b bs = init_bufs n (Suc b) (pushed b (bs[b := init_buf (bs ! b)]))"

lemma binit_loop_bufs: "binit_loop n b s = s\<lparr>bufs := init_bufs n b (bufs s)\<rparr>"
  by (induction n arbitrary: b s) (simp_all add: push_front_pushed upd_buf_def init_buf_def)

lemma length_init_bufs [simp]: "length (init_bufs n b bs) = length bs"
  by (induction n arbitrary: b bs) simp_all

lemma links_init [simp]:
  "bnext (bs[b := init_buf (bs ! b)] ! i) = bnext (bs ! i)" "bprev (bs[b := init_buf (bs ! b)] ! i) = bprev (bs ! i)"
  by (simp_all add: nth_update init_buf_def)

lemma init_bufs_path:
  assumes "b + n \<le> NBUF" "length bs = Suc NBUF" "path (nxt bs) NBUF (rev [0..<b]) NBUF" "path (prv bs) NBUF [0..<b] NBUF"
  shows "path (nxt (init_bufs n b bs)) NBUF (rev [0..<b + n]) NBUF \<and> path (prv (init_bufs n b bs)) NBUF [0..<b + n] NBUF"
  using assms
proof (induction n arbitrary: b bs)
  case (Suc n)
  let ?bs = "bs[b := init_buf (bs ! b)]"
  have ivl: "{0..<b} \<subseteq> {..<NBUF}" using Suc.prems(1) by auto
  have "path (nxt (pushed b ?bs)) NBUF (b # rev [0..<b]) NBUF" "path (prv (pushed b ?bs)) NBUF (rev (b # rev [0..<b])) NBUF"
    using ring_pushed [of ?bs b "rev [0..<b]"] Suc.prems ivl by simp_all
  then show ?case using Suc.IH [of "Suc b" "pushed b ?bs"] Suc.prems by simp
qed simp

lemma core_pushed: "unlink_core (pushed b bs ! k) = unlink_core (bs ! k)"
  by (simp add: pushed_def Let_def core_set_link)

lemma init_core: "unlink_core c = unlink_core d \<Longrightarrow> unlink_core (init_buf c) = unlink_core (init_buf d)"
  by (cases c; cases d) (simp add: unlink_core_def init_buf_def)

lemma init_bufs_core:
  assumes "b + n \<le> NBUF" "length bs = Suc NBUF" "k \<le> NBUF"
  shows "unlink_core (init_bufs n b bs ! k) =
    (if b \<le> k \<and> k < b + n then unlink_core (init_buf (bs ! k)) else unlink_core (bs ! k))"
  using assms
proof (induction n arbitrary: b bs)
  case (Suc n)
  let ?bs = "pushed b (bs[b := init_buf (bs ! b)])"
  have c: "unlink_core (?bs ! k) = unlink_core (if k = b then init_buf (bs ! k) else bs ! k)"
    using Suc.prems by (simp add: core_pushed nth_list_update)
  have "unlink_core (init_buf (?bs ! k)) = unlink_core (init_buf (bs ! k))" if "k \<noteq> b"
    using init_core [of "?bs ! k" "bs ! k"] c that by simp
  moreover note Suc.IH [of "Suc b" ?bs] Suc.prems c
  ultimately show ?case by (cases "k = b"; cases "b \<le> k") simp_all
qed auto

section \<open>The cache at boot\<close>

text \<open>The buffers before \<^verbatim>\<open>binit\<close>: no block, no reader, nothing to write.\<close>

definition blank_buf :: "buf \<Rightarrow> bool" where
  "blank_buf b \<longleftrightarrow> \<not> bvalid b \<and> \<not> bdirty b \<and> bdev b \<noteq> 1 \<and> refcnt b = 0 \<and> length (bdata b) = BSIZE"

definition booted :: "nat \<Rightarrow> 'a kbio_scheme \<Rightarrow> bool" where
  "booted p s \<longleftrightarrow> quiet p s \<and> p < length (ptable s) \<and> length (bufs s) = Suc NBUF \<and>
     (\<forall>b \<in> set (bufs s). blank_buf b) \<and> (\<forall>b \<in> set (disk s). length b = BSIZE)"

lemma unlink_core_eqD:
  assumes "unlink_core a = unlink_core b"
  shows "core a = core b" "block a = block b" "refcnt a = refcnt b"
  using assms by (cases a; cases b; simp add: unlink_core_def core_def)+

lemma binit_bufs:
  assumes "length (bufs s) = Suc NBUF"
  obtains xs where "ring (bufs (binit s)) xs" "binit s = s\<lparr>bcache_lock := initlock (bcache_lock s) ''bcache'', bufs := bufs (binit s)\<rparr>"
    "\<And>k. k < NBUF \<Longrightarrow> unlink_core (bufs (binit s) ! k) = unlink_core (init_buf (bufs s ! k))"
proof -
  define c where "c = (bufs s)[NBUF := bnext_update (\<lambda>_. NBUF) (bprev_update (\<lambda>_. NBUF) (bufs s ! NBUF))]"
  have c: "length c = Suc NBUF" "bnext (c ! NBUF) = NBUF" "bprev (c ! NBUF) = NBUF" "\<And>k. k < NBUF \<Longrightarrow> c ! k = bufs s ! k"
    using assms by (simp_all add: c_def)
  have e: "binit s = s\<lparr>bcache_lock := initlock (bcache_lock s) ''bcache'', bufs := init_bufs NBUF 0 c\<rparr>"
    using assms by (simp add: binit_def Let_def binit_loop_bufs upd_buf_def c_def)
  have "path (nxt (init_bufs NBUF 0 c)) NBUF (rev [0..<NBUF]) NBUF" "path (prv (init_bufs NBUF 0 c)) NBUF [0..<NBUF] NBUF"
    using init_bufs_path [of 0 NBUF c] c by simp_all
  then have "ring (init_bufs NBUF 0 c) (rev [0..<NBUF])"
    unfolding ring_def using c(1) by (auto simp del: upt_rec_numeral)
  then have "ring (bufs (binit s)) (rev [0..<NBUF])" using e by simp
  moreover have "unlink_core (bufs (binit s) ! k) = unlink_core (init_buf (bufs s ! k))" if "k < NBUF" for k
    using init_bufs_core [of 0 NBUF c k] that c e by simp
  ultimately show thesis using that e by simp
qed

lemma binit_booted:
  assumes "booted p s"
  shows "binv p {} (binit s)" "pinned (binit s) = {}" "blk (binit s) b = disk s ! unat b" "disk (binit s) = disk s"
    "binit s = s\<lparr>bcache_lock := initlock (bcache_lock s) ''bcache'', bufs := bufs (binit s)\<rparr>"
proof -
  have len: "length (bufs s) = Suc NBUF" using assms by (simp add: booted_def)
  obtain xs where x: "ring (bufs (binit s)) xs"
      "binit s = s\<lparr>bcache_lock := initlock (bcache_lock s) ''bcache'', bufs := bufs (binit s)\<rparr>"
      "\<And>k. k < NBUF \<Longrightarrow> unlink_core (bufs (binit s) ! k) = unlink_core (init_buf (bufs s ! k))"
    using binit_bufs [OF len] by metis
  let ?t = "binit s"
  have bl: "blank_buf (bufs s ! k)" if "k < NBUF" for k using assms len that by (simp add: booted_def)
  have f: "quiet p ?t" "lock_free (bcache_lock ?t)" "disk ?t = disk s" "ptable ?t = ptable s" "dwrites ?t = dwrites s"
    using assms by (subst x(2); simp add: booted_def quiet_def lock_free_def initlock_def)+
  have lt: "length (bufs ?t) = Suc NBUF" using ringD(1) [OF x(1)] .
  have co: "cores ?t ! k = core (bufs s ! k)" if "k < NBUF" for k
    using unlink_core_eqD(1) [OF x(3) [OF that]] nth_cores [OF lt that] by (simp add: init_buf_def core_def)
  have no: "\<not> cached b (cores ?t) i" for b i
    using co [of i] bl [of i] by (auto simp: cached_def blank_buf_def)
  have "buf_ok n False (bufs ?t ! k)" if "k < NBUF" for n k
    using unlink_core_eqD(2,3) [OF x(3) [OF that]] bl [OF that]
    by (simp add: buf_ok_def init_buf_def initsleeplock_def initlock_def lock_free_def blank_buf_def)
  moreover have "core_ok False (cores ?t ! k) (disk ?t)" if "k < NBUF" for k
    using co [OF that] bl [OF that] by (simp add: core_ok_def blank_buf_def)
  ultimately show "binv p {} ?t"
    using x(1) f assms no length_cores [OF lt] by (auto simp: binv_def cache_ok_def booted_def)
  show "pinned ?t = {}" using co bl by (auto simp: pinned_def blank_buf_def)
  show "blk ?t b = disk s ! unat b" using blk_uncached [of b ?t] no f(3) by simp
  show "disk ?t = disk s" by (rule f(3))
  show "binit s = s\<lparr>bcache_lock := initlock (bcache_lock s) ''bcache'', bufs := bufs (binit s)\<rparr>" by (rule x(2))
qed

end
