(* ===== verification/Machine.thy ===== *)
theory Machine
  imports Trap Bio_Boot
begin

text \<open>
  A small concrete machine on which the theorems of the development are exercised: one running
  process, zeroed memory and buffers, and a disk of 100 empty blocks.
\<close>

definition zero_lock :: spinlock where
  "zero_lock = \<lparr>locked = False, lname = [], lcpu = None\<rparr>"

definition zero_sleeplock :: sleeplock where
  "zero_sleeplock = \<lparr>slocked = False, slk = zero_lock, sname = [], spid = 0\<rparr>"

definition zero_buf :: buf where
  "zero_buf = \<lparr>bvalid = False, bdirty = False, bdev = 0, blockno = 0, block = zero_sleeplock, refcnt = 0,
     bprev = 0, bnext = 0, bdata = replicate BSIZE 0\<rparr>"

definition zero_proc :: proc where
  "zero_proc = \<lparr>psz = 0, pgdir = 0, kstack = 0, pstate = UNUSED, pid = 0, parent = None, tf = 0, pcontext = 0,
     pchan = NoChan, killed = False, ofile = replicate NOFILE None, cwd = None, pname = [],
     clock = replicate CLOCKSIZE 0, head = 0\<rparr>"

definition first_proc :: proc where
  "first_proc = zero_proc\<lparr>psz := 4096, pgdir := 0x80200000, kstack := 0x80203000, pstate := RUNNING, pid := 1\<rparr>"

definition zero_inode :: inode where
  "zero_inode = \<lparr>idev = 0, inum = 0, iref = 0, ilk = zero_sleeplock, ivalid = False, itype = 0, major = 0, minor = 0,
     nlink = 0, isize = 0, addrs = replicate 13 0\<rparr>"

definition zero_file :: sfile where
  "zero_file = \<lparr>ftype = FD_NONE, fref = 0, readable = False, writable = False, fpipe = 0, fip = None, foff = 0\<rparr>"

definition zero_pipe :: pipe where
  "zero_pipe = \<lparr>plock = zero_lock, pdata = replicate 512 0, nread = 0, nwrite = 0, readopen = False, writeopen = False\<rparr>"

definition machine :: ksys where
  "machine = \<lparr>mem = (\<lambda>_. 0),
     kcpu = \<lparr>cid = 0, ncli = 0, intena = True, eflags_if = True, cproc = Some 0\<rparr>, kend = 0x80117000,
     kmem_lock = zero_lock, use_lock = True, freelist = 0,
     kdata = 0x80108000, cr3 = V2P 0x80200000, kpgdir = 0x80114000,
     ptable_lock = zero_lock, ptable = first_proc # replicate (NPROC - 1) zero_proc, nextpid = 2, initproc = Some 0,
     tss_esp0 = 0, trapret_addr = 0x80105A00, forkret_addr = 0x80103B00, first = False,
     bcache_lock = zero_lock, bufs = replicate (Suc NBUF) zero_buf, disk = replicate 100 (replicate BSIZE 0), dwrites = [],
     log_lock = zero_lock, lstart = 2, lsize = 30, outstanding = 1, committing = False, ldev = 1, lhn = 0,
     lhblock = replicate LOGSIZE 0,
     sb = \<lparr>sbsize = 100, nblocks = 60, ninodes = 16, nlog = 30, logstart = 2, inodestart = 32, bmapstart = 36\<rparr>,
     icache_lock = zero_lock, inodes = replicate 50 zero_inode,
     ftable_lock = zero_lock, ftable = replicate 100 zero_file, pipes = (\<lambda>_. zero_pipe),
     cons_lock = zero_lock, cons_locking = True, panicked = False, crt = replicate 2000 0, crtpos = 0, uart = False,
     uart_out = [], ibuf = replicate 128 0, ir = 0, iw = 0, ie = 0,
     tickslock = zero_lock, ticks = 0, cr2 = 0, kshift = 0\<rparr>"

lemma zero_lock_free [simp]: "lock_free zero_lock"
  by (simp add: lock_free_def zero_lock_def)

lemma machine_booted: "booted 0 machine"
  by (simp add: booted_def machine_def quiet_def cpu_ok_def blank_buf_def zero_buf_def)

lemmas machine_cache = binit_booted [OF machine_booted]

end
