(* ===== verification/Storage_Props.thy ===== *)
theory Storage_Props
  imports Log_Write Machine
begin

text \<open>
  The properties of the buffer cache and of the log, and a transaction on the concrete machine that
  exercises them.
\<close>

section \<open>A transaction on the machine\<close>

lemma machine_fields:
  "length (disk machine) = 100" "lstart machine = 2" "ldev machine = 1" "lhn machine = 0" "lsize machine = 30"
  "outstanding machine = 1" "lhblock machine = replicate LOGSIZE 0" "log_lock machine = zero_lock"
  "k < 100 \<Longrightarrow> disk machine ! k = replicate BSIZE 0"
  by (simp_all add: machine_def)

lemma binit_fields [simp]:
  "lstart (binit machine) = 2" "ldev (binit machine) = 1" "lhn (binit machine) = 0" "lsize (binit machine) = 30"
  "outstanding (binit machine) = 1" "lhblock (binit machine) = replicate LOGSIZE 0" "log_lock (binit machine) = zero_lock"
  by (subst machine_cache(5), simp add: machine_fields)+

lemma binit_log_ok: "log_ok (binit machine)"
  by (simp add: log_ok_def logged_def machine_cache(2))

text \<open>Block 40 is read, filled with sevens, and joins the transaction.\<close>

lemma machine_reads:
  obtains i t where "bread 1 40 (binit machine) = Inr (i, t)" "binv 0 {i} t" "bufdata i t = replicate BSIZE 0"
    "bkey t i = 40" "log_ok t" "lhn t = 0" "lsize t = 30" "outstanding t = 1" "lstart t = 2" "ldev t = 1"
    "disk t = disk machine" "blk t = blk (binit machine)"
proof -
  have "unat (40 :: 32 word) < length (disk (binit machine))" by (simp add: machine_cache(4) machine_fields)
  then obtain i t where t: "bread 1 40 (binit machine) = Inr (i, t)" "binv 0 {i} t" "bframe (binit machine) t"
      "disk t = disk (binit machine)" "blk t = blk (binit machine)" "pinned t = pinned (binit machine)"
      "bkey t = (bkey (binit machine))(i := 40)"
    using bs.rd_ok [OF machine_cache(1), of 40] by (auto simp: machine_cache(2))
  note f = bframe_log [OF t(3)]
  have "bufdata i t = disk machine ! unat (40 :: 32 word)"
    using bs.getd_ok [OF t(2), of i] t(5,7) machine_cache(3) by simp
  then have "bufdata i t = replicate BSIZE 0" by (simp add: machine_fields)
  moreover have "log_ok t" using binit_log_ok f t(6) by (simp add: log_ok_def logged_def)
  ultimately show thesis using that [OF t(1,2)] t f machine_cache(4) by simp
qed

lemma machine_txn:
  obtains s :: ksys where "txn 0 s" "names (disk s ! unat (lstart s)) []" "lhn s = 1" "lstart s = 2" "disk s = disk machine"
    "blk s 40 = replicate BSIZE 7" "logged s = [40]"
proof -
  obtain i t where t: "bread 1 40 (binit machine) = Inr (i, t)" "binv 0 {i} t" "bufdata i t = replicate BSIZE 0"
    "bkey t i = 40" "log_ok t" "lhn t = 0" "lsize t = 30" "outstanding t = 1" "lstart t = 2" "ldev t = 1"
    "disk t = disk machine" "blk t = blk (binit machine)"
    by (rule machine_reads)
  let ?u = "set_bufdata i (replicate BSIZE 7) t"
  have u: "binv 0 {i} ?u" "bframe t ?u" "disk ?u = disk t" "blk ?u = (blk t)(40 := replicate BSIZE 7)"
      "pinned ?u = pinned t" "bkey ?u = bkey t"
    using bs.setd_ok [OF t(2), of i "replicate BSIZE 7"] t(4) by simp_all
  note fu = bframe_log [OF u(2)]
  have "log_ok ?u" using t(5) fu u(5) by (simp add: log_ok_def logged_def)
  then obtain v where v: "log_write i ?u = Inr v" "binv 0 {i} v" "log_ok v" "blk v = blk ?u" "disk v = disk ?u"
      "bkey v = bkey ?u" "lstart v = lstart ?u" "ldev v = ldev ?u" "logged v = [40]"
    using log_write_spec [OF u(1), of i] fu t(4,6-8) u(6) by (auto simp: logged_def)
  have "bkey v i \<in> pinned v" using v(3,6,9) u(6) t(4) by (simp add: log_ok_def)
  then obtain w where w: "brelse i v = Inr w" "binv 0 {} w" "bframe v w" "disk w = disk v" "blk w = blk v"
      "pinned w = pinned v"
    using bs.rls_ok [OF v(2), of i] by auto
  note fw = bframe_log [OF w(3)]
  have n: "lhn v = 1" using length_logged [OF v(3)] v(3,9) by (auto simp: log_ok_def)
  have lw: "take (nat (lhn w)) (lhblock w) = [40]" using v(9) fw by (simp add: logged_def)
  have d: "disk w = disk machine" using w(4) v(5) u(3) t(11) by simp
  have st: "lstart w = 2" "ldev w = 1" using fw v(7,8) fu t(9,10) by simp_all
  have "txn 0 w"
    using w(2,6) v(3,9) n fw lw d st
    by (simp add: txn_def Let_def log_ok_def log_area_def homes_def in_log_def machine_fields)
  moreover have "names (disk w ! unat (lstart w)) []"
    using d st by (simp add: names_def machine_fields get32_def)
  ultimately show thesis using that [of w] n fw st d w(5) v(4) u(4) lw by (simp add: logged_def)
qed

section \<open>Properties of the buffer cache\<close>

text \<open>
  C19: \<^verbatim>\<open>binit\<close> links the zeroed buffers into a ring of all of them and establishes the invariant of the
  cache: no block is cached twice, nothing waits to be written, and every block reads as it is on the
  disk.
\<close>

theorem binit_establishes:
  assumes "booted p s"
  shows "binv p {} (binit s) \<and> pinned (binit s) = {} \<and> (\<forall>b. blk (binit s) b = disk s ! unat b)"
  using binit_booted [OF assms] by simp

theorem binit_establishes_witness:
  "binv 0 {} (binit machine) \<and> pinned (binit machine) = {} \<and> (\<forall>b. blk (binit machine) b = disk machine ! unat b)"
  by (rule binit_establishes [OF machine_booted])

text \<open>
  C11: \<^verbatim>\<open>bread\<close> of a block that exists returns a locked buffer with the current contents of the block, whether
  it was cached or not, as long as some buffer is neither locked nor kept for the log. The contents of
  all blocks, the disk and the blocks kept for the log are as before.
\<close>

theorem bread_current:
  assumes "binv p H s" "unat b < length (disk s)" "\<forall>i \<in> H. bkey s i \<noteq> b" "card (pinned s) + card H < NBUF"
  shows "\<exists>i t. bread 1 b s = Inr (i, t) \<and> i \<notin> H \<and> binv p (insert i H) t \<and> bufdata i t = blk s b \<and>
    blk t = blk s \<and> disk t = disk s \<and> pinned t = pinned s \<and> bkey t i = b"
proof -
  obtain i t where t: "bread 1 b s = Inr (i, t)" "i \<notin> H" "binv p (insert i H) t" "blk t = blk s" "disk t = disk s"
      "pinned t = pinned s" "bkey t = (bkey s)(i := b)"
    using bs.rd_ok [OF assms(1-3)] assms(4) by metis
  then show ?thesis using bs.getd_ok [OF t(3), of i] by auto
qed

theorem bread_current_witness:
  "\<exists>i t. bread 1 40 (binit machine) = Inr (i, t) \<and> i \<notin> {} \<and> binv 0 (insert i {}) t \<and>
    bufdata i t = blk (binit machine) 40 \<and> blk t = blk (binit machine) \<and> disk t = disk (binit machine) \<and>
    pinned t = pinned (binit machine) \<and> bkey t i = 40"
  by (rule bread_current [OF machine_cache(1)]) (simp_all add: machine_cache(2,4) machine_fields)

text \<open>The list and the fields after a release.\<close>

lemma ring_released:
  assumes "ring bs xs" "i < NBUF"
  shows "ring (released i bs) (if refcnt (bs ! i) = 1 then i # remove1 i xs else xs)"
proof -
  have "ring (bs[i := free_buf (bs ! i)]) xs"
    by (rule ring_cong [OF assms(1)]) (use assms(2) in \<open>simp_all add: nth_update free_buf_def\<close>)
  then show ?thesis using ring_to_front [OF _ assms(2)] by (simp add: released_def Let_def)
qed

lemma released_fields:
  assumes "ring bs xs" "i < NBUF"
  shows "core (released i bs ! j) = core (bs ! j)"
    "refcnt (released i bs ! j) = (if j = i then refcnt (bs ! i) - 1 else refcnt (bs ! j))"
    "block (released i bs ! j) = (if j = i then (block (bs ! i))\<lparr>slocked := False, spid := 0\<rparr> else block (bs ! j))"
proof -
  let ?bs = "bs[i := free_buf (bs ! i)]"
  have i: "i < length bs" using ringD(1) [OF assms(1)] assms(2) by simp
  have "unlink_core (released i bs ! j) = unlink_core (?bs ! j)" by (simp add: released_def Let_def core_moved)
  note f = unlink_core_fields [OF this]
  show "core (released i bs ! j) = core (bs ! j)" using i f(1) by (simp add: nth_update)
  show "refcnt (released i bs ! j) = (if j = i then refcnt (bs ! i) - 1 else refcnt (bs ! j))"
    using i f(3) by (simp add: nth_update free_buf_def)
  show "block (released i bs ! j) = (if j = i then (block (bs ! i))\<lparr>slocked := False, spid := 0\<rparr> else block (bs ! j))"
    using i f(2) by (simp add: nth_update free_buf_def)
qed

text \<open>
  C18: \<^verbatim>\<open>brelse\<close> of a buffer that the process has locked unlocks it, wakes the processes that sleep on it and
  drops one reference. When that was the last one the buffer moves to the front of the list and the
  others keep their order; while another process still refers to it, because it waits for the lock, the list
  stays as it is. The cached contents do not change. Called without the lock, it panics.
\<close>

theorem brelse_most_recent:
  assumes "quiet p s" "lock_free (bcache_lock s)" "ring (bufs s) xs" "i < NBUF" "lock_free (slk (block (bufs s ! i)))"
  shows "if slocked (block (bufs s ! i)) \<and> spid (block (bufs s ! i)) = pid (ptable s ! p)
    then \<exists>t. brelse i s = Inr t \<and> ring (bufs t) (if refcnt (bufs s ! i) = 1 then i # remove1 i xs else xs) \<and>
      refcnt (bufs t ! i) = refcnt (bufs s ! i) - 1 \<and> \<not> slocked (block (bufs t ! i)) \<and>
      (\<forall>j. core (bufs t ! j) = core (bufs s ! j)) \<and>
      (\<forall>j. j \<noteq> i \<longrightarrow> refcnt (bufs t ! j) = refcnt (bufs s ! j) \<and> block (bufs t ! j) = block (bufs s ! j)) \<and>
      ptable t = ptable (wakeup1 (ChBuf i) s)
    else brelse i s = Inl (Panic ''brelse'')"
proof -
  have i: "i < length (bufs s)" using ringD(1) [OF assms(3)] assms(4) by simp
  show ?thesis
  proof (cases "slocked (block (bufs s ! i)) \<and> spid (block (bufs s ! i)) = pid (ptable s ! p)")
    case True
    then have "brelse i s = Inr ((wakeup1 (ChBuf i) s)\<lparr>bufs := released i (bufs s)\<rparr>)"
      using brelse_locked [OF assms(1,2) i assms(5)] by blast
    then show ?thesis using True ring_released [OF assms(3,4)] released_fields [OF assms(3,4)] by simp
  next
    case False
    then have "holdingsleep (blk_get i) (blk_upd i) s = Inr (False, s)"
      using bl.holdingsleep_quiet [where i = i, OF assms(1) i assms(5)] by auto
    then show ?thesis using False by (simp add: brelse_def)
  qed
qed

text \<open>The buffer of block 40, with one reference, and with that of a second process.\<close>

theorem brelse_most_recent_witness:
  "\<exists>i t xs. bread 1 40 (binit machine) = Inr (i, t) \<and> ring (bufs t) xs \<and>
    (\<exists>u. brelse i t = Inr u \<and> ring (bufs u) (i # remove1 i xs)) \<and>
    (\<exists>u. brelse i (upd_buf i (refcnt_update (\<lambda>_. 2)) t) = Inr u \<and> ring (bufs u) xs)"
proof -
  obtain i t where t: "bread 1 40 (binit machine) = Inr (i, t)" "binv 0 {i} t" by (rule machine_reads)
  note q = binvD(1,2) [OF t(2)]
  have i: "i < NBUF" "i < length (bufs t)" using held_buf [OF t(2), of i] by simp_all
  obtain xs where r: "ring (bufs t) xs" using t(2) by (auto simp: binv_def)
  have b: "buf_ok (pid (ptable t ! 0)) True (bufs t ! i)" using binvD(7) [OF t(2) i(1)] by simp
  let ?t = "upd_buf i (refcnt_update (\<lambda>_. 2)) t"
  have r2: "ring (bufs ?t) xs" by (rule ring_cong [OF r]) (simp_all add: upd_buf_def nth_update)
  have "\<exists>u. brelse i t = Inr u \<and> ring (bufs u) (i # remove1 i xs)"
    using brelse_most_recent [OF q r i(1)] b by (auto simp: buf_ok_def)
  moreover have "\<exists>u. brelse i ?t = Inr u \<and> ring (bufs u) xs"
    using brelse_most_recent [of 0 ?t xs i] q r2 i b by (auto simp: buf_ok_def upd_buf_def quiet_def)
  ultimately show ?thesis using t(1) r by blast
qed

section \<open>Properties of the log\<close>

text \<open>
  C17: \<^verbatim>\<open>log_write\<close> absorbs: a block that the transaction already has is not added again, another one is
  added at the end. The blocks of the transaction stay distinct and stay exactly the blocks that the
  cache must keep, and neither the disk nor the contents of any block change.
\<close>

theorem log_write_absorbs:
  assumes "binv p H s" "i \<in> H" "log_ok s" "lhn s < int LOGSIZE" "lhn s < lsize s - 1" "1 \<le> outstanding s"
  shows "\<exists>t. log_write i s = Inr t \<and> binv p H t \<and> log_ok t \<and> blk t = blk s \<and> disk t = disk s \<and>
    logged t = (if bkey s i \<in> set (logged s) then logged s else logged s @ [bkey s i])"
  using log_write_spec [OF assms] by blast

theorem log_write_absorbs_witness:
  "\<exists>i t u. bread 1 40 (binit machine) = Inr (i, t) \<and> log_write i t = Inr u \<and> logged u = [40] \<and> log_ok u"
proof -
  obtain i t where t: "bread 1 40 (binit machine) = Inr (i, t)" "binv 0 {i} t" "bkey t i = 40" "log_ok t"
    "lhn t = 0" "lsize t = 30" "outstanding t = 1"
    by (rule machine_reads)
  then have "logged t = []" by (simp add: logged_def)
  then show ?thesis using log_write_absorbs [OF t(2), of i] t by auto
qed

text \<open>
  C16: \<^verbatim>\<open>commit\<close> writes in the order that recovery needs: the blocks of the transaction to the log, the header
  that names them, the blocks to their homes, and the cleared header. Afterwards the disk has the
  contents of the cache, no block has to be kept, and the transaction is empty.
\<close>

theorem commit_order:
  assumes "txn p s"
  shows "\<exists>t. commit s = Inr t \<and> dwrites t = dwrites s @ commit_writes s \<and> binv p {} t \<and> lhn t = 0 \<and> pinned t = {} \<and>
    disk t = apply_writes (commit_writes s) (disk s)"
proof -
  obtain t where t: "commit s = Inr t" "writes p (set_head 0 (lhblock s) s) t (commit_writes s)"
    using commit_spec [OF assms] by blast
  note w = writesD [OF t(2)] and f = bframe_log [OF writesD(2) [OF t(2)]]
  have "pinned s \<subseteq> fst ` set (commit_writes s)"
    using txnD(9) [OF assms refl] by (auto simp: commit_writes_def Let_def image_Un fst_home_writes)
  then have "pinned t = {}" using w(6) by auto
  then show ?thesis using t(1) w f by simp
qed

theorem commit_order_witness:
  "\<exists>(s :: ksys) t. txn 0 s \<and> commit s = Inr t \<and> pinned t = {} \<and> map fst (commit_writes s) = [3, 2, 40, 2]"
proof -
  obtain s :: ksys where s: "txn 0 s" "lhn s = 1" "lstart s = 2" "logged s = [40]"
    by (rule machine_txn)
  have "map fst (commit_writes s) = [3, 2, 40, 2]"
    using s(2-4) by (simp add: commit_writes_def logged_def log_writes_def home_writes_def logblk_def Let_def)
  moreover obtain t where "commit s = Inr t" "pinned t = {}" using commit_order [OF s(1)] by metis
  ultimately show ?thesis using s(1) by (intro exI [of _ s] exI [of _ t]) simp
qed

text \<open>
  C5: A commit is atomic. When the machine stops after any number of the disk writes of a commit, and
  \<^verbatim>\<open>recover_from_log\<close> runs on what is on the disk, then every block outside of the log has its contents from
  before the transaction if the header was not yet written, and the contents of the transaction
  otherwise.
\<close>

theorem commit_crash_atomic:
  assumes "txn q s" "names (disk s ! unat (lstart s)) []"
    and "crashed p (apply_writes (take j (commit_writes s)) (disk s)) s r"
  shows "\<exists>t u. commit s = Inr t \<and> dwrites t = dwrites s @ commit_writes s \<and> recover_from_log r = Inr u \<and>
    (\<forall>b. \<not> in_log (nat (lhn s)) (lstart s) b \<longrightarrow>
      disk u ! unat b = (if j \<le> nat (lhn s) then disk s ! unat b else blk s b))"
proof -
  obtain t where "commit s = Inr t" "writes q (set_head 0 (lhblock s) s) t (commit_writes s)"
    using commit_spec [OF assms(1)] by blast
  moreover from this have "dwrites t = dwrites s @ commit_writes s" using writesD(4) by fastforce
  moreover note recover_any [OF assms(1,2) refl assms(3)]
  ultimately show ?thesis by blast
qed

theorem commit_crash_atomic_witness:
  "\<exists>(s :: ksys) r u. txn 0 s \<and> disk s ! 40 = replicate BSIZE 0 \<and>
    crashed 0 (apply_writes (take 2 (commit_writes s)) (disk s)) s r \<and>
    recover_from_log r = Inr u \<and> disk u ! 40 = replicate BSIZE 7"
proof -
  obtain s :: ksys where s: "txn 0 s" "names (disk s ! unat (lstart s)) []" "lhn s = 1" "lstart s = 2" "disk s = disk machine"
    "blk s 40 = replicate BSIZE 7"
    by (rule machine_txn)
  let ?d = "apply_writes (take 2 (commit_writes s)) (disk s)"
  let ?m = "machine\<lparr>disk := ?d\<rparr>"
  have "\<forall>b \<in> set ?d. length b = BSIZE"
    by (rule apply_writes_length) (use machine_booted s in \<open>auto simp: booted_def dest!: in_set_takeD commit_writes_length [OF s(1)]\<close>)
  then have m: "booted 0 ?m" using machine_booted by (simp add: booted_def quiet_def)
  note c = binit_booted [OF m]
  have "lstart (binit ?m) = 2" "ldev (binit ?m) = 1" by (subst c(5), simp add: machine_fields)+
  then have r: "crashed 0 ?d s (binit ?m)" using c(1,2,4) s(4) by (simp add: crashed_def)
  have "\<not> in_log (nat (lhn s)) (lstart s) 40" using s by (simp add: in_log_def)
  then obtain u where "recover_from_log (binit ?m) = Inr u" "disk u ! unat (40 :: 32 word) = blk s 40"
    using commit_crash_atomic [OF s(1,2) r] s(3) by auto
  then show ?thesis
    using s r by (intro exI [of _ s] exI [of _ "binit ?m"] exI [of _ u]) (simp add: machine_fields)
qed

end
