(* ===== verification/Ring.thy ===== *)
theory Ring
  imports Prelude
begin

text \<open>
  Ring buffers with two counters that run freely over 32 bits, the read counter and the write counter:
  the pipe and the input buffer of the console. The contents are the bytes between the counters;
  they survive the wrap-around of the counters because the size divides 2 to the power of 32.
\<close>

definition ring_count :: "32 word \<Rightarrow> 32 word \<Rightarrow> nat" where
  "ring_count r w = unat (w - r)"

definition ring_bytes :: "nat \<Rightarrow> byte list \<Rightarrow> 32 word \<Rightarrow> 32 word \<Rightarrow> byte list" where
  "ring_bytes N d r w = map (\<lambda>k. d ! (unat (r + of_nat k) mod N)) [0..<ring_count r w]"

lemma length_ring_bytes [simp]: "length (ring_bytes N d r w) = ring_count r w"
  by (simp add: ring_bytes_def)

lemma ring_count_empty: "ring_count r w = 0 \<longleftrightarrow> r = w"
  by (auto simp: ring_count_def unat_eq_0)

lemma ring_write_end: "r + of_nat (ring_count r w) = w"
  by (simp add: ring_count_def)

lemma unat_of_nat32: "unat (of_nat k :: 32 word) = k mod 4294967296"
  by (simp add: unsigned_of_nat take_bit_eq_mod)

lemma unat_plus32: "unat (a + b :: 32 word) = (unat a + unat b) mod 4294967296"
  by (simp add: unat_word_ariths)

lemma ring_count_put:
  assumes "ring_count r w < 4294967295"
  shows "ring_count r (w + 1) = Suc (ring_count r w)"
proof -
  have "w + 1 - r = (w - r) + 1" by simp
  then have "unat (w + 1 - r) = (unat (w - r) + unat (1 :: 32 word)) mod 4294967296" by (simp only: unat_plus32)
  then show ?thesis using assms by (simp add: ring_count_def)
qed

lemma ring_count_get:
  assumes "r \<noteq> w"
  shows "ring_count r w = Suc (ring_count (r + 1) w)"
proof -
  have "ring_count (r + 1) w \<noteq> 4294967295"
  proof
    assume "ring_count (r + 1) w = 4294967295"
    then have "w = r + 1 + of_nat 4294967295" by (metis ring_write_end)
    then show False using assms by simp
  qed
  moreover have "ring_count (r + 1) w < 4294967296" using unsigned_less [of "w - (r + 1)"] by (simp add: ring_count_def)
  ultimately have "ring_count (r + 1) w < 4294967295" by linarith
  then have "ring_count (r + 1) (w + 1) = Suc (ring_count (r + 1) w)" by (rule ring_count_put)
  then show ?thesis by (simp add: ring_count_def)
qed

locale ring_buffer =
  fixes N :: nat
  assumes pos: "0 < N" and small: "N < 4294967296" and dvd: "N dvd 4294967296"
begin

lemma index_mod: "unat (r + of_nat k :: 32 word) mod N = (unat r + k) mod N"
proof -
  have "unat (r + of_nat k :: 32 word) = (unat r + k) mod 4294967296"
    by (simp only: unat_plus32 unat_of_nat32 mod_add_right_eq)
  then show ?thesis using dvd by (simp add: mod_mod_cancel)
qed

lemma index_ne: "k < j \<Longrightarrow> j < N \<Longrightarrow> (m + k) mod N \<noteq> (m + j) mod N"
proof
  assume a: "k < j" "j < N" "(m + k) mod N = (m + j) mod N"
  then have "N dvd (m + j) - (m + k)" by (metis mod_eq_dvd_iff_nat add_le_cancel_left less_imp_le)
  then have "N dvd j - k" by simp
  then show False using a(1,2) by (auto dest: dvd_imp_le)
qed

lemma put_bytes:
  assumes "length d = N" "ring_count r w < N"
  shows "ring_bytes N (d[unat w mod N := c]) r (w + 1) = ring_bytes N d r w @ [c]"
proof -
  let ?n = "ring_count r w"
  have cnt: "ring_count r (w + 1) = Suc ?n" using assms(2) small by (intro ring_count_put) simp
  have w: "unat w mod N = (unat r + ?n) mod N" using index_mod [of r ?n] by (simp add: ring_write_end)
  have "d[(unat r + ?n) mod N := c] ! ((unat r + k) mod N) = d ! ((unat r + k) mod N)" if "k < ?n" for k
    using index_ne [OF that assms(2), of "unat r"] by (simp add: nth_list_update_neq [OF not_sym])
  then show ?thesis
    using assms(1) pos unfolding ring_bytes_def cnt by (simp add: index_mod w)
qed

lemma get_bytes:
  assumes "r \<noteq> w"
  shows "ring_bytes N d r w = d ! (unat r mod N) # ring_bytes N d (r + 1) w"
proof -
  have "[0..<Suc (ring_count (r + 1) w)] = 0 # map Suc [0..<ring_count (r + 1) w]"
    by (simp add: upt_conv_Cons map_Suc_upt del: upt_Suc)
  then show ?thesis
    unfolding ring_bytes_def ring_count_get [OF assms] by (simp add: comp_def algebra_simps)
qed

lemma full_count: "w = r + of_nat N \<longleftrightarrow> ring_count r w = N"
proof
  assume "w = r + of_nat N"
  then show "ring_count r w = N" using small by (simp add: ring_count_def unat_of_nat32)
next
  assume "ring_count r w = N"
  then show "w = r + of_nat N" using ring_write_end [of r w] by simp
qed

end

end
