(* ===== verification/Sleep_Facts.thy ===== *)
theory Sleep_Facts
  imports Locks
begin

text \<open>
  \<^verbatim>\<open>sleep\<close> and \<^verbatim>\<open>wakeup\<close> for a spin lock that guards the condition: falling asleep gives up the lock only
  after the lock of the process table has been taken, and waking takes it back.
\<close>

section \<open>Going to sleep\<close>

definition asleep :: "nat \<Rightarrow> chan \<Rightarrow> addr \<Rightarrow> 'a kproc_scheme \<Rightarrow> 'a kproc_scheme" where
  "asleep p ch sp s = upd_proc p (\<lambda>q. q\<lparr>pchan := ch, pstate := SLEEPING, pcontext := sp\<rparr>) s"

lemma upd_proc_upd_proc: "p < length (ptable s) \<Longrightarrow> upd_proc p f (upd_proc p h s) = upd_proc p (\<lambda>q. f (h q)) s"
  by (simp add: upd_proc_def)

lemma length_upd_proc [simp]: "length (ptable (upd_proc q f s)) = length (ptable s)"
  by (simp add: upd_proc_def)

lemma nth_upd_proc:
  "p < length (ptable s) \<Longrightarrow> ptable (upd_proc q f s) ! p = (if p = q then f (ptable s ! p) else ptable s ! p)"
  by (auto simp: upd_proc_def)

lemma sched_out_enter:
  assumes "quiet p s" "ncli (kcpu s) = 0" "p < length (ptable s)" "pstate (ptable s ! p) \<noteq> RUNNING"
  shows "sched_out sp (enter ptable_lock_update s) =
    Inr (intena (kcpu s), upd_proc p (pcontext_update (\<lambda>_. sp)) (enter ptable_lock_update s))"
proof -
  let ?e = "enter ptable_lock_update s"
  have c: "cpu_ok (kcpu ?e)" "cproc (kcpu ?e) = Some p" "ncli (kcpu ?e) = 1" "\<not> eflags_if (kcpu ?e)"
      "intena (kcpu ?e) = intena (kcpu s)"
    using assms(1,2) by (simp_all add: quiet_def pl.kcpu_enter) (simp add: pushcli_def Let_def cpu_ok_def)
  have h: "held_by (kcpu ?e) (ptable_lock ?e)" by (simp add: held_by_def pl.get_enter pl.kcpu_enter)
  have p: "ptable ?e = ptable s" by (simp add: enter_def)
  have k: "?e\<lparr>kcpu := kcpu ?e\<rparr> = ?e" by simp
  show ?thesis using c h p assms(4) unfolding sched_out_def
    by (simp add: myproc_ok holding_ok mycpu_def Let_def k)
qed

locale proc_lock = lock_field g u ok
  for g :: "'a kproc_scheme \<Rightarrow> spinlock"
    and u :: "(spinlock \<Rightarrow> spinlock) \<Rightarrow> 'a kproc_scheme \<Rightarrow> 'a kproc_scheme"
    and ok :: "'a kproc_scheme \<Rightarrow> bool" +
  assumes ptable_upd: "ptable (u f s) = ptable s"
    and plock_upd: "ptable_lock (u f s) = ptable_lock s"
    and upd_ptable: "u f (s\<lparr>ptable := ps\<rparr>) = (u f s)\<lparr>ptable := ps\<rparr>"
    and get_ptable: "g (s\<lparr>ptable := ps\<rparr>) = g s"
    and ok_ptable: "ok (s\<lparr>ptable := ps\<rparr>) = ok s"
    and upd_plock: "u f (ptable_lock_update h s) = ptable_lock_update h (u f s)"
    and get_plock: "g (ptable_lock_update h s) = g s"
    and ok_plock: "ok (ptable_lock_update h s) = ok s"
begin

lemma quiet_enter: "quiet p s \<Longrightarrow> quiet p (enter u s)"
  by (simp add: quiet_def kcpu_enter) (simp add: enter_def plock_upd)

lemma ptable_enter: "ptable (enter u s) = ptable s"
  by (simp add: enter_def ptable_upd)

lemma wakeup_enter: "quiet p s \<Longrightarrow> wakeup ch (enter u s) = Inr (enter u (wakeup1 ch s))"
proof -
  assume "quiet p s"
  then have "quiet p (enter u s)" by (rule quiet_enter)
  then have "wakeup ch (enter u s) = Inr (wakeup1 ch (enter u s))" by (intro wakeup_ok) (simp_all add: quiet_def)
  also have "wakeup1 ch (enter u s) = enter u (wakeup1 ch s)"
    by (simp add: wakeup1_def enter_def ptable_upd upd_ptable upd_kcpu)
  finally show ?thesis .
qed

lemma enter_swap: "ok s \<Longrightarrow> enter ptable_lock_update (enter u s) = enter u (enter ptable_lock_update s)"
  by (simp add: enter_def kcpu_upd upd_plock upd_kcpu)

lemma sleep_enter:
  assumes "quiet p s" "ncli (kcpu s) = 0" "p < length (ptable s)" "ok s" "lock_free (g s)"
  shows "sleep_out ch (OtherLk g u) sp (enter u s) =
    Inr (intena (kcpu s), asleep p ch sp (enter ptable_lock_update s))"
proof -
  let ?e = "enter ptable_lock_update s"
  have q: "cpu_ok (kcpu s)" "lock_free (ptable_lock s)" "cproc (kcpu s) = Some p" using assms(1) by (simp_all add: quiet_def)
  have a: "acq_ptable (enter u s) = Inr (enter u ?e)"
    using q by (subst pl.acq_enter) (simp_all add: kcpu_enter enter_swap [OF assms(4)], simp add: enter_def plock_upd)
  have r: "rel g u (enter u ?e) = Inr ?e"
    using q assms(4,5) by (intro rel_enter) (simp_all add: pl.kcpu_enter, simp_all add: enter_def ok_plock ok_kcpu get_plock get_kcpu)
  have m: "myproc (enter u s) = Inr (Some p, enter u s)" using q by (simp add: myproc_ok kcpu_enter)
  define t where "t = upd_proc p (\<lambda>q. q\<lparr>pchan := ch, pstate := SLEEPING\<rparr>) s"
  have t: "upd_proc p (pstate_update (\<lambda>_. SLEEPING)) (upd_proc p (pchan_update (\<lambda>_. ch)) ?e) = enter ptable_lock_update t"
    using assms(3) by (simp add: t_def upd_proc_def enter_def)
  have "sched_out sp (enter ptable_lock_update t) =
      Inr (intena (kcpu t), upd_proc p (pcontext_update (\<lambda>_. sp)) (enter ptable_lock_update t))"
    using assms(1-3) by (intro sched_out_enter) (simp_all add: t_def upd_proc_def quiet_def)
  moreover have "upd_proc p (pcontext_update (\<lambda>_. sp)) (enter ptable_lock_update t) = asleep p ch sp ?e"
    using assms(3) by (simp add: t_def upd_proc_def enter_def asleep_def)
  moreover have "kcpu t = kcpu s" by (simp add: t_def upd_proc_def)
  ultimately show ?thesis by (simp add: sleep_out_def m a r t Let_def)
qed

end

section \<open>Waking up\<close>

text \<open>After \<^verbatim>\<open>wakeup\<close> no process sleeps on the channel, and nothing else has changed.\<close>

lemma wakeup1_wakes:
  assumes "i < length (ptable s)"
  shows "\<not> (pstate (ptable (wakeup1 ch s) ! i) = SLEEPING \<and> pchan (ptable (wakeup1 ch s) ! i) = ch)"
    and "pstate (ptable s ! i) = SLEEPING \<Longrightarrow> pchan (ptable s ! i) = ch \<Longrightarrow> pstate (ptable (wakeup1 ch s) ! i) = RUNNABLE"
    and "pstate (ptable s ! i) \<noteq> SLEEPING \<or> pchan (ptable s ! i) \<noteq> ch \<Longrightarrow> ptable (wakeup1 ch s) ! i = ptable s ! i"
  using assms by (auto simp: wakeup1_def)

end
