(* ===== verification/Pipe_Props.thy ===== *)
theory Pipe_Props
  imports Ring Sleep_Facts Machine
begin

text \<open>
  The pipe as a queue of bytes: \<^verbatim>\<open>pipewrite\<close> appends, \<^verbatim>\<open>piperead\<close> takes from the front, and a writer that
  must wait keeps exactly what did not fit.
\<close>

interpretation pr: ring_buffer PIPESIZE
  by unfold_locales simp_all

lemma pipe_update_cong: "f (plock q) = h (plock q) \<Longrightarrow> plock_update f q = plock_update h q"
  and pipe_update_id: "f (plock q) = plock q \<Longrightarrow> plock_update f q = q"
  by (cases q, simp)+

interpretation pp: proc_lock "plock_get p" "plock_upd p" "\<lambda>_. True" for p
proof unfold_locales
  show "plock_upd p f s = s" if "f (plock_get p s) = plock_get p s" for f s
  proof -
    have "plock_update f (pipes s p) = pipes s p" using that by (rule pipe_update_id)
    then show ?thesis by (simp add: upd_pipe_def)
  qed
  show "plock_upd p f s = plock_upd p h s" if "f (plock_get p s) = h (plock_get p s)" for f h s
  proof -
    have "plock_update f (pipes s p) = plock_update h (pipes s p)" using that by (rule pipe_update_cong)
    then show ?thesis by (simp add: upd_pipe_def)
  qed
qed (simp_all add: upd_pipe_def fun_upd_def comp_def cong: if_cong)

section \<open>The queue\<close>

definition pipe_bytes :: "pipe \<Rightarrow> byte list" where
  "pipe_bytes q = ring_bytes PIPESIZE (pdata q) (nread q) (nwrite q)"

definition pipe_ok :: "pipe \<Rightarrow> bool" where
  "pipe_ok q \<longleftrightarrow> length (pdata q) = PIPESIZE \<and> length (pipe_bytes q) \<le> PIPESIZE"

definition pipe_put :: "byte \<Rightarrow> pipe \<Rightarrow> pipe" where
  "pipe_put c q = q\<lparr>pdata := (pdata q)[unat (nwrite q) mod PIPESIZE := c], nwrite := nwrite q + 1\<rparr>"

definition room :: "pipe \<Rightarrow> nat" where
  "room q = PIPESIZE - length (pipe_bytes q)"

lemma pipe_put_fields [simp]:
  "plock (pipe_put c q) = plock q" "readopen (pipe_put c q) = readopen q" "writeopen (pipe_put c q) = writeopen q"
  "nread (pipe_put c q) = nread q" "pipe_put c (plock_update f q) = plock_update f (pipe_put c q)"
  by (simp_all add: pipe_put_def)

lemma pipe_full: "pipe_ok q \<Longrightarrow> nwrite q = nread q + of_nat PIPESIZE \<longleftrightarrow> room q = 0"
  by (simp only: pr.full_count) (auto simp: room_def pipe_ok_def pipe_bytes_def)

lemma pipe_put_ok:
  assumes "pipe_ok q" "0 < room q"
  shows "pipe_ok (pipe_put c q)" "pipe_bytes (pipe_put c q) = pipe_bytes q @ [c]" "room (pipe_put c q) = room q - 1"
proof -
  show b: "pipe_bytes (pipe_put c q) = pipe_bytes q @ [c]"
    using pr.put_bytes [of "pdata q" "nread q" "nwrite q" c] assms by (simp add: pipe_bytes_def pipe_put_def pipe_ok_def room_def)
  show "pipe_ok (pipe_put c q)" "room (pipe_put c q) = room q - 1"
    using assms b by (simp_all add: pipe_ok_def room_def) (simp add: pipe_put_def)
qed

definition pipe_puts :: "byte list \<Rightarrow> pipe \<Rightarrow> pipe" where
  "pipe_puts cs q = fold pipe_put cs q"

lemma pipe_puts_simps [simp]: "pipe_puts [] q = q" "pipe_puts (c # cs) q = pipe_puts cs (pipe_put c q)"
  by (simp_all add: pipe_puts_def)

lemma pipe_puts_fields [simp]:
  "plock (pipe_puts cs q) = plock q" "readopen (pipe_puts cs q) = readopen q" "writeopen (pipe_puts cs q) = writeopen q"
  by (induction cs arbitrary: q) simp_all

lemma pipe_puts_ok:
  assumes "pipe_ok q" "length cs \<le> room q"
  shows "pipe_ok (pipe_puts cs q) \<and> pipe_bytes (pipe_puts cs q) = pipe_bytes q @ cs"
  using assms
proof (induction cs arbitrary: q)
  case (Cons c cs)
  then show ?case using pipe_put_ok [of q c] by simp
qed simp

section \<open>Writing\<close>

lemma upd_pipe_enter:
  "(\<And>f q. h (plock_update f q) = plock_update f (h q)) \<Longrightarrow>
   upd_pipe p h (enter (plock_upd p) s) = enter (plock_upd p) (upd_pipe p h s)"
  by (simp add: enter_def upd_pipe_def)

lemma upd_pipe_upd_pipe: "upd_pipe p f (upd_pipe p h s) = upd_pipe p (\<lambda>q. f (h q)) s"
  by (simp add: upd_pipe_def)

lemma enter_pipe [simp]:
  "nwrite (pipes (enter (plock_upd p) s) p) = nwrite (pipes s p)" "nread (pipes (enter (plock_upd p) s) p) = nread (pipes s p)"
  "readopen (pipes (enter (plock_upd p) s) p) = readopen (pipes s p)"
  "writeopen (pipes (enter (plock_upd p) s) p) = writeopen (pipes s p)"
  by (simp_all add: enter_def upd_pipe_def)

lemma quiet_upd_pipe [simp]: "quiet i (upd_pipe p f s) = quiet i s" "ptable (upd_pipe p f s) = ptable s"
    "kcpu (upd_pipe p f s) = kcpu s"
  by (simp_all add: quiet_def upd_pipe_def)

text \<open>The bytes that fit are put into the buffer one by one; the loop then stands before the rest.\<close>

lemma pipewrite_fill:
  assumes "pipe_ok (pipes s p)" "length cs \<le> room (pipes s p)"
  shows "pipewrite_loop p n sp (cs @ ds) (enter (plock_upd p) s) =
    pipewrite_loop p n sp ds (enter (plock_upd p) (upd_pipe p (pipe_puts cs) s))"
  using assms
proof (induction cs arbitrary: s)
  case Nil
  then show ?case by (simp add: upd_pipe_def)
next
  case (Cons c cs)
  let ?t = "upd_pipe p (pipe_put c) s"
  have r: "0 < room (pipes s p)" using Cons.prems(2) by simp
  have "nwrite (pipes s p) \<noteq> nread (pipes s p) + of_nat PIPESIZE" using pipe_full [OF Cons.prems(1)] r by simp
  then have "pipewrite_loop p n sp ((c # cs) @ ds) (enter (plock_upd p) s) =
      pipewrite_loop p n sp (cs @ ds) (upd_pipe p (pipe_put c) (enter (plock_upd p) s))"
    by (simp add: pipe_put_def [abs_def])
  also have "upd_pipe p (pipe_put c) (enter (plock_upd p) s) = enter (plock_upd p) ?t" by (rule upd_pipe_enter) simp
  also have "pipewrite_loop p n sp (cs @ ds) (enter (plock_upd p) ?t) =
      pipewrite_loop p n sp ds (enter (plock_upd p) (upd_pipe p (pipe_puts cs) ?t))"
    using Cons.prems pipe_put_ok [OF Cons.prems(1) r] by (intro Cons.IH) (simp_all add: upd_pipe_def)
  finally show ?case by (simp add: upd_pipe_upd_pipe comp_def)
qed

lemma length_wakeup1: "length (ptable (wakeup1 ch s)) = length (ptable s)"
  by (simp add: wakeup1_def)

lemma pipe_wakeup1 [simp]: "pipes (wakeup1 ch s) = pipes s"
  by (simp add: wakeup1_def)

lemma pipe_release:
  assumes "quiet i s" "lock_free (plock (pipes s p))"
  shows "rel (plock_get p) (plock_upd p) (enter (plock_upd p) s) = Inr s"
  using assms by (intro pp.rel_enter) (simp_all add: quiet_def)

text \<open>With an empty rest the writer wakes the readers and returns; with a full pipe it gives up or sleeps.\<close>

lemma pipewrite_done:
  assumes "quiet i s" "lock_free (plock (pipes s p))"
  shows "pipewrite_loop p n sp [] (enter (plock_upd p) s) = Inr (Ret n (wakeup1 (ChPipeRead p) s))"
proof -
  have "rel (plock_get p) (plock_upd p) (enter (plock_upd p) (wakeup1 (ChPipeRead p) s)) = Inr (wakeup1 (ChPipeRead p) s)"
    using assms by (intro pipe_release) simp_all
  then show ?thesis by (simp add: pp.wakeup_enter [OF assms(1)])
qed

lemma pipewrite_wait:
  assumes "quiet i s" "ncli (kcpu s) = 0" "i < length (ptable s)" "lock_free (plock (pipes s p))"
    and "pipe_ok (pipes s p)" "room (pipes s p) = 0"
  shows "pipewrite_loop p n sp (c # cs) (enter (plock_upd p) s) =
    (if \<not> readopen (pipes s p) \<or> killed (ptable s ! i) then Inr (Ret (-1) s)
     else Inr (Blk (c # cs) (intena (kcpu s))
       (asleep i (ChPipeWrite p) sp (enter ptable_lock_update (wakeup1 (ChPipeRead p) s)))))"
proof -
  have full: "nwrite (pipes s p) = nread (pipes s p) + of_nat PIPESIZE" using pipe_full [OF assms(5)] assms(6) by simp
  have cur: "curproc (enter (plock_upd p) s) = Inr (i, enter (plock_upd p) s)"
    using assms(1) by (intro curproc_ok) (simp_all add: quiet_def pp.kcpu_enter)
  have sl: "sleep_out (ChPipeWrite p) (OtherLk (plock_get p) (plock_upd p)) sp (enter (plock_upd p) (wakeup1 (ChPipeRead p) s)) =
      Inr (intena (kcpu s), asleep i (ChPipeWrite p) sp (enter ptable_lock_update (wakeup1 (ChPipeRead p) s)))"
    using pp.sleep_enter [of i "wakeup1 (ChPipeRead p) s" p "ChPipeWrite p" sp] assms(1-4) by (simp add: length_wakeup1)
  show ?thesis
    by (simp add: full cur pp.ptable_enter pipe_release [OF assms(1,4)] pp.wakeup_enter [OF assms(1)] sl)
qed

lemma pipewrite_run:
  assumes "quiet i s" "ncli (kcpu s) = 0" "i < length (ptable s)" "lock_free (plock (pipes s p))" "pipe_ok (pipes s p)"
    and k_def: "k = room (pipes s p)" and v_def: "v = upd_pipe p (pipe_puts (take k src)) s"
  shows "pipewrite_start p src sp s =
    (if length src \<le> k then Inr (Ret (int (length src)) (wakeup1 (ChPipeRead p) v))
     else if \<not> readopen (pipes s p) \<or> killed (ptable s ! i) then Inr (Ret (-1) v)
     else Inr (Blk (drop k src) (intena (kcpu s))
       (asleep i (ChPipeWrite p) sp (enter ptable_lock_update (wakeup1 (ChPipeRead p) v)))))"
proof -
  have a: "acq (plock_get p) (plock_upd p) s = Inr (enter (plock_upd p) s)"
    using assms(1,4) by (intro pp.acq_enter) (simp_all add: quiet_def)
  have f: "pipewrite_start p src sp s = pipewrite_loop p (int (length src)) sp (drop k src) (enter (plock_upd p) v)"
    using pipewrite_fill [OF assms(5), of "take k src" "int (length src)" sp "drop k src"] a
    by (simp add: pipewrite_start_def k_def v_def)
  have pv: "pipes v p = pipe_puts (take k src) (pipes s p)" by (simp add: v_def upd_pipe_def)
  note ok = pipe_puts_ok [OF assms(5), of "take k src"]
  have v: "quiet i v" "ncli (kcpu v) = 0" "i < length (ptable v)" "lock_free (plock (pipes v p))"
      "ptable v = ptable s" "kcpu v = kcpu s" "readopen (pipes v p) = readopen (pipes s p)"
    using assms(1-4) pv by (simp_all add: v_def)
  show ?thesis
  proof (cases "length src \<le> k")
    case True
    then show ?thesis using f pipewrite_done [OF v(1,4)] by simp
  next
    case False
    then obtain c cs where d: "drop k src = c # cs" by (cases "drop k src") auto
    have "pipe_ok (pipes v p)" "room (pipes v p) = 0"
      using ok False assms(5) unfolding pv by (simp_all add: k_def room_def pipe_ok_def)
    from pipewrite_wait [OF v(1-4) this, of "int (length src)" sp c cs] show ?thesis
      using f d False v(5-7) by simp
  qed
qed

section \<open>Reading\<close>

definition pipe_drop :: "nat \<Rightarrow> pipe \<Rightarrow> pipe" where
  "pipe_drop n q = snd (piperead_copy n q)"

lemma pipe_bytes_cases:
  "pipe_bytes q = (if nread q = nwrite q then [] else pdata q ! (unat (nread q) mod PIPESIZE) # pipe_bytes (q\<lparr>nread := nread q + 1\<rparr>))"
proof (cases "nread q = nwrite q")
  case True
  then show ?thesis by (simp add: pipe_bytes_def ring_bytes_def ring_count_def)
next
  case False
  then show ?thesis using pr.get_bytes [OF False, of "pdata q"] by (simp add: pipe_bytes_def)
qed

lemma piperead_copy_spec:
  "fst (piperead_copy n q) = take n (pipe_bytes q) \<and> pipe_bytes (pipe_drop n q) = drop n (pipe_bytes q) \<and>
   plock (pipe_drop n q) = plock q \<and> pdata (pipe_drop n q) = pdata q"
proof (induction n arbitrary: q)
  case (Suc n)
  show ?case
  proof (cases "nread q = nwrite q")
    case True
    then show ?thesis by (simp add: pipe_drop_def pipe_bytes_cases [of q])
  next
    case False
    then show ?thesis using Suc [of "q\<lparr>nread := nread q + 1\<rparr>"] pipe_bytes_cases [of q]
      by (simp add: pipe_drop_def split_beta Let_def)
  qed
qed (simp add: pipe_drop_def)

lemma piperead_copy_lock:
  "piperead_copy n (plock_update f q) = (fst (piperead_copy n q), plock_update f (pipe_drop n q))"
proof (induction n arbitrary: q)
  case (Suc n)
  have e: "(plock_update f q)\<lparr>nread := nread q + 1\<rparr> = plock_update f (q\<lparr>nread := nread q + 1\<rparr>)" by simp
  show ?case using Suc [of "q\<lparr>nread := nread q + 1\<rparr>"] by (simp add: pipe_drop_def split_beta Let_def e)
qed (simp add: pipe_drop_def)

lemma pipe_empty: "nread q = nwrite q \<longleftrightarrow> pipe_bytes q = []"
  using pipe_bytes_cases [of q] by auto

lemma piperead_run:
  assumes "quiet i s" "ncli (kcpu s) = 0" "i < length (ptable s)" "lock_free (plock (pipes s p))"
    and v_def: "v = upd_pipe p (pipe_drop (nat n)) s"
  shows "piperead_start p n sp s =
    (if pipe_bytes (pipes s p) = [] \<and> writeopen (pipes s p) then
       if killed (ptable s ! i) then Inr (Ret (-1, []) s)
       else Inr (Blk () (intena (kcpu s)) (asleep i (ChPipeRead p) sp (enter ptable_lock_update s)))
     else let d = take (nat n) (pipe_bytes (pipes s p)) in Inr (Ret (int (length d), d) (wakeup1 (ChPipeWrite p) v)))"
proof -
  let ?e = "enter (plock_upd p) s"
  have a: "acq (plock_get p) (plock_upd p) s = Inr ?e"
    using assms(1,4) by (intro pp.acq_enter) (simp_all add: quiet_def)
  have cur: "curproc ?e = Inr (i, ?e)" using assms(1) by (intro curproc_ok) (simp_all add: quiet_def pp.kcpu_enter)
  have pe: "pipes ?e p = plock_update (\<lambda>l. l\<lparr>locked := True, lcpu := Some (cid (kcpu s))\<rparr>) (pipes s p)"
    by (simp add: enter_def upd_pipe_def)
  have c: "piperead_copy (nat n) (pipes ?e p) = (take (nat n) (pipe_bytes (pipes s p)),
      plock_update (\<lambda>l. l\<lparr>locked := True, lcpu := Some (cid (kcpu s))\<rparr>) (pipe_drop (nat n) (pipes s p)))"
    unfolding pe piperead_copy_lock using piperead_copy_spec [of "nat n" "pipes s p"] by simp
  have u: "upd_pipe p (\<lambda>_. plock_update (\<lambda>l. l\<lparr>locked := True, lcpu := Some (cid (kcpu s))\<rparr>) (pipe_drop (nat n) (pipes s p))) ?e =
      enter (plock_upd p) v"
    by (simp add: v_def enter_def upd_pipe_def)
  have qv: "quiet i v" "lock_free (plock (pipes v p))"
    using assms(1,4) piperead_copy_spec [of "nat n" "pipes s p"] by (simp_all add: v_def, simp add: upd_pipe_def)
  have r: "rel (plock_get p) (plock_upd p) (enter (plock_upd p) (wakeup1 (ChPipeWrite p) v)) = Inr (wakeup1 (ChPipeWrite p) v)"
    using qv by (intro pipe_release) simp_all
  have sl: "sleep_out (ChPipeRead p) (OtherLk (plock_get p) (plock_upd p)) sp ?e =
      Inr (intena (kcpu s), asleep i (ChPipeRead p) sp (enter ptable_lock_update s))"
    by (rule pp.sleep_enter [OF assms(1-3) TrueI assms(4)])
  show ?thesis unfolding piperead_start_def a piperead_round_def
    by (simp add: c u cur pp.ptable_enter pipe_release [OF assms(1,4)] sl pp.wakeup_enter [OF qv(1)] r pipe_empty [of "pipes s p"] Let_def)
qed

section \<open>Properties\<close>

text \<open>The state in which an operation leaves the pipe, whether it returned or sleeps.\<close>

fun outcome_state :: "('l, 'r, 's) outcome \<Rightarrow> 's" where
  "outcome_state (Ret r s) = s"
| "outcome_state (Blk l i s) = s"

lemma pipes_asleep [simp]: "pipes (asleep i ch sp (enter ptable_lock_update s)) = pipes s"
  by (simp add: asleep_def upd_proc_def enter_def)

definition pipe_demo :: ksys where
  "pipe_demo = machine\<lparr>pipes := (\<lambda>_. zero_pipe\<lparr>readopen := True, writeopen := True, nread := 0xFFFFFFFF, nwrite := 0xFFFFFFFF\<rparr>)\<rparr>"

lemma pipe_demo_ok:
  "quiet 0 pipe_demo" "ncli (kcpu pipe_demo) = 0" "0 < length (ptable pipe_demo)"
  "lock_free (plock (pipes pipe_demo p))" "pipe_ok (pipes pipe_demo p)" "pipe_bytes (pipes pipe_demo p) = []"
  by (simp_all add: pipe_demo_def machine_def quiet_def cpu_ok_def zero_pipe_def pipe_ok_def pipe_bytes_def
    ring_bytes_def ring_count_def)

text \<open>
  C21: \<^verbatim>\<open>pipewrite\<close> is an append to a bounded queue. The bytes that fit are behind the bytes that were
  there, also when the 32-bit counters wrap around. If all fit, the call returns the count; otherwise it
  returns -1 when there is no reader or the process was killed, and else it sleeps with exactly the bytes
  that did not fit left to write.
\<close>

theorem pipewrite_appends:
  assumes "quiet i s" "ncli (kcpu s) = 0" "i < length (ptable s)" "lock_free (plock (pipes s p))" "pipe_ok (pipes s p)"
  shows "\<exists>r t. pipewrite_start p src sp s = Inr r \<and> t = outcome_state r \<and> pipe_ok (pipes t p) \<and>
    pipe_bytes (pipes t p) = pipe_bytes (pipes s p) @ take (room (pipes s p)) src \<and>
    r = (if length src \<le> room (pipes s p) then Ret (int (length src)) t
      else if \<not> readopen (pipes s p) \<or> killed (ptable s ! i) then Ret (-1) t
      else Blk (drop (room (pipes s p)) src) (intena (kcpu s)) t)"
proof -
  let ?k = "room (pipes s p)"
  let ?q = "pipe_puts (take ?k src) (pipes s p)"
  have "pipe_ok ?q \<and> pipe_bytes ?q = pipe_bytes (pipes s p) @ take ?k src"
    by (rule pipe_puts_ok [OF assms(5)]) simp
  then show ?thesis
    using pipewrite_run [OF assms refl refl, of src sp] by (auto simp: upd_pipe_def split: if_splits)
qed

theorem pipewrite_appends_witness:
  "\<exists>r. pipewrite_start 0x80300000 [1, 2, 3] 0 pipe_demo = Inr r \<and> r = Ret 3 (outcome_state r) \<and>
    pipe_bytes (pipes (outcome_state r) 0x80300000) = [1, 2, 3]"
  using pipewrite_appends [OF pipe_demo_ok(1-3) pipe_demo_ok(4,5) [of "0x80300000"], where src = "[1, 2, 3]" and sp = 0]
    pipe_demo_ok(6) [of "0x80300000"]
  by (auto simp: room_def)

text \<open>
  C23: \<^verbatim>\<open>piperead\<close> takes from the front of the queue: the bytes that come first, at most as many as asked for,
  and the others stay in order. On an empty pipe it sleeps as long as there is a writer, and returns 0
  when there is none.
\<close>

theorem piperead_takes:
  assumes "quiet i s" "ncli (kcpu s) = 0" "i < length (ptable s)" "lock_free (plock (pipes s p))" "pipe_ok (pipes s p)"
  shows "\<exists>r t. piperead_start p n sp s = Inr r \<and> t = outcome_state r \<and> pipe_ok (pipes t p) \<and>
    (if pipe_bytes (pipes s p) = [] \<and> writeopen (pipes s p)
     then pipe_bytes (pipes t p) = [] \<and>
       r = (if killed (ptable s ! i) then Ret (-1, []) t else Blk () (intena (kcpu s)) t)
     else pipe_bytes (pipes s p) = take (nat n) (pipe_bytes (pipes s p)) @ pipe_bytes (pipes t p) \<and>
       r = Ret (int (length (take (nat n) (pipe_bytes (pipes s p)))), take (nat n) (pipe_bytes (pipes s p))) t)"
proof -
  have "pipe_ok (pipe_drop (nat n) (pipes s p)) \<and> pipe_bytes (pipe_drop (nat n) (pipes s p)) = drop (nat n) (pipe_bytes (pipes s p))"
    using assms(5) piperead_copy_spec [of "nat n" "pipes s p"] by (auto simp: pipe_ok_def)
  then show ?thesis
    using piperead_run [OF assms(1-4) refl, of n sp] assms(5) by (auto simp: upd_pipe_def Let_def split: if_splits)
qed

theorem piperead_takes_witness:
  "\<exists>r. piperead_start 0x80300000 5 0 pipe_demo = Inr r \<and> r = Blk () True (outcome_state r)"
  using piperead_takes [OF pipe_demo_ok(1-3) pipe_demo_ok(4,5) [of "0x80300000"], where n = 5 and sp = 0]
  by (auto simp: pipe_demo_def machine_def zero_pipe_def pipe_bytes_def ring_bytes_def ring_count_def first_proc_def zero_proc_def)

end
