(* ===== verification/Sleep_Wakeup.thy ===== *)
theory Sleep_Wakeup
  imports Sleep_Facts Machine
begin

text \<open>
  \<^verbatim>\<open>sleep\<close> and \<^verbatim>\<open>wakeup\<close> on several processors: the steps between which other processors can run, from
  the test of the condition with its lock held to the return from \<^verbatim>\<open>sleep\<close>, and from setting the
  condition to the end of \<^verbatim>\<open>wakeup\<close>. No wakeup is lost.
\<close>

section \<open>The steps\<close>

text \<open>
  Where a process is. \<open>Out\<close>: in other code. \<open>Test\<close>: before the test of the condition, with the lock.
  \<open>SlpAcq\<close>, \<open>SlpRel\<close>, \<open>SlpSet\<close>: in \<^verbatim>\<open>sleep\<close>, before \<^verbatim>\<open>acquire(&ptable.lock)\<close>, before \<^verbatim>\<open>release(lk)\<close>, before
  \<^verbatim>\<open>p->chan = chan\<close>. \<open>InSched\<close>: switched away, until the scheduler comes back with \<^verbatim>\<open>ptable.lock\<close> held.
  \<open>WakeIn\<close>: before \<^verbatim>\<open>release(&ptable.lock)\<close>. \<open>Reacq\<close>: before \<^verbatim>\<open>acquire(lk)\<close>. \<open>Fin\<close>: the condition holds, with the
  lock. \<open>SetC\<close>: before the change that makes the condition true. \<open>WkAcq\<close>, \<open>WkScan\<close>, \<open>WkRel\<close>: before the
  acquisition of \<^verbatim>\<open>ptable.lock\<close> in \<^verbatim>\<open>wakeup\<close>, before \<^verbatim>\<open>wakeup1\<close> and the release, before the release of the
  condition's lock.
\<close>

datatype spc = Out | Test | SlpAcq | SlpRel | SlpSet | InSched | WakeIn | Reacq | Fin | SetC | WkAcq | WkScan | WkRel

record sw =
  kst :: kproc
  spcs :: "nat \<Rightarrow> spc"
  lk_owner :: "nat option"
  pt_owner :: "nat option"
  cond :: bool

abbreviation at_pc :: "nat \<Rightarrow> spc \<Rightarrow> sw \<Rightarrow> sw" where
  "at_pc p c s \<equiv> s\<lparr>spcs := (spcs s)(p := c)\<rparr>"

inductive sw_step :: "chan \<Rightarrow> sw \<Rightarrow> sw \<Rightarrow> bool" for ch where
  take_lock: "spcs s p = Out \<Longrightarrow> lk_owner s = None \<Longrightarrow> c = Test \<or> c = SetC \<Longrightarrow>
    sw_step ch s (at_pc p c (s\<lparr>lk_owner := Some p\<rparr>))"
| test_true: "spcs s p = Test \<Longrightarrow> cond s \<Longrightarrow> sw_step ch s (at_pc p Fin s)"
| test_false: "spcs s p = Test \<Longrightarrow> \<not> cond s \<Longrightarrow> sw_step ch s (at_pc p SlpAcq s)"
| sleep_acquire: "spcs s p = SlpAcq \<Longrightarrow> pt_owner s = None \<Longrightarrow> sw_step ch s (at_pc p SlpRel (s\<lparr>pt_owner := Some p\<rparr>))"
| sleep_release: "spcs s p = SlpRel \<Longrightarrow> sw_step ch s (at_pc p SlpSet (s\<lparr>lk_owner := None\<rparr>))"
| sleep_sched: "spcs s p = SlpSet \<Longrightarrow>
    sw_step ch s (at_pc p InSched (s\<lparr>kst := asleep p ch sp (kst s), pt_owner := None\<rparr>))"
| scheduled: "spcs s p = InSched \<Longrightarrow> pt_owner s = None \<Longrightarrow> pstate (ptable (kst s) ! p) = RUNNABLE \<Longrightarrow>
    sw_step ch s (at_pc p WakeIn (s\<lparr>kst := upd_proc p (pstate_update (\<lambda>_. RUNNING)) (kst s), pt_owner := Some p\<rparr>))"
| sleep_return: "spcs s p = WakeIn \<Longrightarrow>
    sw_step ch s (at_pc p Reacq (s\<lparr>kst := upd_proc p (pchan_update (\<lambda>_. NoChan)) (kst s), pt_owner := None\<rparr>))"
| sleep_reacquire: "spcs s p = Reacq \<Longrightarrow> lk_owner s = None \<Longrightarrow> sw_step ch s (at_pc p Test (s\<lparr>lk_owner := Some p\<rparr>))"
| finish: "spcs s p = Fin \<Longrightarrow> b \<longrightarrow> cond s \<Longrightarrow> sw_step ch s (at_pc p Out (s\<lparr>lk_owner := None, cond := b\<rparr>))"
| set_cond: "spcs s p = SetC \<Longrightarrow> sw_step ch s (at_pc p WkAcq (s\<lparr>cond := True\<rparr>))"
| wakeup_acquire: "spcs s p = WkAcq \<Longrightarrow> pt_owner s = None \<Longrightarrow> sw_step ch s (at_pc p WkScan (s\<lparr>pt_owner := Some p\<rparr>))"
| wakeup_scan: "spcs s p = WkScan \<Longrightarrow> sw_step ch s (at_pc p WkRel (s\<lparr>kst := wakeup1 ch (kst s), pt_owner := None\<rparr>))"
| waker_release: "spcs s p = WkRel \<Longrightarrow> sw_step ch s (at_pc p Out (s\<lparr>lk_owner := None\<rparr>))"
| killed: "spcs s p = InSched \<Longrightarrow> pt_owner s = None \<Longrightarrow> pstate (ptable (kst s) ! p) = SLEEPING \<Longrightarrow>
    sw_step ch s (s\<lparr>kst := upd_proc p (pstate_update (\<lambda>_. RUNNABLE)) (kst s)\<rparr>)"

definition sleeps_on :: "chan \<Rightarrow> nat \<Rightarrow> sw \<Rightarrow> bool" where
  "sleeps_on ch p s \<longleftrightarrow> p < length (ptable (kst s)) \<and> pstate (ptable (kst s) ! p) = SLEEPING \<and> pchan (ptable (kst s) ! p) = ch"

definition sw_start :: "chan \<Rightarrow> sw \<Rightarrow> bool" where
  "sw_start ch s \<longleftrightarrow> ch \<noteq> NoChan \<and> (\<forall>p. spcs s p = Out) \<and> lk_owner s = None \<and> pt_owner s = None \<and> (\<forall>p. \<not> sleeps_on ch p s)"

section \<open>The invariant\<close>

fun has_lk :: "spc \<Rightarrow> bool" where
  "has_lk Out = False" | "has_lk Test = True" | "has_lk SlpAcq = True" | "has_lk SlpRel = True"
| "has_lk SlpSet = False" | "has_lk InSched = False" | "has_lk WakeIn = False" | "has_lk Reacq = False"
| "has_lk Fin = True" | "has_lk SetC = True" | "has_lk WkAcq = True" | "has_lk WkScan = True" | "has_lk WkRel = True"

fun has_pt :: "spc \<Rightarrow> bool" where
  "has_pt SlpRel = True" | "has_pt SlpSet = True" | "has_pt WakeIn = True" | "has_pt WkScan = True"
| "has_pt _ = False"

definition waking :: "sw \<Rightarrow> bool" where
  "waking s \<longleftrightarrow> (\<exists>w. spcs s w = WkAcq \<or> spcs s w = WkScan)"

definition owns :: "nat option \<Rightarrow> (spc \<Rightarrow> bool) \<Rightarrow> (nat \<Rightarrow> spc) \<Rightarrow> bool" where
  "owns a h f \<longleftrightarrow> (\<forall>p. a = Some p \<longleftrightarrow> h (f p))"

definition sw_inv :: "chan \<Rightarrow> sw \<Rightarrow> bool" where
  "sw_inv ch s \<longleftrightarrow> ch \<noteq> NoChan \<and> owns (lk_owner s) has_lk (spcs s) \<and> owns (pt_owner s) has_pt (spcs s) \<and>
     (\<forall>p. spcs s p = SlpAcq \<or> spcs s p = SlpRel \<longrightarrow> \<not> cond s) \<and>
     (\<forall>p. spcs s p = SlpSet \<and> cond s \<longrightarrow> waking s) \<and> (\<forall>p. sleeps_on ch p s \<and> cond s \<longrightarrow> waking s)"

lemma sw_invD:
  assumes "sw_inv ch s"
  shows "owns (lk_owner s) has_lk (spcs s)" "owns (pt_owner s) has_pt (spcs s)"
    "spcs s p = SlpAcq \<or> spcs s p = SlpRel \<Longrightarrow> \<not> cond s" "spcs s p = SlpSet \<Longrightarrow> cond s \<Longrightarrow> waking s"
    "sleeps_on ch p s \<Longrightarrow> cond s \<Longrightarrow> waking s" "ch \<noteq> NoChan"
  using assms unfolding sw_inv_def by blast+

lemma sw_inv_start: "sw_start ch s \<Longrightarrow> sw_inv ch s"
  by (simp add: sw_start_def sw_inv_def owns_def)

lemma owns_keep: "owns a h f \<Longrightarrow> h c = h (f p) \<Longrightarrow> owns a h (f(p := c))"
  and owns_take: "owns None h f \<Longrightarrow> h c \<Longrightarrow> owns (Some p) h (f(p := c))"
  and owns_drop: "owns a h f \<Longrightarrow> h (f p) \<Longrightarrow> \<not> h c \<Longrightarrow> owns None h (f(p := c))"
  by (auto simp: owns_def) (metis option.inject)

lemma owns_unique: "owns a h f \<Longrightarrow> h (f p) \<Longrightarrow> h (f q) \<Longrightarrow> p = q"
  by (metis owns_def option.inject)

lemma locks_step:
  assumes "sw_step ch s t" "owns (lk_owner s) has_lk (spcs s)" "owns (pt_owner s) has_pt (spcs s)"
  shows "owns (lk_owner t) has_lk (spcs t)" "owns (pt_owner t) has_pt (spcs t)"
  using assms by (cases; auto intro: owns_keep owns_take owns_drop)+

lemma waking_upd:
  "waking s \<Longrightarrow> spcs s p \<noteq> WkAcq \<Longrightarrow> spcs s p \<noteq> WkScan \<Longrightarrow> spcs t = (spcs s)(p := c) \<Longrightarrow> waking t"
  "c = WkAcq \<or> c = WkScan \<Longrightarrow> spcs t = (spcs s)(p := c) \<Longrightarrow> waking t"
  by (auto simp: waking_def)

text \<open>A wakeup under way stays under way until its scan.\<close>

lemma waking_step:
  assumes "sw_step ch s t" "waking s"
  obtains "waking t" | p where "spcs s p = WkScan" "spcs t = (spcs s)(p := WkRel)" "kst t = wakeup1 ch (kst s)"
proof -
  have "waking t \<or> (\<exists>p. spcs s p = WkScan \<and> spcs t = (spcs s)(p := WkRel) \<and> kst t = wakeup1 ch (kst s))"
    using assms(1)
  proof cases
    case (wakeup_acquire p)
    then show ?thesis using waking_upd(2) [of WkScan t s p] by simp
  next
    case (wakeup_scan p)
    then show ?thesis by auto
  next
    case (killed p)
    then show ?thesis using assms(2) by (simp add: waking_def)
  qed (rule disjI1, rule waking_upd(1) [OF assms(2)]; simp)+
  then show thesis using that by blast
qed

lemma cond_step: "sw_step ch s t \<Longrightarrow> cond t \<Longrightarrow> cond s \<or> waking t"
  by (cases rule: sw_step.cases) (auto simp: waking_def)

lemma slpset_from: "sw_step ch s t \<Longrightarrow> spcs t p = SlpSet \<Longrightarrow> spcs s p = SlpSet \<or> spcs s p = SlpRel"
  by (cases rule: sw_step.cases) (auto split: if_splits)

lemma sleeps_from: "ch \<noteq> NoChan \<Longrightarrow> sw_step ch s t \<Longrightarrow> sleeps_on ch p t \<Longrightarrow> sleeps_on ch p s \<or> spcs s p = SlpSet"
  by (cases rule: sw_step.cases)
    (auto simp: sleeps_on_def asleep_def wakeup1_def nth_upd_proc split: if_splits)

lemma scan_wakes: "kst t = wakeup1 ch (kst s) \<Longrightarrow> \<not> sleeps_on ch p t"
  using wakeup1_wakes(1) [of p "kst s" ch] by (auto simp: sleeps_on_def wakeup1_def)

lemma test_step:
  assumes "sw_step ch s t" "sw_inv ch s" "spcs t p = SlpAcq \<or> spcs t p = SlpRel"
  shows "\<not> cond t"
  using assms(1)
proof cases
  case (set_cond q)
  then have "p \<noteq> q" "has_lk (spcs s p)" "has_lk (spcs s q)" using assms(3) by (auto split: if_splits)
  then show ?thesis using owns_unique [OF sw_invD(1) [OF assms(2)]] by blast
qed (use assms(3) sw_invD(3) [OF assms(2)] in \<open>auto split: if_splits\<close>)

lemma sw_inv_step:
  assumes st: "sw_step ch s t" and inv: "sw_inv ch s"
  shows "sw_inv ch t"
proof -
  have excl: "spcs s p \<noteq> SlpSet" if "spcs s w = WkScan" for p w
    using owns_unique [OF sw_invD(2) [OF inv], of p w] that by auto
  have "waking t" if p: "spcs t p = SlpSet" and c: "cond t" for p
  proof (rule ccontr)
    assume n: "\<not> waking t"
    then have cs: "cond s" using cond_step [OF st c] by blast
    then have a: "spcs s p = SlpSet" using slpset_from [OF st p] sw_invD(3) [OF inv] by blast
    from waking_step [OF st sw_invD(4) [OF inv a cs]] show False using n excl a by metis
  qed
  moreover have "waking t" if p: "sleeps_on ch p t" and c: "cond t" for p
  proof (rule ccontr)
    assume n: "\<not> waking t"
    then have cs: "cond s" using cond_step [OF st c] by blast
    have "waking s" using sleeps_from [OF sw_invD(6) [OF inv] st p] sw_invD(4,5) [OF inv _ cs] by blast
    from waking_step [OF st this] show False using n scan_wakes p by metis
  qed
  ultimately show ?thesis
    using locks_step [OF st sw_invD(1,2) [OF inv]] test_step [OF st inv] sw_invD(6) [OF inv] unfolding sw_inv_def by blast
qed

lemma sw_inv_reachable: "(sw_step ch)\<^sup>*\<^sup>* s t \<Longrightarrow> sw_inv ch s \<Longrightarrow> sw_inv ch t"
  by (induction rule: rtranclp_induct) (auto intro: sw_inv_step)

section \<open>No wakeup is lost\<close>

text \<open>Process 0 of the machine falls asleep, then process 1 makes the condition true.\<close>

definition sw_demo :: sw where
  "sw_demo = \<lparr>kst = kproc.truncate machine, spcs = (\<lambda>_. Out), lk_owner = None, pt_owner = None, cond = False\<rparr>"

definition sw_asleep :: sw where
  "sw_asleep = \<lparr>kst = asleep 0 ChLog 0 (kproc.truncate machine), spcs = (\<lambda>_. Out)(0 := InSched), lk_owner = None,
     pt_owner = None, cond = False\<rparr>"

definition sw_set :: sw where
  "sw_set = sw_asleep\<lparr>spcs := (\<lambda>_. Out)(0 := InSched, 1 := WkAcq), lk_owner := Some 1, cond := True\<rparr>"

lemma sw_demo_start: "sw_start ChLog sw_demo"
  by (auto simp: sw_start_def sw_demo_def sleeps_on_def kproc.truncate_def machine_def first_proc_def zero_proc_def
    nth_Cons split: nat.splits)

lemma sw_demo_sleeps: "(sw_step ChLog)\<^sup>*\<^sup>* sw_demo sw_asleep"
proof -
  let ?s1 = "at_pc 0 Test (sw_demo\<lparr>lk_owner := Some 0\<rparr>)"
  let ?s2 = "at_pc 0 SlpAcq ?s1"
  let ?s3 = "at_pc 0 SlpRel (?s2\<lparr>pt_owner := Some 0\<rparr>)"
  let ?s4 = "at_pc 0 SlpSet (?s3\<lparr>lk_owner := None\<rparr>)"
  let ?s5 = "at_pc 0 InSched (?s4\<lparr>kst := asleep 0 ChLog 0 (kst ?s4), pt_owner := None\<rparr>)"
  have "sw_step ChLog sw_demo ?s1" by (rule take_lock) (simp_all add: sw_demo_def)
  moreover have "sw_step ChLog ?s1 ?s2" by (rule test_false) (simp_all add: sw_demo_def)
  moreover have "sw_step ChLog ?s2 ?s3" by (rule sleep_acquire) (simp_all add: sw_demo_def)
  moreover have "sw_step ChLog ?s3 ?s4" by (rule sleep_release) simp
  moreover have "sw_step ChLog ?s4 ?s5" by (rule sleep_sched) simp
  moreover have "?s5 = sw_asleep" by (simp add: sw_demo_def sw_asleep_def)
  ultimately show ?thesis by (metis (no_types, lifting) rtranclp.simps)
qed

lemma sw_demo_set: "(sw_step ChLog)\<^sup>*\<^sup>* sw_demo sw_set"
proof -
  let ?s1 = "at_pc 1 SetC (sw_asleep\<lparr>lk_owner := Some 1\<rparr>)"
  have "sw_step ChLog sw_asleep ?s1" by (rule take_lock) (simp_all add: sw_asleep_def)
  moreover have "sw_step ChLog ?s1 (at_pc 1 WkAcq (?s1\<lparr>cond := True\<rparr>))" by (rule set_cond) simp
  moreover have "at_pc 1 WkAcq (?s1\<lparr>cond := True\<rparr>) = sw_set" by (simp add: sw_set_def sw_asleep_def fun_upd_twist)
  ultimately show ?thesis using sw_demo_sleeps by (metis rtranclp.rtrancl_into_rtrancl)
qed

lemma sw_set_sleeps: "sleeps_on ChLog 0 sw_set" "cond sw_set"
  by (simp_all add: sw_set_def sw_asleep_def sleeps_on_def asleep_def upd_proc_def kproc.truncate_def machine_def)

text \<open>
  C24: In every reachable interleaving of processes that wait for a condition with \<^verbatim>\<open>sleep\<close> and processes
  that make it true and call \<^verbatim>\<open>wakeup\<close>, with the condition's lock held: when the condition is true and a
  process still sleeps on the channel, then some process is inside \<^verbatim>\<open>wakeup\<close> before its scan of the process
  table. And at most one process holds each of the two locks.
\<close>

theorem no_lost_wakeup:
  assumes "sw_start ch s" "(sw_step ch)\<^sup>*\<^sup>* s t"
  shows "(sleeps_on ch p t \<and> cond t \<longrightarrow> (\<exists>w. spcs t w = WkAcq \<or> spcs t w = WkScan)) \<and>
    (has_lk (spcs t p) \<and> has_lk (spcs t q) \<longrightarrow> p = q) \<and> (has_pt (spcs t p) \<and> has_pt (spcs t q) \<longrightarrow> p = q)"
proof -
  note i = sw_invD [OF sw_inv_reachable [OF assms(2) sw_inv_start [OF assms(1)]]]
  show ?thesis using i(5) owns_unique [OF i(1)] owns_unique [OF i(2)] by (auto simp: waking_def)
qed

theorem no_lost_wakeup_witness:
  "sleeps_on ChLog 0 sw_set \<and> cond sw_set \<and> (\<exists>w. spcs sw_set w = WkAcq \<or> spcs sw_set w = WkScan)"
  using no_lost_wakeup [OF sw_demo_start sw_demo_set, of 0 0] sw_set_sleeps by simp

section \<open>Every wakeup arrives\<close>

text \<open>
  Infinite runs, with pauses. A run is fair when a process inside of the protocol that can take a step again and
  again takes one again and again; a process in other code may stay there.
\<close>

definition can_move :: "chan \<Rightarrow> nat \<Rightarrow> sw \<Rightarrow> bool" where
  "can_move ch q s \<longleftrightarrow> spcs s q \<noteq> Out \<and> (\<exists>t. sw_step ch s t \<and> spcs t q \<noteq> spcs s q)"

definition sw_run :: "chan \<Rightarrow> (nat \<Rightarrow> sw) \<Rightarrow> bool" where
  "sw_run ch r \<longleftrightarrow> sw_start ch (r 0) \<and> (\<forall>i. sw_step ch (r i) (r (Suc i)) \<or> r (Suc i) = r i)"

definition sw_fair :: "chan \<Rightarrow> (nat \<Rightarrow> sw) \<Rightarrow> bool" where
  "sw_fair ch r \<longleftrightarrow> (\<forall>q. (\<forall>i. \<exists>j \<ge> i. can_move ch q (r j)) \<longrightarrow> (\<forall>i. \<exists>j \<ge> i. spcs (r (Suc j)) q \<noteq> spcs (r j) q))"

lemma sw_run_inv: "sw_run ch r \<Longrightarrow> sw_inv ch (r i)"
proof (induction i)
  case (Suc i)
  then show ?case using sw_inv_step by (metis sw_run_def)
qed (simp add: sw_run_def sw_inv_start)

text \<open>A step of process \<open>w\<close> in \<^verbatim>\<open>wakeup\<close>, and of the holder of \<^verbatim>\<open>ptable.lock\<close>.\<close>

lemma waker_step:
  assumes "sw_step ch s t" "spcs t w \<noteq> spcs s w"
  shows "spcs s w = WkAcq \<Longrightarrow> spcs t w = WkScan" "spcs s w = WkScan \<Longrightarrow> \<not> sleeps_on ch p t"
  using assms by (cases; auto split: if_splits simp: scan_wakes)+

lemma holder_step:
  assumes "sw_step ch s t" "spcs t q \<noteq> spcs s q" "has_pt (spcs s q)" "spcs s q \<noteq> SlpRel"
  shows "pt_owner t = None"
  using assms by cases (auto split: if_splits)

lemma can_move_WkAcq: "spcs s w = WkAcq \<Longrightarrow> pt_owner s = None \<Longrightarrow> can_move ch w s"
  unfolding can_move_def using wakeup_acquire [of s w ch]
  by (intro conjI exI [of _ "at_pc w WkScan (s\<lparr>pt_owner := Some w\<rparr>)"]) simp_all

lemma can_move_WkScan: "spcs s w = WkScan \<Longrightarrow> can_move ch w s"
  unfolding can_move_def using wakeup_scan [of s w ch]
  by (intro conjI exI [of _ "at_pc w WkRel (s\<lparr>kst := wakeup1 ch (kst s), pt_owner := None\<rparr>)"]) simp_all

lemma can_move_holder: "has_pt (spcs s q) \<Longrightarrow> can_move ch q s"
proof (cases "spcs s q")
  case SlpRel
  then show ?thesis unfolding can_move_def using sleep_release [of s q ch]
    by (intro conjI exI [of _ "at_pc q SlpSet (s\<lparr>lk_owner := None\<rparr>)"]) simp_all
next
  case SlpSet
  then show ?thesis unfolding can_move_def using sleep_sched [of s q ch 0]
    by (intro conjI exI [of _ "at_pc q InSched (s\<lparr>kst := asleep q ch 0 (kst s), pt_owner := None\<rparr>)"]) simp_all
next
  case WakeIn
  then show ?thesis unfolding can_move_def using sleep_return [of s q ch]
    by (intro conjI exI [of _ "at_pc q Reacq (s\<lparr>kst := upd_proc q (pchan_update (\<lambda>_. NoChan)) (kst s), pt_owner := None\<rparr>)"]) simp_all
qed (simp_all add: can_move_WkScan)

text \<open>A process that can always move does move; until then it is where it was.\<close>

lemma fair_moves:
  assumes "sw_fair ch r" "\<And>j. i \<le> j \<Longrightarrow> spcs (r j) q = c \<Longrightarrow> \<exists>k \<ge> j. spcs (r k) q = c \<longrightarrow> can_move ch q (r k)" "spcs (r i) q = c"
  obtains j where "i \<le> j" "spcs (r j) q = c" "spcs (r (Suc j)) q \<noteq> c"
proof -
  have "\<exists>j \<ge> i. spcs (r j) q \<noteq> c"
  proof (rule ccontr)
    assume "\<not> (\<exists>j \<ge> i. spcs (r j) q \<noteq> c)"
    then have st: "spcs (r j) q = c" if "i \<le> j" for j using that by blast
    have "\<exists>k \<ge> j. can_move ch q (r k)" for j
    proof -
      obtain k where "max i j \<le> k" "spcs (r k) q = c \<longrightarrow> can_move ch q (r k)" using assms(2) [of "max i j"] st by auto
      then show ?thesis using st by auto
    qed
    then obtain j where "i \<le> j" "spcs (r (Suc j)) q \<noteq> spcs (r j) q" using assms(1) unfolding sw_fair_def by blast
    then show False using st [of j] st [of "Suc j"] by simp
  qed
  then obtain k where k: "i \<le> k" "spcs (r k) q \<noteq> c" by blast
  define l where "l = (LEAST k. i \<le> k \<and> spcs (r k) q \<noteq> c)"
  have l: "i \<le> l" "spcs (r l) q \<noteq> c" using LeastI [of "\<lambda>k. i \<le> k \<and> spcs (r k) q \<noteq> c", OF conjI [OF k]] by (auto simp: l_def)
  have "l \<noteq> i" using l(2) assms(3) by auto
  then obtain m where m: "l = Suc m" "i \<le> m" using l(1) by (cases l) auto
  have "spcs (r m) q = c" using not_less_Least [of m "\<lambda>k. i \<le> k \<and> spcs (r k) q \<noteq> c"] m by (auto simp: l_def)
  then show thesis using that m l(2) by blast
qed

text \<open>While a process is in \<^verbatim>\<open>wakeup\<close> with the condition's lock, \<^verbatim>\<open>ptable.lock\<close> becomes free again.\<close>

lemma ptable_lock_free:
  assumes run: "sw_run ch r" "sw_fair ch r" and w: "spcs (r i) w = WkAcq"
  shows "\<exists>k \<ge> i. spcs (r k) w = WkAcq \<longrightarrow> pt_owner (r k) = None"
proof (cases "pt_owner (r i)")
  case (Some q)
  have h: "has_pt (spcs (r i) q)" using sw_invD(2) [OF sw_run_inv [OF run(1), of i]] Some unfolding owns_def by metis
  have ne: "spcs (r j) q \<noteq> SlpRel" if "spcs (r j) w = WkAcq" for j
    using owns_unique [OF sw_invD(1) [OF sw_run_inv [OF run(1), of j]], of q w] that by auto
  obtain j where j: "i \<le> j" "spcs (r j) q = spcs (r i) q" "spcs (r (Suc j)) q \<noteq> spcs (r i) q"
    by (rule fair_moves [OF run(2), of i q "spcs (r i) q"]) (use h can_move_holder in \<open>auto intro: order_refl\<close>)
  have st: "sw_step ch (r j) (r (Suc j))" using run(1) j(2,3) unfolding sw_run_def by metis
  have "pt_owner (r (Suc j)) = None"
    by (rule holder_step [OF st, of q]) (use j h ne [OF w] in auto)
  then show ?thesis using j(1) by (intro exI [of _ "Suc j"]) simp
qed (use w in blast)

lemma sleep_ends:
  assumes "sw_run ch r" "sw_fair ch r" "cond (r i)" "sleeps_on ch p (r i)"
  shows "\<exists>j > i. \<not> sleeps_on ch p (r j)"
proof -
  obtain w where w: "spcs (r i) w = WkAcq \<or> spcs (r i) w = WkScan"
    using sw_invD(5) [OF sw_run_inv [OF assms(1)] assms(4,3)] by (auto simp: waking_def)
  have st: "sw_step ch (r j) (r (Suc j))" if "spcs (r (Suc j)) w \<noteq> spcs (r j) w" for j
    using assms(1) that unfolding sw_run_def by metis
  have en: "\<exists>k \<ge> j. spcs (r k) w = WkAcq \<longrightarrow> can_move ch w (r k)" if "spcs (r j) w = WkAcq" for j
    using ptable_lock_free [OF assms(1,2) that] can_move_WkAcq by blast
  obtain k where k: "i \<le> k" "spcs (r k) w = WkScan"
  proof (cases "spcs (r i) w = WkScan")
    case False
    then have "spcs (r i) w = WkAcq" using w by simp
    then obtain j where j: "i \<le> j" "spcs (r j) w = WkAcq" "spcs (r (Suc j)) w \<noteq> WkAcq"
      by (rule fair_moves [OF assms(2) en, rotated]) blast
    then show thesis using that [of "Suc j"] waker_step(1) [OF st, of j] by simp
  qed (use that in blast)
  obtain j where j: "k \<le> j" "spcs (r j) w = WkScan" "spcs (r (Suc j)) w \<noteq> WkScan"
    by (rule fair_moves [OF assms(2), of k w WkScan]) (use k(2) can_move_WkScan in \<open>auto intro: order_refl\<close>)
  then have "\<not> sleeps_on ch p (r (Suc j))" using waker_step(2) [OF st] by simp
  then show ?thesis using k(1) j(1) by (intro exI [of _ "Suc j"]) simp
qed

text \<open>A process that sleeps on the channel is switched away, and when its sleep ends it is runnable.\<close>

lemma asleep_step:
  assumes "sw_step ch s t" "\<forall>p. sleeps_on ch p s \<longrightarrow> spcs s p = InSched" "sleeps_on ch p t" "ch \<noteq> NoChan"
  shows "spcs t p = InSched"
  using assms(1)
  by cases (use assms(2-4) in \<open>force simp: sleeps_on_def asleep_def nth_upd_proc wakeup1_def split: if_splits\<close>)+

lemma asleep_run:
  assumes "sw_run ch r" "sleeps_on ch p (r i)"
  shows "spcs (r i) p = InSched"
proof -
  have "\<forall>p. sleeps_on ch p (r i) \<longrightarrow> spcs (r i) p = InSched"
  proof (induction i)
    case (Suc i)
    show ?case
    proof (cases "r (Suc i) = r i")
      case False
      then have "sw_step ch (r i) (r (Suc i))" using assms(1) by (auto simp: sw_run_def)
      then show ?thesis using asleep_step Suc sw_invD(6) [OF sw_run_inv [OF assms(1)]] by blast
    qed (use Suc in simp)
  qed (use assms(1) in \<open>simp add: sw_run_def sw_start_def\<close>)
  then show ?thesis using assms(2) by blast
qed

lemma sleep_end_step:
  assumes "sw_step ch s t" "sleeps_on ch p s" "spcs s p = InSched" "\<not> sleeps_on ch p t"
  shows "pstate (ptable (kst t) ! p) = RUNNABLE"
  using assms(1)
proof cases
  case (wakeup_scan q)
  then show ?thesis using wakeup1_wakes(2) [of p "kst s" ch] assms(2) by (simp add: sleeps_on_def)
qed (use assms(2-4) in \<open>auto simp: sleeps_on_def asleep_def nth_upd_proc split: if_splits\<close>)

text \<open>
  C25: Every wakeup arrives. In every fair run, when the condition is true and a process sleeps on the
  channel, the process sleeps on until a later moment, and then it is runnable. The runs in which nobody is
  killed are among them.
\<close>

theorem wakeup_completes:
  assumes "sw_run ch r" "sw_fair ch r" "cond (r i)" "sleeps_on ch p (r i)"
  shows "\<exists>j > i. (\<forall>k. i \<le> k \<and> k < j \<longrightarrow> sleeps_on ch p (r k)) \<and> pstate (ptable (kst (r j)) ! p) = RUNNABLE"
proof -
  let ?P = "\<lambda>j. i < j \<and> \<not> sleeps_on ch p (r j)"
  define j where "j = (LEAST j. ?P j)"
  have j: "i < j" "\<not> sleeps_on ch p (r j)" using LeastI_ex [of ?P] sleep_ends [OF assms] unfolding j_def by blast+
  have low: "sleeps_on ch p (r k)" if "i \<le> k" "k < j" for k
    using not_less_Least [of k ?P] that assms(4) by (cases "k = i") (auto simp: j_def)
  obtain m where m: "j = Suc m" "i \<le> m" using j(1) by (cases j) auto
  have s: "sleeps_on ch p (r m)" using low m by simp
  then have "sw_step ch (r m) (r j)" using assms(1) j(2) m(1) unfolding sw_run_def by metis
  then show ?thesis using sleep_end_step s asleep_run [OF assms(1) s] j low by blast
qed

text \<open>
  The run of the witness: process 0 falls asleep, process 1 makes the condition true and calls \<^verbatim>\<open>wakeup\<close>,
  process 0 wakes up, finds the condition true, and both are back in other code.
\<close>

lemma run_through:
  assumes "sw_start ch s" "(sw_step ch)\<^sup>*\<^sup>* s t" "(sw_step ch)\<^sup>*\<^sup>* t u" "\<forall>q. spcs u q = Out"
  obtains r i where "sw_run ch r" "sw_fair ch r" "r i = t"
proof -
  obtain m f where f: "f 0 = s" "f m = t" "\<forall>i < m. sw_step ch (f i) (f (Suc i))"
    using rtranclp_imp_relpowp [OF assms(2)] by (auto simp: relpowp_fun_conv)
  obtain n g where g: "g 0 = t" "g n = u" "\<forall>i < n. sw_step ch (g i) (g (Suc i))"
    using rtranclp_imp_relpowp [OF assms(3)] by (auto simp: relpowp_fun_conv)
  define r where "r i = (if i \<le> m then f i else if i \<le> m + n then g (i - m) else u)" for i
  have "sw_step ch (r i) (r (Suc i)) \<or> r (Suc i) = r i" for i
  proof -
    consider "i < m" | "m \<le> i" "i < m + n" | "m + n \<le> i" by linarith
    then show ?thesis
    proof cases
      case 2
      then have "sw_step ch (g (i - m)) (g (Suc i - m))" using g(3) by (auto simp: Suc_diff_le)
      then show ?thesis using 2 f(2) g(1) by (cases "i = m") (auto simp: r_def)
    next
      case 3
      then show ?thesis using f(2) g(1,2) by (cases "i = m") (auto simp: r_def)
    qed (use f in \<open>auto simp: r_def\<close>)
  qed
  then have "sw_run ch r" using assms(1) f(1) by (simp add: sw_run_def r_def)
  moreover have "\<not> can_move ch q (r j)" if "Suc (m + n) \<le> j" for q j using that assms(4) by (simp add: can_move_def r_def)
  then have "sw_fair ch r" unfolding sw_fair_def by blast
  ultimately show thesis using that [of r m] f(2) by (simp add: r_def)
qed

lemma sw_set_finishes: "\<exists>u. (sw_step ChLog)\<^sup>*\<^sup>* sw_set u \<and> (\<forall>q. spcs u q = Out)"
proof -
  let ?s1 = "at_pc 1 WkScan (sw_set\<lparr>pt_owner := Some 1\<rparr>)"
  let ?s2 = "at_pc 1 WkRel (?s1\<lparr>kst := wakeup1 ChLog (kst ?s1), pt_owner := None\<rparr>)"
  let ?s3 = "at_pc 1 Out (?s2\<lparr>lk_owner := None\<rparr>)"
  let ?s4 = "at_pc 0 WakeIn (?s3\<lparr>kst := upd_proc 0 (pstate_update (\<lambda>_. RUNNING)) (kst ?s3), pt_owner := Some 0\<rparr>)"
  let ?s5 = "at_pc 0 Reacq (?s4\<lparr>kst := upd_proc 0 (pchan_update (\<lambda>_. NoChan)) (kst ?s4), pt_owner := None\<rparr>)"
  let ?s6 = "at_pc 0 Test (?s5\<lparr>lk_owner := Some 0\<rparr>)"
  let ?s7 = "at_pc 0 Fin ?s6"
  let ?s8 = "at_pc 0 Out (?s7\<lparr>lk_owner := None, cond := False\<rparr>)"
  have "pstate (ptable (kst ?s3) ! 0) = RUNNABLE"
    using wakeup1_wakes(2) [of 0 "kst sw_set" ChLog] sw_set_sleeps(1) by (simp add: sleeps_on_def)
  then have 4: "sw_step ChLog ?s3 ?s4" by (intro scheduled) (simp_all add: sw_set_def sw_asleep_def)
  have 1: "sw_step ChLog sw_set ?s1" by (rule wakeup_acquire) (simp_all add: sw_set_def sw_asleep_def)
  have 2: "sw_step ChLog ?s1 ?s2" by (rule wakeup_scan) simp
  have 3: "sw_step ChLog ?s2 ?s3" by (rule waker_release) simp
  have 5: "sw_step ChLog ?s4 ?s5" by (rule sleep_return) simp
  have 6: "sw_step ChLog ?s5 ?s6" by (rule sleep_reacquire) simp_all
  have 7: "sw_step ChLog ?s6 ?s7" by (rule test_true) (simp_all add: sw_set_def)
  have 8: "sw_step ChLog ?s7 ?s8" by (rule finish) simp_all
  note into = rtranclp.rtrancl_into_rtrancl [of "sw_step ChLog" sw_set]
  note p = into [OF into [OF into [OF into [OF rtranclp.rtrancl_refl 1] 2] 3] 4]
  have "(sw_step ChLog)\<^sup>*\<^sup>* sw_set ?s8" by (rule into [OF into [OF into [OF into [OF p 5] 6] 7] 8])
  moreover have "\<forall>q. spcs ?s8 q = Out" by (simp add: sw_set_def sw_asleep_def)
  ultimately show ?thesis by blast
qed

theorem wakeup_completes_witness:
  "\<exists>r i. sw_run ChLog r \<and> sw_fair ChLog r \<and> r i = sw_set \<and>
     (\<exists>j > i. (\<forall>k. i \<le> k \<and> k < j \<longrightarrow> sleeps_on ChLog 0 (r k)) \<and> pstate (ptable (kst (r j)) ! 0) = RUNNABLE)"
proof -
  obtain u where u: "(sw_step ChLog)\<^sup>*\<^sup>* sw_set u" "\<forall>q. spcs u q = Out" using sw_set_finishes by blast
  obtain r i where r: "sw_run ChLog r" "sw_fair ChLog r" "r i = sw_set"
    by (rule run_through [OF sw_demo_start sw_demo_set u])
  then show ?thesis using wakeup_completes [OF r(1,2), of i 0] sw_set_sleeps by auto
qed

end
