(* ===== verification/Sched_Props.thy ===== *)
theory Sched_Props
  imports Sleep_Facts Machine
begin

text \<open>
  The scheduler runs every process that is runnable. What a process does while it runs is a parameter;
  it must come back through \<^verbatim>\<open>sched\<close>, with the lock of the process table held, and leave the other runnable
  processes runnable.
\<close>

section \<open>The state of a scheduling processor\<close>

definition can_run :: "proc \<Rightarrow> bool" where
  "can_run q \<longleftrightarrow> pstate q = RUNNABLE \<and> kstack q \<noteq> 0 \<and> pgdir q \<noteq> 0"

definition sched_ok :: "'a kproc_scheme \<Rightarrow> bool" where
  "sched_ok s \<longleftrightarrow> cpu_ok (kcpu s) \<and> ncli (kcpu s) = 1 \<and> held_by (kcpu s) (ptable_lock s) \<and>
     (\<forall>q \<in> set (ptable s). pstate q = RUNNABLE \<longrightarrow> can_run q)"

text \<open>
  What is asked of \<open>run\<close>, and \<open>seen\<close>, a record of the processes that ran which lives outside of the
  fields that the scheduler uses.
\<close>

definition run_ok ::
    "('a \<Rightarrow> nat list) \<Rightarrow> (nat \<Rightarrow> 'a kproc_scheme \<Rightarrow> 'a kproc_scheme res) \<Rightarrow> bool" where
  "run_ok seen run \<longleftrightarrow> (\<forall>p s. sched_ok s \<longrightarrow> p < length (ptable s) \<longrightarrow> pstate (ptable s ! p) = RUNNING \<longrightarrow>
     cproc (kcpu s) = Some p \<longrightarrow>
     (\<exists>t. run p s = Inr t \<and> sched_ok t \<and> length (ptable t) = length (ptable s) \<and>
       seen (kproc.more t) = seen (kproc.more s) @ [p] \<and>
       (\<forall>j < length (ptable s). j \<noteq> p \<and> can_run (ptable s ! j) \<longrightarrow> can_run (ptable t ! j))))"

lemma sched_ok_run:
  assumes "sched_ok s" "p < length (ptable s)" "can_run (ptable s ! p)"
  defines "u \<equiv> upd_proc p (pstate_update (\<lambda>_. RUNNING))
    (s\<lparr>kcpu := (kcpu s)\<lparr>cproc := Some p\<rparr>, tss_esp0 := kstack (ptable s ! p) + KSTACKSIZE, cr3 := V2P (pgdir (ptable s ! p))\<rparr>)"
  shows "sched_ok u" "length (ptable u) = length (ptable s)" "pstate (ptable u ! p) = RUNNING" "cproc (kcpu u) = Some p"
    "kproc.more u = kproc.more s" "j \<noteq> p \<Longrightarrow> ptable u ! j = ptable s ! j"
proof -
  have "set (ptable u) \<subseteq> insert (pstate_update (\<lambda>_. RUNNING) (ptable s ! p)) (set (ptable s))"
    by (simp add: u_def upd_proc_def set_update_subset_insert)
  then have "\<forall>q \<in> set (ptable u). pstate q = RUNNABLE \<longrightarrow> can_run q"
    using assms(1) by (auto simp: sched_ok_def)
  moreover have "cpu_ok (kcpu u)" "ncli (kcpu u) = 1" "held_by (kcpu u) (ptable_lock u)"
    using assms(1) by (simp_all add: u_def upd_proc_def sched_ok_def cpu_ok_def held_by_def)
  ultimately show "sched_ok u" by (simp add: sched_ok_def)
  show "length (ptable u) = length (ptable s)" "pstate (ptable u ! p) = RUNNING" "cproc (kcpu u) = Some p"
    "kproc.more u = kproc.more s" "j \<noteq> p \<Longrightarrow> ptable u ! j = ptable s ! j"
    using assms(2) by (simp_all add: u_def upd_proc_def)
qed

lemma sched_ok_back:
  assumes "sched_ok s"
  shows "sched_ok ((switchkvm s)\<lparr>kcpu := (kcpu s)\<lparr>cproc := None\<rparr>\<rparr>)"
  using assms by (simp add: sched_ok_def switchkvm_def cpu_ok_def held_by_def)

section \<open>A pass over the table\<close>

lemma scheduler_visit:
  assumes "run_ok seen run" "sched_ok s" "p < length (ptable s)" "pstate (ptable s ! p) = RUNNABLE"
  obtains w where "scheduler_loop run (Suc n) p s = scheduler_loop run n (Suc p) w" "sched_ok w"
    "length (ptable w) = length (ptable s)" "seen (kproc.more w) = seen (kproc.more s) @ [p]"
    "\<forall>j < length (ptable s). j \<noteq> p \<and> can_run (ptable s ! j) \<longrightarrow> can_run (ptable w ! j)"
proof -
  have cr: "can_run (ptable s ! p)" using assms(2-4) by (auto simp: sched_ok_def)
  let ?s = "s\<lparr>kcpu := (kcpu s)\<lparr>cproc := Some p\<rparr>\<rparr>"
  have sw: "switchuvm (Some p) ?s = Inr (?s\<lparr>tss_esp0 := kstack (ptable s ! p) + KSTACKSIZE, cr3 := V2P (pgdir (ptable s ! p))\<rparr>)"
    using switchuvm_ok [of ?s p] cr assms(2) by (simp add: can_run_def sched_ok_def cpu_ok_def)
  let ?u = "upd_proc p (pstate_update (\<lambda>_. RUNNING))
    (?s\<lparr>tss_esp0 := kstack (ptable s ! p) + KSTACKSIZE, cr3 := V2P (pgdir (ptable s ! p))\<rparr>)"
  note u = sched_ok_run [OF assms(2,3) cr]
  obtain v where v: "run p ?u = Inr v" "sched_ok v" "length (ptable v) = length (ptable ?u)"
      "seen (kproc.more v) = seen (kproc.more ?u) @ [p]"
      "\<forall>j < length (ptable ?u). j \<noteq> p \<and> can_run (ptable ?u ! j) \<longrightarrow> can_run (ptable v ! j)"
    using assms(1,3) u(1,3,4) unfolding run_ok_def by (metis u(2))
  let ?w = "(switchkvm v)\<lparr>kcpu := (kcpu v)\<lparr>cproc := None\<rparr>\<rparr>"
  have k: "kcpu (switchkvm v) = kcpu v" by (simp add: switchkvm_def)
  have "scheduler_loop run (Suc n) p s = scheduler_loop run n (Suc p) ?w"
    using assms(4) sw v(1) by (simp add: Let_def k)
  moreover have "\<forall>j < length (ptable s). j \<noteq> p \<and> can_run (ptable s ! j) \<longrightarrow> can_run (ptable ?w ! j)"
    using v(5) u(2,6) by (simp add: switchkvm_def)
  moreover have "length (ptable ?w) = length (ptable s)" "seen (kproc.more ?w) = seen (kproc.more s) @ [p]"
    using v(3,4) u(2,5) by (simp_all add: switchkvm_def)
  ultimately show thesis using that sched_ok_back [OF v(2)] by metis
qed

lemma scheduler_loop_runs:
  assumes "run_ok seen run" "n + p = length (ptable s)" "sched_ok s"
  shows "\<exists>t ran. scheduler_loop run n p s = Inr t \<and> sched_ok t \<and> seen (kproc.more t) = seen (kproc.more s) @ ran \<and>
    sorted_wrt (<) ran \<and> set ran \<subseteq> {p..<p + n} \<and>
    (\<forall>j. p \<le> j \<and> j < p + n \<and> can_run (ptable s ! j) \<longrightarrow> j \<in> set ran)"
  using assms(2,3)
proof (induction n arbitrary: p s)
  case 0
  then show ?case by (intro exI [of _ s] exI [of _ "[]"]) simp
next
  case (Suc n)
  have p: "p < length (ptable s)" using Suc.prems(1) by simp
  show ?case
  proof (cases "pstate (ptable s ! p) = RUNNABLE")
    case False
    obtain t ran where t: "scheduler_loop run n (Suc p) s = Inr t" "sched_ok t" "seen (kproc.more t) = seen (kproc.more s) @ ran"
        "sorted_wrt (<) ran" "set ran \<subseteq> {Suc p..<Suc p + n}"
        "\<forall>j. Suc p \<le> j \<and> j < Suc p + n \<and> can_run (ptable s ! j) \<longrightarrow> j \<in> set ran"
      using Suc.IH [of "Suc p" s] Suc.prems by auto
    have "j \<in> set ran" if "p \<le> j" "j < p + Suc n" "can_run (ptable s ! j)" for j
      using t(6) that False by (cases "j = p") (auto simp: can_run_def)
    then show ?thesis using t False by (intro exI [of _ t] exI [of _ ran]) auto
  next
    case True
    obtain w where w: "scheduler_loop run (Suc n) p s = scheduler_loop run n (Suc p) w" "sched_ok w"
        "length (ptable w) = length (ptable s)" "seen (kproc.more w) = seen (kproc.more s) @ [p]"
        "\<forall>j < length (ptable s). j \<noteq> p \<and> can_run (ptable s ! j) \<longrightarrow> can_run (ptable w ! j)"
      by (rule scheduler_visit [OF assms(1) Suc.prems(2) p True, of n])
    obtain t ran where t: "scheduler_loop run n (Suc p) w = Inr t" "sched_ok t" "seen (kproc.more t) = seen (kproc.more w) @ ran"
        "sorted_wrt (<) ran" "set ran \<subseteq> {Suc p..<Suc p + n}"
        "\<forall>j. Suc p \<le> j \<and> j < Suc p + n \<and> can_run (ptable w ! j) \<longrightarrow> j \<in> set ran"
      using Suc.IH [of "Suc p" w] Suc.prems(1) w(2,3) by auto
    have "j \<in> set (p # ran)" if j: "p \<le> j" "j < p + Suc n" "can_run (ptable s ! j)" for j
      using t(6) w(5) j Suc.prems(1) by (cases "j = p") auto
    moreover have "seen (kproc.more t) = seen (kproc.more s) @ p # ran" using t(3) w(4) by simp
    moreover have "sorted_wrt (<) (p # ran)" "set (p # ran) \<subseteq> {p..<p + Suc n}" using t(4,5) by auto
    ultimately show ?thesis using t(1,2) w(1) by metis
  qed
qed

section \<open>A round of the scheduler\<close>

lemma rel_held:
  assumes "cpu_ok (kcpu s)" "ncli (kcpu s) = 1" "held_by (kcpu s) (ptable_lock s)"
  obtains c l where "rel_ptable s = Inr (s\<lparr>kcpu := c, ptable_lock := l\<rparr>)"
  using assms that by (auto simp: rel_def release_def holding_ok popcli_def Let_def cpu_ok_def)

lemma pushcli_sti: "ncli c = 0 \<Longrightarrow> pushcli (c\<lparr>eflags_if := True\<rparr>) = pushcli (c\<lparr>eflags_if := True, intena := True\<rparr>)"
  by (simp add: pushcli_def Let_def)

lemma scheduler_acquires:
  assumes "ncli (kcpu s) = 0" "lock_free (ptable_lock s)"
  shows "acq_ptable (s\<lparr>kcpu := (kcpu s)\<lparr>eflags_if := True\<rparr>\<rparr>) =
    Inr (enter ptable_lock_update (s\<lparr>kcpu := (kcpu s)\<lparr>eflags_if := True, intena := True\<rparr>\<rparr>))"
proof -
  let ?t = "s\<lparr>kcpu := (kcpu s)\<lparr>eflags_if := True, intena := True\<rparr>\<rparr>"
  have "acq_ptable (s\<lparr>kcpu := (kcpu s)\<lparr>eflags_if := True\<rparr>\<rparr>) = acq_ptable ?t"
    using assms(1) by (simp add: acq_def acquire_def pushcli_sti Let_def)
  also have "\<dots> = Inr (enter ptable_lock_update ?t)"
    using assms by (intro pl.acq_enter) (simp_all add: cpu_ok_def)
  finally show ?thesis .
qed

text \<open>
  C30: Every round of \<^verbatim>\<open>scheduler\<close> ends, provided that a process that runs comes back, and in it every process
  that is runnable at its start runs, exactly once and in the order of the process table.
\<close>

theorem scheduler_runs_all:
  assumes "run_ok seen run" "ncli (kcpu s) = 0" "lock_free (ptable_lock s)"
    and "\<forall>q \<in> set (ptable s). pstate q = RUNNABLE \<longrightarrow> kstack q \<noteq> 0 \<and> pgdir q \<noteq> 0"
  shows "\<exists>t ran. scheduler_round run s = Inr t \<and> seen (kproc.more t) = seen (kproc.more s) @ ran \<and> sorted_wrt (<) ran \<and>
    (\<forall>j < length (ptable s). pstate (ptable s ! j) = RUNNABLE \<longrightarrow> j \<in> set ran)"
proof -
  let ?t = "s\<lparr>kcpu := (kcpu s)\<lparr>eflags_if := True, intena := True\<rparr>\<rparr>"
  let ?e = "enter ptable_lock_update ?t"
  have e: "ptable ?e = ptable s" "kproc.more ?e = kproc.more s" by (simp_all add: enter_def)
  have ok: "sched_ok ?e"
    using assms(2,4) by (auto simp: sched_ok_def can_run_def e(1) pl.kcpu_enter pl.get_enter held_by_def cpu_ok_def)
  obtain u ran where u: "scheduler_loop run (length (ptable s)) 0 ?e = Inr u" "sched_ok u"
      "seen (kproc.more u) = seen (kproc.more s) @ ran" "sorted_wrt (<) ran"
      "\<forall>j. j < length (ptable s) \<and> can_run (ptable s ! j) \<longrightarrow> j \<in> set ran"
    using scheduler_loop_runs [OF assms(1) _ ok, of "length (ptable s)" 0] e by auto
  obtain c l where r: "rel_ptable u = Inr (u\<lparr>kcpu := c, ptable_lock := l\<rparr>)"
    by (rule rel_held [of u]) (use u(2) in \<open>auto simp: sched_ok_def\<close>)
  have "scheduler_round run s = Inr (u\<lparr>kcpu := c, ptable_lock := l\<rparr>)"
    unfolding scheduler_round_def by (simp add: scheduler_acquires [OF assms(2,3)] e(1) u(1) r Let_def)
  moreover have "j \<in> set ran" if "j < length (ptable s)" "pstate (ptable s ! j) = RUNNABLE" for j
    using u(5) that assms(4) by (auto simp: can_run_def)
  ultimately show ?thesis using u(3,4) by (intro exI [of _ "u\<lparr>kcpu := c, ptable_lock := l\<rparr>"] exI [of _ ran]) simp
qed

text \<open>Processes that fall asleep as soon as they run, on a machine with three runnable ones.\<close>

definition nap :: "nat \<Rightarrow> nat list kproc_scheme \<Rightarrow> nat list kproc_scheme res" where
  "nap p s = Inr (upd_proc p (pstate_update (\<lambda>_. SLEEPING)) (kproc.more_update (\<lambda>l. l @ [p]) s))"

lemma nap_ok: "run_ok id nap"
proof -
  have "sched_ok (upd_proc p (pstate_update (\<lambda>_. SLEEPING)) (kproc.more_update f s))" if "sched_ok s" for p f s
  proof -
    let ?t = "upd_proc p (pstate_update (\<lambda>_. SLEEPING)) (kproc.more_update f s)"
    have "set (ptable ?t) \<subseteq> insert (pstate_update (\<lambda>_. SLEEPING) (ptable s ! p)) (set (ptable s))"
      by (simp add: upd_proc_def set_update_subset_insert)
    then have "\<forall>q \<in> set (ptable ?t). pstate q = RUNNABLE \<longrightarrow> can_run q" using that by (auto simp: sched_ok_def)
    then show ?thesis using that by (simp add: sched_ok_def upd_proc_def)
  qed
  then show ?thesis by (auto simp: run_ok_def nap_def nth_upd_proc upd_proc_def)
qed

definition sched_demo :: "nat list kproc_scheme" where
  "sched_demo = kproc.extend ((kproc.truncate machine)\<lparr>ptable :=
     [first_proc\<lparr>pstate := RUNNABLE\<rparr>, zero_proc, first_proc\<lparr>pstate := RUNNABLE, pid := 2\<rparr>, first_proc\<lparr>pstate := RUNNABLE, pid := 3\<rparr>]\<rparr>) []"

theorem scheduler_runs_all_witness:
  "\<exists>t ran. scheduler_round nap sched_demo = Inr t \<and> kproc.more t = ran \<and> sorted_wrt (<) ran \<and> {0, 2, 3} \<subseteq> set ran"
proof -
  have d: "ncli (kcpu sched_demo) = 0" "lock_free (ptable_lock sched_demo)" "kproc.more sched_demo = []"
      "length (ptable sched_demo) = 4"
      "\<forall>q \<in> set (ptable sched_demo). pstate q = RUNNABLE \<longrightarrow> kstack q \<noteq> 0 \<and> pgdir q \<noteq> 0"
      "pstate (ptable sched_demo ! 0) = RUNNABLE" "pstate (ptable sched_demo ! 2) = RUNNABLE"
      "pstate (ptable sched_demo ! 3) = RUNNABLE"
    by (simp_all add: sched_demo_def kproc.extend_def kproc.truncate_def machine_def first_proc_def zero_proc_def)
  obtain t ran where "scheduler_round nap sched_demo = Inr t" "kproc.more t = ran" "sorted_wrt (<) ran"
      "\<forall>j < 4. pstate (ptable sched_demo ! j) = RUNNABLE \<longrightarrow> j \<in> set ran"
    using scheduler_runs_all [OF nap_ok d(1,2,5)] d(3,4) by auto
  then show ?thesis using d(6-8) by (intro exI [of _ t] exI [of _ ran]) simp
qed

end
