(* ===== verification/Usys.thy ===== *)
theory Usys
  imports Cstring
begin

text \<open>
  User programs: the library of \<^verbatim>\<open>ulib.c\<close> and \<^verbatim>\<open>printf.c\<close> and the small tools. A program runs in a world \<open>'w\<close>
  which it changes by system calls only; the calls are a parameter of the model. Strings are lists of
  bytes without the final zero.
\<close>

section \<open>Running\<close>

text \<open>
  A run that comes back gives a result and a world, a run that calls \<^verbatim>\<open>exit\<close> only a world. \<open>None\<close> is a run
  without a defined result: it never ends, or \<^verbatim>\<open>printf\<close> reads an argument that is not there.
\<close>

type_synonym ('r, 'w) u = "('w + 'r \<times> 'w) option"

definition ubnd :: "('r, 'w) u \<Rightarrow> ('r \<Rightarrow> 'w \<Rightarrow> ('q, 'w) u) \<Rightarrow> ('q, 'w) u" where
  "ubnd m f = (case m of None \<Rightarrow> None | Some (Inl w) \<Rightarrow> Some (Inl w) | Some (Inr (r, w)) \<Rightarrow> f r w)"

definition uret :: "'r \<Rightarrow> 'w \<Rightarrow> ('r, 'w) u" where
  "uret r w = Some (Inr (r, w))"

definition uexit :: "'w \<Rightarrow> ('r, 'w) u" where
  "uexit w = Some (Inl w)"

lemma ubnd_simps [simp]:
  "ubnd None f = None" "ubnd (Some (Inl w)) f = Some (Inl w)" "ubnd (uret r w) f = f r w" "ubnd (uexit w) f = uexit w"
  by (simp_all add: ubnd_def uret_def uexit_def)

lemma ubnd_mono [partial_function_mono]:
  assumes "mono_option B" "\<And>r w. mono_option (\<lambda>f. C f r w)"
  shows "mono_option (\<lambda>f. ubnd (B f) (\<lambda>r w. C f r w))"
proof (rule monotoneI)
  fix f g :: "'a \<Rightarrow> 'b option"
  assume fg: "fun_ord option_ord f g"
  have b: "option_ord (B f) (B g)" using assms(1) fg by (rule monotoneD [of _ _ _ f g])
  have c: "option_ord (C f r w) (C g r w)" for r w using assms(2) by (rule monotoneD) (rule fg)
  show "option_ord (ubnd (B f) (C f)) (ubnd (B g) (C g))"
  proof (cases "B f")
    case None
    then show ?thesis by (simp add: flat_ord_def)
  next
    case (Some x)
    then have "B g = Some x" using b by (simp add: flat_ord_def)
    then show ?thesis using Some c by (cases x) (auto simp: ubnd_def flat_ord_def)
  qed
qed

record ustat =
  us_type :: "16 word"
  us_dev :: "32 word"
  us_ino :: "32 word"
  us_nlink :: "16 word"
  us_size :: "32 word"

text \<open>The system calls of \<^verbatim>\<open>user.h\<close> that the programs use, as the running process sees them.\<close>

record 'w usys =
  u_read :: "int \<Rightarrow> nat \<Rightarrow> 'w \<Rightarrow> (int \<times> byte list) \<times> 'w"
  u_write :: "int \<Rightarrow> byte list \<Rightarrow> 'w \<Rightarrow> int \<times> 'w"
  u_open :: "byte list \<Rightarrow> nat \<Rightarrow> 'w \<Rightarrow> int \<times> 'w"
  u_close :: "int \<Rightarrow> 'w \<Rightarrow> int \<times> 'w"
  u_dup :: "int \<Rightarrow> 'w \<Rightarrow> int \<times> 'w"
  u_pipe :: "'w \<Rightarrow> (int \<times> (int \<times> int)) \<times> 'w"
  u_fstat :: "int \<Rightarrow> 'w \<Rightarrow> (int \<times> ustat) \<times> 'w"
  u_link :: "byte list \<Rightarrow> byte list \<Rightarrow> 'w \<Rightarrow> int \<times> 'w"
  u_unlink :: "byte list \<Rightarrow> 'w \<Rightarrow> int \<times> 'w"
  u_mkdir :: "byte list \<Rightarrow> 'w \<Rightarrow> int \<times> 'w"
  u_mknod :: "byte list \<Rightarrow> 16 word \<Rightarrow> 16 word \<Rightarrow> 'w \<Rightarrow> int \<times> 'w"
  u_chdir :: "byte list \<Rightarrow> 'w \<Rightarrow> int \<times> 'w"
  u_kill :: "int \<Rightarrow> 'w \<Rightarrow> int \<times> 'w"
  u_fork :: "'w \<Rightarrow> int \<times> 'w"
  u_wait :: "'w \<Rightarrow> int \<times> 'w"
  u_exec :: "byte list \<Rightarrow> byte list list \<Rightarrow> 'w \<Rightarrow> (int \<times> 'w) option"
  u_sleep :: "int \<Rightarrow> 'w \<Rightarrow> int \<times> 'w"

text \<open>A string literal.\<close>

definition lit :: "string \<Rightarrow> byte list" where
  "lit s = map (\<lambda>c. of_nat (of_char c)) s"

abbreviation chr :: "char \<Rightarrow> byte" where "chr c \<equiv> of_nat (of_char c)"

section \<open>Strings\<close>

fun strchr :: "byte list \<Rightarrow> byte \<Rightarrow> nat option" where
  "strchr [] c = None"
| "strchr (x # xs) c = (if x = c then Some 0 else map_option Suc (strchr xs c))"

fun ustrcmp :: "byte list \<Rightarrow> byte list \<Rightarrow> int" where
  "ustrcmp (p # ps) (q # qs) = (if p = q then ustrcmp ps qs else uint p - uint q)"
| "ustrcmp (p # ps) [] = uint p"
| "ustrcmp [] (q # qs) = - uint q"
| "ustrcmp [] [] = 0"

text \<open>\<^verbatim>\<open>atoi\<close> computes in a 32-bit \<^verbatim>\<open>int\<close>.\<close>

fun atoi_loop :: "32 word \<Rightarrow> byte list \<Rightarrow> 32 word" where
  "atoi_loop n [] = n"
| "atoi_loop n (c # cs) = (if 48 \<le> c \<and> c \<le> 57 then atoi_loop (n * 10 + ucast c - 48) cs else n)"

definition atoi :: "byte list \<Rightarrow> int" where
  "atoi s = sint (atoi_loop 0 s)"

text \<open>\<^verbatim>\<open>gets\<close>: \<open>n\<close> is what \<^verbatim>\<open>max - 1 - i\<close> leaves.\<close>

fun gets_loop :: "'w usys \<Rightarrow> nat \<Rightarrow> 'w \<Rightarrow> byte list \<times> 'w" where
  "gets_loop sys 0 w = ([], w)"
| "gets_loop sys (Suc n) w =
     (let ((cc, d), w) = u_read sys 0 1 w in
      if cc < 1 then ([], w)
      else let c = d ! 0 in
        if c = 10 \<or> c = 13 then ([c], w)
        else let (cs, w) = gets_loop sys n w in (c # cs, w))"

definition gets :: "'w usys \<Rightarrow> nat \<Rightarrow> 'w \<Rightarrow> byte list \<times> 'w" where
  "gets sys n w = gets_loop sys (n - 1) w"

definition ustat_of :: "'w usys \<Rightarrow> byte list \<Rightarrow> 'w \<Rightarrow> (int \<times> ustat option) \<times> 'w" where
  "ustat_of sys n w =
     (let (fd, w) = u_open sys n 0 w in
      if fd < 0 then ((-1, None), w)
      else let ((r, st), w) = u_fstat sys fd w; (_, w) = u_close sys fd w in ((r, Some st), w))"

section \<open>Formatted output\<close>

definition uputc :: "'w usys \<Rightarrow> int \<Rightarrow> byte \<Rightarrow> 'w \<Rightarrow> 'w" where
  "uputc sys fd c w = snd (u_write sys fd [c] w)"

definition digit :: "nat \<Rightarrow> byte" where
  "digit n = lit ''0123456789ABCDEF'' ! n"

text \<open>The \<^verbatim>\<open>do\<close> loop of \<^verbatim>\<open>printint\<close>: the digits, the last one first.\<close>

function digits :: "32 word \<Rightarrow> 32 word \<Rightarrow> byte list" where
  "digits x base =
     (if base < 2 then []
      else digit (unat (x mod base)) # (if x div base \<noteq> 0 then digits (x div base) base else []))"
  by pat_completeness auto
termination
proof (relation "measure (\<lambda>(x, base). unat x)")
  fix x base :: "32 word"
  assume "\<not> base < 2" "x div base \<noteq> 0"
  then have "2 \<le> unat base" "unat x \<noteq> 0" by (auto simp: word_less_nat_alt unat_eq_0 not_less)
  then show "((x div base, base), x, base) \<in> measure (\<lambda>(x, base). unat x)" by (simp add: unat_div)
qed simp

declare digits.simps [simp del]

definition uprintint :: "'w usys \<Rightarrow> int \<Rightarrow> 32 word \<Rightarrow> 32 word \<Rightarrow> bool \<Rightarrow> 'w \<Rightarrow> 'w" where
  "uprintint sys fd xx base sg w =
     (let neg = (sg \<and> sint xx < 0); x = (if neg then - xx else xx);
          buf = digits x base @ (if neg then [chr CHR ''-''] else [])
      in fold (uputc sys fd) (rev buf) w)"

text \<open>The arguments of \<^verbatim>\<open>printf\<close>: numbers and strings (\<open>None\<close> is the null pointer).\<close>

datatype parg = PInt "32 word" | PStr "byte list option"

fun uprintf_loop :: "'w usys \<Rightarrow> int \<Rightarrow> bool \<Rightarrow> byte list \<Rightarrow> parg list \<Rightarrow> 'w \<Rightarrow> (unit, 'w) u" where
  "uprintf_loop sys fd st [] ap w = uret () w"
| "uprintf_loop sys fd False (c # cs) ap w =
     (if c = chr CHR ''%'' then uprintf_loop sys fd True cs ap w
      else uprintf_loop sys fd False cs ap (uputc sys fd c w))"
| "uprintf_loop sys fd True (c # cs) ap w =
     (if c = chr CHR ''d'' then
        (case ap of PInt x # ap \<Rightarrow> uprintf_loop sys fd False cs ap (uprintint sys fd x 10 True w) | _ \<Rightarrow> None)
      else if c = chr CHR ''x'' \<or> c = chr CHR ''p'' then
        (case ap of PInt x # ap \<Rightarrow> uprintf_loop sys fd False cs ap (uprintint sys fd x 16 False w) | _ \<Rightarrow> None)
      else if c = chr CHR ''s'' then
        (case ap of PStr s # ap \<Rightarrow>
           uprintf_loop sys fd False cs ap (fold (uputc sys fd) (case s of None \<Rightarrow> lit ''(null)'' | Some t \<Rightarrow> t) w)
         | _ \<Rightarrow> None)
      else if c = chr CHR ''c'' then
        (case ap of PInt x # ap \<Rightarrow> uprintf_loop sys fd False cs ap (uputc sys fd (ucast x) w) | _ \<Rightarrow> None)
      else if c = chr CHR ''%'' then uprintf_loop sys fd False cs ap (uputc sys fd c w)
      else uprintf_loop sys fd False cs ap (uputc sys fd c (uputc sys fd (chr CHR ''%'') w)))"

definition uprintf :: "'w usys \<Rightarrow> int \<Rightarrow> string \<Rightarrow> parg list \<Rightarrow> 'w \<Rightarrow> (unit, 'w) u" where
  "uprintf sys fd fmt ap w = uprintf_loop sys fd False (lit fmt) ap w"

end
