(* ===== verification/Utools.thy ===== *)
theory Utools
  imports Usys
begin

text \<open>
  The user programs that read files and print: \<^verbatim>\<open>cat\<close>, \<^verbatim>\<open>wc\<close>, \<^verbatim>\<open>ls\<close>, \<^verbatim>\<open>echo\<close>, \<^verbatim>\<open>kill\<close>, \<^verbatim>\<open>ln\<close>, \<^verbatim>\<open>mkdir\<close>, \<^verbatim>\<open>rm\<close>,
  \<^verbatim>\<open>zombie\<close> and \<^verbatim>\<open>init\<close>. \<open>argv\<close> is the list of arguments, the program name included.
\<close>

section \<open>cat\<close>

partial_function (option) cat :: "'w usys \<Rightarrow> int \<Rightarrow> 'w \<Rightarrow> (unit, 'w) u" where
  "cat sys fd w =
     (let ((n, d), w) = u_read sys fd 512 w in
      if n > 0 then
        (let (m, w) = u_write sys 1 d w in
         if m \<noteq> n then ubnd (uprintf sys 1 ''cat: write error\<newline>'' [] w) (\<lambda>_. uexit)
         else cat sys fd w)
      else if n < 0 then ubnd (uprintf sys 1 ''cat: read error\<newline>'' [] w) (\<lambda>_. uexit)
      else uret () w)"

text \<open>The loop over the files of the command line, shared by the programs with one pass per file.\<close>

fun each_file :: "'w usys \<Rightarrow> string \<Rightarrow> (int \<Rightarrow> byte list \<Rightarrow> 'w \<Rightarrow> (unit, 'w) u) \<Rightarrow> byte list list \<Rightarrow> 'w \<Rightarrow> (unit, 'w) u" where
  "each_file sys nm f [] w = uexit w"
| "each_file sys nm f (a # as) w =
     (let (fd, w) = u_open sys a 0 w in
      if fd < 0 then ubnd (uprintf sys 1 (nm @ '': cannot open %s\<newline>'') [PStr (Some a)] w) (\<lambda>_. uexit)
      else ubnd (f fd a w) (\<lambda>_ w. each_file sys nm f as (snd (u_close sys fd w))))"

definition cat_main :: "'w usys \<Rightarrow> byte list list \<Rightarrow> 'w \<Rightarrow> (unit, 'w) u" where
  "cat_main sys argv w =
     (if length argv \<le> 1 then ubnd (cat sys 0 w) (\<lambda>_. uexit)
      else each_file sys ''cat'' (\<lambda>fd _. cat sys fd) (tl argv) w)"

section \<open>wc\<close>

record wcount =
  wl :: "32 word"
  ww :: "32 word"
  wc :: "32 word"
  inword :: bool

fun wc_bytes :: "byte list \<Rightarrow> wcount \<Rightarrow> wcount" where
  "wc_bytes [] k = k"
| "wc_bytes (b # bs) k =
     (let k = k\<lparr>wc := wc k + 1\<rparr>;
          k = (if b = 10 then k\<lparr>wl := wl k + 1\<rparr> else k);
          k = (if strchr [32, 13, 9, 10, 11] b \<noteq> None then k\<lparr>inword := False\<rparr>
               else if \<not> inword k then k\<lparr>ww := ww k + 1, inword := True\<rparr> else k)
      in wc_bytes bs k)"

partial_function (option) wc_loop :: "'w usys \<Rightarrow> int \<Rightarrow> wcount \<Rightarrow> 'w \<Rightarrow> (int \<times> wcount, 'w) u" where
  "wc_loop sys fd k w =
     (let ((n, d), w) = u_read sys fd 512 w in
      if n > 0 then wc_loop sys fd (wc_bytes d k) w else uret (n, k) w)"

definition wc_file :: "'w usys \<Rightarrow> int \<Rightarrow> byte list \<Rightarrow> 'w \<Rightarrow> (unit, 'w) u" where
  "wc_file sys fd name w =
     ubnd (wc_loop sys fd \<lparr>wl = 0, ww = 0, wc = 0, inword = False\<rparr> w) (\<lambda>(n, k) w.
       if n < 0 then ubnd (uprintf sys 1 ''wc: read error\<newline>'' [] w) (\<lambda>_. uexit)
       else uprintf sys 1 ''%d %d %d %s\<newline>'' [PInt (wl k), PInt (ww k), PInt (wc k), PStr (Some name)] w)"

definition wc_main :: "'w usys \<Rightarrow> byte list list \<Rightarrow> 'w \<Rightarrow> (unit, 'w) u" where
  "wc_main sys argv w =
     (if length argv \<le> 1 then ubnd (wc_file sys 0 [] w) (\<lambda>_. uexit)
      else each_file sys ''wc'' (wc_file sys) (tl argv) w)"

section \<open>ls\<close>

abbreviation uDIRSIZ :: nat where "uDIRSIZ \<equiv> 14"

text \<open>The part of a path after its last slash, padded with blanks.\<close>

definition last_elem :: "byte list \<Rightarrow> byte list" where
  "last_elem path = rev (takeWhile (\<lambda>c. c \<noteq> chr CHR ''/'') (rev path))"

definition fmtname :: "byte list \<Rightarrow> byte list" where
  "fmtname path =
     (let p = last_elem path in
      if length p \<ge> uDIRSIZ then p else p @ replicate (uDIRSIZ - length p) (chr CHR '' ''))"

definition ls_entry :: "'w usys \<Rightarrow> byte list \<Rightarrow> ustat \<Rightarrow> 'w \<Rightarrow> (unit, 'w) u" where
  "ls_entry sys path st w =
     uprintf sys 1 ''%s %d %d %d\<newline>''
       [PStr (Some (fmtname path)), PInt (scast (us_type st)), PInt (us_ino st), PInt (us_size st)] w"

text \<open>
  The entries of a directory: two bytes of inode number and 14 of name each. \<open>dir\<close> is the path with the
  slash. The name ends at its first zero.
\<close>

partial_function (option) ls_dir :: "'w usys \<Rightarrow> int \<Rightarrow> byte list \<Rightarrow> 'w \<Rightarrow> (unit, 'w) u" where
  "ls_dir sys fd dir w =
     (let ((n, d), w) = u_read sys fd 16 w in
      if n \<noteq> 16 then uret () w
      else if d ! 0 = 0 \<and> d ! 1 = 0 then ls_dir sys fd dir w
      else let path = dir @ takeWhile (\<lambda>c. c \<noteq> 0) (drop 2 d); ((r, st), w) = ustat_of sys path w in
        if r < 0 then ubnd (uprintf sys 1 ''ls: cannot stat %s\<newline>'' [PStr (Some path)] w) (\<lambda>_. ls_dir sys fd dir)
        else ubnd (ls_entry sys path (the st) w) (\<lambda>_. ls_dir sys fd dir))"

definition ls :: "'w usys \<Rightarrow> byte list \<Rightarrow> 'w \<Rightarrow> (unit, 'w) u" where
  "ls sys path w =
     (let (fd, w) = u_open sys path 0 w in
      if fd < 0 then uprintf sys 2 ''ls: cannot open %s\<newline>'' [PStr (Some path)] w
      else let ((r, st), w) = u_fstat sys fd w in
        if r < 0 then
          ubnd (uprintf sys 2 ''ls: cannot stat %s\<newline>'' [PStr (Some path)] w) (\<lambda>_ w. uret () (snd (u_close sys fd w)))
        else ubnd (if us_type st = 2 then ls_entry sys path st w
             else if us_type st = 1 then
               (if length path + 1 + uDIRSIZ + 1 > 512 then uprintf sys 1 ''ls: path too long\<newline>'' [] w
                else ls_dir sys fd (path @ lit ''/'') w)
             else uret () w) (\<lambda>_ w. uret () (snd (u_close sys fd w))))"

fun ls_each :: "'w usys \<Rightarrow> byte list list \<Rightarrow> 'w \<Rightarrow> (unit, 'w) u" where
  "ls_each sys [] w = uexit w"
| "ls_each sys (a # as) w = ubnd (ls sys a w) (\<lambda>_. ls_each sys as)"

definition ls_main :: "'w usys \<Rightarrow> byte list list \<Rightarrow> 'w \<Rightarrow> (unit, 'w) u" where
  "ls_main sys argv w =
     (if length argv < 2 then ubnd (ls sys (lit ''.'') w) (\<lambda>_. uexit) else ls_each sys (tl argv) w)"

section \<open>echo, kill, ln, mkdir, rm\<close>

fun echo_loop :: "'w usys \<Rightarrow> byte list list \<Rightarrow> 'w \<Rightarrow> (unit, 'w) u" where
  "echo_loop sys [] w = uexit w"
| "echo_loop sys (a # as) w =
     ubnd (uprintf sys 1 ''%s%s'' [PStr (Some a), PStr (Some (lit (if as \<noteq> [] then '' '' else ''\<newline>'')))] w)
       (\<lambda>_. echo_loop sys as)"

definition echo_main :: "'w usys \<Rightarrow> byte list list \<Rightarrow> 'w \<Rightarrow> (unit, 'w) u" where
  "echo_main sys argv w = echo_loop sys (tl argv) w"

definition kill_main :: "'w usys \<Rightarrow> byte list list \<Rightarrow> 'w \<Rightarrow> (unit, 'w) u" where
  "kill_main sys argv w =
     (if length argv < 2 then ubnd (uprintf sys 2 ''usage: kill pid...\<newline>'' [] w) (\<lambda>_. uexit)
      else uexit (fold (\<lambda>a w. snd (u_kill sys (atoi a) w)) (tl argv) w))"

definition ln_main :: "'w usys \<Rightarrow> byte list list \<Rightarrow> 'w \<Rightarrow> (unit, 'w) u" where
  "ln_main sys argv w =
     (if length argv \<noteq> 3 then ubnd (uprintf sys 2 ''Usage: ln old new\<newline>'' [] w) (\<lambda>_. uexit)
      else let (r, w) = u_link sys (argv ! 1) (argv ! 2) w in
        if r < 0 then ubnd (uprintf sys 2 ''link %s %s: failed\<newline>'' [PStr (Some (argv ! 1)), PStr (Some (argv ! 2))] w) (\<lambda>_. uexit)
        else uexit w)"

text \<open>The loop of \<^verbatim>\<open>mkdir\<close> and of \<^verbatim>\<open>rm\<close>: it stops at the first failure.\<close>

fun until_fails :: "'w usys \<Rightarrow> string \<Rightarrow> (byte list \<Rightarrow> 'w \<Rightarrow> int \<times> 'w) \<Rightarrow> byte list list \<Rightarrow> 'w \<Rightarrow> (unit, 'w) u" where
  "until_fails sys msg f [] w = uexit w"
| "until_fails sys msg f (a # as) w =
     (let (r, w) = f a w in
      if r < 0 then ubnd (uprintf sys 2 msg [PStr (Some a)] w) (\<lambda>_. uexit) else until_fails sys msg f as w)"

definition mkdir_main :: "'w usys \<Rightarrow> byte list list \<Rightarrow> 'w \<Rightarrow> (unit, 'w) u" where
  "mkdir_main sys argv w =
     (if length argv < 2 then ubnd (uprintf sys 2 ''Usage: mkdir files...\<newline>'' [] w) (\<lambda>_. uexit)
      else until_fails sys ''mkdir: %s failed to create\<newline>'' (u_mkdir sys) (tl argv) w)"

definition rm_main :: "'w usys \<Rightarrow> byte list list \<Rightarrow> 'w \<Rightarrow> (unit, 'w) u" where
  "rm_main sys argv w =
     (if length argv < 2 then ubnd (uprintf sys 2 ''Usage: rm files...\<newline>'' [] w) (\<lambda>_. uexit)
      else until_fails sys ''rm: %s failed to delete\<newline>'' (u_unlink sys) (tl argv) w)"

section \<open>zombie and init\<close>

definition zombie_main :: "'w usys \<Rightarrow> 'w \<Rightarrow> (unit, 'w) u" where
  "zombie_main sys w =
     (let (r, w) = u_fork sys w in if r > 0 then uexit (snd (u_sleep sys 5 w)) else uexit w)"

partial_function (option) init_reap :: "'w usys \<Rightarrow> int \<Rightarrow> 'w \<Rightarrow> (unit, 'w) u" where
  "init_reap sys n w =
     (let (wpid, w) = u_wait sys w in
      if wpid \<ge> 0 \<and> wpid \<noteq> n then ubnd (uprintf sys 1 ''zombie!\<newline>'' [] w) (\<lambda>_. init_reap sys n) else uret () w)"

text \<open>An \<^verbatim>\<open>exec\<close> that succeeds does not come back; it is the end of this program.\<close>

definition init_exec :: "'w usys \<Rightarrow> 'w \<Rightarrow> (unit, 'w) u" where
  "init_exec sys w =
     (case u_exec sys (lit ''sh'') [lit ''sh''] w of
        None \<Rightarrow> uexit w
      | Some (_, w) \<Rightarrow> ubnd (uprintf sys 1 ''init: exec sh failed\<newline>'' [] w) (\<lambda>_. uexit))"

partial_function (option) init_loop :: "'w usys \<Rightarrow> 'w \<Rightarrow> (unit, 'w) u" where
  "init_loop sys w =
     ubnd (uprintf sys 1 ''init: starting sh\<newline>'' [] w) (\<lambda>_ w.
       let (n, w) = u_fork sys w in
       if n < 0 then ubnd (uprintf sys 1 ''init: fork failed\<newline>'' [] w) (\<lambda>_. uexit)
       else if n = 0 then init_exec sys w
       else ubnd (init_reap sys n w) (\<lambda>_. init_loop sys))"

definition init_main :: "'w usys \<Rightarrow> 'w \<Rightarrow> (unit, 'w) u" where
  "init_main sys w =
     (let (r, w) = u_open sys (lit ''console'') 2 w;
          w = (if r < 0 then let (_, w) = u_mknod sys (lit ''console'') 1 1 w in snd (u_open sys (lit ''console'') 2 w) else w);
          (_, w) = u_dup sys 0 w;
          (_, w) = u_dup sys 0 w
      in init_loop sys w)"

end
