(* ===== verification/Grep.thy ===== *)
theory Grep
  imports Utools
begin

text \<open>
  \<^verbatim>\<open>grep.c\<close>: the matcher for patterns with \<^verbatim>\<open>^ . * $\<close> and the loop over the lines of a file. The matcher
  decides membership in the language that the pattern denotes.
\<close>

section \<open>The program\<close>

text \<open>Texts and patterns end where the list ends; there the C code reads the final zero.\<close>

function matchhere :: "byte list \<Rightarrow> byte list \<Rightarrow> bool" and matchstar :: "byte \<Rightarrow> byte list \<Rightarrow> byte list \<Rightarrow> bool" where
  "matchhere re str =
     (case re of [] \<Rightarrow> True
      | r # re' \<Rightarrow>
        if re' \<noteq> [] \<and> hd re' = chr CHR ''*'' then matchstar r (tl re') str
        else if r = chr CHR ''$'' \<and> re' = [] then str = []
        else (case str of [] \<Rightarrow> False | t # str' \<Rightarrow> (r = chr CHR ''.'' \<or> r = t) \<and> matchhere re' str'))"
| "matchstar c re str =
     (if matchhere re str then True
      else (case str of [] \<Rightarrow> False | t # str' \<Rightarrow> (t = c \<or> c = chr CHR ''.'') \<and> matchstar c re str'))"
  by pat_completeness auto
termination
  by (relation "measures [\<lambda>x. case x of Inl (re, str) \<Rightarrow> length re | Inr (c, re, str) \<Rightarrow> Suc (length re),
      \<lambda>x. case x of Inl (re, str) \<Rightarrow> length str | Inr (c, re, str) \<Rightarrow> length str]")
    (auto simp: neq_Nil_conv)

declare matchhere.simps [simp del] matchstar.simps [simp del]

fun match_any :: "byte list \<Rightarrow> byte list \<Rightarrow> bool" where
  "match_any re [] = matchhere re []"
| "match_any re (t # str) = (if matchhere re (t # str) then True else match_any re str)"

definition match :: "byte list \<Rightarrow> byte list \<Rightarrow> bool" where
  "match re str = (case re of r # re' \<Rightarrow> if r = chr CHR ''^'' then matchhere re' str else match_any re str | [] \<Rightarrow> match_any re str)"

text \<open>
  The lines in the buffer: those that match are written; what stays is the part behind the last
  newline.
\<close>

function grep_lines :: "'w usys \<Rightarrow> byte list \<Rightarrow> byte list \<Rightarrow> 'w \<Rightarrow> byte list \<times> 'w" where
  "grep_lines sys pat p w =
     (case strchr (takeWhile (\<lambda>c. c \<noteq> 0) p) 10 of
        None \<Rightarrow> (p, w)
      | Some q \<Rightarrow>
          let w = (if match pat (take q p) then snd (u_write sys 1 (take (q + 1) p) w) else w)
          in grep_lines sys pat (drop (q + 1) p) w)"
  by pat_completeness auto
termination
proof (relation "measure (\<lambda>(sys, pat, p, w). length p)")
  fix sys :: "'w usys" and pat p :: "byte list" and w w' q
  assume "strchr (takeWhile (\<lambda>c. c \<noteq> 0) p) 10 = Some q"
  then have "p \<noteq> []" by auto
  then show "((sys, pat, drop (q + 1) p, w'), sys, pat, p, w) \<in> measure (\<lambda>(sys, pat, p, w). length p)" by simp
qed simp

declare grep_lines.simps [simp del]

text \<open>
  The buffer holds 1024 bytes; \<open>m\<close> of them are left over from before. A buffer without a newline is
  dropped.
\<close>

partial_function (option) grep :: "'w usys \<Rightarrow> byte list \<Rightarrow> int \<Rightarrow> byte list \<Rightarrow> 'w \<Rightarrow> (unit, 'w) u" where
  "grep sys pat fd left w =
     (let ((n, d), w) = u_read sys fd (1024 - length left - 1) w in
      if n > 0 then
        (let buf = left @ d; (p, w) = grep_lines sys pat buf w
         in grep sys pat fd (if length p = length buf then [] else p) w)
      else uret () w)"

definition grep_main :: "'w usys \<Rightarrow> byte list list \<Rightarrow> 'w \<Rightarrow> (unit, 'w) u" where
  "grep_main sys argv w =
     (if length argv \<le> 1 then ubnd (uprintf sys 2 ''usage: grep pattern [file ...]\<newline>'' [] w) (\<lambda>_. uexit)
      else if length argv \<le> 2 then ubnd (grep sys (argv ! 1) 0 [] w) (\<lambda>_. uexit)
      else each_file sys ''grep'' (\<lambda>fd _. grep sys (argv ! 1) fd []) (drop 2 argv) w)"

section \<open>The language of a pattern\<close>

datatype item = One byte | Many byte

fun items :: "byte list \<Rightarrow> item list" where
  "items [] = []"
| "items [r] = (if r = chr CHR ''$'' then [] else [One r])"
| "items (r # s # re) = (if s = chr CHR ''*'' then Many r # items re else One r # items (s # re))"

fun to_end :: "byte list \<Rightarrow> bool" where
  "to_end [] = False"
| "to_end [r] = (r = chr CHR ''$'')"
| "to_end (r # s # re) = (if s = chr CHR ''*'' then to_end re else to_end (s # re))"

definition stands_for :: "byte \<Rightarrow> byte \<Rightarrow> bool" where
  "stands_for r t \<longleftrightarrow> r = chr CHR ''.'' \<or> r = t"

fun lang :: "item list \<Rightarrow> byte list set" where
  "lang [] = {[]}"
| "lang (One r # is) = {t # w | t w. stands_for r t \<and> w \<in> lang is}"
| "lang (Many r # is) = {v @ w | v w. (\<forall>t \<in> set v. stands_for r t) \<and> w \<in> lang is}"

definition prefix_in :: "item list \<Rightarrow> bool \<Rightarrow> byte list \<Rightarrow> bool" where
  "prefix_in is e str \<longleftrightarrow> (\<exists>w rest. str = w @ rest \<and> w \<in> lang is \<and> (e \<longrightarrow> rest = []))"

lemma prefix_in_nil: "prefix_in [] e str \<longleftrightarrow> (e \<longrightarrow> str = [])"
  by (auto simp: prefix_in_def)

lemma prefix_in_one:
  "prefix_in (One r # is) e str \<longleftrightarrow> (case str of [] \<Rightarrow> False | t # ts \<Rightarrow> stands_for r t \<and> prefix_in is e ts)"
  by (auto simp: prefix_in_def Cons_eq_append_conv split: list.splits)

lemma prefix_in_many:
  "prefix_in (Many r # is) e str \<longleftrightarrow>
     prefix_in is e str \<or> (case str of [] \<Rightarrow> False | t # ts \<Rightarrow> stands_for r t \<and> prefix_in (Many r # is) e ts)"
proof
  assume "prefix_in (Many r # is) e str"
  then obtain v w rest where v: "str = v @ w @ rest" "\<forall>t \<in> set v. stands_for r t" "w \<in> lang is" "e \<longrightarrow> rest = []"
    by (auto simp: prefix_in_def append_assoc [symmetric] simp del: append_assoc)
  then show "prefix_in is e str \<or> (case str of [] \<Rightarrow> False | t # ts \<Rightarrow> stands_for r t \<and> prefix_in (Many r # is) e ts)"
  proof (cases v)
    case Nil
    then show ?thesis using v by (auto simp: prefix_in_def)
  next
    case (Cons t v')
    then have "v' @ w \<in> lang (Many r # is)" using v by auto
    then have "prefix_in (Many r # is) e (v' @ w @ rest)"
      using v(4) unfolding prefix_in_def by (intro exI [of _ "v' @ w"] exI [of _ rest]) simp
    then show ?thesis using v(1,2) Cons by simp
  qed
next
  assume "prefix_in is e str \<or> (case str of [] \<Rightarrow> False | t # ts \<Rightarrow> stands_for r t \<and> prefix_in (Many r # is) e ts)"
  then show "prefix_in (Many r # is) e str"
  proof
    assume "prefix_in is e str"
    then obtain w rest where "str = w @ rest" "w \<in> lang is" "e \<longrightarrow> rest = []" by (auto simp: prefix_in_def)
    moreover from this have "[] @ w \<in> lang (Many r # is)" unfolding lang.simps by (intro CollectI exI [of _ "[]"] exI [of _ w]) simp
    ultimately show ?thesis by (auto simp: prefix_in_def)
  next
    assume "case str of [] \<Rightarrow> False | t # ts \<Rightarrow> stands_for r t \<and> prefix_in (Many r # is) e ts"
    then obtain t ts v w rest where a: "str = t # ts" "stands_for r t" "ts = (v @ w) @ rest"
        "\<forall>t \<in> set v. stands_for r t" "w \<in> lang is" "e \<longrightarrow> rest = []"
      by (auto simp: prefix_in_def split: list.splits simp del: append_assoc)
    then have "\<forall>x \<in> set (t # v). stands_for r x" by simp
    then have "(t # v) @ w \<in> lang (Many r # is)" using a(5) unfolding lang.simps by blast
    then show ?thesis using a unfolding prefix_in_def by (intro exI [of _ "(t # v) @ w"] exI [of _ rest]) simp
  qed
qed

lemma match_spec:
  "matchhere re str \<longleftrightarrow> prefix_in (items re) (to_end re) str"
  "matchstar c re str \<longleftrightarrow> prefix_in (Many c # items re) (to_end re) str"
proof (induction re str and c re str rule: matchhere_matchstar.induct)
  case (1 re str)
  show ?case
  proof (cases re rule: items.cases)
    case 1
    then show ?thesis by (simp add: matchhere.simps prefix_in_nil)
  next
    case (2 r)
    then show ?thesis using 1
      by (auto simp: matchhere.simps [of "[r]"] matchhere.simps [of "[]"] prefix_in_nil prefix_in_one stands_for_def
        split: list.splits)
  next
    case (3 r s re')
    then show ?thesis using 1
      by (auto simp: matchhere.simps [of "r # s # re'"] prefix_in_one stands_for_def split: list.splits)
  qed
next
  case (2 c re str)
  then show ?case
    by (subst matchstar.simps, subst prefix_in_many) (auto simp: stands_for_def split: list.splits)
qed

lemma match_any_spec: "match_any re str \<longleftrightarrow> (\<exists>pre post. str = pre @ post \<and> matchhere re post)"
proof (induction re str rule: match_any.induct)
  case (2 re t str)
  then show ?case by (auto simp: Cons_eq_append_conv)
qed simp

text \<open>
  C31: The matcher of \<^verbatim>\<open>grep\<close> always ends, and it decides what it is meant to decide: a text matches a pattern
  exactly when a part of the text is in the language of the pattern, where \<^verbatim>\<open>c*\<close> stands for any number of
  \<^verbatim>\<open>c\<close>, \<^verbatim>\<open>.\<close> for any character, a leading \<^verbatim>\<open>^\<close> asks for a part at the start of the text and a final \<^verbatim>\<open>$\<close> for one at
  its end.
\<close>

theorem grep_matches_language:
  "match re str \<longleftrightarrow>
    (let b = (re \<noteq> [] \<and> hd re = chr CHR ''^''); body = (if b then tl re else re) in
     \<exists>pre w post. str = pre @ w @ post \<and> w \<in> lang (items body) \<and> (b \<longrightarrow> pre = []) \<and> (to_end body \<longrightarrow> post = []))"
  by (cases re) (auto simp: match_def match_any_spec match_spec prefix_in_def Let_def)

theorem grep_matches_language_witness:
  "match (lit ''ab*$'') (lit ''xabb'') \<and>
    (\<exists>pre w post. lit ''xabb'' = pre @ w @ post \<and> w \<in> lang [One 97, Many 98] \<and> post = [])"
proof -
  have m: "match (lit ''ab*$'') (lit ''xabb'')"
    by (simp add: match_def lit_def matchhere.simps matchstar.simps)
  then show ?thesis using grep_matches_language [of "lit ''ab*$''" "lit ''xabb''"] by (simp add: lit_def Let_def)
qed

end
