(* ===== verification/Umalloc.thy ===== *)
theory Umalloc
  imports Paths Prelude
begin

text \<open>
  The allocator of \<^verbatim>\<open>umalloc.c\<close>. A header is at an address that is a multiple of its size, 8 bytes; the
  heap maps the address of a header to its two fields. \<open>ub\<close> is the address of the static header \<^verbatim>\<open>base\<close>, and
  \<open>sbrk\<close> the system call.
\<close>

section \<open>The program\<close>

record uheap =
  hptr :: "addr \<Rightarrow> addr"
  hsize :: "addr \<Rightarrow> 32 word"
  freep :: addr

abbreviation units :: "32 word \<Rightarrow> 32 word" where "units n \<equiv> 8 * n"

abbreviation set_ptr :: "addr \<Rightarrow> addr \<Rightarrow> uheap \<Rightarrow> uheap" where
  "set_ptr a v h \<equiv> h\<lparr>hptr := (hptr h)(a := v)\<rparr>"

abbreviation set_size :: "addr \<Rightarrow> 32 word \<Rightarrow> uheap \<Rightarrow> uheap" where
  "set_size a v h \<equiv> h\<lparr>hsize := (hsize h)(a := v)\<rparr>"

text \<open>The search for the place of a block in the list; it may run forever on a list that is not in order.\<close>

partial_function (option) free_loop :: "uheap \<Rightarrow> addr \<Rightarrow> addr \<Rightarrow> addr option" where
  "free_loop h bp p =
     (if bp > p \<and> bp < hptr h p then Some p
      else if p \<ge> hptr h p \<and> (bp > p \<or> bp < hptr h p) then Some p
      else free_loop h bp (hptr h p))"

definition link_block :: "addr \<Rightarrow> addr \<Rightarrow> uheap \<Rightarrow> uheap" where
  "link_block bp p h =
     (let h = (if bp + units (hsize h bp) = hptr h p
               then (let h = set_size bp (hsize h bp + hsize h (hptr h p)) h in set_ptr bp (hptr h (hptr h p)) h)
               else set_ptr bp (hptr h p) h);
          h = (if p + units (hsize h p) = bp
               then (let h = set_size p (hsize h p + hsize h bp) h in set_ptr p (hptr h bp) h)
               else set_ptr p bp h)
      in h\<lparr>freep := p\<rparr>)"

definition free :: "addr \<Rightarrow> uheap \<Rightarrow> uheap option" where
  "free ap h = (let bp = ap - 8 in Option.bind (free_loop h bp (freep h)) (\<lambda>p. Some (link_block bp p h)))"

definition morecore :: "(32 word \<Rightarrow> 'w \<Rightarrow> addr \<times> 'w) \<Rightarrow> 32 word \<Rightarrow> uheap \<times> 'w \<Rightarrow> (addr \<times> uheap \<times> 'w) option" where
  "morecore sbrk nu hw =
     (let (h, w) = hw; nu = (if nu < 4096 then 4096 else nu); (p, w) = sbrk (nu * 8) w in
      if p = -1 then Some (0, h, w)
      else Option.bind (free (p + 8) (set_size p nu h)) (\<lambda>h. Some (freep h, h, w)))"

text \<open>A block that is large enough: all of it, or its tail.\<close>

definition carve :: "32 word \<Rightarrow> addr \<Rightarrow> addr \<Rightarrow> uheap \<Rightarrow> addr \<times> uheap" where
  "carve nunits prevp p h =
     (let (p, h) = (if hsize h p = nunits then (p, set_ptr prevp (hptr h p) h)
        else (let h = set_size p (hsize h p - nunits) h; p = p + units (hsize h p) in (p, set_size p nunits h)))
      in (p + 8, h\<lparr>freep := prevp\<rparr>))"

partial_function (option) malloc_loop ::
    "(32 word \<Rightarrow> 'w \<Rightarrow> addr \<times> 'w) \<Rightarrow> 32 word \<Rightarrow> addr \<Rightarrow> addr \<Rightarrow> uheap \<times> 'w \<Rightarrow> (addr \<times> uheap \<times> 'w) option" where
  "malloc_loop sbrk nunits prevp p hw =
     (let (h, w) = hw in
      if hsize h p \<ge> nunits then (let (a, h) = carve nunits prevp p h in Some (a, h, w))
      else if p = freep h then
        Option.bind (morecore sbrk nunits (h, w)) (\<lambda>(p, h, w).
          if p = 0 then Some (0, h, w) else malloc_loop sbrk nunits p (hptr h p) (h, w))
      else malloc_loop sbrk nunits p (hptr h p) (h, w))"

definition nunits_of :: "32 word \<Rightarrow> 32 word" where
  "nunits_of nbytes = (nbytes + 8 - 1) div 8 + 1"

definition malloc :: "addr \<Rightarrow> (32 word \<Rightarrow> 'w \<Rightarrow> addr \<times> 'w) \<Rightarrow> 32 word \<Rightarrow> uheap \<times> 'w \<Rightarrow> (addr \<times> uheap \<times> 'w) option" where
  "malloc ub sbrk nbytes hw =
     (let (h, w) = hw;
          h = (if freep h = 0 then h\<lparr>hptr := (hptr h)(ub := ub), freep := ub, hsize := (hsize h)(ub := 0)\<rparr> else h)
      in malloc_loop sbrk (nunits_of nbytes) (freep h) (hptr h (freep h)) (h, w))"

section \<open>The free list\<close>

text \<open>
  The free list is a ring through \<^verbatim>\<open>base\<close> and the free blocks in the order of their addresses; the
  blocks do not overlap.
\<close>

definition ends :: "uheap \<Rightarrow> addr \<Rightarrow> nat" where
  "ends h a = unat a + 8 * unat (hsize h a)"

definition block_bytes :: "uheap \<Rightarrow> addr \<Rightarrow> nat set" where
  "block_bytes h a = {unat a..<ends h a}"

definition block_ok :: "addr \<Rightarrow> uheap \<Rightarrow> addr \<Rightarrow> bool" where
  "block_ok ub h a \<longleftrightarrow> 0 < hsize h a \<and> ends h a < 4294967296 \<and> unat ub + 8 \<le> unat a"

definition uinv :: "addr \<Rightarrow> uheap \<Rightarrow> addr list \<Rightarrow> bool" where
  "uinv ub h ys \<longleftrightarrow> path (hptr h) ub ys ub \<and> sorted_wrt (\<lambda>a b. ends h a \<le> unat b) ys \<and>
     (\<forall>a \<in> set ys. block_ok ub h a) \<and> hsize h ub = 0 \<and> freep h \<in> insert ub (set ys) \<and> ub \<noteq> 0"

definition free_bytes :: "uheap \<Rightarrow> addr list \<Rightarrow> nat set" where
  "free_bytes h ys = (\<Union>a \<in> set ys. block_bytes h a)"

lemma block_ok_less: "block_ok ub h a \<Longrightarrow> unat a < ends h a \<and> unat ub < unat a"
  by (simp add: block_ok_def ends_def word_less_nat_alt)

lemma uinvD:
  assumes "uinv ub h ys"
  shows "path (hptr h) ub ys ub" "sorted_wrt (\<lambda>a b. ends h a \<le> unat b) ys" "a \<in> set ys \<Longrightarrow> block_ok ub h a" "hsize h ub = 0"
    "freep h \<in> insert ub (set ys)" "ub \<noteq> 0"
  using assms by (simp_all add: uinv_def)

lemma uinv_ascending:
  assumes "uinv ub h ys"
  shows "sorted_wrt (<) (ub # ys)"
proof -
  have "sorted_wrt (<) ys"
    using uinvD(2) [OF assms] by (rule sorted_wrt_mono_rel [rotated])
      (use uinvD(3) [OF assms] block_ok_less in \<open>fastforce simp: word_less_nat_alt\<close>)
  moreover have "\<forall>a \<in> set ys. ub < a" using uinvD(3) [OF assms] block_ok_less by (auto simp: word_less_nat_alt)
  ultimately show ?thesis by simp
qed

section \<open>Finding the place of a block\<close>

definition passes :: "uheap \<Rightarrow> addr \<Rightarrow> addr \<Rightarrow> bool" where
  "passes h bp y \<longleftrightarrow> \<not> (bp > y \<and> bp < hptr h y) \<and> \<not> (y \<ge> hptr h y \<and> (bp > y \<or> bp < hptr h y))"

lemma free_loop_cases: "free_loop h bp p = (if passes h bp p then free_loop h bp (hptr h p) else Some p)"
  by (subst free_loop.simps) (auto simp: passes_def)

lemma free_loop_walk:
  assumes "path (hptr h) x ys e" "\<forall>y \<in> set (butlast (x # ys)). passes h bp y"
  shows "free_loop h bp x = free_loop h bp (last (x # ys))"
  using assms
proof (induction ys arbitrary: x)
  case (Cons y ys)
  have "free_loop h bp x = free_loop h bp y"
    using Cons.prems by (simp add: free_loop_cases [of h bp x])
  also have "\<dots> = free_loop h bp (last (y # ys))" using Cons.prems by (intro Cons.IH) auto
  finally show ?case by simp
qed simp

lemma path_next_in: "path f x ys e \<Longrightarrow> y \<in> set (butlast (x # ys)) \<Longrightarrow> f y \<in> set ys"
  by (induction ys arbitrary: x) (auto split: if_splits)

lemma path_next_greater:
  "path f x ys e \<Longrightarrow> sorted_wrt (<) (x # ys) \<Longrightarrow> y \<in> set (butlast (x # ys)) \<Longrightarrow> y < (f y :: addr)"
  by (induction ys arbitrary: x) (auto split: if_splits)

lemma path_from:
  assumes "path f a xs e" "y \<in> set (a # xs)"
  obtains us vs where "a # xs = us @ y # vs" "path f y vs e"
  using assms
proof (induction xs arbitrary: a thesis)
  case Nil
  then show ?case by (metis Nil_is_append_conv append_Nil list.set_cases set_ConsD empty_iff empty_set)
next
  case (Cons x xs)
  show ?case
  proof (cases "y = a")
    case True
    then show ?thesis using Cons.prems(1) [of "[]" "x # xs"] Cons.prems(2) by simp
  next
    case False
    then have "y \<in> set (x # xs)" "path f x xs e" using Cons.prems(2,3) by auto
    then obtain us vs where "x # xs = us @ y # vs" "path f y vs e" using Cons.IH by blast
    then show ?thesis using Cons.prems(1) [of "a # us" vs] by simp
  qed
qed

lemma free_loop_low:
  assumes p: "path (hptr h) x xs e" and s: "sorted_wrt (<) (x # xs)" and b: "\<forall>a \<in> set xs. a < bp"
  shows "free_loop h bp x = free_loop h bp (last (x # xs))"
proof (rule free_loop_walk [OF p], intro ballI)
  fix y assume y: "y \<in> set (butlast (x # xs))"
  have "hptr h y < bp" "y < hptr h y" using path_next_in [OF p y] b path_next_greater [OF p s y] by auto
  then show "passes h bp y" by (auto simp: passes_def)
qed

lemma free_loop_high:
  assumes p: "path (hptr h) x xs e" and s: "sorted_wrt (<) (x # xs)" and b: "\<forall>c \<in> set (x # xs). bp < c"
  shows "free_loop h bp x = free_loop h bp (last (x # xs))"
proof (rule free_loop_walk [OF p], intro ballI)
  fix y assume y: "y \<in> set (butlast (x # xs))"
  then have "bp < y" using b in_set_butlastD by fast
  moreover have "y < hptr h y" by (rule path_next_greater [OF p s y])
  ultimately show "passes h bp y" by (auto simp: passes_def)
qed

lemma free_loop_pred:
  assumes p: "path (hptr h) ub (as @ cs) ub" and s: "sorted_wrt (<) (ub # as @ cs)"
    and b: "ub < bp" "\<forall>a \<in> set as. a < bp" "\<forall>c \<in> set cs. bp < c" and x: "x \<in> set (ub # as @ cs)"
  shows "free_loop h bp x = Some (last (ub # as))"
proof -
  let ?p = "last (ub # as)"
  have pin: "?p \<in> set (ub # as)" by (rule last_in_set) simp
  then have pb: "?p < bp" using b by auto
  have nx: "hptr h ?p = hd (cs @ [ub])" using path_first [OF path_tail [OF p]] .
  have ubp: "ub \<le> ?p" using pin s by (auto intro: less_imp_le)
  have stop: "free_loop h bp ?p = Some ?p"
    using nx pb b(3) ubp by (cases cs) (auto simp: free_loop_cases [of h bp ?p] passes_def simp del: last.simps)
  have pa: "path (hptr h) ub as (hd (cs @ [ub]))" using p by (cases cs) (auto simp: path_append)
  have low: "free_loop h bp y = Some ?p" if y: "y \<in> set (ub # as)" for y
  proof -
    obtain us vs where u: "ub # as = us @ y # vs" "path (hptr h) y vs (hd (cs @ [ub]))" by (rule path_from [OF pa y])
    have "set vs \<subseteq> set (ub # as)" unfolding u(1) by auto
    then have "\<forall>a \<in> set vs. a < bp" using b(1,2) by auto
    moreover have "sorted_wrt (<) (us @ y # vs)" using s unfolding u(1) [symmetric] by (simp add: sorted_wrt_append)
    ultimately have "free_loop h bp y = free_loop h bp (last (y # vs))"
      using free_loop_low [OF u(2)] by (simp add: sorted_wrt_append)
    then show ?thesis using stop u(1) by (simp del: last.simps)
  qed
  show ?thesis
  proof (cases "x \<in> set (ub # as)")
    case False
    then obtain c cs' where c: "cs = c # cs'" "x \<in> set (c # cs')" using x by (cases cs) auto
    have "path (hptr h) c cs' ub" using p c(1) by (simp add: path_append)
    then obtain us vs where u: "c # cs' = us @ x # vs" "path (hptr h) x vs ub" using c(2) by (rule path_from)
    have sx: "sorted_wrt (<) (x # vs)" "\<forall>c \<in> set (x # vs). bp < c"
      using s b(3) c(1) u(1) by (auto simp: sorted_wrt_append)
    let ?z = "last (x # vs)"
    have z: "bp < ?z" "hptr h ?z = ub" using sx(2) path_tail [of "hptr h" x vs "[]" ub] u(2) last_in_set [of "x # vs"]
      by (auto simp del: last.simps)
    have "free_loop h bp x = free_loop h bp ?z" by (rule free_loop_high [OF u(2) sx])
    also have "\<dots> = free_loop h bp ub" using z b(1) by (auto simp: free_loop_cases [of h bp ?z] passes_def simp del: last.simps)
    finally show ?thesis using low by simp
  qed (rule low)
qed

section \<open>Freeing a block\<close>

text \<open>The block and its neighbours, with sums that do not wrap around.\<close>

lemma word_end_eq:
  assumes "ends h a < 4294967296"
  shows "a + units (hsize h a) = b \<longleftrightarrow> ends h a = unat b"
proof -
  have u: "unat (units (hsize h a)) = 8 * unat (hsize h a)"
    using assms by (simp add: unat_word_ariths ends_def)
  then have "unat (a + units (hsize h a)) = ends h a"
    using assms by (simp add: unat_word_ariths ends_def)
  then show ?thesis by (simp add: word_unat_eq_iff)
qed

definition disjoint_from :: "uheap \<Rightarrow> addr \<Rightarrow> addr list \<Rightarrow> bool" where
  "disjoint_from h bp ys \<longleftrightarrow> (\<forall>a \<in> set ys. ends h a \<le> unat bp \<or> ends h bp \<le> unat a)"

lemma split_at_block:
  assumes "uinv ub h ys" "block_ok ub h bp" "disjoint_from h bp ys"
  obtains as cs where "ys = as @ cs" "\<forall>a \<in> set as. ends h a \<le> unat bp" "\<forall>c \<in> set cs. ends h bp \<le> unat c"
proof -
  let ?P = "\<lambda>a. ends h a \<le> unat bp"
  have "ends h bp \<le> unat c" if c: "c \<in> set (dropWhile ?P ys)" for c
  proof -
    obtain d ds where d: "dropWhile ?P ys = d # ds" using c by (cases "dropWhile ?P ys") auto
    have nd: "\<not> ?P d" using hd_dropWhile [of ?P ys] d by simp
    have din: "d \<in> set ys" using d set_dropWhileD by (metis list.set_intros(1))
    then have ed: "ends h bp \<le> unat d" using assms(3) nd by (auto simp: disjoint_from_def)
    have "sorted_wrt (\<lambda>a b. ends h a \<le> unat b) (takeWhile ?P ys @ d # ds)"
      using uinvD(2) [OF assms(1)] d by (metis takeWhile_dropWhile_id)
    then have "c = d \<or> ends h d \<le> unat c" using c d by (auto simp: sorted_wrt_append)
    then show ?thesis using ed block_ok_less [OF uinvD(3) [OF assms(1) din]] by auto
  qed
  moreover have "\<forall>a \<in> set (takeWhile ?P ys). ?P a" using set_takeWhileD by fast
  ultimately show thesis using that [of "takeWhile ?P ys" "dropWhile ?P ys"] by simp
qed

text \<open>
  \<^verbatim>\<open>free\<close> links the block behind its predecessor and lets a block absorb the next one when they touch.
\<close>

definition linked :: "addr \<Rightarrow> addr \<Rightarrow> uheap \<Rightarrow> uheap" where
  "linked bp p h = h\<lparr>hptr := (hptr h)(bp := hptr h p, p := bp), freep := p\<rparr>"

definition absorb :: "addr \<Rightarrow> addr \<Rightarrow> uheap \<Rightarrow> uheap" where
  "absorb a b h = h\<lparr>hptr := (hptr h)(a := hptr h b), hsize := (hsize h)(a := hsize h a + hsize h b)\<rparr>"

lemma linked_simps [simp]:
  "hsize (linked bp p h) = hsize h" "freep (linked bp p h) = p" "ends (linked bp p h) = ends h"
  "block_ok ub (linked bp p h) = block_ok ub h" "block_bytes (linked bp p h) = block_bytes h"
  by (auto simp: linked_def ends_def block_ok_def block_bytes_def fun_eq_iff)

lemma link_block_steps:
  assumes "p \<noteq> bp" "hptr h p \<noteq> bp" "bp + units (hsize h bp) = hptr h p \<Longrightarrow> hptr h p \<noteq> p"
  shows "link_block bp p h =
    (let h1 = linked bp p h; h2 = (if bp + units (hsize h bp) = hptr h p then absorb bp (hptr h p) h1 else h1)
     in if p + units (hsize h p) = bp then absorb p bp h2 else h2)"
  by (rule uheap.equality) (use assms in \<open>auto simp: link_block_def Let_def linked_def absorb_def fun_eq_iff\<close>)

lemma uinv_linked:
  assumes inv: "uinv ub h (as @ cs)" and bp: "block_ok ub h bp" and p: "p = last (ub # as)"
    and a: "\<forall>a \<in> set as. ends h a \<le> unat bp" and c: "\<forall>c \<in> set cs. ends h bp \<le> unat c"
  shows "uinv ub (linked bp p h) (as @ bp # cs)"
proof -
  let ?g = "(hptr h)(bp := hptr h p, p := bp)"
  have ub: "unat ub < unat bp" "unat bp < ends h bp" using block_ok_less [OF bp] by auto
  have d: "sorted_wrt (<) (ub # as @ cs)" by (rule uinv_ascending [OF inv])
  have lt: "\<forall>a \<in> set as. unat a < unat bp" using a uinvD(3) [OF inv] block_ok_less by (fastforce simp: Ball_def)
  have n: "bp \<notin> set (ub # as @ cs)" using lt ub c by auto
  have pin: "p \<in> set (ub # as)" unfolding p by (rule last_in_set) simp
  have dist: "distinct (ub # as @ cs)" using d by (simp only: strict_sorted_iff)
  have ncs: "p \<notin> set cs" using pin dist by auto
  have "path (hptr h) p cs ub" using path_tail [OF uinvD(1) [OF inv]] p by simp
  then have pg: "path ?g p (bp # cs) ub" by (rule path_push) (use n pin ncs in auto)
  have "distinct (butlast (ub # as) @ [p])" using dist p append_butlast_last_id [of "ub # as"] by simp
  then have "\<forall>x \<in> set (butlast (ub # as)). ?g x = hptr h x" using n in_set_butlastD [of _ "ub # as"] by fastforce
  then have "path ?g ub (as @ bp # cs) ub" using path_replace_tail [OF uinvD(1) [OF inv]] pg p by blast
  then show ?thesis
    using inv bp a c pin n by (auto simp: uinv_def linked_def ends_def block_ok_def sorted_wrt_append)
qed

lemma ends_absorb:
  assumes "ends h a = unat b" "ends h b < 4294967296" "a \<noteq> b"
  shows "ends (absorb a b h) x = (if x = a then ends h b else ends h x)" "0 < hsize h b \<Longrightarrow> 0 < hsize (absorb a b h) a"
proof -
  have "unat a + 8 * (unat (hsize h a) + unat (hsize h b)) < 4294967296" using assms by (simp add: ends_def)
  then have u: "unat (hsize h a + hsize h b) = unat (hsize h a) + unat (hsize h b)" by (simp add: unat_word_ariths)
  then show "ends (absorb a b h) x = (if x = a then ends h b else ends h x)"
    using assms(1) by (simp add: ends_def absorb_def)
  show "0 < hsize h b \<Longrightarrow> 0 < hsize (absorb a b h) a" using u by (simp add: absorb_def word_less_nat_alt)
qed

lemma uinv_absorb:
  assumes inv: "uinv ub h (as @ a # b # cs)" and e: "ends h a = unat b" and f: "freep h \<in> insert ub (insert a (set as))"
  shows "uinv ub (absorb a b h) (as @ a # cs)" "block_bytes (absorb a b h) a = block_bytes h a \<union> block_bytes h b"
    "free_bytes (absorb a b h) (as @ a # cs) = free_bytes h (as @ a # b # cs)"
proof -
  have d: "sorted_wrt (<) (ub # as @ a # b # cs)" by (rule uinv_ascending [OF inv])
  then have dist: "distinct (ub # as @ a # b # cs)" by (simp only: strict_sorted_iff)
  have ok: "block_ok ub h x" if "x \<in> set (as @ a # b # cs)" for x by (rule uinvD(3) [OF inv that])
  have eb: "ends h b < 4294967296" "0 < hsize h b" using ok [of b] by (auto simp: block_ok_def)
  note ea = ends_absorb [OF e eb(1)]
  have "path ((hptr h)(last (ub # as @ [a]) := hptr h b)) ub ((as @ [a]) @ cs) ub"
    by (rule path_remove) (use dist uinvD(1) [OF inv] in auto)
  then have "path (hptr (absorb a b h)) ub (as @ a # cs) ub" by (simp add: absorb_def)
  moreover have "sorted_wrt (\<lambda>x y. ends (absorb a b h) x \<le> unat y) (as @ a # cs)"
  proof -
    have "sorted_wrt (\<lambda>x y. ends (absorb a b h) x \<le> unat y) xs"
      if "sorted_wrt (\<lambda>x y. ends h x \<le> unat y) xs" "a \<notin> set xs" for xs
      using that(1) by (rule sorted_wrt_mono_rel [rotated]) (use that(2) dist in \<open>auto simp: ea(1)\<close>)
    then show ?thesis using uinvD(2) [OF inv] dist by (auto simp: ea(1) sorted_wrt_append)
  qed
  moreover have "\<forall>x \<in> set (as @ a # cs). block_ok ub (absorb a b h) x"
    using ok dist ea eb by (auto simp: block_ok_def absorb_def)
  ultimately show "uinv ub (absorb a b h) (as @ a # cs)"
    using inv f dist by (auto simp: uinv_def absorb_def)
  show bb: "block_bytes (absorb a b h) a = block_bytes h a \<union> block_bytes h b"
    using ea(1) e dist block_ok_less [OF ok, of a] block_ok_less [OF ok, of b] by (auto simp: block_bytes_def)
  have "block_bytes (absorb a b h) x = block_bytes h x" if "x \<in> set (as @ cs)" for x
    using ea(1) dist that by (auto simp: block_bytes_def)
  then show "free_bytes (absorb a b h) (as @ a # cs) = free_bytes h (as @ a # b # cs)"
    using bb by (simp add: free_bytes_def) blast
qed

lemma free_bytes_linked: "free_bytes (linked bp p h) (as @ bp # cs) = free_bytes h (as @ cs) \<union> block_bytes h bp"
  by (auto simp: free_bytes_def)

text \<open>The block joins the free blocks, and no header of a block in use changes.\<close>

lemma free_spec:
  assumes inv: "uinv ub h ys" and bp: "block_ok ub h bp" and dj: "disjoint_from h bp ys"
  obtains h' ys' where "free (bp + 8) h = Some h'" "uinv ub h' ys'" "free_bytes h' ys' = free_bytes h ys \<union> block_bytes h bp"
    "\<forall>x. x \<notin> insert ub (insert bp (set ys)) \<longrightarrow> hptr h' x = hptr h x \<and> hsize h' x = hsize h x"
    "freep h' \<in> insert ub (set ys)" "set ys' \<subseteq> insert bp (set ys)"
    "\<exists>z \<in> set ys'. block_bytes h bp \<subseteq> block_bytes h' z"
proof -
  obtain as cs where s: "ys = as @ cs" "\<forall>a \<in> set as. ends h a \<le> unat bp" "\<forall>c \<in> set cs. ends h bp \<le> unat c"
    by (rule split_at_block [OF inv bp dj])
  define p where "p = last (ub # as)"
  have inv': "uinv ub h (as @ cs)" using inv s(1) by simp
  have ub: "unat ub < unat bp" "unat bp < ends h bp" using block_ok_less [OF bp] by auto
  have lt: "\<forall>a \<in> set as. a < bp" "\<forall>c \<in> set cs. bp < c"
    using s(2,3) ub uinvD(3) [OF inv'] block_ok_less by (fastforce simp: word_less_nat_alt)+
  have fl: "free_loop h bp (freep h) = Some p" unfolding p_def
    by (rule free_loop_pred [OF uinvD(1) [OF inv'] uinv_ascending [OF inv'] _ lt])
      (use ub uinvD(5) [OF inv'] in \<open>auto simp: word_less_nat_alt\<close>)
  have nx: "hptr h p = hd (cs @ [ub])" unfolding p_def using path_first [OF path_tail [OF uinvD(1) [OF inv']]] .
  have pin: "p \<in> set (ub # as)" unfolding p_def by (rule last_in_set) simp
  have pne: "p \<noteq> bp" "p \<noteq> ub \<Longrightarrow> block_ok ub h p" using pin lt ub uinvD(3) [OF inv'] by auto
  have ep: "ends h p < 4294967296"
    using pne(2) uinvD(4) [OF inv'] ub bp by (cases "p = ub") (auto simp: ends_def block_ok_def)
  define h1 where "h1 = linked bp p h"
  have i1: "uinv ub h1 (as @ bp # cs)" unfolding h1_def by (rule uinv_linked [OF inv' bp p_def s(2,3)])
  define h2 where "h2 = (if bp + units (hsize h bp) = hptr h p then absorb bp (hptr h p) h1 else h1)"
  have "\<exists>ds. uinv ub h2 (as @ bp # ds) \<and> free_bytes h2 (as @ bp # ds) = free_bytes h1 (as @ bp # cs) \<and> set ds \<subseteq> set cs \<and>
      block_bytes h bp \<subseteq> block_bytes h2 bp"
  proof (cases "bp + units (hsize h bp) = hptr h p")
    case True
    then have e: "ends h bp = unat (hd (cs @ [ub]))" using bp nx by (simp add: word_end_eq block_ok_def)
    then obtain c ds where c: "cs = c # ds" using ub by (cases cs) auto
    show ?thesis unfolding h2_def using True uinv_absorb [of ub h1 as bp c ds] i1 e c nx pin
      by (intro exI [of _ ds]) (auto simp: h1_def)
  qed (use i1 in \<open>auto simp: h2_def h1_def\<close>)
  then obtain ds where i2: "uinv ub h2 (as @ bp # ds)" "free_bytes h2 (as @ bp # ds) = free_bytes h1 (as @ bp # cs)" "set ds \<subseteq> set cs"
      "block_bytes h bp \<subseteq> block_bytes h2 bp"
    by blast
  have f2: "freep h2 = p" "hsize h2 p = hsize h p" using pne by (auto simp: h2_def h1_def absorb_def)
  define h3 where "h3 = (if p + units (hsize h p) = bp then absorb p bp h2 else h2)"
  have "\<exists>zs. uinv ub h3 zs \<and> free_bytes h3 zs = free_bytes h2 (as @ bp # ds) \<and> set zs \<subseteq> set (as @ bp # ds) \<and>
      (\<exists>z \<in> set zs. block_bytes h2 bp \<subseteq> block_bytes h3 z)"
  proof (cases "p + units (hsize h p) = bp")
    case True
    then have e: "ends h p = unat bp" using ep by (simp add: word_end_eq)
    then have "as \<noteq> []" using ub uinvD(4) [OF inv'] by (auto simp: p_def ends_def)
    then obtain as' where as: "as = as' @ [p]" unfolding p_def by (metis append_butlast_last_id last.simps)
    have "uinv ub h2 (as' @ p # bp # ds)" using i2(1) as by simp
    from uinv_absorb [OF this] show ?thesis unfolding h3_def using True e f2 as by (intro exI [of _ "as' @ p # ds"]) (auto simp: ends_def)
  qed (use i2 h3_def in auto)
  then obtain zs where i3: "uinv ub h3 zs" "free_bytes h3 zs = free_bytes h2 (as @ bp # ds)" "set zs \<subseteq> set (as @ bp # ds)"
      "\<exists>z \<in> set zs. block_bytes h2 bp \<subseteq> block_bytes h3 z"
    by blast
  have "hptr h p \<noteq> bp" using nx lt ub by (cases cs) auto
  moreover have "hptr h p \<noteq> p" if "bp + units (hsize h bp) = hptr h p"
  proof -
    have "ends h bp = unat (hptr h p)" using that bp by (simp add: word_end_eq block_ok_def)
    moreover have "unat p < unat bp" using pin lt ub by (auto simp: word_less_nat_alt)
    ultimately show ?thesis using ub by auto
  qed
  ultimately have "free (bp + 8) h = Some h3"
    using fl link_block_steps [OF pne(1)] by (simp add: free_def h1_def h2_def h3_def Let_def)
  moreover have "free_bytes h3 zs = free_bytes h ys \<union> block_bytes h bp"
    using i3(2) i2(2) free_bytes_linked [of bp p h as cs] s(1) by (simp add: h1_def)
  moreover have "\<forall>x. x \<notin> insert ub (insert bp (set ys)) \<longrightarrow> hptr h3 x = hptr h x \<and> hsize h3 x = hsize h x"
    using pin s(1) by (auto simp: h3_def h2_def h1_def absorb_def linked_def)
  moreover have "freep h3 \<in> insert ub (set ys)" using f2 pin s(1) by (auto simp: h3_def absorb_def)
  moreover have "set zs \<subseteq> insert bp (set ys)" using i3(3) i2(3) s(1) by auto
  moreover have "\<exists>z \<in> set zs. block_bytes h bp \<subseteq> block_bytes h3 z" using i2(4) i3(4) by blast
  ultimately show ?thesis using that i3(1) by blast
qed

section \<open>Taking a block\<close>

lemma path_map: "path f a xs e \<longleftrightarrow> map f (a # xs) = xs @ [e]"
  by (induction xs arbitrary: a) auto

lemma path_inj: "path f a xs e \<Longrightarrow> distinct (xs @ [e]) \<Longrightarrow> inj_on f (set (a # xs))"
  by (metis distinct_map path_map)

lemma ring_pred:
  assumes "uinv ub h (as @ z # cs)" "q \<in> insert ub (set (as @ z # cs))" "hptr h q = z"
  shows "q = last (ub # as)"
proof -
  note p = uinvD(1) [OF assms(1)]
  have "distinct (ub # as @ z # cs)" using uinv_ascending [OF assms(1)] by (simp only: strict_sorted_iff)
  then have inj: "inj_on (hptr h) (set (ub # as @ z # cs))" by (intro path_inj [OF p]) auto
  have l: "last (ub # as) \<in> set (ub # as)" by (rule last_in_set) simp
  have "hptr h (last (ub # as)) = z" using path_tail [OF p] by simp
  then show ?thesis using inj_onD [OF inj, of q "last (ub # as)"] assms(2,3) l by auto
qed

lemma ends_set_size: "ends (set_size a v h) x = (if x = a then unat a + 8 * unat v else ends h x)"
  by (simp add: ends_def)

text \<open>The whole block is unlinked.\<close>

lemma carve_exact:
  assumes inv: "uinv ub h (as @ z # cs)" and q: "q = last (ub # as)"
  shows "uinv ub (h\<lparr>hptr := (hptr h)(q := hptr h z), freep := q\<rparr>) (as @ cs)"
    "free_bytes (h\<lparr>hptr := (hptr h)(q := hptr h z), freep := q\<rparr>) (as @ cs) \<union> block_bytes h z = free_bytes h (as @ z # cs)"
    "free_bytes (h\<lparr>hptr := (hptr h)(q := hptr h z), freep := q\<rparr>) (as @ cs) \<inter> block_bytes h z = {}"
proof -
  let ?h = "h\<lparr>hptr := (hptr h)(q := hptr h z), freep := q\<rparr>"
  have dist: "distinct (ub # as @ z # cs)" using uinv_ascending [OF inv] by (simp only: strict_sorted_iff)
  have qin: "q \<in> insert ub (set as)" unfolding q using last_in_set [of "ub # as"] by simp
  have "path (hptr ?h) ub (as @ cs) ub" using path_remove [OF dist uinvD(1) [OF inv]] by (simp add: q)
  moreover have e: "ends ?h = ends h" "block_ok ub ?h = block_ok ub h" "block_bytes ?h = block_bytes h"
    by (auto simp: ends_def block_ok_def block_bytes_def fun_eq_iff)
  ultimately show "uinv ub ?h (as @ cs)" using inv qin by (auto simp: uinv_def sorted_wrt_append)
  show "free_bytes ?h (as @ cs) \<union> block_bytes h z = free_bytes h (as @ z # cs)" by (auto simp: free_bytes_def e)
  show "free_bytes ?h (as @ cs) \<inter> block_bytes h z = {}"
    using uinvD(2) [OF inv] by (fastforce simp: free_bytes_def e block_bytes_def sorted_wrt_append)
qed

text \<open>The tail of the block is taken and its header written.\<close>

lemma carve_tail:
  assumes inv: "uinv ub h (as @ z # cs)" and q: "q \<in> insert ub (set (as @ z # cs))" and n: "0 < n" "n < hsize h z"
    and k: "k = hsize h z - n" and b: "b = z + units k"
    and h': "h' = (set_size b n (set_size z k h))\<lparr>freep := q\<rparr>"
  shows "uinv ub h' (as @ z # cs)" "block_ok ub h' b"
    "free_bytes h' (as @ z # cs) \<union> block_bytes h' b = free_bytes h (as @ z # cs)"
    "free_bytes h' (as @ z # cs) \<inter> block_bytes h' b = {}" "unat b \<in> block_bytes h z" "b \<notin> set (ub # as @ z # cs)"
proof -
  have ok: "block_ok ub h x" if "x \<in> set (as @ z # cs)" for x by (rule uinvD(3) [OF inv that])
  have dist: "distinct (ub # as @ z # cs)" using uinv_ascending [OF inv] by (simp only: strict_sorted_iff)
  have un: "unat (hsize h z) = unat k + unat n" "0 < unat n" "0 < unat k"
    using n k by (auto simp: unat_sub word_less_nat_alt word_le_nat_alt)
  have ez: "ends h z < 4294967296" using ok [of z] by (simp add: block_ok_def)
  then have ub: "unat b = unat z + 8 * unat k" using un unfolding b ends_def by (simp add: unat_word_ariths)
  show bz: "unat b \<in> block_bytes h z" using ub un by (simp add: block_bytes_def ends_def)
  have out: "unat x < unat z \<or> ends h z \<le> unat x" if "x \<in> set (ub # as @ cs)" for x
    using that uinvD(2) [OF inv] ok block_ok_less [OF ok] by (fastforce simp: sorted_wrt_append)
  show nb: "b \<notin> set (ub # as @ z # cs)" using out [of b] bz ub un by (auto simp: block_bytes_def)
  have e: "ends h' x = (if x = b then ends h z else if x = z then unat b else ends h x)" for x
    using nb ub un by (auto simp: h' ends_def)
  have s: "hptr h' = hptr h" "freep h' = q" "x \<noteq> b \<Longrightarrow> x \<noteq> z \<Longrightarrow> hsize h' x = hsize h x" "hsize h' z = k" "hsize h' b = n" for x
    using nb by (auto simp: h')
  have bz': "unat z < unat b" "unat b < ends h z" using bz ub un by (auto simp: block_bytes_def)
  have okz: "unat ub + 8 \<le> unat z" using ok [of z] by (simp add: block_ok_def)
  have "sorted_wrt (\<lambda>x y. ends h' x \<le> unat y) (as @ z # cs)"
    using uinvD(2) [OF inv]
    by (rule sorted_wrt_mono_rel [rotated]) (use nb bz' in \<open>auto simp: e\<close>)
  moreover have "block_ok ub h' x" if "x \<in> set (as @ z # cs)" for x
    using ok [OF that] that nb un bz' ez by (cases "x = z") (auto simp: block_ok_def e s word_less_nat_alt)
  moreover have "hsize h' ub = 0" using nb dist uinvD(4) [OF inv] by (auto simp: s)
  ultimately show "uinv ub h' (as @ z # cs)" using inv q by (auto simp: uinv_def s)
  show "block_ok ub h' b" using okz bz' ez n by (simp add: block_ok_def e s)
  have bb: "block_bytes h' b = {unat b..<ends h z}" "block_bytes h' z = {unat z..<unat b}"
    "x \<in> set (as @ cs) \<Longrightarrow> block_bytes h' x = block_bytes h x" for x
    using nb dist by (auto simp: block_bytes_def e)
  have "block_bytes h z = block_bytes h' z \<union> block_bytes h' b" unfolding bb(1,2) using bz' by (auto simp: block_bytes_def)
  moreover have f: "free_bytes h' (as @ z # cs) = free_bytes h (as @ cs) \<union> block_bytes h' z"
    using bb(3) by (auto simp: free_bytes_def)
  ultimately show "free_bytes h' (as @ z # cs) \<union> block_bytes h' b = free_bytes h (as @ z # cs)" by (auto simp: free_bytes_def)
  have "free_bytes h (as @ cs) \<inter> block_bytes h z = {}"
    using uinvD(2) [OF inv] by (fastforce simp: free_bytes_def block_bytes_def sorted_wrt_append)
  then show "free_bytes h' (as @ z # cs) \<inter> block_bytes h' b = {}"
    unfolding f bb(1,2) using bz' by (auto simp: block_bytes_def)
qed

text \<open>
  What \<^verbatim>\<open>malloc\<close> promises: the block \<open>b\<close> has the size asked for, its bytes were free and are so no
  longer, and only the headers of free blocks and of the block itself were written.
\<close>

definition takes :: "addr \<Rightarrow> 32 word \<Rightarrow> uheap \<Rightarrow> nat set \<Rightarrow> addr \<Rightarrow> uheap \<Rightarrow> addr list \<Rightarrow> bool" where
  "takes ub n h F b h' ys' \<longleftrightarrow> uinv ub h' ys' \<and> block_ok ub h' b \<and> hsize h' b = n \<and>
     free_bytes h' ys' \<union> block_bytes h' b = F \<and> free_bytes h' ys' \<inter> block_bytes h' b = {} \<and>
     (\<forall>x. x \<noteq> ub \<longrightarrow> unat x \<notin> F \<longrightarrow> hptr h' x = hptr h x \<and> hsize h' x = hsize h x)"

lemma header_free: "uinv ub h ys \<Longrightarrow> a \<in> set ys \<Longrightarrow> unat a \<in> free_bytes h ys"
  using block_ok_less uinvD(3) by (fastforce simp: free_bytes_def block_bytes_def)

lemma carve_spec:
  assumes inv: "uinv ub h ys" and n: "0 < n" "n \<le> hsize h z" and z: "z \<in> insert ub (set ys)"
    and q: "q \<in> insert ub (set ys)" "hptr h q = z"
  obtains b h' ys' where "carve n q z h = (b + 8, h')" "takes ub n h (free_bytes h ys) b h' ys'"
proof -
  have "z \<noteq> ub" using n uinvD(4) [OF inv] by auto
  then obtain as cs where ys: "ys = as @ z # cs" using z by (metis insertE split_list)
  have ql: "q = last (ub # as)" using ring_pred inv q unfolding ys by blast
  have qin: "q \<in> insert ub (set as)" unfolding ql using last_in_set [of "ub # as"] by simp
  have hf: "unat x \<notin> free_bytes h ys \<Longrightarrow> x \<notin> set ys" for x using header_free [OF inv] by blast
  show thesis
  proof (cases "hsize h z = n")
    case True
    let ?h = "h\<lparr>hptr := (hptr h)(q := hptr h z), freep := q\<rparr>"
    have "block_ok ub h z" using uinvD(3) [OF inv] ys by simp
    then have "takes ub n h (free_bytes h ys) z ?h (as @ cs)"
      using carve_exact [OF inv [unfolded ys] ql] True hf qin unfolding takes_def ys
      by (auto simp: block_ok_def ends_def block_bytes_def)
    then show thesis using that [of z ?h "as @ cs"] True by (simp add: carve_def)
  next
    case False
    define k where "k = hsize h z - n"
    define b where "b = z + units k"
    define h' where "h' = (set_size b n (set_size z k h))\<lparr>freep := q\<rparr>"
    have "n < hsize h z" using n(2) False by simp
    note ct = carve_tail [OF inv [unfolded ys] _ n(1) this k_def b_def h'_def]
    have "unat b \<in> free_bytes h ys" using ct(5) q(1) ys by (auto simp: free_bytes_def)
    then have "takes ub n h (free_bytes h ys) b h' ys"
      using ct q(1) hf unfolding takes_def ys by (auto simp: h'_def ys)
    then show thesis using that [of b h' ys] False by (simp add: carve_def Let_def b_def h'_def k_def)
  qed
qed

text \<open>The walk round the list, up to a block that is large enough or back to where it began.\<close>

lemma malloc_loop_cases:
  "malloc_loop sbrk n q p (h, w) =
     (if hsize h p \<ge> n then (let (a, h) = carve n q p h in Some (a, h, w))
      else if p = freep h then
        Option.bind (morecore sbrk n (h, w)) (\<lambda>(p, h, w).
          if p = 0 then Some (0, h, w) else malloc_loop sbrk n p (hptr h p) (h, w))
      else malloc_loop sbrk n p (hptr h p) (h, w))"
  by (subst malloc_loop.simps) simp

lemma malloc_walk:
  assumes "path (hptr h) q xs (freep h)" "freep h \<notin> set xs"
  shows "(\<exists>q' z. q' \<in> set (q # xs) \<and> z \<in> set (xs @ [freep h]) \<and> hptr h q' = z \<and> n \<le> hsize h z \<and>
           malloc_loop sbrk n q (hptr h q) (h, w) = (let (a, h) = carve n q' z h in Some (a, h, w)))
       \<or> (\<forall>z \<in> set (xs @ [freep h]). \<not> n \<le> hsize h z) \<and>
           malloc_loop sbrk n q (hptr h q) (h, w) = Option.bind (morecore sbrk n (h, w)) (\<lambda>(p, h, w).
             if p = 0 then Some (0, h, w) else malloc_loop sbrk n p (hptr h p) (h, w))"
  using assms
proof (induction xs arbitrary: q)
  case Nil
  then show ?case using malloc_loop_cases [of sbrk n q "freep h" h w] by (cases "n \<le> hsize h (freep h)") auto
next
  case (Cons x xs)
  then have x: "hptr h q = x" "x \<noteq> freep h" "path (hptr h) x xs (freep h)" "freep h \<notin> set xs" by auto
  show ?case
  proof (cases "n \<le> hsize h x")
    case True
    then show ?thesis using malloc_loop_cases [of sbrk n q x h w] x(1)
      by (intro disjI1 exI [of _ q] exI [of _ x]) simp
  next
    case False
    then have "malloc_loop sbrk n q x (h, w) = malloc_loop sbrk n x (hptr h x) (h, w)"
      using malloc_loop_cases [of sbrk n q x h w] x(2) by simp
    then show ?thesis using Cons.IH [OF x(3,4)] False x(1) by (simp only: set_append list.set) blast
  qed
qed

lemma ring_rotate:
  assumes "uinv ub h ys" "x \<in> insert ub (set ys)"
  obtains xs where "path (hptr h) x xs x" "x \<notin> set xs" "set (x # xs) = insert ub (set ys)"
proof (cases "x = ub")
  case True
  have "ub \<notin> set ys" using uinv_ascending [OF assms(1)] by auto
  then show thesis using that [of ys] uinvD(1) [OF assms(1)] True by simp
next
  case False
  then obtain as cs where ys: "ys = as @ x # cs" using assms(2) by (metis insertE split_list)
  have "distinct (ub # as @ x # cs)" using uinv_ascending [OF assms(1)] ys by (simp only: strict_sorted_iff)
  moreover have "path (hptr h) x (cs @ ub # as) x" using uinvD(1) [OF assms(1)] ys by (simp add: path_append)
  ultimately show thesis using that [of "cs @ ub # as"] ys by auto
qed

section \<open>More memory\<close>

text \<open>
  What \<^verbatim>\<open>malloc\<close> relies on of the system call: \<open>sbrk\<close> fails with \<open>-1\<close>, or moves the program break up by
  the number of bytes and returns the old one; the break stays below the kernel.
\<close>

definition sbrk_ok :: "(32 word \<Rightarrow> 'w \<Rightarrow> addr \<times> 'w) \<Rightarrow> ('w \<Rightarrow> nat) \<Rightarrow> bool" where
  "sbrk_ok sbrk brk \<longleftrightarrow> (\<forall>n w. n < 0x80000000 \<longrightarrow>
     (case sbrk n w of (p, w') \<Rightarrow> p = -1 \<and> brk w' = brk w \<or>
        unat p = brk w \<and> brk w' = brk w + unat n \<and> brk w' < 0x80000000))"

lemma unat_neg_one: "unat (-1 :: 32 word) = 4294967295"
  by (simp add: unsigned_minus_1_eq_mask mask_eq_exp_minus_1)

lemma sbrk_okD:
  assumes "sbrk_ok sbrk brk" "n < 0x80000000" "sbrk n w = (p, w')"
  shows "p = -1 \<and> brk w' = brk w \<or> unat p = brk w \<and> brk w' = brk w + unat n \<and> brk w' < 0x80000000"
  using assms(1) [unfolded sbrk_ok_def, rule_format, OF assms(2), of w] assms(3) by simp

lemma uinv_set_size: "uinv ub h ys \<Longrightarrow> p \<notin> insert ub (set ys) \<Longrightarrow> uinv ub (set_size p v h) ys"
  unfolding uinv_def block_ok_def ends_def
  by (auto elim!: sorted_wrt_mono_rel [rotated])

lemma free_bytes_set_size: "p \<notin> set ys \<Longrightarrow> free_bytes (set_size p v h) ys = free_bytes h ys"
  by (auto simp: free_bytes_def block_bytes_def ends_def split: if_splits)

lemma ends_below:
  assumes "uinv ub h ys" "free_bytes h ys \<subseteq> {..<m}" "a \<in> set ys"
  shows "ends h a \<le> m"
proof -
  have "unat a < ends h a" using block_ok_less uinvD(3) [OF assms(1,3)] by blast
  then have "ends h a - 1 \<in> free_bytes h ys" using assms(3)
    by (auto simp: free_bytes_def block_bytes_def intro!: bexI [of _ a])
  then show ?thesis using assms(2) by auto
qed

lemma block_larger:
  assumes "block_bytes h b \<subseteq> block_bytes h' z" "0 < hsize h b"
  shows "hsize h b \<le> hsize h' z"
  using assms by (auto simp: block_bytes_def ends_def word_le_nat_alt word_less_nat_alt)

lemma morecore_spec:
  assumes inv: "uinv ub h ys" and fb: "free_bytes h ys \<subseteq> {..<brk w}" and ub: "unat ub + 8 \<le> brk w"
    and sb: "sbrk_ok sbrk brk" and n: "0 < n" "n < 0x10000000"
  obtains (full) w' where "morecore sbrk n (h, w) = Some (0, h, w')" "brk w' = brk w"
  | (more) h' ys' w' where "morecore sbrk n (h, w) = Some (freep h', h', w')" "uinv ub h' ys'"
      "free_bytes h' ys' = free_bytes h ys \<union> {brk w..<brk w'}" "brk w \<le> brk w'"
      "\<forall>x. x \<noteq> ub \<longrightarrow> unat x \<notin> free_bytes h' ys' \<longrightarrow> hptr h' x = hptr h x \<and> hsize h' x = hsize h x"
      "\<exists>z \<in> set ys'. n \<le> hsize h' z"
proof -
  define m where "m = (if n < 4096 then 4096 else n)"
  have m: "n \<le> m" "m < 0x10000000" "0 < m" using n by (auto simp: m_def)
  then have m8: "unat (m * 8) = 8 * unat m" "m * 8 < 0x80000000"
    by (auto simp: word_less_nat_alt unat_word_ariths)
  obtain p w' where p: "sbrk (m * 8) w = (p, w')" by fastforce
  have sp: "p = -1 \<and> brk w' = brk w \<or> unat p = brk w \<and> brk w' = brk w + 8 * unat m \<and> brk w' < 0x80000000"
    using sbrk_okD [OF sb m8(2) p] m8(1) by simp
  show thesis
  proof (cases "p = -1")
    case True
    moreover have "brk w' = brk w" using sp True by (auto simp: unat_neg_one)
    ultimately show thesis using full p by (simp add: morecore_def m_def Let_def)
  next
    case False
    have q: "unat p = brk w" "brk w' = brk w + 8 * unat m" "brk w' < 0x80000000" using sp False by auto
    let ?h = "set_size p m h"
    have below: "ends h a \<le> unat p" if "a \<in> set ys" for a using ends_below [OF inv fb that] q(1) by simp
    have new: "p \<notin> insert ub (set ys)" using below block_ok_less [OF uinvD(3) [OF inv]] ub q(1) by fastforce
    have i: "uinv ub ?h ys" by (rule uinv_set_size [OF inv new])
    have ok: "block_ok ub ?h p" using q ub m(3) by (simp add: block_ok_def ends_def)
    have dj: "disjoint_from ?h p ys" using below new by (auto simp: disjoint_from_def ends_def)
    obtain h' ys' where f: "free (p + 8) ?h = Some h'" "uinv ub h' ys'"
      "free_bytes h' ys' = free_bytes ?h ys \<union> block_bytes ?h p"
      "\<forall>x. x \<notin> insert ub (insert p (set ys)) \<longrightarrow> hptr h' x = hptr ?h x \<and> hsize h' x = hsize ?h x"
      "\<exists>z \<in> set ys'. block_bytes ?h p \<subseteq> block_bytes h' z" by (rule free_spec [OF i ok dj])
    have "morecore sbrk n (h, w) = Some (freep h', h', w')" using False p f(1) by (simp add: morecore_def m_def Let_def)
    moreover have fbe: "free_bytes h' ys' = free_bytes h ys \<union> {brk w..<brk w'}"
      using f(3) q new by (simp add: free_bytes_set_size block_bytes_def ends_def)
    moreover have "\<forall>x. x \<noteq> ub \<longrightarrow> unat x \<notin> free_bytes h' ys' \<longrightarrow> hptr h' x = hptr h x \<and> hsize h' x = hsize h x"
      using f(4) header_free [OF inv] q m(3) unfolding fbe by (auto simp: word_less_nat_alt)
    moreover have "\<exists>z \<in> set ys'. n \<le> hsize h' z"
    proof -
      obtain z where z: "z \<in> set ys'" "block_bytes ?h p \<subseteq> block_bytes h' z" using f(5) by blast
      have "m \<le> hsize h' z" using block_larger [OF z(2)] m(3) by simp
      then show ?thesis using z(1) m(1) order_trans by blast
    qed
    ultimately show thesis using more f(2) q by simp
  qed
qed

section \<open>The search of \<^verbatim>\<open>malloc\<close>\<close>

text \<open>When a block is large enough, the walk takes one and does not ask for more memory.\<close>

lemma malloc_loop_finds:
  assumes inv: "uinv ub h ys" and n: "0 < n" and z: "\<exists>z \<in> set ys. n \<le> hsize h z"
  obtains b h' ys' where "malloc_loop sbrk n (freep h) (hptr h (freep h)) (h, w) = Some (b + 8, h', w)"
    "takes ub n h (free_bytes h ys) b h' ys'"
proof -
  obtain xs where xs: "path (hptr h) (freep h) xs (freep h)" "freep h \<notin> set xs" "set (freep h # xs) = insert ub (set ys)"
    by (rule ring_rotate [OF inv uinvD(5) [OF inv]])
  have ring: "set (xs @ [freep h]) = insert ub (set ys)" using xs(3) by auto
  have "\<not> (\<forall>z \<in> set (xs @ [freep h]). \<not> n \<le> hsize h z)" using z unfolding ring by blast
  with malloc_walk [OF xs(1,2), of n sbrk w]
  obtain q z' where w: "q \<in> set (freep h # xs)" "z' \<in> set (xs @ [freep h])" "hptr h q = z'" "n \<le> hsize h z'"
    "malloc_loop sbrk n (freep h) (hptr h (freep h)) (h, w) = (let (a, h) = carve n q z' h in Some (a, h, w))" by blast
  obtain b h' ys' where "carve n q z' h = (b + 8, h')" "takes ub n h (free_bytes h ys) b h' ys'"
    by (rule carve_spec [OF inv n w(4) w(2) [unfolded ring] w(1) [unfolded xs(3)] w(3)])
  then show thesis using that w(5) by simp
qed

lemma malloc_loop_spec:
  assumes inv: "uinv ub h ys" and fb: "free_bytes h ys \<subseteq> {..<brk w}" and ub: "unat ub + 8 \<le> brk w"
    and sb: "sbrk_ok sbrk brk" and n: "0 < n" "n < 0x10000000"
  obtains (full) w' where "malloc_loop sbrk n (freep h) (hptr h (freep h)) (h, w) = Some (0, h, w')" "brk w' = brk w"
  | (block) b h' ys' w' where "malloc_loop sbrk n (freep h) (hptr h (freep h)) (h, w) = Some (b + 8, h', w')"
      "takes ub n h (free_bytes h ys \<union> {brk w..<brk w'}) b h' ys'" "brk w \<le> brk w'"
proof (cases "\<exists>z \<in> set ys. n \<le> hsize h z")
  case True
  obtain b h' ys' where "malloc_loop sbrk n (freep h) (hptr h (freep h)) (h, w) = Some (b + 8, h', w)"
    "takes ub n h (free_bytes h ys) b h' ys'" by (rule malloc_loop_finds [OF inv n(1) True])
  then show thesis using block [of b h' w ys'] by simp
next
  case False
  obtain xs where xs: "path (hptr h) (freep h) xs (freep h)" "freep h \<notin> set xs" "set (freep h # xs) = insert ub (set ys)"
    by (rule ring_rotate [OF inv uinvD(5) [OF inv]])
  have "\<forall>z \<in> set (xs @ [freep h]). \<not> n \<le> hsize h z" using False n(1) uinvD(4) [OF inv] xs(3) by auto
  with malloc_walk [OF xs(1,2), of n sbrk w]
  have l: "malloc_loop sbrk n (freep h) (hptr h (freep h)) (h, w) = Option.bind (morecore sbrk n (h, w)) (\<lambda>(p, h, w).
     if p = 0 then Some (0, h, w) else malloc_loop sbrk n p (hptr h p) (h, w))" by blast
  show thesis
  proof (rule morecore_spec [OF inv fb ub sb n])
    fix w' assume "morecore sbrk n (h, w) = Some (0, h, w')" "brk w' = brk w"
    then show thesis using full l by simp
  next
    fix h1 ys1 w' assume m: "morecore sbrk n (h, w) = Some (freep h1, h1, w')" "uinv ub h1 ys1"
      "free_bytes h1 ys1 = free_bytes h ys \<union> {brk w..<brk w'}" "brk w \<le> brk w'"
      "\<forall>x. x \<noteq> ub \<longrightarrow> unat x \<notin> free_bytes h1 ys1 \<longrightarrow> hptr h1 x = hptr h x \<and> hsize h1 x = hsize h x"
      "\<exists>z \<in> set ys1. n \<le> hsize h1 z"
    have nz: "freep h1 \<noteq> 0" using uinvD(5,6) [OF m(2)] block_ok_less [OF uinvD(3) [OF m(2)]] by fastforce
    obtain b h' ys' where t: "malloc_loop sbrk n (freep h1) (hptr h1 (freep h1)) (h1, w') = Some (b + 8, h', w')"
      "takes ub n h1 (free_bytes h1 ys1) b h' ys'" by (rule malloc_loop_finds [OF m(2) n(1) m(6)])
    then have "takes ub n h (free_bytes h ys \<union> {brk w..<brk w'}) b h' ys'" using m(3,5) by (auto simp: takes_def)
    then show thesis using block [OF _ _ m(4)] l m(1) nz t(1) by simp
  qed
qed

text \<open>A heap with its free blocks \<open>ys\<close> below the break \<open>m\<close>; before the first call the list is not yet made.\<close>

definition heap_ok :: "addr \<Rightarrow> uheap \<Rightarrow> addr list \<Rightarrow> nat \<Rightarrow> bool" where
  "heap_ok ub h ys m \<longleftrightarrow> (if freep h = 0 then ys = [] \<and> ub \<noteq> 0 else uinv ub h ys) \<and> free_bytes h ys \<subseteq> {..<m} \<and> unat ub + 8 \<le> m"

lemma nunits_of_bounds:
  assumes "nbytes < 0x7FFFFFF0"
  shows "0 < nunits_of nbytes" "nunits_of nbytes < 0x10000000" "unat nbytes + 8 \<le> 8 * unat (nunits_of nbytes)"
proof -
  have n: "unat nbytes < 0x7FFFFFF0" using assms by (simp add: word_less_nat_alt)
  have "unat (nbytes + 8 - 1) = unat nbytes + 7" using n by (simp add: unat_word_ariths)
  then have "unat ((nbytes + 8 - 1) div 8) = (unat nbytes + 7) div 8" by (simp add: unat_div)
  then have u: "unat (nunits_of nbytes) = (unat nbytes + 7) div 8 + 1" using n by (simp add: nunits_of_def unat_word_ariths)
  show "0 < nunits_of nbytes" "nunits_of nbytes < 0x10000000" using n u by (auto simp: word_less_nat_alt)
  show "unat nbytes + 8 \<le> 8 * unat (nunits_of nbytes)" using u by simp
qed

definition init_heap :: "addr \<Rightarrow> uheap \<Rightarrow> uheap" where
  "init_heap ub h = (if freep h = 0 then h\<lparr>hptr := (hptr h)(ub := ub), freep := ub, hsize := (hsize h)(ub := 0)\<rparr> else h)"

lemma malloc_init: "malloc ub sbrk nbytes (h, w) =
  malloc_loop sbrk (nunits_of nbytes) (freep (init_heap ub h)) (hptr (init_heap ub h) (freep (init_heap ub h))) (init_heap ub h, w)"
  by (simp add: malloc_def init_heap_def Let_def)

lemma init_heap_uinv: "heap_ok ub h ys m \<Longrightarrow> uinv ub (init_heap ub h) ys \<and> free_bytes (init_heap ub h) ys = free_bytes h ys"
  by (auto simp: heap_ok_def init_heap_def uinv_def free_bytes_def split: if_splits)

lemma freep_not_null: "uinv ub h ys \<Longrightarrow> freep h \<noteq> 0"
  using uinvD(5,6) block_ok_less uinvD(3) by (metis insertE not_less_zero unat_0)

lemma malloc_spec:
  assumes ok: "heap_ok ub h ys (brk w)" and sb: "sbrk_ok sbrk brk" and n: "nbytes < 0x7FFFFFF0"
  obtains (full) h' w' where "malloc ub sbrk nbytes (h, w) = Some (0, h', w')" "brk w' = brk w" "heap_ok ub h' ys (brk w')" "freep h' \<noteq> 0"
      "free_bytes h' ys = free_bytes h ys" "\<forall>x. x \<noteq> ub \<longrightarrow> hptr h' x = hptr h x \<and> hsize h' x = hsize h x"
  | (block) b h' ys' w' where "malloc ub sbrk nbytes (h, w) = Some (b + 8, h', w')" "brk w \<le> brk w'" "heap_ok ub h' ys' (brk w')" "freep h' \<noteq> 0"
      "takes ub (nunits_of nbytes) h (free_bytes h ys \<union> {brk w..<brk w'}) b h' ys'"
proof -
  let ?h = "init_heap ub h"
  note nb = nunits_of_bounds [OF n]
  have i: "uinv ub ?h ys" "free_bytes ?h ys = free_bytes h ys" using init_heap_uinv [OF ok] by auto
  have o: "free_bytes ?h ys \<subseteq> {..<brk w}" "unat ub + 8 \<le> brk w" using ok i(2) by (auto simp: heap_ok_def)
  have same: "x \<noteq> ub \<Longrightarrow> hptr ?h x = hptr h x \<and> hsize ?h x = hsize h x" for x by (simp add: init_heap_def)
  show thesis
  proof (rule malloc_loop_spec [OF i(1) o sb nb(1,2), folded malloc_init])
    fix w' assume "malloc ub sbrk nbytes (h, w) = Some (0, ?h, w')" "brk w' = brk w"
    moreover have "heap_ok ub ?h ys (brk w)" using i o freep_not_null [OF i(1)] by (simp add: heap_ok_def)
    ultimately show thesis using full i(2) same freep_not_null [OF i(1)] by simp
  next
    fix b h' ys' w' assume m: "malloc ub sbrk nbytes (h, w) = Some (b + 8, h', w')"
      "takes ub (nunits_of nbytes) ?h (free_bytes ?h ys \<union> {brk w..<brk w'}) b h' ys'" "brk w \<le> brk w'"
    have inv: "uinv ub h' ys'" using m(2) by (simp add: takes_def)
    have "free_bytes h' ys' \<subseteq> free_bytes ?h ys \<union> {brk w..<brk w'}" using m(2) by (auto simp: takes_def)
    also have "\<dots> \<subseteq> {..<brk w'}" using o(1) m(3) by fastforce
    finally have "heap_ok ub h' ys' (brk w')"
      using inv o(2) m(3) freep_not_null [OF inv] by (simp add: heap_ok_def)
    moreover have "takes ub (nunits_of nbytes) h (free_bytes h ys \<union> {brk w..<brk w'}) b h' ys'"
      using m(2) i(2) same by (auto simp: takes_def)
    ultimately show thesis using block m(1,3) freep_not_null [OF inv] by simp
  qed
qed

end
