(* ===== verification/Umalloc_Props.thy ===== *)
theory Umalloc_Props
  imports Umalloc
begin

text \<open>
  Programs that use the allocator: sequences of calls of \<^verbatim>\<open>malloc\<close> and \<^verbatim>\<open>free\<close> and of writes to the memory
  that \<^verbatim>\<open>malloc\<close> returned. \<open>L\<close> holds the headers of the blocks in use. The requests are of less than \<^verbatim>\<open>0x7FFFFFF0\<close>
  bytes, as beyond that \<^verbatim>\<open>morecore\<close> does not ask \<^verbatim>\<open>sbrk\<close> for the memory it then uses.
\<close>

section \<open>Runs\<close>

definition payload :: "uheap \<Rightarrow> addr \<Rightarrow> nat set" where
  "payload h b = {unat b + 8..<ends h b}"

inductive heap_run ::
    "addr \<Rightarrow> (32 word \<Rightarrow> 'w \<Rightarrow> addr \<times> 'w) \<Rightarrow> uheap \<Rightarrow> 'w \<Rightarrow> uheap \<Rightarrow> 'w \<Rightarrow> addr set \<Rightarrow> bool" for ub sbrk h0 w0 where
  start: "heap_run ub sbrk h0 w0 h0 w0 {}"
| alloc: "heap_run ub sbrk h0 w0 h w L \<Longrightarrow> nbytes < 0x7FFFFFF0 \<Longrightarrow> malloc ub sbrk nbytes (h, w) = Some (a, h', w') \<Longrightarrow>
    heap_run ub sbrk h0 w0 h' w' (if a = 0 then L else insert (a - 8) L)"
| release: "heap_run ub sbrk h0 w0 h w L \<Longrightarrow> b \<in> L \<Longrightarrow> free (b + 8) h = Some h' \<Longrightarrow> heap_run ub sbrk h0 w0 h' w (L - {b})"
| store: "heap_run ub sbrk h0 w0 h w L \<Longrightarrow> freep h' = freep h \<Longrightarrow>
    (\<And>x. \<forall>b \<in> L. {unat x..<unat x + 8} \<inter> payload h b = {} \<Longrightarrow> hptr h' x = hptr h x \<and> hsize h' x = hsize h x) \<Longrightarrow>
    heap_run ub sbrk h0 w0 h' w L"

text \<open>
  The invariant: the blocks in use do not overlap each other nor the free ones, and together these
  are all the memory obtained since the break was at \<open>m0\<close>.
\<close>

definition run_inv :: "addr \<Rightarrow> nat \<Rightarrow> uheap \<Rightarrow> nat \<Rightarrow> addr set \<Rightarrow> addr list \<Rightarrow> bool" where
  "run_inv ub m0 h m L ys \<longleftrightarrow> heap_ok ub h ys m \<and> (freep h = 0 \<longrightarrow> L = {}) \<and> (\<forall>b \<in> L. block_ok ub h b) \<and>
     (\<forall>b \<in> L. block_bytes h b \<inter> free_bytes h ys = {}) \<and>
     (\<forall>a \<in> L. \<forall>b \<in> L. a \<noteq> b \<longrightarrow> block_bytes h a \<inter> block_bytes h b = {}) \<and>
     free_bytes h ys \<union> (\<Union>b \<in> L. block_bytes h b) = {m0..<m} \<and> m0 \<le> m"

lemma header_in: "block_ok ub h b \<Longrightarrow> {unat b..<unat b + 8} \<subseteq> block_bytes h b"
  by (auto simp: block_ok_def block_bytes_def ends_def word_less_nat_alt)

lemma block_same: "hsize h' b = hsize h b \<Longrightarrow> block_bytes h' b = block_bytes h b \<and> (block_ok ub h' b \<longleftrightarrow> block_ok ub h b)"
  by (simp add: block_bytes_def block_ok_def ends_def)

lemma run_inv_start: "freep h = 0 \<Longrightarrow> ub \<noteq> 0 \<Longrightarrow> unat ub + 8 \<le> m \<Longrightarrow> run_inv ub m h m {} []"
  by (simp add: run_inv_def heap_ok_def free_bytes_def)

text \<open>The header of a block in use is not at the address of a free byte.\<close>

lemma live_header:
  assumes "run_inv ub m0 h m L ys" "b \<in> L"
  shows "unat b \<notin> free_bytes h ys" "unat b < m" "b \<noteq> ub" "ends h b \<le> m"
proof -
  have b: "block_ok ub h b" "block_bytes h b \<inter> free_bytes h ys = {}" "block_bytes h b \<subseteq> {m0..<m}"
    using assms by (auto simp: run_inv_def)
  have l: "unat b < ends h b" "unat ub < unat b" using block_ok_less [OF b(1)] by auto
  then have i: "unat b \<in> block_bytes h b" "ends h b - 1 \<in> block_bytes h b" by (auto simp: block_bytes_def)
  show "unat b \<notin> free_bytes h ys" "unat b < m" "b \<noteq> ub" using b(2,3) l i(1) by auto
  have "ends h b - 1 < m" using b(3) i(2) by auto
  then show "ends h b \<le> m" by simp
qed

lemma run_inv_frame:
  assumes inv: "run_inv ub m0 h m L ys" and ok: "heap_ok ub h' ys' m'" "freep h' \<noteq> 0"
    and s: "\<And>b. b \<in> L \<Longrightarrow> hsize h' b = hsize h b" and f: "free_bytes h' ys' \<union> D = free_bytes h ys \<union> {m..<m'}"
    "free_bytes h' ys' \<inter> D = {}" and m: "m \<le> m'" and b: "D = \<Union> (block_bytes h' ` B)" "\<And>b. b \<in> B \<Longrightarrow> block_ok ub h' b"
    "\<And>a b. a \<in> B \<Longrightarrow> b \<in> B \<Longrightarrow> a = b"
  shows "run_inv ub m0 h' m' (L \<union> B) ys'"
proof -
  have bs: "block_bytes h' b = block_bytes h b" "block_ok ub h' b = block_ok ub h b" if "b \<in> L" for b
    using block_same [OF s [OF that]] by auto
  have i: "b \<in> L \<Longrightarrow> block_bytes h b \<inter> free_bytes h ys = {}" "b \<in> L \<Longrightarrow> block_bytes h b \<subseteq> {m0..<m}"
    "free_bytes h ys \<union> (\<Union>b \<in> L. block_bytes h b) = {m0..<m}" for b
    using inv by (auto simp: run_inv_def)
  have l: "block_bytes h b \<inter> (free_bytes h ys \<union> {m..<m'}) = {}" if "b \<in> L" for b
    using i(1,2) [OF that] by fastforce
  have DL: "block_bytes h b \<inter> D = {}" "block_bytes h b \<inter> free_bytes h' ys' = {}" if "b \<in> L" for b
    using l [OF that] f(1) by blast+
  have DB: "block_bytes h' c \<subseteq> D" if "c \<in> B" for c using b(1) that by blast
  have "(\<Union>b \<in> L \<union> B. block_bytes h' b) = (\<Union>b \<in> L. block_bytes h b) \<union> D" using bs b(1) by auto
  then have "free_bytes h' ys' \<union> (\<Union>b \<in> L \<union> B. block_bytes h' b) = (free_bytes h ys \<union> {m..<m'}) \<union> (\<Union>b \<in> L. block_bytes h b)"
    using f(1) by blast
  also have "\<dots> = {m0..<m} \<union> {m..<m'}" using i(3) by blast
  also have "\<dots> = {m0..<m'}" using m inv by (auto simp: run_inv_def)
  finally have u: "free_bytes h' ys' \<union> (\<Union>b \<in> L \<union> B. block_bytes h' b) = {m0..<m'}" .
  have dj: "block_bytes h' a \<inter> block_bytes h' c = {}" if "a \<in> L \<union> B" "c \<in> L \<union> B" "a \<noteq> c" for a c
  proof -
    have "block_bytes h' a \<inter> block_bytes h' c = {}" if "a \<in> L" "c \<in> L" using that \<open>a \<noteq> c\<close> inv bs by (simp add: run_inv_def)
    then show ?thesis using that b(3) [of a c] DL(1) DB bs(1) by blast
  qed
  have fr: "block_bytes h' c \<inter> free_bytes h' ys' = {}" if "c \<in> L \<union> B" for c using that DL(2) DB bs(1) f(2) by blast
  have "block_ok ub h' c" if "c \<in> L \<union> B" for c using that b(2) bs(2) inv by (auto simp: run_inv_def)
  then show ?thesis unfolding run_inv_def using ok u dj fr m inv by (simp add: run_inv_def)
qed

lemma run_inv_malloc:
  assumes inv: "run_inv ub m0 h (brk w) L ys" and sb: "sbrk_ok sbrk brk" and n: "nbytes < 0x7FFFFFF0"
    and c: "malloc ub sbrk nbytes (h, w) = Some (a, h', w')"
  shows "\<exists>ys'. run_inv ub m0 h' (brk w') (if a = 0 then L else insert (a - 8) L) ys'"
proof -
  have ok: "heap_ok ub h ys (brk w)" using inv by (simp add: run_inv_def)
  note lh = live_header [OF inv]
  show ?thesis
  proof (rule malloc_spec [OF ok sb n])
    fix h1 w1 assume m: "malloc ub sbrk nbytes (h, w) = Some (0, h1, w1)" "brk w1 = brk w" "heap_ok ub h1 ys (brk w1)" "freep h1 \<noteq> 0"
      "free_bytes h1 ys = free_bytes h ys" "\<forall>x. x \<noteq> ub \<longrightarrow> hptr h1 x = hptr h x \<and> hsize h1 x = hsize h x"
    have "run_inv ub m0 h1 (brk w1) (L \<union> {}) ys" by (rule run_inv_frame [OF inv m(3,4), of "{}"]) (use m lh in auto)
    then show ?thesis using c m(1) by auto
  next
    fix b h1 ys1 w1 assume m: "malloc ub sbrk nbytes (h, w) = Some (b + 8, h1, w1)" "brk w \<le> brk w1" "heap_ok ub h1 ys1 (brk w1)"
      "freep h1 \<noteq> 0" "takes ub (nunits_of nbytes) h (free_bytes h ys \<union> {brk w..<brk w1}) b h1 ys1"
    have b: "block_ok ub h1 b" using m(5) by (simp add: takes_def)
    have nz: "b + 8 \<noteq> 0"
    proof -
      have "unat b + 8 < 4294967296" using b by (auto simp: block_ok_def ends_def word_less_nat_alt)
      then have "unat (b + 8) = unat b + 8" by (simp add: unat_word_ariths)
      then show ?thesis by auto
    qed
    have "hsize h1 x = hsize h x" if "x \<in> L" for x using lh [OF that] m(5) by (auto simp: takes_def)
    then have "run_inv ub m0 h1 (brk w1) (L \<union> {b}) ys1"
      by (rule run_inv_frame [OF inv m(3,4), of "block_bytes h1 b"]) (use m b in \<open>auto simp: takes_def\<close>)
    then show ?thesis using c m(1) nz by auto
  qed
qed

lemma ivl_disjoint: "(a :: nat) < b \<Longrightarrow> c < d \<Longrightarrow> {a..<b} \<inter> {c..<d} = {} \<longleftrightarrow> d \<le> a \<or> b \<le> c"
proof (rule iffI)
  assume l: "a < b" "c < d" and e: "{a..<b} \<inter> {c..<d} = {}"
  show "d \<le> a \<or> b \<le> c"
  proof (rule ccontr)
    assume "\<not> (d \<le> a \<or> b \<le> c)"
    then have "max a c \<in> {a..<b} \<inter> {c..<d}" using l by auto
    then show False using e by blast
  qed
qed auto

lemma block_disjoint_from:
  assumes "block_ok ub h b" "block_bytes h b \<inter> free_bytes h ys = {}" "\<forall>a \<in> set ys. block_ok ub h a"
  shows "disjoint_from h b ys"
  unfolding disjoint_from_def
proof
  fix a assume a: "a \<in> set ys"
  have l: "unat b < ends h b" "unat a < ends h a" using block_ok_less assms(1,3) a by blast+
  have "block_bytes h a \<subseteq> free_bytes h ys" using a by (auto simp: free_bytes_def)
  then have "{unat b..<ends h b} \<inter> {unat a..<ends h a} = {}" using assms(2) unfolding block_bytes_def by blast
  then show "ends h a \<le> unat b \<or> ends h b \<le> unat a" using l by (auto simp: ivl_disjoint)
qed

lemma run_inv_free:
  assumes inv: "run_inv ub m0 h m L ys" and b: "b \<in> L"
  obtains h' ys' where "free (b + 8) h = Some h'" "run_inv ub m0 h' m (L - {b}) ys'"
proof -
  have r: "heap_ok ub h ys m" "freep h \<noteq> 0" "block_ok ub h b" "block_bytes h b \<inter> free_bytes h ys = {}"
    using inv b by (auto simp: run_inv_def)
  then have u: "uinv ub h ys" by (simp add: heap_ok_def)
  have "disjoint_from h b ys" by (rule block_disjoint_from [OF r(3,4)]) (use uinvD(3) [OF u] in blast)
  from free_spec [OF u r(3) this] obtain h' ys' where f: "free (b + 8) h = Some h'" "uinv ub h' ys'"
    "free_bytes h' ys' = free_bytes h ys \<union> block_bytes h b"
    "\<forall>x. x \<notin> insert ub (insert b (set ys)) \<longrightarrow> hptr h' x = hptr h x \<and> hsize h' x = hsize h x" by metis
  have "hsize h' c = hsize h c" if "c \<in> L - {b}" for c
    using that f(4) live_header [OF inv, of c] header_free [OF u] by auto
  then have bs: "block_bytes h' c = block_bytes h c" "block_ok ub h' c = block_ok ub h c" if "c \<in> L - {b}" for c
    using block_same that by blast+
  have "block_bytes h b \<subseteq> {m0..<m}" "free_bytes h ys \<union> (\<Union>b \<in> L. block_bytes h b) = {m0..<m}" using inv b by (auto simp: run_inv_def)
  moreover from this have "free_bytes h' ys' \<union> (\<Union>c \<in> L - {b}. block_bytes h' c) = {m0..<m}" using f(3) bs(1) b by auto
  moreover have "block_bytes h' c \<inter> free_bytes h' ys' = {}" if "c \<in> L - {b}" for c
  proof -
    have "block_bytes h c \<inter> free_bytes h ys = {}" "block_bytes h c \<inter> block_bytes h b = {}" using inv that b by (auto simp: run_inv_def)
    then show ?thesis using f(3) bs(1) [OF that] by blast
  qed
  moreover have "heap_ok ub h' ys' m" using r(1) f(2,3) freep_not_null [OF f(2)] calculation(1) by (auto simp: heap_ok_def)
  ultimately have "run_inv ub m0 h' m (L - {b}) ys'"
    using inv freep_not_null [OF f(2)] bs by (simp add: run_inv_def)
  then show thesis using that f(1) by blast
qed

text \<open>Writes to the memory of the blocks in use leave every header alone.\<close>

lemma run_inv_store:
  assumes inv: "run_inv ub m0 h m L ys" and fp: "freep h' = freep h"
    and s: "\<And>x. \<forall>b \<in> L. {unat x..<unat x + 8} \<inter> payload h b = {} \<Longrightarrow> hptr h' x = hptr h x \<and> hsize h' x = hsize h x"
  shows "run_inv ub m0 h' m L ys"
proof -
  have r: "heap_ok ub h ys m" "\<And>b. b \<in> L \<Longrightarrow> block_ok ub h b" "\<And>b. b \<in> L \<Longrightarrow> block_bytes h b \<inter> free_bytes h ys = {}"
    "\<And>a b. a \<in> L \<Longrightarrow> b \<in> L \<Longrightarrow> a \<noteq> b \<Longrightarrow> block_bytes h a \<inter> block_bytes h b = {}"
    using inv by (auto simp: run_inv_def)
  have pl: "payload h b \<subseteq> block_bytes h b" for b by (auto simp: payload_def block_bytes_def)
  have sub: "hptr h' ub = hptr h ub \<and> hsize h' ub = hsize h ub"
    using r(2) by (intro s ballI) (fastforce simp: payload_def block_ok_def)
  have sL: "hptr h' a = hptr h a \<and> hsize h' a = hsize h a" if a: "a \<in> L" for a
  proof (intro s ballI)
    fix b assume b: "b \<in> L"
    show "{unat a..<unat a + 8} \<inter> payload h b = {}"
    proof (cases "a = b")
      case False
      then show ?thesis using header_in [OF r(2) [OF a]] pl [of b] r(4) [OF a b] by blast
    qed (auto simp: payload_def)
  qed
  have sy: "hptr h' a = hptr h a \<and> hsize h' a = hsize h a" if a: "a \<in> set ys" for a
  proof (intro s ballI)
    fix b assume b: "b \<in> L"
    have "block_ok ub h a" using r(1) a uinvD(3) by (auto simp: heap_ok_def split: if_splits)
    moreover have "block_bytes h a \<subseteq> free_bytes h ys" using a by (auto simp: free_bytes_def)
    ultimately show "{unat a..<unat a + 8} \<inter> payload h b = {}" using header_in pl [of b] r(3) [OF b] by blast
  qed
  have bs: "block_bytes h' b = block_bytes h b" "block_ok ub h' b = block_ok ub h b" "ends h' b = ends h b" if "b \<in> L \<union> set ys" for b
    using sL sy that by (auto simp: block_bytes_def block_ok_def ends_def)
  have fb: "free_bytes h' ys = free_bytes h ys" using bs(1) by (simp add: free_bytes_def)
  have "uinv ub h' ys" if u: "uinv ub h ys"
  proof -
    have "path (hptr h') ub ys ub" using uinvD(1) [OF u] sub sy by (subst path_cong [of ub ys "hptr h'" "hptr h"]) auto
    moreover have "sorted_wrt (\<lambda>a b. ends h' a \<le> unat b) ys"
      using uinvD(2) [OF u] by (rule sorted_wrt_mono_rel [rotated]) (simp add: bs(3))
    ultimately show ?thesis using u sub bs(2) fp by (simp add: uinv_def)
  qed
  then have "heap_ok ub h' ys m" using r(1) fp fb by (auto simp: heap_ok_def)
  then show ?thesis using inv bs fb fp by (simp add: run_inv_def)
qed

lemma run_inv_run:
  assumes "heap_run ub sbrk h0 w0 h w L" "sbrk_ok sbrk brk" "freep h0 = 0" "ub \<noteq> 0" "unat ub + 8 \<le> brk w0"
  shows "\<exists>ys. run_inv ub (brk w0) h (brk w) L ys"
  using assms(1)
proof (induction rule: heap_run.induct)
  case start
  then show ?case using run_inv_start [OF assms(3-5)] by blast
next
  case (alloc h w L nbytes a h' w')
  then obtain ys where "run_inv ub (brk w0) h (brk w) L ys" by blast
  then show ?case by (rule run_inv_malloc [OF _ assms(2) alloc.hyps(2,3)])
next
  case release
  then show ?case using run_inv_free by (metis option.inject)
next
  case store
  then show ?case using run_inv_store by blast
qed

lemma malloc_returns:
  assumes inv: "run_inv ub m0 h (brk w) L ys" and sb: "sbrk_ok sbrk brk" and n: "n < 0x7FFFFFF0"
  shows "\<exists>a h' w'. malloc ub sbrk n (h, w) = Some (a, h', w') \<and> (a \<noteq> 0 \<longrightarrow> a - 8 \<notin> L \<and> unat n \<le> card (payload h' (a - 8)))"
proof -
  have ok: "heap_ok ub h ys (brk w)" using inv by (simp add: run_inv_def)
  show ?thesis
  proof (rule malloc_spec [OF ok sb n])
    fix b h' ys' w' assume m: "malloc ub sbrk n (h, w) = Some (b + 8, h', w')"
      "takes ub (nunits_of n) h (free_bytes h ys \<union> {brk w..<brk w'}) b h' ys'"
    have t: "block_bytes h' b \<subseteq> free_bytes h ys \<union> {brk w..<brk w'}" "block_ok ub h' b" "hsize h' b = nunits_of n"
      using m(2) by (auto simp: takes_def)
    have "unat n \<le> card (payload h' b)" using t(3) nunits_of_bounds(3) [OF n] by (simp add: payload_def ends_def)
    moreover have "unat b \<in> block_bytes h' b" using block_ok_less [OF t(2)] by (simp add: block_bytes_def)
    then have "b \<notin> L" using live_header [OF inv, of b] t(1) by auto
    ultimately show ?thesis using m(1) by simp
  qed auto
qed

lemma sint_split: "sint (x :: 32 word) = (if x < 0x80000000 then int (unat x) else int (unat x) - 4294967296)"
proof -
  have u: "0 \<le> uint x" "uint x < 4294967296" using uint_lt2p [of x] by auto
  have "sint x = (uint x + 2147483648) mod 4294967296 - 2147483648"
    by (simp add: sint_uint signed_take_bit_eq_take_bit_shift take_bit_eq_mod)
  moreover have "(uint x + 2147483648) mod 4294967296 = (if uint x < 2147483648 then uint x + 2147483648 else uint x - 2147483648)"
    using u by (auto simp: mod_pos_pos_trivial mod_pos_geq)
  moreover have "int (unat x) = uint x" "x < 0x80000000 \<longleftrightarrow> uint x < 2147483648" by (simp_all add: word_less_def)
  ultimately show ?thesis by simp
qed

lemma unat_nunits_of:
  assumes "n \<le> 0xFFFFFFF8"
  shows "unat (nunits_of n) = (unat n + 7) div 8 + 1"
proof -
  have n: "unat n \<le> 0xFFFFFFF8" using assms by (simp add: word_le_nat_alt)
  then have "unat (n + 8 - 1) = unat n + 7" by (simp add: unat_word_ariths)
  then have "unat ((n + 8 - 1) div 8) = (unat n + 7) div 8" by (simp add: unat_div)
  then show ?thesis using n by (simp add: nunits_of_def unat_word_ariths)
qed

lemma sbrk_argument:
  assumes "n \<le> 0xFFFFFFF0"
  shows "unat (nunits_of n * 8) = 8 * unat (nunits_of n)"
proof -
  have "unat n \<le> 0xFFFFFFF0" using assms by (simp add: word_le_nat_alt)
  moreover have "n \<le> 0xFFFFFFF8" using assms by (rule order_trans) simp
  ultimately show ?thesis using unat_nunits_of [of n] by (simp add: unat_word_ariths)
qed

section \<open>Properties\<close>

text \<open>A break that moves up to a limit.\<close>

definition demo_sbrk :: "32 word \<Rightarrow> nat \<Rightarrow> addr \<times> nat" where
  "demo_sbrk n w = (if w + unat n < 0x80000000 then (of_nat w, w + unat n) else (-1, w))"

definition demo_heap :: uheap where
  "demo_heap = \<lparr>hptr = \<lambda>_. 0, hsize = \<lambda>_. 0, freep = 0\<rparr>"

lemma demo_sbrk_ok: "sbrk_ok demo_sbrk id"
  by (auto simp: sbrk_ok_def demo_sbrk_def unat_of_nat)

definition demo_heap1 :: uheap where
  "demo_heap1 = \<lparr>hptr = (\<lambda>_. 0)(0x1000 := 0x2000, 0x2000 := 0x1000), 
     hsize = (\<lambda>_. 0)(0x2000 := 4082, 0x9F90 := 14), freep = 0x1000\<rparr>"

lemma demo_malloc: "malloc 0x1000 demo_sbrk 100 (demo_heap, 0x2000) = Some (0x9F98, demo_heap1, 0xA000)"
  by (simp add: malloc_def demo_heap_def nunits_of_def malloc_loop_cases [of _ _ "0x1000" "0x1000"]
      malloc_loop_cases [of _ _ "0x1000" "0x2000"] morecore_def demo_sbrk_def free_def
      free_loop_cases [of _ "0x2000" "0x1000"] passes_def link_block_def carve_def demo_heap1_def)
    (auto simp: fun_eq_iff)

lemma demo_run: "heap_run 0x1000 demo_sbrk demo_heap 0x2000 demo_heap1 0xA000 {0x9F90}"
  using heap_run.alloc [OF heap_run.start _ demo_malloc] by simp

text \<open>
  C27: In every program that calls \<^verbatim>\<open>malloc\<close> with less than \<^verbatim>\<open>0x7FFFFFF0\<close> bytes at a time and \<^verbatim>\<open>free\<close> with blocks it
  holds, and writes only to blocks it holds, the blocks in use never
  overlap each other or a free block, and no memory is lost: the blocks in use and the blocks on the
  free list are together all the memory obtained with \<^verbatim>\<open>sbrk\<close>. Without the limit on the requests this fails
  (\<open>malloc_beyond_break\<close>).
\<close>

theorem heap_safe:
  assumes "heap_run ub sbrk h0 w0 h w L" "sbrk_ok sbrk brk" "freep h0 = 0" "ub \<noteq> 0" "unat ub + 8 \<le> brk w0"
  shows "\<exists>ys. heap_ok ub h ys (brk w) \<and> (\<forall>b \<in> L. block_bytes h b \<inter> free_bytes h ys = {}) \<and>
     (\<forall>a \<in> L. \<forall>b \<in> L. a \<noteq> b \<longrightarrow> block_bytes h a \<inter> block_bytes h b = {}) \<and>
     free_bytes h ys \<union> (\<Union>b \<in> L. block_bytes h b) = {brk w0..<brk w}"
  using run_inv_run [OF assms] by (auto simp: run_inv_def)

theorem heap_safe_witness:
  "\<exists>ys. heap_ok 0x1000 demo_heap1 ys 0xA000 \<and> block_bytes demo_heap1 0x9F90 \<inter> free_bytes demo_heap1 ys = {} \<and>
     free_bytes demo_heap1 ys \<union> block_bytes demo_heap1 0x9F90 = {0x2000..<0xA000}"
  using heap_safe [OF demo_run demo_sbrk_ok] by (simp add: demo_heap_def)

text \<open>
  C29: The allocator always returns, although its loops go round a list without an end. In every such
  program \<^verbatim>\<open>malloc\<close> of less than \<^verbatim>\<open>0x7FFFFFF0\<close> bytes returns null or a new block with room for the bytes, and
  \<^verbatim>\<open>free\<close> of a block in use returns.
\<close>

theorem malloc_free_return:
  assumes "heap_run ub sbrk h0 w0 h w L" "sbrk_ok sbrk brk" "freep h0 = 0" "ub \<noteq> 0" "unat ub + 8 \<le> brk w0"
  shows "(\<forall>n. n < 0x7FFFFFF0 \<longrightarrow> (\<exists>a h' w'. malloc ub sbrk n (h, w) = Some (a, h', w') \<and>
      (a \<noteq> 0 \<longrightarrow> a - 8 \<notin> L \<and> unat n \<le> card (payload h' (a - 8))))) \<and>
    (\<forall>b \<in> L. \<exists>h'. free (b + 8) h = Some h')"
proof -
  obtain ys where inv: "run_inv ub (brk w0) h (brk w) L ys" using run_inv_run [OF assms] by blast
  then show ?thesis using run_inv_free [OF inv] malloc_returns [OF inv assms(2)] by metis
qed

theorem malloc_free_return_witness:
  "(\<exists>a h' w'. malloc 0x1000 demo_sbrk 5000 (demo_heap1, 0xA000) = Some (a, h', w') \<and>
     (a \<noteq> 0 \<longrightarrow> a - 8 \<notin> {0x9F90} \<and> 5000 \<le> card (payload h' (a - 8)))) \<and> (\<exists>h'. free 0x9F98 demo_heap1 = Some h')"
proof -
  note m = malloc_free_return [OF demo_run demo_sbrk_ok]
  show ?thesis using conjunct1 [OF m, THEN spec, of 5000] conjunct2 [OF m] by (simp add: demo_heap_def)
qed

text \<open>An \<^verbatim>\<open>sbrk\<close> that records what it is asked for and refuses, and one that moves the break, down as well.\<close>

definition asked_sbrk :: "32 word \<Rightarrow> 32 word list \<Rightarrow> addr \<times> 32 word list" where
  "asked_sbrk n w = (-1, w @ [n])"

definition signed_sbrk :: "32 word \<Rightarrow> int \<Rightarrow> addr \<times> int" where
  "signed_sbrk n w = (word_of_int w, w + sint n)"

lemma nunits_of_pos: "nunits_of n \<noteq> 0"
proof -
  have "unat ((n + 8 - 1) div 8) \<le> 536870911" using unat32_less [of "n + 8 - 1"] unfolding unat_div by simp
  then have "unat (nunits_of n) = unat ((n + 8 - 1) div 8) + 1" unfolding nunits_of_def by (simp add: unat_word_ariths)
  then show ?thesis by auto
qed

lemma nunits_of_wrapped:
  assumes n: "0xFFFFFFF8 < n"
  shows "nunits_of n = 1"
proof -
  have "unat n < 4294967296" using unsigned_less [of n] by simp
  moreover have "unat (n + 7) = (unat n + 7) mod 4294967296" by (simp add: unat_word_ariths)
  ultimately have "unat (n + 7) < 8" using n by (simp add: word_less_nat_alt le_mod_geq)
  then have "unat ((n + 7) div 8) = 0" by (simp add: unat_div)
  then have "(n + 7) div 8 = 0" by (simp only: unat_eq_zero)
  then show "nunits_of n = 1" by (simp add: nunits_of_def add.commute)
qed

text \<open>The first call of \<^verbatim>\<open>malloc\<close> asks \<^verbatim>\<open>sbrk\<close>, as \<^verbatim>\<open>base\<close> has no room.\<close>

lemma malloc_asks:
  assumes "freep h = 0"
  shows "\<exists>h'. malloc ub asked_sbrk n (h, []) = Some (0, h', [(if nunits_of n < 4096 then 4096 else nunits_of n) * 8])"
  using nunits_of_pos [of n] assms
  by (simp add: malloc_def malloc_loop_cases [of _ _ ub ub] morecore_def asked_sbrk_def word_gt_0)

text \<open>
  C36: What \<^verbatim>\<open>malloc\<close> asks of \<^verbatim>\<open>sbrk\<close>, which takes an \<^verbatim>\<open>int\<close>, for every size. Up to \<^verbatim>\<open>0x7FFFFFF0\<close> bytes it asks for room
  for the header and the bytes. From there on up to \<^verbatim>\<open>0xFFFFFFF0\<close> the argument is negative, so that the request
  takes memory away from the program; then up to \<^verbatim>\<open>0xFFFFFFF8\<close> the product wraps around to 0; and for
  more bytes the sum wraps around, and the block is of one unit, the header alone.
\<close>

theorem malloc_sizes:
  assumes "freep h = 0"
  shows "\<exists>h' a. malloc ub asked_sbrk n (h, []) = Some (0, h', [a]) \<and>
    (n \<le> 0x7FFFFFF0 \<longrightarrow> int (unat n) + 8 \<le> sint a) \<and> (0x7FFFFFF0 < n \<and> n \<le> 0xFFFFFFF0 \<longrightarrow> sint a < 0) \<and>
    (0xFFFFFFF0 < n \<and> n \<le> 0xFFFFFFF8 \<longrightarrow> a = 0) \<and> (0xFFFFFFF8 < n \<longrightarrow> nunits_of n = 1 \<and> a = 0x8000)"
proof -
  let ?u = "nunits_of n" and ?a = "(if nunits_of n < 4096 then 4096 else nunits_of n) * 8"
  obtain h' where h: "malloc ub asked_sbrk n (h, []) = Some (0, h', [?a])" using malloc_asks [OF assms] by blast
  have "int (unat n) + 8 \<le> sint ?a" if n: "n \<le> 0x7FFFFFF0"
  proof -
    have u: "unat ?u = (unat n + 7) div 8 + 1" "unat (?u * 8) = 8 * unat ?u" "unat n + 8 \<le> 8 * unat ?u" "unat ?u < 268435456"
      using n sbrk_argument [of n] unat_nunits_of [of n] by (simp_all add: word_le_nat_alt)
    then have "unat n + 8 \<le> unat ?a" "unat ?a < 2147483648" by (simp_all add: word_less_nat_alt)
    then show ?thesis unfolding sint_split by (simp add: word_less_nat_alt del: of_nat_unat)
  qed
  moreover have "sint ?a < 0" if n: "0x7FFFFFF0 < n \<and> n \<le> 0xFFFFFFF0"
  proof -
    have "268435455 \<le> (unat n + 7) div 8" "(unat n + 7) div 8 < 536870911" using n by (auto simp: word_le_nat_alt word_less_nat_alt)
    moreover have "n \<le> 0xFFFFFFF8" using conjunct2 [OF n] by (rule order_trans) simp
    ultimately show ?thesis using n sbrk_argument [of n] unat_nunits_of [of n] by (simp add: sint_split word_less_nat_alt)
  qed
  moreover have "?a = 0" if n: "0xFFFFFFF0 < n \<and> n \<le> 0xFFFFFFF8"
  proof -
    have "(unat n + 7) div 8 = 536870911" using n by (auto simp: word_le_nat_alt word_less_nat_alt)
    then have "unat ?u = 536870912" using unat_nunits_of [of n] n by simp
    then have "?u = 0x20000000" by (simp add: word_unat_eq_iff)
    then show ?thesis by simp
  qed
  ultimately show ?thesis using h nunits_of_wrapped [of n] by (intro exI [of _ h'] exI [of _ ?a]) simp
qed

theorem malloc_sizes_witness:
  "\<exists>h' a. malloc 0x1000 asked_sbrk 0xFFFFFFF4 (demo_heap, []) = Some (0, h', [a]) \<and> a = 0"
  using malloc_sizes [of demo_heap "0x1000" "0xFFFFFFF4"] by (auto simp: demo_heap_def)

text \<open>
  A request that moves the break down: after \<^verbatim>\<open>malloc(40000)\<close>, \<^verbatim>\<open>malloc(0xFFFFFFF0)\<close> returns a block whose header lies
  beyond the new break and whose size reaches around the whole address space.
\<close>

definition demo_full :: uheap where
  "demo_full = \<lparr>hptr = (\<lambda>_. 0)(0x1000 := 0x1000, 0x2000 := 0x1000), hsize = (\<lambda>_. 0)(0x2000 := 5001), freep = 0x1000\<rparr>"

definition demo_beyond :: uheap where
  "demo_beyond = \<lparr>hptr = (\<lambda>_. 0)(0x1000 := 0x1000, 0x2000 := 0x1000, 0xBC48 := 0x1000),
     hsize = (\<lambda>_. 0)(0x2000 := 5001, 0xBC48 := 0x1FFFFFFF), freep = 0x1000\<rparr>"

lemmas malloc_eval = malloc_def nunits_of_def malloc_loop_cases [of _ _ "0x1000" "0x1000"] morecore_def free_def
  free_loop_cases passes_def link_block_def carve_def

lemma malloc_beyond_break:
  "malloc 0x1000 signed_sbrk 40000 (demo_heap, 0x2000) = Some (0x2008, demo_full, 0xBC48)"
  "malloc 0x1000 signed_sbrk 0xFFFFFFF0 (demo_full, 0xBC48) = Some (0xBC50, demo_beyond, 0xBC40)"
  "hsize demo_beyond 0xBC48 = 0x1FFFFFFF"
proof -
  show "malloc 0x1000 signed_sbrk 40000 (demo_heap, 0x2000) = Some (0x2008, demo_full, 0xBC48)"
    by (simp add: malloc_eval malloc_loop_cases [of _ _ "0x1000" "0x2000"] demo_heap_def signed_sbrk_def demo_full_def)
      (auto simp: fun_eq_iff)
  show "malloc 0x1000 signed_sbrk 0xFFFFFFF0 (demo_full, 0xBC48) = Some (0xBC50, demo_beyond, 0xBC40)"
    by (simp add: malloc_eval malloc_loop_cases [of _ _ "0x1000" "0xBC48"] demo_full_def signed_sbrk_def demo_beyond_def)
      (auto simp: fun_eq_iff)
  show "hsize demo_beyond 0xBC48 = 0x1FFFFFFF" by (simp add: demo_beyond_def)
qed

end
