(* ===== verification/Shell.thy ===== *)
theory Shell
  imports Usys
begin

text \<open>
  The shell, \<^verbatim>\<open>sh.c\<close>. A pointer into the command line is the part of the line from there to its end, so that
  \<^verbatim>\<open>es\<close> is the empty list. The memory for the parsed commands is taken to be there.
\<close>

section \<open>Commands\<close>

text \<open>
  \<open>'p\<close> is what an argument or a file name is: two pointers, to its start and to its end, while the line
  is parsed, and a string afterwards.
\<close>

datatype 'p cmd =
    EXEC "'p list"
  | REDIR "'p cmd" 'p nat int
  | PIPE "'p cmd" "'p cmd"
  | LIST "'p cmd" "'p cmd"
  | BACK "'p cmd"

type_synonym pcmd = "(byte list \<times> byte list) cmd"

text \<open>The functions that make them.\<close>

abbreviation execcmd :: "'p cmd" where "execcmd \<equiv> EXEC []"

abbreviation redircmd :: "'p cmd \<Rightarrow> 'p \<Rightarrow> nat \<Rightarrow> int \<Rightarrow> 'p cmd" where "redircmd c f m fd \<equiv> REDIR c f m fd"

abbreviation pipecmd :: "'p cmd \<Rightarrow> 'p cmd \<Rightarrow> 'p cmd" where "pipecmd l r \<equiv> PIPE l r"

abbreviation listcmd :: "'p cmd \<Rightarrow> 'p cmd \<Rightarrow> 'p cmd" where "listcmd l r \<equiv> LIST l r"

abbreviation backcmd :: "'p cmd \<Rightarrow> 'p cmd" where "backcmd c \<equiv> BACK c"

abbreviation MAXARGS :: nat where "MAXARGS \<equiv> 10"

section \<open>Tokens\<close>

definition whitespace :: "byte list" where
  "whitespace = [32, 9, 13, 10, 11]"

definition symbols :: "byte list" where
  "symbols = lit ''<|>&;()''"

definition skip_ws :: "byte list \<Rightarrow> byte list" where
  "skip_ws s = dropWhile (\<lambda>c. strchr whitespace c \<noteq> None) s"

definition word_char :: "byte \<Rightarrow> bool" where
  "word_char c \<longleftrightarrow> strchr whitespace c = None \<and> strchr symbols c = None"

text \<open>The \<^verbatim>\<open>switch\<close>: the token at \<open>q\<close> and where it ends.\<close>

definition scan_token :: "byte list \<Rightarrow> byte \<times> byte list" where
  "scan_token q =
     (case q of [] \<Rightarrow> (0, [])
      | c # r \<Rightarrow>
        if c = 0 then (0, q)
        else if c \<in> set (lit ''|();&<'') then (c, r)
        else if c = chr CHR ''>'' then
          (if r \<noteq> [] \<and> hd r = chr CHR ''>'' then (chr CHR ''+'', tl r) else (c, r))
        else (chr CHR ''a'', dropWhile word_char q))"

text \<open>The token, where it starts and ends, and where the next one starts.\<close>

definition gettoken :: "byte list \<Rightarrow> byte \<times> byte list \<times> byte list \<times> byte list" where
  "gettoken s = (let q = skip_ws s; (ret, eq) = scan_token q in (ret, q, eq, skip_ws eq))"

definition peek :: "byte list \<Rightarrow> byte list \<Rightarrow> bool \<times> byte list" where
  "peek s toks = (let s = skip_ws s in (s \<noteq> [] \<and> strchr toks (hd s) \<noteq> None, s))"

section \<open>The parser\<close>

text \<open>\<^verbatim>\<open>panic\<close> ends the shell with a message; otherwise a command and the rest of the line.\<close>

type_synonym 'a parse = "string + 'a \<times> byte list"

text \<open>The arguments are written to the command that was made first, under the redirections around it.\<close>

fun add_arg :: "byte list \<times> byte list \<Rightarrow> pcmd \<Rightarrow> pcmd" where
  "add_arg a (EXEC as) = EXEC (as @ [a])"
| "add_arg a (REDIR c f m fd) = REDIR (add_arg a c) f m fd"
| "add_arg a c = c"

lemma length_skip_ws: "length (skip_ws s) \<le> length s"
  by (simp add: skip_ws_def length_dropWhile_le)

lemma length_dropWhile_less: "s \<noteq> [] \<Longrightarrow> P (hd s) \<Longrightarrow> length (dropWhile P s) < length s"
  by (cases s) (auto simp: length_dropWhile_le less_Suc_eq_le)

lemma skip_ws_head: "skip_ws s = c # r \<Longrightarrow> strchr whitespace c = None"
  using hd_dropWhile [of "\<lambda>c. strchr whitespace c \<noteq> None" s] by (auto simp: skip_ws_def)

lemma scan_token_shorter:
  assumes "scan_token (skip_ws s) = (t, e)"
  shows "length e \<le> length (skip_ws s)" "t \<noteq> 0 \<Longrightarrow> length e < length (skip_ws s)"
proof -
  have "length e \<le> length (skip_ws s) \<and> (t \<noteq> 0 \<longrightarrow> length e < length (skip_ws s))"
  proof (cases "skip_ws s")
    case (Cons c r)
    have "word_char c" if "c \<notin> set (lit ''|();&<'')" "c \<noteq> chr CHR ''>''"
      using that skip_ws_head [OF Cons] by (auto simp: word_char_def symbols_def lit_def)
    then show ?thesis using assms [unfolded Cons] length_dropWhile_less [of "c # r" word_char] unfolding Cons
      by (auto simp: scan_token_def split: if_splits)
  qed (use assms in \<open>simp add: scan_token_def\<close>)
  then show "length e \<le> length (skip_ws s)" "t \<noteq> 0 \<Longrightarrow> length e < length (skip_ws s)" by auto
qed

lemma gettoken_shorter:
  assumes "gettoken s = (t, q, e, s')"
  shows "length s' \<le> length s" "t \<noteq> 0 \<Longrightarrow> length s' < length s"
proof -
  have q: "scan_token (skip_ws s) = (t, e)" "s' = skip_ws e" using assms by (auto simp: gettoken_def Let_def split: prod.splits)
  note l = scan_token_shorter [OF q(1)] length_skip_ws [of e] length_skip_ws [of s]
  show "length s' \<le> length s" using l(1,3,4) q(2) by simp
  show "length s' < length s" if "t \<noteq> 0" using l(2) [OF that] l(3,4) q(2) by simp
qed

lemma peek_shorter: "peek s toks = (b, s') \<Longrightarrow> length s' \<le> length s"
  using length_skip_ws [of s] by (auto simp: peek_def Let_def)

lemma skip_ws_idem [simp]: "skip_ws (skip_ws s) = skip_ws s"
  by (simp add: skip_ws_def dropWhile_idem)

lemma strchr_set: "strchr xs c \<noteq> None \<longleftrightarrow> c \<in> set xs"
  by (induction xs) auto

text \<open>A symbol that was seen is taken by the next call.\<close>

lemma gettoken_symbol:
  assumes "peek s [c] = (True, s')" "c \<in> set (lit ''|();&<'')"
  obtains r where "s' = c # r" "gettoken s' = (c, s', r, skip_ws r)"
proof -
  obtain r where "skip_ws s = c # r" "s' = skip_ws s"
    using assms(1) by (cases "skip_ws s") (auto simp: peek_def Let_def split: if_splits)
  moreover have "c \<noteq> 0" using assms(2) by (auto simp: lit_def)
  moreover have "skip_ws s' = s'" using \<open>s' = skip_ws s\<close> by simp
  ultimately show thesis using that [of r] assms(2) by (simp add: gettoken_def scan_token_def)
qed

text \<open>The \<^verbatim>\<open>switch\<close> on the kind of redirection.\<close>

definition redir_of :: "byte \<Rightarrow> pcmd \<Rightarrow> byte list \<Rightarrow> byte list \<Rightarrow> pcmd" where
  "redir_of tok c q eq =
     (if tok = chr CHR ''<'' then redircmd c (q, eq) 0 0
      else if tok = chr CHR ''>'' then redircmd c (q, eq) 0x201 1
      else if tok = chr CHR ''+'' then redircmd c (q, eq) 0x201 1
      else c)"

function parseredirs :: "pcmd \<Rightarrow> byte list \<Rightarrow> pcmd parse" where
  "parseredirs c s =
     (let (b, s) = peek s (lit ''<>'') in
      if \<not> b then Inr (c, s)
      else let (tok, _, _, s) = gettoken s; (t, q, eq, s) = gettoken s in
        if t \<noteq> chr CHR ''a'' then Inl ''missing file for redirection''
        else parseredirs (redir_of tok c q eq) s)"
  by pat_completeness auto
termination
proof (relation "measure (\<lambda>(c, s). length s)", goal_cases)
  case (2 c s x b s1 x2 tok y2 q2 y3 e2 s2 x3 t y4 q y5 e s3)
  have "peek s (lit ''<>'') = (b, s1)" "gettoken s1 = (tok, q2, e2, s2)" "gettoken s2 = (t, q, e, s3)" "t \<noteq> 0"
    using 2 by auto
  then show ?case using peek_shorter [of s _ b s1] gettoken_shorter(1) [of s1] gettoken_shorter(2) [of s2] by fastforce
qed simp

declare parseredirs.simps [simp del]

lemma parseredirs_shorter: "parseredirs c s = Inr (c', s') \<Longrightarrow> length s' \<le> length s"
proof (induction c s rule: parseredirs.induct)
  case (1 c s)
  obtain b s1 where p: "peek s (lit ''<>'') = (b, s1)" by fastforce
  obtain tok q2 e2 s2 where g: "gettoken s1 = (tok, q2, e2, s2)" by (cases "gettoken s1") auto
  obtain t q e s3 where g2: "gettoken s2 = (t, q, e, s3)" by (cases "gettoken s2") auto
  have l: "length s1 \<le> length s" "length s2 \<le> length s1" "length s3 \<le> length s2"
    using peek_shorter [OF p] gettoken_shorter(1) [OF g] gettoken_shorter(1) [OF g2] by auto
  show ?case
  proof (cases "b \<and> t = chr CHR ''a''")
    case True
    then have "parseredirs (redir_of tok c q e) s3 = Inr (c', s')"
      using 1(2) p g g2 by (subst (asm) parseredirs.simps) simp
    then show ?thesis using 1(1) [OF p [symmetric] refl _ g [symmetric] refl refl refl g2 [symmetric] refl refl refl] True l by force
  next
    case False
    then show ?thesis using 1(2) p g g2 l by (subst (asm) parseredirs.simps) (auto split: if_splits)
  qed
qed

text \<open>The loop of \<^verbatim>\<open>parseexec\<close> over the arguments.\<close>

function parse_args :: "nat \<Rightarrow> pcmd \<Rightarrow> byte list \<Rightarrow> pcmd parse" where
  "parse_args argc ret s =
     (let (b, s) = peek s (lit ''|)&;'') in
      if b then Inr (ret, s)
      else let (tok, q, eq, s) = gettoken s in
        if tok = 0 then Inr (ret, s)
        else if tok \<noteq> chr CHR ''a'' then Inl ''syntax''
        else if argc + 1 \<ge> MAXARGS then Inl ''too many args''
        else (case parseredirs (add_arg (q, eq) ret) s of
                Inl m \<Rightarrow> Inl m
              | Inr (ret, s) \<Rightarrow> parse_args (argc + 1) ret s))"
  by pat_completeness auto
termination
proof (relation "measure (\<lambda>(n, c, s). length s)", goal_cases)
  case (2 argc ret s x b s1 x2 tok y2 q y3 e s2 y ret' s3)
  have "peek s (lit ''|)&;'') = (b, s1)" "gettoken s1 = (tok, q, e, s2)" "tok \<noteq> 0" "parseredirs (add_arg (q, e) ret) s2 = Inr (ret', s3)"
    using 2 by auto
  then show ?case using peek_shorter [of s _ b s1] gettoken_shorter(2) [of s1] parseredirs_shorter by fastforce
qed simp

declare parse_args.simps [simp del]

text \<open>The loop of \<^verbatim>\<open>parseline\<close> over the \<^verbatim>\<open>&\<close>.\<close>

function parse_back :: "pcmd \<Rightarrow> byte list \<Rightarrow> pcmd \<times> byte list" where
  "parse_back c s =
     (let (b, s) = peek s (lit ''&'') in
      if b then let (_, _, _, s) = gettoken s in parse_back (backcmd c) s else (c, s))"
  by pat_completeness auto
termination
proof (relation "measure (\<lambda>(c, s). length s)", goal_cases)
  case (2 c s x b s1 x2 tok y2 q y3 e s2)
  have p: "peek s [chr CHR ''&''] = (True, s1)" using 2 by (simp add: lit_def)
  obtain r where "s1 = chr CHR ''&'' # r" "gettoken s1 = (chr CHR ''&'', s1, r, skip_ws r)"
    by (rule gettoken_symbol [OF p]) (simp_all add: lit_def)
  then show ?case using 2 peek_shorter [OF p] length_skip_ws [of r] by simp
qed simp

declare parse_back.simps [simp del]

text \<open>
  \<^verbatim>\<open>parseline\<close>, \<^verbatim>\<open>parsepipe\<close>, \<^verbatim>\<open>parseexec\<close> and \<^verbatim>\<open>parseblock\<close> call each other; the first argument bounds the depth of
  the calls, and \<open>None\<close> is a depth that is not enough.
\<close>

definition pbnd :: "'a parse option \<Rightarrow> ('a \<Rightarrow> byte list \<Rightarrow> 'b parse option) \<Rightarrow> 'b parse option" where
  "pbnd m f = (case m of None \<Rightarrow> None | Some (Inl e) \<Rightarrow> Some (Inl e) | Some (Inr (a, s)) \<Rightarrow> f a s)"

fun parseline :: "nat \<Rightarrow> byte list \<Rightarrow> pcmd parse option"
  and parsepipe :: "nat \<Rightarrow> byte list \<Rightarrow> pcmd parse option"
  and parseexec :: "nat \<Rightarrow> byte list \<Rightarrow> pcmd parse option"
  and parseblock :: "nat \<Rightarrow> byte list \<Rightarrow> pcmd parse option" where
  "parseline 0 s = None"
| "parseline (Suc n) s =
     pbnd (parsepipe n s) (\<lambda>c s.
       let (c, s) = parse_back c s; (b, s) = peek s (lit '';'') in
       if b then let (_, _, _, s) = gettoken s in pbnd (parseline n s) (\<lambda>d s. Some (Inr (listcmd c d, s)))
       else Some (Inr (c, s)))"
| "parsepipe 0 s = None"
| "parsepipe (Suc n) s =
     pbnd (parseexec n s) (\<lambda>c s.
       let (b, s) = peek s (lit ''|'') in
       if b then let (_, _, _, s) = gettoken s in pbnd (parsepipe n s) (\<lambda>d s. Some (Inr (pipecmd c d, s)))
       else Some (Inr (c, s)))"
| "parseexec 0 s = None"
| "parseexec (Suc n) s =
     (let (b, s) = peek s (lit ''('') in
      if b then parseblock n s
      else pbnd (Some (parseredirs execcmd s)) (\<lambda>ret s. Some (parse_args 0 ret s)))"
| "parseblock 0 s = None"
| "parseblock (Suc n) s =
     (let (b, s) = peek s (lit ''('') in
      if \<not> b then Some (Inl ''parseblock'')
      else let (_, _, _, s) = gettoken s in
        pbnd (parseline n s) (\<lambda>c s.
          let (b, s) = peek s (lit '')'') in
          if \<not> b then Some (Inl ''syntax - missing )'')
          else let (_, _, _, s) = gettoken s in Some (parseredirs c s)))"

section \<open>The strings of a command\<close>

text \<open>The bytes behind the end of every string are set to zero.\<close>

definition put_nul :: "byte list \<Rightarrow> byte list \<Rightarrow> byte list" where
  "put_nul e buf = (if e = [] then buf else buf[length buf - length e := 0])"

fun nulterminate :: "pcmd \<Rightarrow> byte list \<Rightarrow> byte list" where
  "nulterminate (EXEC as) buf = fold (\<lambda>(q, e). put_nul e) as buf"
| "nulterminate (REDIR c (q, e) m fd) buf = put_nul e (nulterminate c buf)"
| "nulterminate (PIPE l r) buf = nulterminate r (nulterminate l buf)"
| "nulterminate (LIST l r) buf = nulterminate r (nulterminate l buf)"
| "nulterminate (BACK c) buf = nulterminate c buf"

text \<open>The string a pointer stands for, in the buffer as it is then.\<close>

definition string_at :: "byte list \<Rightarrow> byte list \<times> byte list \<Rightarrow> byte list" where
  "string_at buf p = takeWhile (\<lambda>c. c \<noteq> 0) (drop (length buf - length (fst p)) buf)"

definition depth_bound :: "byte list \<Rightarrow> nat" where
  "depth_bound s = 4 * length s + 4"

datatype parsed = Syntax string | Leftovers "byte list" | Cmd "byte list cmd" | Deep

definition parsecmd :: "byte list \<Rightarrow> parsed" where
  "parsecmd s0 =
     (case parseline (depth_bound s0) s0 of
        None \<Rightarrow> Deep
      | Some (Inl m) \<Rightarrow> Syntax m
      | Some (Inr (c, s)) \<Rightarrow>
          let (_, s) = peek s [] in
          if s \<noteq> [] then Leftovers s
          else Cmd (map_cmd (string_at (nulterminate c s0)) c))"

section \<open>Running commands\<close>

definition upanic :: "'w usys \<Rightarrow> byte list \<Rightarrow> 'w \<Rightarrow> ('r, 'w) u" where
  "upanic sys s w = ubnd (uprintf sys 2 ''%s\<newline>'' [PStr (Some s)] w) (\<lambda>_. uexit)"

definition fork1 :: "'w usys \<Rightarrow> 'w \<Rightarrow> (int, 'w) u" where
  "fork1 sys w = (let (n, w) = u_fork sys w in if n = -1 then upanic sys (lit ''fork'') w else uret n w)"

text \<open>
  A result of \<^verbatim>\<open>runcmd\<close> is the world at its \<^verbatim>\<open>exit\<close>, or at the \<^verbatim>\<open>exec\<close> that succeeded, or where it returns. The code
  after a call of \<^verbatim>\<open>runcmd\<close> in a child is there, as in the program, although it is not reached. A command has one of the
  five types, and the pointers to commands that the parser makes are not null, so the test for a null pointer and
  the default of the \<^verbatim>\<open>switch\<close> have no counterpart.
\<close>

fun runcmd :: "'w usys \<Rightarrow> byte list cmd \<Rightarrow> 'w \<Rightarrow> (unit, 'w) u" where
  "runcmd sys (EXEC argv) w =
     (case argv of [] \<Rightarrow> uexit w
      | a # _ \<Rightarrow> (case u_exec sys a argv w of
            None \<Rightarrow> uexit w
          | Some (_, w) \<Rightarrow> ubnd (uprintf sys 2 ''exec %s failed\<newline>'' [PStr (Some a)] w) (\<lambda>_. uexit)))"
| "runcmd sys (REDIR c f m fd) w =
     (let (_, w) = u_close sys fd w; (r, w) = u_open sys f m w in
      if r < 0 then ubnd (uprintf sys 2 ''open %s failed\<newline>'' [PStr (Some f)] w) (\<lambda>_. uexit)
      else ubnd (runcmd sys c w) (\<lambda>_. uexit))"
| "runcmd sys (LIST l r) w =
     ubnd (fork1 sys w) (\<lambda>n w.
     ubnd (if n = 0 then runcmd sys l w else uret () w) (\<lambda>_ w.
       let (_, w) = u_wait sys w in
       ubnd (runcmd sys r w) (\<lambda>_. uexit)))"
| "runcmd sys (PIPE l r) w =
     (let ((e, p0, p1), w) = u_pipe sys w in
      if e < 0 then upanic sys (lit ''pipe'') w
      else ubnd (fork1 sys w) (\<lambda>n w.
        ubnd (if n = 0 then
                let (_, w) = u_close sys 1 w; (_, w) = u_dup sys p1 w; (_, w) = u_close sys p0 w; (_, w) = u_close sys p1 w
                in runcmd sys l w
              else uret () w) (\<lambda>_ w.
        ubnd (fork1 sys w) (\<lambda>n w.
        ubnd (if n = 0 then
                let (_, w) = u_close sys 0 w; (_, w) = u_dup sys p0 w; (_, w) = u_close sys p0 w; (_, w) = u_close sys p1 w
                in runcmd sys r w
              else uret () w) (\<lambda>_ w.
          let (_, w) = u_close sys p0 w; (_, w) = u_close sys p1 w; (_, w) = u_wait sys w; (_, w) = u_wait sys w
          in uexit w)))))"
| "runcmd sys (BACK c) w =
     ubnd (fork1 sys w) (\<lambda>n w.
     ubnd (if n = 0 then runcmd sys c w else uret () w) (\<lambda>_. uexit))"

definition getcmd :: "'w usys \<Rightarrow> nat \<Rightarrow> 'w \<Rightarrow> (byte list, 'w) u" where
  "getcmd sys nbuf w = ubnd (uprintf sys 2 ''$ '' [] w) (\<lambda>_ w.
     let (buf, w) = gets sys nbuf w in uret (takeWhile (\<lambda>c. c \<noteq> 0) buf) w)"

definition run_line :: "'w usys \<Rightarrow> byte list \<Rightarrow> 'w \<Rightarrow> (unit, 'w) u" where
  "run_line sys buf w =
     (case parsecmd buf of
        Cmd c \<Rightarrow> runcmd sys c w
      | Syntax m \<Rightarrow> upanic sys (lit m) w
      | Leftovers s \<Rightarrow> ubnd (uprintf sys 2 ''leftovers: %s\<newline>'' [PStr (Some s)] w) (\<lambda>_. upanic sys (lit ''syntax''))
      | Deep \<Rightarrow> None)"

text \<open>The three descriptors.\<close>

partial_function (option) open_console :: "'w usys \<Rightarrow> 'w \<Rightarrow> (unit, 'w) u" where
  "open_console sys w =
     (let (fd, w) = u_open sys (lit ''console'') 2 w in
      if fd < 0 then uret () w
      else if fd \<ge> 3 then uret () (snd (u_close sys fd w))
      else open_console sys w)"

text \<open>An empty line is the end of the input.\<close>

partial_function (option) sh_loop :: "'w usys \<Rightarrow> 'w \<Rightarrow> (unit, 'w) u" where
  "sh_loop sys w =
     ubnd (getcmd sys 100 w) (\<lambda>buf w.
       if buf = [] then uexit w
       else if take 3 buf = lit ''cd '' then
         (let buf = butlast buf; (r, w) = u_chdir sys (drop 3 buf) w in
          ubnd (if r < 0 then uprintf sys 2 ''cannot cd %s\<newline>'' [PStr (Some (drop 3 buf))] w else uret () w) (\<lambda>_. sh_loop sys))
       else ubnd (fork1 sys w) (\<lambda>n w.
         ubnd (if n = 0 then run_line sys buf w else uret () w) (\<lambda>_ w.
           let (_, w) = u_wait sys w in sh_loop sys w)))"

definition sh_main :: "'w usys \<Rightarrow> 'w \<Rightarrow> (unit, 'w) u" where
  "sh_main sys w = ubnd (open_console sys w) (\<lambda>_. sh_loop sys)"

end
