(* ===== verification/Shell_Parse.thy ===== *)
theory Shell_Parse
  imports Shell
begin

text \<open>
  The depth of the calls of the parser: the bound in \<^verbatim>\<open>parsecmd\<close> is enough for every line.
\<close>

lemma pbnd_simps [simp]:
  "pbnd None f = None" "pbnd (Some (Inl e)) f = Some (Inl e)" "pbnd (Some (Inr (a, s))) f = f a s"
  by (simp_all add: pbnd_def)

lemma pbnd_eq_Some:
  "pbnd m f = Some (Inr r) \<longleftrightarrow> (\<exists>a s. m = Some (Inr (a, s)) \<and> f a s = Some (Inr r))"
  by (auto simp: pbnd_def split: option.splits sum.splits)

lemma pbnd_eq_None:
  "pbnd m f = None \<longleftrightarrow> m = None \<or> (\<exists>a s. m = Some (Inr (a, s)) \<and> f a s = None)"
  by (auto simp: pbnd_def split: option.splits sum.splits)

text \<open>A symbol that is seen is taken.\<close>

lemma peek_symbol:
  assumes "c \<in> set (lit ''|();&<'')" "peek s [c] = (True, s')" "gettoken s' = (t, q, e, s'')"
  shows "t = c" "length s'' < length s"
proof -
  obtain r where r: "s' = c # r" "gettoken s' = (c, s', r, skip_ws r)" by (rule gettoken_symbol [OF assms(2,1)])
  show "t = c" "length s'' < length s" using r assms(3) peek_shorter [OF assms(2)] length_skip_ws [of r] by auto
qed

lemma lit_single: "lit [c] = [chr c]"
  by (simp add: lit_def)

lemma parse_back_shorter: "parse_back c s = (c', s') \<Longrightarrow> length s' \<le> length s"
proof (induction c s rule: parse_back.induct)
  case (1 c s)
  obtain b s1 where p: "peek s (lit ''&'') = (b, s1)" by fastforce
  obtain t q e s2 where g: "gettoken s1 = (t, q, e, s2)" by (cases "gettoken s1") auto
  show ?case
  proof (cases b)
    case True
    then have "parse_back (BACK c) s2 = (c', s')" using 1(2) p g by (subst (asm) parse_back.simps) simp
    then have "length s' \<le> length s2" using 1(1) [OF p [symmetric] refl True g [symmetric] refl refl refl] by simp
    then show ?thesis using peek_shorter [OF p] gettoken_shorter(1) [OF g] by simp
  next
    case False
    then show ?thesis using 1(2) p peek_shorter [OF p] by (subst (asm) parse_back.simps) simp
  qed
qed

lemma parse_args_shorter: "parse_args k c s = Inr (c', s') \<Longrightarrow> length s' \<le> length s"
proof (induction k c s rule: parse_args.induct)
  case (1 k c s)
  obtain b s1 where p: "peek s (lit ''|)&;'') = (b, s1)" by fastforce
  obtain t q e s2 where g: "gettoken s1 = (t, q, e, s2)" by (cases "gettoken s1") auto
  note l = peek_shorter [OF p] gettoken_shorter(1) [OF g]
  show ?case
  proof (cases "\<not> b \<and> t = chr CHR ''a'' \<and> k + 1 < MAXARGS")
    case True
    then obtain c2 s3 where r: "parseredirs (add_arg (q, e) c) s2 = Inr (c2, s3)" "parse_args (k + 1) c2 s3 = Inr (c', s')"
      using 1(2) p g by (subst (asm) parse_args.simps) (auto split: sum.splits)
    have "length s' \<le> length s3"
      using 1(1) [OF p [symmetric] refl _ g [symmetric] refl refl refl _ _ _ r(1) refl r(2)] True by simp
    then show ?thesis using l parseredirs_shorter [OF r(1)] by simp
  next
    case False
    then show ?thesis using 1(2) p g l by (subst (asm) parse_args.simps) (auto split: if_splits)
  qed
qed

lemma token_shorter: "length (snd (snd (snd (gettoken s)))) \<le> length s"
  using gettoken_shorter(1) by (metis prod.collapse)

lemma peek_length: "length (snd (peek s toks)) \<le> length s"
  using peek_shorter by (metis prod.collapse)

text \<open>The symbol is taken and the blanks behind it skipped.\<close>

lemma after_symbol:
  assumes "fst (peek s (lit [c]))" "chr c \<in> set (lit ''|();&<'')"
  shows "length (snd (snd (snd (gettoken (snd (peek s (lit [c])))))) ) < length s"
proof -
  obtain s1 where p: "peek s [chr c] = (True, s1)" using assms(1) by (cases "peek s [chr c]") (auto simp: lit_single)
  obtain t q e s2 where g: "gettoken s1 = (t, q, e, s2)" by (cases "gettoken s1") auto
  show ?thesis using peek_symbol(2) [OF assms(2) p g] p g by (simp add: lit_single)
qed

abbreviation after_token :: "byte list \<Rightarrow> byte list" where
  "after_token s \<equiv> snd (snd (snd (gettoken s)))"

abbreviation after_peek :: "byte list \<Rightarrow> byte list \<Rightarrow> byte list" where
  "after_peek toks s \<equiv> snd (peek s toks)"

lemmas parse_unfold = Let_def case_prod_unfold pbnd_eq_Some

lemma parse_shorter:
  "(\<forall>s c s'. parseline n s = Some (Inr (c, s')) \<longrightarrow> length s' \<le> length s) \<and>
   (\<forall>s c s'. parsepipe n s = Some (Inr (c, s')) \<longrightarrow> length s' \<le> length s) \<and>
   (\<forall>s c s'. parseexec n s = Some (Inr (c, s')) \<longrightarrow> length s' \<le> length s) \<and>
   (\<forall>s c s'. parseblock n s = Some (Inr (c, s')) \<longrightarrow> length s' \<le> length s)"
proof (induction n)
  case (Suc n)
  have l: "length (snd (parse_back c s)) \<le> length s" for c s using parse_back_shorter by (metis prod.collapse)
  have a: "length s' \<le> length s" if r: "parseline (Suc n) s = Some (Inr (c, s'))" for s c s'
  proof -
    obtain c1 s1 where s1: "parsepipe n s = Some (Inr (c1, s1))" using r by (auto simp: parse_unfold)
    let ?s2 = "after_peek (lit '';'') (snd (parse_back c1 s1))"
    have "length s1 \<le> length s" using Suc s1 by blast
    then have "length ?s2 \<le> length s" using l [of c1 s1] peek_length [of "snd (parse_back c1 s1)" "lit '';''"] by linarith
    moreover have "length s' \<le> length ?s2 \<or> (\<exists>d. parseline n (after_token ?s2) = Some (Inr (d, s')))"
      using r s1 by (auto simp: parse_unfold split: if_splits)
    moreover have "length (after_token ?s2) \<le> length ?s2" by (rule token_shorter)
    ultimately show ?thesis using Suc by (meson order_trans)
  qed
  moreover have "length s' \<le> length s" if r: "parsepipe (Suc n) s = Some (Inr (c, s'))" for s c s'
  proof -
    obtain c1 s1 where s1: "parseexec n s = Some (Inr (c1, s1))" using r by (auto simp: parse_unfold)
    let ?s2 = "after_peek (lit ''|'') s1"
    have "length s1 \<le> length s" using Suc s1 by blast
    then have "length ?s2 \<le> length s" using peek_length [of s1 "lit ''|''"] by linarith
    moreover have "length s' \<le> length ?s2 \<or> (\<exists>d. parsepipe n (after_token ?s2) = Some (Inr (d, s')))"
      using r s1 by (auto simp: parse_unfold split: if_splits)
    moreover have "length (after_token ?s2) \<le> length ?s2" by (rule token_shorter)
    ultimately show ?thesis using Suc by (meson order_trans)
  qed
  moreover have "length s' \<le> length s" if r: "parseexec (Suc n) s = Some (Inr (c, s'))" for s c s'
  proof -
    let ?s1 = "after_peek (lit ''('') s"
    have "parseblock n ?s1 = Some (Inr (c, s')) \<or> (\<exists>c2 s2. parseredirs (EXEC []) ?s1 = Inr (c2, s2) \<and> parse_args 0 c2 s2 = Inr (c, s'))"
      using r by (auto simp: parse_unfold split: if_splits)
    then have "length s' \<le> length ?s1" using Suc parseredirs_shorter parse_args_shorter by (meson order_trans)
    then show ?thesis using peek_length [of s "lit ''(''"] by linarith
  qed
  moreover have "length s' \<le> length s" if r: "parseblock (Suc n) s = Some (Inr (c, s'))" for s c s'
  proof -
    let ?s2 = "after_token (after_peek (lit ''('') s)"
    obtain c3 s3 where a: "parseline n ?s2 = Some (Inr (c3, s3))" "parseredirs c3 (after_token (after_peek (lit '')'') s3)) = Inr (c, s')"
      using r by (auto simp: parse_unfold split: if_splits)
    have "length s' \<le> length (after_token (after_peek (lit '')'') s3))" using parseredirs_shorter [OF a(2)] .
    also have "\<dots> \<le> length s3" using token_shorter peek_length by (meson order_trans)
    also have "\<dots> \<le> length ?s2" using Suc a(1) by blast
    also have "\<dots> \<le> length s" using token_shorter peek_length by (meson order_trans)
    finally show ?thesis .
  qed
  ultimately show ?case by blast
qed simp

lemma parse_enough:
  "(\<forall>s. 4 * length s + 4 \<le> n \<longrightarrow> parseline n s \<noteq> None) \<and> (\<forall>s. 4 * length s + 3 \<le> n \<longrightarrow> parsepipe n s \<noteq> None) \<and>
   (\<forall>s. 4 * length s + 2 \<le> n \<longrightarrow> parseexec n s \<noteq> None) \<and> (\<forall>s. 4 * length s + 1 \<le> n \<longrightarrow> parseblock n s \<noteq> None)"
proof (induction n)
  case (Suc n)
  note sh = parse_shorter [of n]
  have bk: "length (snd (parse_back c s)) \<le> length s" for c s using parse_back_shorter by (metis prod.collapse)
  have line: "parseline n s \<noteq> None" if "4 * length s + 4 \<le> n" for s using Suc that by blast
  have pip: "parsepipe n s \<noteq> None" if "4 * length s + 3 \<le> n" for s using Suc that by blast
  have "parseline (Suc n) s \<noteq> None" if s: "4 * length s + 4 \<le> Suc n" for s
  proof -
    have "parseline n (after_token (after_peek (lit '';'') (snd (parse_back c1 s1)))) \<noteq> None"
      if c: "parsepipe n s = Some (Inr (c1, s1))" "fst (peek (snd (parse_back c1 s1)) (lit '';''))" for c1 s1
    proof (rule line)
      have "length s1 \<le> length s" using sh c(1) by blast
      then show "4 * length (after_token (after_peek (lit '';'') (snd (parse_back c1 s1)))) + 4 \<le> n"
        using after_symbol [OF c(2)] bk [of c1 s1] s by (simp add: lit_def)
    qed
    moreover have "parsepipe n s \<noteq> None" using pip s by simp
    ultimately show ?thesis by (auto simp: Let_def case_prod_unfold pbnd_eq_None simp del: not_None_eq)
  qed
  moreover have "parsepipe (Suc n) s \<noteq> None" if s: "4 * length s + 3 \<le> Suc n" for s
  proof -
    have "parsepipe n (after_token (after_peek (lit ''|'') s1)) \<noteq> None"
      if c: "parseexec n s = Some (Inr (c1, s1))" "fst (peek s1 (lit ''|''))" for c1 s1
    proof (rule pip)
      have "length s1 \<le> length s" using sh c(1) by blast
      then show "4 * length (after_token (after_peek (lit ''|'') s1)) + 3 \<le> n"
        using after_symbol [OF c(2)] s by (simp add: lit_def)
    qed
    moreover have "parseexec n s \<noteq> None" using Suc s by simp
    ultimately show ?thesis by (auto simp: Let_def case_prod_unfold pbnd_eq_None simp del: not_None_eq)
  qed
  moreover have "parseexec (Suc n) s \<noteq> None" if s: "4 * length s + 2 \<le> Suc n" for s
  proof -
    have "4 * length (after_peek (lit ''('') s) + 1 \<le> n" using peek_length [of s "lit ''(''"] s by simp
    then show ?thesis using Suc by (auto simp: Let_def case_prod_unfold pbnd_def split: sum.splits)
  qed
  moreover have "parseblock (Suc n) s \<noteq> None" if s: "4 * length s + 1 \<le> Suc n" for s
  proof -
    have "parseline n (after_token (after_peek (lit ''('') s)) \<noteq> None" if "fst (peek s (lit ''(''))"
      using after_symbol [OF that] s by (intro line) (simp add: lit_def)
    then show ?thesis by (auto simp: Let_def case_prod_unfold pbnd_eq_None simp del: not_None_eq)
  qed
  ultimately show ?case by blast
qed simp

lemma pbnd_mono:
  assumes "pbnd m f = Some r" "\<And>x. m = Some x \<Longrightarrow> m' = Some x" "\<And>a s r. f a s = Some r \<Longrightarrow> f' a s = Some r"
  shows "pbnd m' f' = Some r"
  using assms(1) by (cases m) (auto simp: pbnd_def assms(2,3) split: sum.splits)

lemma parse_Suc:
  "(\<forall>s r. parseline n s = Some r \<longrightarrow> parseline (Suc n) s = Some r) \<and>
   (\<forall>s r. parsepipe n s = Some r \<longrightarrow> parsepipe (Suc n) s = Some r) \<and>
   (\<forall>s r. parseexec n s = Some r \<longrightarrow> parseexec (Suc n) s = Some r) \<and>
   (\<forall>s r. parseblock n s = Some r \<longrightarrow> parseblock (Suc n) s = Some r)"
proof (induction n)
  case (Suc n)
  have "parseline (Suc (Suc n)) s = Some r" if "parseline (Suc n) s = Some r" for s r
    using that unfolding parseline.simps(2)
    by (rule pbnd_mono) (use Suc in \<open>auto simp: Let_def case_prod_unfold intro: pbnd_mono split: if_splits\<close>)
  moreover have "parsepipe (Suc (Suc n)) s = Some r" if "parsepipe (Suc n) s = Some r" for s r
    using that unfolding parsepipe.simps(2)
    by (rule pbnd_mono) (use Suc in \<open>auto simp: Let_def case_prod_unfold intro: pbnd_mono split: if_splits\<close>)
  moreover have "parseexec (Suc (Suc n)) s = Some r" if "parseexec (Suc n) s = Some r" for s r
    using that Suc unfolding parseexec.simps(2) by (auto simp: Let_def case_prod_unfold split: if_splits)
  moreover have "parseblock (Suc (Suc n)) s = Some r" if "parseblock (Suc n) s = Some r" for s r
    using that Suc unfolding parseblock.simps(2) by (auto simp: Let_def case_prod_unfold intro: pbnd_mono split: if_splits)
  ultimately show ?case by blast
qed simp

lemma parse_more:
  "parseline n s = Some r \<Longrightarrow> parseline (n + k) s = Some r"
  "parsepipe n s = Some r \<Longrightarrow> parsepipe (n + k) s = Some r"
  "parseexec n s = Some r \<Longrightarrow> parseexec (n + k) s = Some r"
  by (induction k) (use parse_Suc in auto)

end
