(* ===== verification/Shell_Words.thy ===== *)
theory Shell_Words
  imports Shell_Parse "HOL-Library.Sublist"
begin

text \<open>
  The pointers in a parsed command, and the strings they stand for once \<^verbatim>\<open>nulterminate\<close> has put the zeros.
\<close>

section \<open>Pointers\<close>

definition ptr_ok :: "byte list \<Rightarrow> byte list \<times> byte list \<Rightarrow> bool" where
  "ptr_ok buf p \<longleftrightarrow> (case p of (q, e) \<Rightarrow>
     suffix q buf \<and> (\<exists>w. q = w @ e \<and> (\<forall>c \<in> set w. word_char c)) \<and> (e = [] \<or> \<not> word_char (hd e)))"

definition cmd_ok :: "byte list \<Rightarrow> pcmd \<Rightarrow> bool" where
  "cmd_ok buf c \<longleftrightarrow> (\<forall>p \<in> set_cmd c. ptr_ok buf p)"

lemma cmd_ok_simps [simp]:
  "cmd_ok buf (EXEC as) \<longleftrightarrow> (\<forall>p \<in> set as. ptr_ok buf p)" "cmd_ok buf (REDIR c f m fd) \<longleftrightarrow> cmd_ok buf c \<and> ptr_ok buf f"
  "cmd_ok buf (PIPE l r) \<longleftrightarrow> cmd_ok buf l \<and> cmd_ok buf r" "cmd_ok buf (LIST l r) \<longleftrightarrow> cmd_ok buf l \<and> cmd_ok buf r"
  "cmd_ok buf (BACK c) \<longleftrightarrow> cmd_ok buf c"
  by (auto simp: cmd_ok_def)

lemma suffix_skip_ws: "suffix s buf \<Longrightarrow> suffix (skip_ws s) buf"
  unfolding skip_ws_def using suffix_dropWhile suffix_order.trans by blast

lemma suffix_peek: "peek s toks = (b, s') \<Longrightarrow> suffix s buf \<Longrightarrow> suffix s' buf"
  by (auto simp: peek_def Let_def suffix_skip_ws)

lemma scan_token_suffix: "scan_token q = (t, e) \<Longrightarrow> suffix e q"
  by (auto simp: scan_token_def suffix_dropWhile suffix_ConsI suffix_tl split: list.splits if_splits
      intro: suffix_order.trans [OF suffix_tl])

lemma gettoken_suffix:
  assumes "gettoken s = (t, q, e, s')" "suffix s buf"
  shows "suffix q buf" "suffix e buf" "suffix s' buf"
proof -
  have g: "q = skip_ws s" "scan_token q = (t, e)" "s' = skip_ws e" using assms(1) by (auto simp: gettoken_def Let_def split: prod.splits)
  show q: "suffix q buf" using g(1) assms(2) by (simp add: suffix_skip_ws)
  show e: "suffix e buf" using scan_token_suffix [OF g(2)] q by (rule suffix_order.trans)
  show "suffix s' buf" using g(3) e by (simp add: suffix_skip_ws)
qed

lemma gettoken_word:
  assumes "gettoken s = (chr CHR ''a'', q, e, s')" "suffix s buf"
  shows "ptr_ok buf (q, e)"
proof -
  have g: "q = skip_ws s" "scan_token q = (chr CHR ''a'', e)" using assms(1) by (auto simp: gettoken_def Let_def split: prod.splits)
  then have e: "e = dropWhile word_char q" by (auto simp: scan_token_def lit_def split: list.splits if_splits)
  have "q = takeWhile word_char q @ e" unfolding e by simp
  moreover have "\<forall>c \<in> set (takeWhile word_char q). word_char c" using set_takeWhileD by fast
  moreover have "e = [] \<or> \<not> word_char (hd e)" unfolding e using hd_dropWhile by blast
  ultimately show ?thesis using gettoken_suffix(1) [OF assms] by (auto simp: ptr_ok_def)
qed

lemma add_arg_ok: "cmd_ok buf c \<Longrightarrow> ptr_ok buf a \<Longrightarrow> cmd_ok buf (add_arg a c)"
  by (induction a c rule: add_arg.induct) auto

lemma parseredirs_ok:
  "parseredirs c s = Inr (c', s') \<Longrightarrow> cmd_ok buf c \<Longrightarrow> suffix s buf \<Longrightarrow> cmd_ok buf c' \<and> suffix s' buf"
proof (induction c s rule: parseredirs.induct)
  case (1 c s)
  obtain b s1 where p: "peek s (lit ''<>'') = (b, s1)" by fastforce
  obtain tok q2 e2 s2 where g: "gettoken s1 = (tok, q2, e2, s2)" by (cases "gettoken s1") auto
  obtain t q e s3 where g2: "gettoken s2 = (t, q, e, s3)" by (cases "gettoken s2") auto
  note s1 = suffix_peek [OF p 1(4)]
  note s2 = gettoken_suffix(3) [OF g s1]
  show ?case
  proof (cases "b \<and> t = chr CHR ''a''")
    case True
    then have r: "parseredirs (redir_of tok c q e) s3 = Inr (c', s')"
      using 1(2) p g g2 by (subst (asm) parseredirs.simps) simp
    have "ptr_ok buf (q, e)" using gettoken_word g2 s2 True by simp
    then have "cmd_ok buf (redir_of tok c q e)" using 1(3) by (simp add: redir_of_def)
    then show ?thesis using 1(1) [OF p [symmetric] refl _ g [symmetric] refl refl refl g2 [symmetric] refl refl refl _ r] True gettoken_suffix(3) [OF g2 s2] by simp
  next
    case False
    then show ?thesis using 1(2,3) p g g2 s1 by (subst (asm) parseredirs.simps) (auto split: if_splits)
  qed
qed

lemma parse_args_ok:
  "parse_args k c s = Inr (c', s') \<Longrightarrow> cmd_ok buf c \<Longrightarrow> suffix s buf \<Longrightarrow> cmd_ok buf c' \<and> suffix s' buf"
proof (induction k c s rule: parse_args.induct)
  case (1 k c s)
  obtain b s1 where p: "peek s (lit ''|)&;'') = (b, s1)" by fastforce
  obtain t q e s2 where g: "gettoken s1 = (t, q, e, s2)" by (cases "gettoken s1") auto
  note s1 = suffix_peek [OF p 1(4)]
  note s2 = gettoken_suffix(3) [OF g s1]
  show ?case
  proof (cases "\<not> b \<and> t = chr CHR ''a'' \<and> k + 1 < MAXARGS")
    case True
    then obtain c2 s3 where r: "parseredirs (add_arg (q, e) c) s2 = Inr (c2, s3)" "parse_args (k + 1) c2 s3 = Inr (c', s')"
      using 1(2) p g by (subst (asm) parse_args.simps) (auto split: sum.splits)
    have "ptr_ok buf (q, e)" using gettoken_word g s1 True by simp
    then have "cmd_ok buf c2 \<and> suffix s3 buf" using parseredirs_ok [OF r(1)] add_arg_ok 1(3) s2 by blast
    then show ?thesis using 1(1) [OF p [symmetric] refl _ g [symmetric] refl refl refl _ _ _ r(1) refl r(2)] True by simp
  next
    case False
    then show ?thesis using 1(2,3) p g s1 s2 by (subst (asm) parse_args.simps) (auto split: if_splits)
  qed
qed

lemma parse_back_ok: "cmd_ok buf c \<Longrightarrow> suffix s buf \<Longrightarrow> cmd_ok buf (fst (parse_back c s)) \<and> suffix (snd (parse_back c s)) buf"
proof (induction c s rule: parse_back.induct)
  case (1 c s)
  obtain b s1 where p: "peek s (lit ''&'') = (b, s1)" by fastforce
  obtain t q e s2 where g: "gettoken s1 = (t, q, e, s2)" by (cases "gettoken s1") auto
  note s1 = suffix_peek [OF p 1(3)]
  show ?case
    using 1(1) [OF p [symmetric] refl _ g [symmetric] refl refl refl] 1(2) gettoken_suffix(3) [OF g s1] p g s1
    by (subst (1 2) parse_back.simps) auto
qed

lemma suffix_after: "suffix s buf \<Longrightarrow> suffix (after_peek toks s) buf" "suffix s buf \<Longrightarrow> suffix (after_token s) buf"
  using suffix_peek [of s toks "fst (peek s toks)" "snd (peek s toks)" buf]
    gettoken_suffix(3) [of s "fst (gettoken s)" "fst (snd (gettoken s))" "fst (snd (snd (gettoken s)))" "after_token s" buf]
  by simp_all

definition gives_ok :: "byte list \<Rightarrow> (byte list \<Rightarrow> pcmd parse option) \<Rightarrow> bool" where
  "gives_ok buf f \<longleftrightarrow> (\<forall>s c s'. suffix s buf \<longrightarrow> f s = Some (Inr (c, s')) \<longrightarrow> cmd_ok buf c \<and> suffix s' buf)"

lemma gives_okD: "gives_ok buf f \<Longrightarrow> f s = Some (Inr (c, s')) \<Longrightarrow> suffix s buf \<Longrightarrow> cmd_ok buf c \<and> suffix s' buf"
  by (simp add: gives_ok_def)

lemma parse_ok:
  "gives_ok buf (parseline n) \<and> gives_ok buf (parsepipe n) \<and> gives_ok buf (parseexec n) \<and> gives_ok buf (parseblock n)"
proof (induction n)
  case (Suc n)
  then have ih: "gives_ok buf (parseline n)" "gives_ok buf (parsepipe n)" "gives_ok buf (parseexec n)" "gives_ok buf (parseblock n)"
    by auto
  note sa = suffix_after
  have "cmd_ok buf c \<and> suffix s' buf" if r: "parseline (Suc n) s = Some (Inr (c, s'))" and s: "suffix s buf" for s c s'
  proof -
    obtain c1 s1 where s1: "parsepipe n s = Some (Inr (c1, s1))" using r by (auto simp: parse_unfold)
    have "cmd_ok buf (fst (parse_back c1 s1)) \<and> suffix (snd (parse_back c1 s1)) buf"
      using gives_okD [OF ih(2) s1 s] by (intro parse_back_ok) auto
    then show ?thesis using r s1 sa gives_okD [OF ih(1)] by (auto simp: parse_unfold split: if_splits)
  qed
  moreover have "cmd_ok buf c \<and> suffix s' buf" if r: "parsepipe (Suc n) s = Some (Inr (c, s'))" and s: "suffix s buf" for s c s'
  proof -
    obtain c1 s1 where s1: "parseexec n s = Some (Inr (c1, s1))" using r by (auto simp: parse_unfold)
    then show ?thesis using r sa gives_okD [OF ih(3) s1 s] gives_okD [OF ih(2)] by (auto simp: parse_unfold split: if_splits)
  qed
  moreover have "cmd_ok buf c \<and> suffix s' buf" if r: "parseexec (Suc n) s = Some (Inr (c, s'))" and s: "suffix s buf" for s c s'
    using r sa [OF s] gives_okD [OF ih(4)] parseredirs_ok [of "EXEC []", where buf = buf] parse_args_ok
    by (auto simp: parse_unfold split: if_splits)
  moreover have "cmd_ok buf c \<and> suffix s' buf" if r: "parseblock (Suc n) s = Some (Inr (c, s'))" and s: "suffix s buf" for s c s'
  proof -
    obtain c3 s3 where a: "parseline n (after_token (after_peek (lit ''('') s)) = Some (Inr (c3, s3))"
      "parseredirs c3 (after_token (after_peek (lit '')'') s3)) = Inr (c, s')"
      using r by (auto simp: parse_unfold split: if_splits)
    show ?thesis using parseredirs_ok [OF a(2)] gives_okD [OF ih(1) a(1)] sa s by blast
  qed
  ultimately show ?case by (auto simp: gives_ok_def)
qed (simp add: gives_ok_def)

section \<open>Strings\<close>

definition word_of :: "byte list \<times> byte list \<Rightarrow> byte list" where
  "word_of p = take (length (fst p) - length (snd p)) (fst p)"

text \<open>Where \<^verbatim>\<open>nulterminate\<close> writes.\<close>

definition nul_at :: "byte list \<Rightarrow> pcmd \<Rightarrow> nat set" where
  "nul_at buf c = {length buf - length e | q e. (q, e) \<in> set_cmd c \<and> e \<noteq> []}"

lemma length_put_nul [simp]: "length (put_nul e buf) = length buf"
  by (simp add: put_nul_def)

lemma length_fold_put_nul: "length (fold (\<lambda>(q, e). put_nul e) as buf) = length buf"
  by (induction as arbitrary: buf) auto

lemma length_nulterminate [simp]: "length (nulterminate c buf) = length buf"
  by (induction c buf rule: nulterminate.induct) (auto simp: length_fold_put_nul)

lemma nth_put_nul: "i < length buf \<Longrightarrow> put_nul e buf ! i = (if e \<noteq> [] \<and> i = length buf - length e then 0 else buf ! i)"
  by (auto simp: put_nul_def nth_list_update)

lemma nth_fold_put_nul:
  "i < length buf \<Longrightarrow>
   fold (\<lambda>(q, e). put_nul e) as buf ! i = (if \<exists>(q, e) \<in> set as. e \<noteq> [] \<and> i = length buf - length e then 0 else buf ! i)"
  by (induction as arbitrary: buf) (auto simp: nth_put_nul split: if_splits)

lemma nth_nulterminate: "i < length buf \<Longrightarrow> nulterminate c buf ! i = (if i \<in> nul_at buf c then 0 else buf ! i)"
proof (induction c buf rule: nulterminate.induct)
  case (1 as buf)
  then show ?case by (auto simp: nth_fold_put_nul nul_at_def)
qed (auto simp: nth_put_nul nul_at_def)

lemma string_at_word:
  assumes ok: "cmd_ok buf c" and p: "p \<in> set_cmd c" and z: "0 \<notin> set buf"
  shows "string_at (nulterminate c buf) p = word_of p"
proof -
  obtain q e where qe: "p = (q, e)" by fastforce
  have "ptr_ok buf p" using ok p by (simp add: cmd_ok_def)
  then obtain w where w: "q = w @ e" "\<forall>c \<in> set w. word_char c" "suffix q buf" "e = [] \<or> \<not> word_char (hd e)"
    unfolding qe by (auto simp: ptr_ok_def)
  then obtain pre where buf: "buf = pre @ w @ e" by (auto simp: suffix_def)
  let ?b = "nulterminate c buf"
  have keep: "?b ! (length pre + i) = w ! i" if i: "i < length w" for i
  proof -
    have "length pre + i \<notin> nul_at buf c"
    proof
      assume "length pre + i \<in> nul_at buf c"
      then obtain q' e' where e': "length pre + i = length buf - length e'" "(q', e') \<in> set_cmd c" "e' \<noteq> []"
        by (auto simp: nul_at_def)
      have "ptr_ok buf (q', e')" using ok e'(2) by (auto simp: cmd_ok_def)
      then obtain x where "buf = x @ e'" "\<not> word_char (hd e')" using e'(3) by (auto simp: ptr_ok_def suffix_def)
      then have "buf ! (length pre + i) = hd e'" using e'(1,3) by (simp add: nth_append hd_conv_nth)
      moreover have "buf ! (length pre + i) = w ! i" using i by (simp add: buf nth_append)
      ultimately show False using \<open>\<not> word_char (hd e')\<close> w(2) nth_mem [OF i] by metis
    qed
    then show ?thesis using i by (simp add: nth_nulterminate buf nth_append)
  qed
  have len: "length ?b = length pre + length w + length e" by (simp add: buf)
  have w0: "take (length w) (drop (length pre) ?b) = w" by (rule nth_equalityI) (use keep len in auto)
  have tail: "takeWhile (\<lambda>c. c \<noteq> 0) (drop (length pre + length w) ?b) = []"
  proof (cases e)
    case (Cons x y)
    have "length buf - length e \<in> nul_at buf c" using p qe Cons unfolding nul_at_def by blast
    moreover have "length buf - length e = length pre + length w" by (simp add: buf)
    ultimately have "?b ! (length pre + length w) = 0" using Cons by (simp add: nth_nulterminate buf)
    then show ?thesis using len Cons by (simp add: Cons_nth_drop_Suc [symmetric])
  qed (use len in simp)
  have "drop (length pre) ?b = w @ drop (length pre + length w) ?b"
    using append_take_drop_id [of "length w" "drop (length pre) ?b"] w0 by (simp add: add.commute)
  then have "takeWhile (\<lambda>c. c \<noteq> 0) (drop (length pre) ?b) = w"
    using z tail by (auto simp: buf takeWhile_append)
  moreover have "length buf - length q = length pre" by (simp add: buf w(1))
  ultimately show ?thesis by (simp add: string_at_def word_of_def qe w(1))
qed

lemma strings_of_parse:
  assumes "parseline n buf = Some (Inr (c, s))" "0 \<notin> set buf"
  shows "map_cmd (string_at (nulterminate c buf)) c = map_cmd word_of c"
proof (rule cmd.map_cong [OF refl])
  fix p assume p: "p \<in> set_cmd c"
  have "cmd_ok buf c" using parse_ok [of buf n] gives_okD assms(1) suffix_order.refl by blast
  then show "string_at (nulterminate c buf) p = word_of p" using p assms(2) by (rule string_at_word)
qed

end
