(* ===== verification/Shell_Props.thy ===== *)
theory Shell_Props
  imports Shell_Words
begin

text \<open>
  The grammar of the shell: a printer for commands, with parentheses where the syntax needs them, and
  the proof that the parser gives back the command.
\<close>

section \<open>Printing\<close>

definition show_redir :: "byte list \<Rightarrow> int \<Rightarrow> byte list" where
  "show_redir f fd = (if fd = 0 then lit ''<'' else lit ''>'') @ f @ [32]"

definition show_words :: "byte list list \<Rightarrow> byte list" where
  "show_words ws = concat (map (\<lambda>w. w @ [32]) ws)"

definition paren :: "bool \<Rightarrow> byte list \<Rightarrow> byte list" where
  "paren b x = (if b then lit ''('' @ x @ lit '')'' else x)"

text \<open>The level: 0 for a line, 1 for a part of it before \<^verbatim>\<open>&\<close>, 2 for a pipeline, 3 for a part of that.\<close>

fun show_cmd :: "nat \<Rightarrow> byte list cmd \<Rightarrow> byte list" where
  "show_cmd k (EXEC ws) = show_words ws"
| "show_cmd k (REDIR c f m fd) = show_cmd 3 c @ show_redir f fd"
| "show_cmd k (PIPE l r) = paren (k > 2) (show_cmd 3 l @ lit ''|'' @ show_cmd 2 r)"
| "show_cmd k (BACK c) = paren (k > 1) (show_cmd 1 c @ lit ''&'')"
| "show_cmd k (LIST l r) = paren (k > 0) (show_cmd 1 l @ lit '';'' @ show_cmd 0 r)"

definition word_ok :: "byte list \<Rightarrow> bool" where
  "word_ok w \<longleftrightarrow> w \<noteq> [] \<and> (\<forall>c \<in> set w. word_char c \<and> c \<noteq> 0)"

text \<open>The commands that a line can stand for.\<close>

fun printable :: "byte list cmd \<Rightarrow> bool" where
  "printable (EXEC ws) \<longleftrightarrow> length ws < MAXARGS \<and> (\<forall>w \<in> set ws. word_ok w)"
| "printable (REDIR c f m fd) \<longleftrightarrow> printable c \<and> word_ok f \<and> (m = 0 \<and> fd = 0 \<or> m = 0x201 \<and> fd = 1)"
| "printable (PIPE l r) \<longleftrightarrow> printable l \<and> printable r"
| "printable (BACK c) \<longleftrightarrow> printable c"
| "printable (LIST l r) \<longleftrightarrow> printable l \<and> printable r"

section \<open>Tokens of a printed line\<close>

lemma skip_ws_Cons: "skip_ws (c # s) = (if c \<in> set whitespace then skip_ws s else c # s)"
  by (simp add: skip_ws_def strchr_set del: not_None_eq)

lemma skip_ws_Nil [simp]: "skip_ws [] = []"
  by (simp add: skip_ws_def)

lemma symbol_not_ws: "c \<in> set symbols \<Longrightarrow> c \<notin> set whitespace"
  by (auto simp: symbols_def whitespace_def lit_def)

lemma word_char_iff: "word_char c \<longleftrightarrow> c \<notin> set whitespace \<and> c \<notin> set symbols"
  unfolding word_char_def using strchr_set by blast

lemma peek_eq: "peek s toks = (skip_ws s \<noteq> [] \<and> hd (skip_ws s) \<in> set toks, skip_ws s)"
  by (simp add: peek_def Let_def strchr_set del: not_None_eq)

lemma word_start:
  assumes "word_ok w"
  shows "skip_ws (w @ t) = w @ t" "set toks \<subseteq> set symbols \<Longrightarrow> peek (w @ t) toks = (False, w @ t)"
proof -
  obtain c w' where w: "w = c # w'" "word_char c" using assms by (cases w) (auto simp: word_ok_def)
  then show "skip_ws (w @ t) = w @ t" by (simp add: skip_ws_Cons word_char_iff)
  then show "set toks \<subseteq> set symbols \<Longrightarrow> peek (w @ t) toks = (False, w @ t)"
    using w by (auto simp: peek_eq word_char_iff)
qed

lemma gettoken_word_space:
  assumes "word_ok w"
  shows "gettoken (w @ 32 # t) = (chr CHR ''a'', w @ 32 # t, 32 # t, skip_ws t)"
proof -
  obtain c w' where w: "w = c # w'" "word_char c" "c \<noteq> 0" using assms by (cases w) (auto simp: word_ok_def)
  have "\<not> word_char 32" by (simp add: word_char_iff whitespace_def)
  then have "dropWhile word_char (w @ 32 # t) = 32 # t" using assms by (simp add: word_ok_def dropWhile_append2)
  moreover have "c \<notin> set (lit ''|();&<'')" "c \<noteq> chr CHR ''>''" using w(2) by (auto simp: word_char_iff symbols_def lit_def)
  ultimately have "scan_token (w @ 32 # t) = (chr CHR ''a'', 32 # t)" using w by (simp add: scan_token_def)
  moreover have "skip_ws (32 # t) = skip_ws t" by (simp add: skip_ws_Cons whitespace_def)
  ultimately show ?thesis using word_start(1) [OF assms] by (simp add: gettoken_def)
qed

lemma gettoken_sym:
  assumes "c \<in> set (lit ''|();&<'')"
  shows "gettoken (c # t) = (c, c # t, t, skip_ws t)"
proof -
  have "c \<noteq> 0" "c \<notin> set whitespace" using assms by (auto simp: lit_def whitespace_def)
  then show ?thesis using assms by (simp add: gettoken_def scan_token_def skip_ws_Cons)
qed

text \<open>What follows may be any blanks and then a token that ends the level.\<close>

definition at :: "string \<Rightarrow> byte list \<Rightarrow> bool" where
  "at toks s \<longleftrightarrow> skip_ws s = [] \<or> hd (skip_ws s) \<in> set (lit toks)"

lemma parseredirs_skip: "parseredirs c (skip_ws s) = parseredirs c s"
  by (subst (1 2) parseredirs.simps) (simp add: peek_eq)

lemma parse_args_skip: "parse_args k c (skip_ws s) = parse_args k c s"
  by (subst (1 2) parse_args.simps) (simp add: peek_eq)

lemma parse_back_skip: "parse_back c (skip_ws s) = parse_back c s"
  by (subst (1 2) parse_back.simps) (simp add: peek_eq)

lemma parseredirs_stop: "at ''|)&;'' s \<Longrightarrow> parseredirs c s = Inr (c, skip_ws s)"
  by (subst parseredirs.simps) (auto simp: peek_eq at_def lit_def)

lemma parseredirs_word: "word_ok w \<Longrightarrow> parseredirs c (w @ t) = Inr (c, w @ t)"
  using word_start(2) [of w "lit ''<>''" t] by (subst parseredirs.simps) (simp add: symbols_def lit_def)

lemma parse_args_stop: "at ''|)&;'' s \<Longrightarrow> parse_args k c s = Inr (c, skip_ws s)"
proof (cases "skip_ws s")
  case Nil
  then show ?thesis by (subst parse_args.simps) (simp add: peek_eq gettoken_def scan_token_def)
next
  case (Cons a x)
  assume "at ''|)&;'' s"
  then show ?thesis using Cons by (subst parse_args.simps) (simp add: peek_eq at_def)
qed

lemma parse_args_word:
  assumes "word_ok w" "k + 1 < MAXARGS"
  shows "parse_args k c (w @ 32 # t) =
    (case parseredirs (add_arg (w @ 32 # t, 32 # t) c) t of Inl m \<Rightarrow> Inl m | Inr (c, s) \<Rightarrow> parse_args (k + 1) c s)"
  using word_start(2) [OF assms(1), of "lit ''|)&;''" "32 # t"] gettoken_word_space [OF assms(1), of t] assms(2)
  by (subst parse_args.simps) (simp add: symbols_def lit_def parseredirs_skip)

section \<open>The levels of the grammar\<close>

text \<open>
  \<open>x\<close> is a text for the command \<open>c\<close>: the parser for the level, on \<open>x\<close> and what may follow it, gives \<open>c\<close>. The
  parser for the innermost level goes on with redirections, the one before \<^verbatim>\<open>&\<close> with more of these.
\<close>

definition is_exec :: "byte list \<Rightarrow> byte list cmd \<Rightarrow> bool" where
  "is_exec x c \<longleftrightarrow> (\<forall>t. \<exists>c'. map_cmd word_of c' = c \<and>
     (\<forall>d s. parseredirs c' t = Inr (d, s) \<longrightarrow> at ''|)&;'' s \<longrightarrow> (\<exists>n. parseexec n (x @ t) = Some (Inr (d, skip_ws s)))))"

definition is_pipe :: "byte list \<Rightarrow> byte list cmd \<Rightarrow> bool" where
  "is_pipe x c \<longleftrightarrow> (\<forall>t. at '')&;'' t \<longrightarrow> (\<exists>c' n. map_cmd word_of c' = c \<and> parsepipe n (x @ t) = Some (Inr (c', skip_ws t))))"

definition is_back :: "byte list \<Rightarrow> byte list cmd \<Rightarrow> bool" where
  "is_back x c \<longleftrightarrow> (\<forall>t. at '')&;'' t \<longrightarrow> (\<exists>c' d s n. map_cmd word_of c' = c \<and>
     parsepipe n (x @ t) = Some (Inr (d, s)) \<and> parse_back d s = parse_back c' t))"

definition is_line :: "byte list \<Rightarrow> byte list cmd \<Rightarrow> bool" where
  "is_line x c \<longleftrightarrow> (\<forall>t. at '')'' t \<longrightarrow> (\<exists>c' n. map_cmd word_of c' = c \<and> parseline n (x @ t) = Some (Inr (c', skip_ws t))))"

lemma at_skip [simp]: "at toks (skip_ws s) = at toks s"
  by (simp add: at_def)

lemma at_mono: "at a s \<Longrightarrow> set a \<subseteq> set b \<Longrightarrow> at b s"
  by (auto simp: at_def lit_def)

lemma at_Cons: "chr c \<in> set (lit toks) \<Longrightarrow> chr c \<notin> set whitespace \<Longrightarrow> at toks (lit [c] @ t)"
  by (simp add: at_def skip_ws_Cons lit_def)

lemma exec_pipe: "is_exec x c \<Longrightarrow> is_pipe x c"
  unfolding is_pipe_def
proof (intro allI impI)
  fix t assume x: "is_exec x c" and t: "at '')&;'' t"
  have t3: "at ''|)&;'' t" by (rule at_mono [OF t]) auto
  from x obtain c' where c: "map_cmd word_of c' = c" "\<And>d s. parseredirs c' t = Inr (d, s) \<Longrightarrow> at ''|)&;'' s \<Longrightarrow> (\<exists>n. parseexec n (x @ t) = Some (Inr (d, skip_ws s)))"
    unfolding is_exec_def by blast
  obtain n where "parseexec n (x @ t) = Some (Inr (c', skip_ws t))" using c(2) [OF parseredirs_stop [OF t3]] t3 by auto
  moreover have "\<not> (skip_ws t \<noteq> [] \<and> hd (skip_ws t) \<in> set (lit ''|''))" using t by (auto simp: at_def lit_def)
  ultimately have "parsepipe (Suc n) (x @ t) = Some (Inr (c', skip_ws t))" by (auto simp: peek_eq)
  then show "\<exists>c' n. map_cmd word_of c' = c \<and> parsepipe n (x @ t) = Some (Inr (c', skip_ws t))" using c(1) by blast
qed

lemma pipe_back: "is_pipe x c \<Longrightarrow> is_back x c"
  unfolding is_pipe_def is_back_def by (metis parse_back_skip)

lemma parse_back_stop: "at '');'' s \<Longrightarrow> parse_back c s = (c, skip_ws s)"
  by (subst parse_back.simps) (auto simp: peek_eq at_def lit_def)

lemma back_line: "is_back x c \<Longrightarrow> is_line x c"
  unfolding is_line_def
proof (intro allI impI)
  fix t assume x: "is_back x c" and t: "at '')'' t"
  have t1: "at '')&;'' t" "at '');'' t" by (rule at_mono [OF t], simp)+
  from x t1(1) obtain c' d s n where c: "map_cmd word_of c' = c" "parsepipe n (x @ t) = Some (Inr (d, s))" "parse_back d s = parse_back c' t"
    unfolding is_back_def by blast
  have "\<not> (skip_ws t \<noteq> [] \<and> hd (skip_ws t) \<in> set (lit '';''))" using t by (auto simp: at_def lit_def)
  then have "parseline (Suc n) (x @ t) = Some (Inr (c', skip_ws t))"
    using c(2,3) parse_back_stop [OF t1(2)] by (auto simp: peek_eq)
  then show "\<exists>c' n. map_cmd word_of c' = c \<and> parseline n (x @ t) = Some (Inr (c', skip_ws t))" using c(1) by blast
qed

lemma parse_skip:
  "parseexec n (skip_ws s) = parseexec n s" "parsepipe n (skip_ws s) = parsepipe n s" "parseline n (skip_ws s) = parseline n s"
proof -
  have e: "parseexec n (skip_ws s) = parseexec n s" for n by (cases n) (simp_all add: peek_eq)
  have p: "parsepipe n (skip_ws s) = parsepipe n s" for n by (cases n) (simp_all add: e)
  show "parseexec n (skip_ws s) = parseexec n s" "parsepipe n (skip_ws s) = parsepipe n s" "parseline n (skip_ws s) = parseline n s"
    using e p by (cases n; simp)+
qed

lemma parseredirs_skipped: "parseredirs c s = Inr (d, s') \<Longrightarrow> skip_ws s' = s'"
proof (induction c s rule: parseredirs.induct)
  case (1 c s)
  obtain tok q2 e2 s2 where g: "gettoken (skip_ws s) = (tok, q2, e2, s2)" by (cases "gettoken (skip_ws s)") auto
  obtain t q e s3 where g2: "gettoken s2 = (t, q, e, s3)" by (cases "gettoken s2") auto
  note p = peek_eq [of s "lit ''<>''"]
  show ?case using 1(2) 1(1) [OF refl p [symmetric] _ g [symmetric] refl refl refl g2 [symmetric] refl refl refl] g g2
    by (subst (asm) parseredirs.simps) (auto simp: peek_eq split: if_splits)
qed

lemma line_exec:
  assumes "is_line x c"
  shows "is_exec (lit ''('' @ x @ lit '')'') c"
  unfolding is_exec_def
proof (intro allI)
  fix t
  let ?t = "lit '')'' @ t"
  have "at '')'' ?t" by (rule at_Cons) (simp_all add: lit_def whitespace_def)
  then obtain c' n where c: "map_cmd word_of c' = c" "parseline n (x @ ?t) = Some (Inr (c', skip_ws ?t))"
    using assms unfolding is_line_def by blast
  have sk: "skip_ws (chr CHR '')'' # t) = chr CHR '')'' # t" "skip_ws (chr CHR ''('' # r) = chr CHR ''('' # r" for r
    by (simp_all add: skip_ws_Cons whitespace_def)
  have g: "gettoken (chr CHR '')'' # t) = (chr CHR '')'', chr CHR '')'' # t, t, skip_ws t)"
    "gettoken (chr CHR ''('' # r) = (chr CHR ''('', chr CHR ''('' # r, r, skip_ws r)" for r
    by (rule gettoken_sym, simp add: lit_def)+
  have "parseexec (Suc (Suc n)) ((lit ''('' @ x @ lit '')'') @ t) = Some (parseredirs c' t)"
    using c(2) sk g by (simp add: peek_eq lit_def parse_skip parseredirs_skip)
  then show "\<exists>c'. map_cmd word_of c' = c \<and> (\<forall>d s. parseredirs c' t = Inr (d, s) \<longrightarrow> at ''|)&;'' s \<longrightarrow>
      (\<exists>n. parseexec n ((lit ''('' @ x @ lit '')'') @ t) = Some (Inr (d, skip_ws s))))"
    using c(1) parseredirs_skipped [of c' t] by metis
qed

text \<open>The pointers to the words of a command.\<close>

fun ptrs :: "byte list list \<Rightarrow> byte list \<Rightarrow> (byte list \<times> byte list) list" where
  "ptrs [] t = []"
| "ptrs (w # ws) t = (w @ 32 # show_words ws @ t, 32 # show_words ws @ t) # ptrs ws t"

lemma words_of_ptrs: "map word_of (ptrs ws t) = ws"
  by (induction ws) (simp_all add: word_of_def)

lemma args_words:
  assumes "\<forall>w \<in> set ws. word_ok w" "length as + length ws < MAXARGS"
    "parseredirs (EXEC (as @ ptrs ws t)) t = Inr (d, s)" "at ''|)&;'' s"
  shows "\<exists>c s1. parseredirs (EXEC as) (show_words ws @ t) = Inr (c, s1) \<and> parse_args (length as) c s1 = Inr (d, skip_ws s)"
  using assms
proof (induction ws arbitrary: as)
  case Nil
  then show ?case using parse_args_stop by (simp add: show_words_def)
next
  case (Cons w ws)
  let ?r = "show_words ws @ t"
  have w: "word_ok w" using Cons.prems(1) by simp
  obtain c s1 where c: "parseredirs (EXEC (as @ [(w @ 32 # ?r, 32 # ?r)])) ?r = Inr (c, s1)"
    "parse_args (length (as @ [(w @ 32 # ?r, 32 # ?r)])) c s1 = Inr (d, skip_ws s)"
    using Cons.IH [of "as @ [(w @ 32 # ?r, 32 # ?r)]"] Cons.prems by auto
  have "parse_args (length as) (EXEC as) (w @ 32 # ?r) = Inr (d, skip_ws s)"
    using parse_args_word [OF w, of "length as" "EXEC as" ?r] Cons.prems(2) c by simp
  moreover have "parseredirs (EXEC as) (w @ 32 # ?r) = Inr (EXEC as, w @ 32 # ?r)" by (rule parseredirs_word [OF w])
  moreover have "show_words (w # ws) @ t = w @ 32 # ?r" by (simp add: show_words_def)
  ultimately show ?case by simp
qed

lemma words_exec:
  assumes "printable (EXEC ws)"
  shows "is_exec (show_words ws) (EXEC ws)"
proof -
  have "\<exists>n. parseexec n (show_words ws @ t) = Some (Inr (d, skip_ws s))"
    if r: "parseredirs (EXEC (ptrs ws t)) t = Inr (d, s)" and s: "at ''|)&;'' s" for t d s
  proof -
    have "\<exists>c s1. parseredirs (EXEC []) (show_words ws @ t) = Inr (c, s1) \<and> parse_args (length ([] :: (byte list \<times> byte list) list)) c s1 = Inr (d, skip_ws s)"
      by (rule args_words) (use assms r s in simp_all)
    then obtain c s1 where c: "parseredirs (EXEC []) (show_words ws @ t) = Inr (c, s1)" "parse_args 0 c s1 = Inr (d, skip_ws s)" by auto
    have "fst (peek (show_words ws @ t) (lit ''('')) = False"
    proof (cases ws)
      case Nil
      show ?thesis
      proof (rule ccontr)
        assume "fst (peek (show_words ws @ t) (lit ''('')) \<noteq> False"
        then have h: "skip_ws t \<noteq> []" "hd (skip_ws t) = chr CHR ''(''" using Nil by (auto simp: peek_eq show_words_def lit_def)
        then have "parseredirs (EXEC (ptrs ws t)) t = Inr (EXEC (ptrs ws t), skip_ws t)"
          by (subst parseredirs.simps) (simp add: peek_eq lit_def)
        then show False using r s h by (auto simp: at_def lit_def)
      qed
    next
      case (Cons w ws')
      then show ?thesis using word_start(2) [of w "lit ''(''"] assms by (simp add: show_words_def symbols_def lit_def)
    qed
    then have "parseexec 1 (show_words ws @ t) = Some (Inr (d, skip_ws s))"
      using c by (simp add: peek_eq parseredirs_skip)
    then show ?thesis by blast
  qed
  then have "map_cmd word_of (EXEC (ptrs ws t)) = EXEC ws \<and> (\<forall>d s. parseredirs (EXEC (ptrs ws t)) t = Inr (d, s) \<longrightarrow>
      at ''|)&;'' s \<longrightarrow> (\<exists>n. parseexec n (show_words ws @ t) = Some (Inr (d, skip_ws s))))" for t
    by (simp add: words_of_ptrs)
  then show ?thesis unfolding is_exec_def by blast
qed

lemma redir_exec:
  assumes x: "is_exec x c" and f: "word_ok f" and m: "m = 0 \<and> fd = 0 \<or> m = 0x201 \<and> fd = 1"
  shows "is_exec (x @ show_redir f fd) (REDIR c f m fd)"
  unfolding is_exec_def
proof (intro allI)
  fix t
  let ?t = "show_redir f fd @ t"
  let ?c = "if fd = 0 then chr CHR ''<'' else chr CHR ''>''"
  obtain c' where c: "map_cmd word_of c' = c"
    "\<And>d s. parseredirs c' ?t = Inr (d, s) \<Longrightarrow> at ''|)&;'' s \<Longrightarrow> \<exists>n. parseexec n (x @ ?t) = Some (Inr (d, skip_ws s))"
    using x unfolding is_exec_def by blast
  have t: "?t = ?c # f @ 32 # t" by (simp add: show_redir_def lit_def)
  obtain a f' where a: "f = a # f'" "word_char a" using f by (cases f) (auto simp: word_ok_def)
  have "gettoken (?c # f @ 32 # t) = (?c, ?c # f @ 32 # t, f @ 32 # t, f @ 32 # t)"
    using word_start(1) [OF f, of "32 # t"] a
    by (auto simp: gettoken_def scan_token_def skip_ws_Cons whitespace_def lit_def word_char_iff symbols_def)
  then have "parseredirs c' (?c # f @ 32 # t) = parseredirs (REDIR c' (f @ 32 # t, 32 # t) m fd) t"
    using gettoken_word_space [OF f, of t] m
    by (subst parseredirs.simps)
      (auto simp: peek_eq skip_ws_Cons whitespace_def lit_def redir_of_def parseredirs_skip)
  moreover have "map_cmd word_of (REDIR c' (f @ 32 # t, 32 # t) m fd) = REDIR c f m fd" using c(1) by (simp add: word_of_def)
  ultimately show "\<exists>c'. map_cmd word_of c' = REDIR c f m fd \<and> (\<forall>d s. parseredirs c' t = Inr (d, s) \<longrightarrow> at ''|)&;'' s \<longrightarrow>
      (\<exists>n. parseexec n ((x @ show_redir f fd) @ t) = Some (Inr (d, skip_ws s))))"
    using c(2) unfolding t by (intro exI [of _ "REDIR c' (f @ 32 # t, 32 # t) m fd"]) (simp add: t)
qed

lemma sym_step:
  assumes "chr a \<in> set (lit ''|();&<'')"
  shows "skip_ws (chr a # t) = chr a # t" "peek (chr a # t) (lit [a]) = (True, chr a # t)"
    "gettoken (chr a # t) = (chr a, chr a # t, t, skip_ws t)"
proof -
  show s: "skip_ws (chr a # t) = chr a # t" using assms by (auto simp: skip_ws_Cons whitespace_def lit_def)
  show "peek (chr a # t) (lit [a]) = (True, chr a # t)" using s by (simp add: peek_eq lit_def)
  show "gettoken (chr a # t) = (chr a, chr a # t, t, skip_ws t)" by (rule gettoken_sym [OF assms])
qed

lemma pipe_pipe:
  assumes x: "is_exec x l" and y: "is_pipe y r"
  shows "is_pipe (x @ lit ''|'' @ y) (PIPE l r)"
  unfolding is_pipe_def
proof (intro allI impI)
  fix t assume t: "at '')&;'' t"
  let ?t = "chr CHR ''|'' # y @ t"
  note sy = sym_step [of "CHR ''|''" "y @ t"]
  have a: "at ''|)&;'' ?t" using sy(1) by (simp add: at_def lit_def)
  obtain c' where c: "map_cmd word_of c' = l"
    "\<And>d s. parseredirs c' ?t = Inr (d, s) \<Longrightarrow> at ''|)&;'' s \<Longrightarrow> \<exists>n. parseexec n (x @ ?t) = Some (Inr (d, skip_ws s))"
    using x unfolding is_exec_def by blast
  obtain n where n: "parseexec n (x @ ?t) = Some (Inr (c', ?t))" using c(2) [OF parseredirs_stop [OF a]] a sy(1) by (auto simp: lit_def)
  obtain d k where d: "map_cmd word_of d = r" "parsepipe k (y @ t) = Some (Inr (d, skip_ws t))"
    using y t unfolding is_pipe_def by blast
  have "parsepipe (Suc (n + k)) (x @ ?t) = Some (Inr (PIPE c' d, skip_ws t))"
    using parse_more(3) [OF n, of k] parse_more(2) [OF d(2), of n] sy by (simp add: lit_def parse_skip add.commute)
  then show "\<exists>c' n. map_cmd word_of c' = PIPE l r \<and> parsepipe n ((x @ lit ''|'' @ y) @ t) = Some (Inr (c', skip_ws t))"
    using c(1) d(1) by (intro exI [of _ "PIPE c' d"] exI [of _ "Suc (n + k)"]) (simp add: lit_def)
qed

lemma back_back:
  assumes x: "is_back x c"
  shows "is_back (x @ lit ''&'') (BACK c)"
  unfolding is_back_def
proof (intro allI impI)
  fix t assume t: "at '')&;'' t"
  let ?t = "chr CHR ''&'' # t"
  note sy = sym_step [of "CHR ''&''" t]
  have "at '')&;'' ?t" using sy(1) by (simp add: at_def lit_def)
  then obtain c' d s n where c: "map_cmd word_of c' = c" "parsepipe n (x @ ?t) = Some (Inr (d, s))" "parse_back d s = parse_back c' ?t"
    using x unfolding is_back_def by blast
  have "parse_back c' ?t = parse_back (BACK c') t"
    using sy by (subst parse_back.simps) (simp add: lit_def parse_back_skip)
  then show "\<exists>c' d s n. map_cmd word_of c' = BACK c \<and> parsepipe n ((x @ lit ''&'') @ t) = Some (Inr (d, s)) \<and> parse_back d s = parse_back c' t"
    using c by (intro exI [of _ "BACK c'"] exI [of _ d] exI [of _ s] exI [of _ n]) (simp add: lit_def)
qed

lemma list_line:
  assumes x: "is_back x l" and y: "is_line y r"
  shows "is_line (x @ lit '';'' @ y) (LIST l r)"
  unfolding is_line_def
proof (intro allI impI)
  fix t assume t: "at '')'' t"
  let ?t = "chr CHR '';'' # y @ t"
  note sy = sym_step [of "CHR '';''" "y @ t"]
  have a: "at '')&;'' ?t" "at '');'' ?t" using sy(1) by (simp_all add: at_def lit_def)
  then obtain c' d s n where c: "map_cmd word_of c' = l" "parsepipe n (x @ ?t) = Some (Inr (d, s))" "parse_back d s = parse_back c' ?t"
    using x unfolding is_back_def by blast
  obtain e k where e: "map_cmd word_of e = r" "parseline k (y @ t) = Some (Inr (e, skip_ws t))"
    using y t unfolding is_line_def by blast
  have "parseline (Suc (n + k)) (x @ ?t) = Some (Inr (LIST c' e, skip_ws t))"
    using parse_more(2) [OF c(2), of k] parse_more(1) [OF e(2), of n] sy c(3) parse_back_stop [OF a(2)]
    by (simp add: lit_def parse_skip add.commute)
  then show "\<exists>c' n. map_cmd word_of c' = LIST l r \<and> parseline n ((x @ lit '';'' @ y) @ t) = Some (Inr (c', skip_ws t))"
    using c(1) e(1) by (intro exI [of _ "LIST c' e"] exI [of _ "Suc (n + k)"]) (simp add: lit_def)
qed

text \<open>Every level.\<close>

lemma show_cmd_levels:
  "printable c \<Longrightarrow> is_exec (show_cmd 3 c) c \<and> is_pipe (show_cmd 2 c) c \<and> is_back (show_cmd 1 c) c \<and> is_line (show_cmd 0 c) c"
proof (induction c)
  case (EXEC ws)
  then show ?case using words_exec [of ws] exec_pipe pipe_back back_line by (simp del: printable.simps)
next
  case (REDIR c f m fd)
  then show ?case using redir_exec [of "show_cmd 3 c" c f m fd] exec_pipe pipe_back back_line by simp
next
  case (PIPE l r)
  then have p: "is_pipe (show_cmd 3 l @ lit ''|'' @ show_cmd 2 r) (PIPE l r)" by (intro pipe_pipe) auto
  then show ?case using p pipe_back [OF p] back_line [OF pipe_back [OF p]] line_exec [OF back_line [OF pipe_back [OF p]]] by (simp add: paren_def)
next
  case (LIST l r)
  then have p: "is_line (show_cmd 1 l @ lit '';'' @ show_cmd 0 r) (LIST l r)" by (intro list_line) auto
  note e = line_exec [OF p]
  show ?case using p e exec_pipe [OF e] pipe_back [OF exec_pipe [OF e]] by (simp add: paren_def)
next
  case (BACK c)
  then have p: "is_back (show_cmd 1 c @ lit ''&'') (BACK c)" by (intro back_back) auto
  note e = line_exec [OF back_line [OF p]]
  show ?case using p back_line [OF p] e exec_pipe [OF e] by (simp add: paren_def)
qed

lemma parse_any_depth:
  assumes "parseline n s = Some r"
  shows "parseline (depth_bound s) s = Some r"
proof -
  obtain r' where r: "parseline (depth_bound s) s = Some r'" using parse_enough [of "depth_bound s"] by (auto simp: depth_bound_def)
  have "parseline (n + depth_bound s) s = Some r" "parseline (depth_bound s + n) s = Some r'"
    using parse_more(1) assms r by blast+
  then show ?thesis using r by (simp add: add.commute)
qed

lemma zero_not_shown: "printable c \<Longrightarrow> 0 \<notin> set (show_cmd k c)"
  by (induction k c rule: show_cmd.induct) (auto simp: show_words_def show_redir_def paren_def word_ok_def lit_def)

section \<open>Properties\<close>

text \<open>
  C32: The parser reads back what the printer writes: every command with at most nine arguments to a
  program, with any nesting of lists, pipelines, background commands, redirections and parentheses,
  is parsed from its text to the same command, with its strings as \<^verbatim>\<open>nulterminate\<close> leaves them in the line.
\<close>

theorem parse_show: "printable c \<Longrightarrow> parsecmd (show_cmd 0 c) = Cmd c"
proof -
  assume p: "printable c"
  have "at '')'' []" by (simp add: at_def)
  then obtain c' n where c: "map_cmd word_of c' = c" "parseline n (show_cmd 0 c @ []) = Some (Inr (c', skip_ws []))"
    using show_cmd_levels [OF p] unfolding is_line_def by blast
  then have l: "parseline (depth_bound (show_cmd 0 c)) (show_cmd 0 c) = Some (Inr (c', []))" by (simp add: parse_any_depth)
  then show ?thesis using strings_of_parse [OF l zero_not_shown [OF p]] c(1) by (simp add: parsecmd_def peek_eq)
qed

definition demo_cmd :: "byte list cmd" where
  "demo_cmd = LIST (BACK (PIPE (REDIR (EXEC [lit ''a'', lit ''b'']) (lit ''f'') 0 0) (LIST (EXEC [lit ''c'']) (EXEC []))))
     (REDIR (BACK (EXEC [lit ''d''])) (lit ''g'') 0x201 1)"

theorem parse_show_witness:
  "parsecmd (lit ''a b <f |(c ;)&;(d &)>g '') = Cmd demo_cmd"
  using parse_show [of demo_cmd]
  by (simp add: demo_cmd_def show_words_def show_redir_def paren_def word_ok_def word_char_iff whitespace_def symbols_def lit_def)

text \<open>
  C38: The parser returns on every line. Its functions call each other to a depth of at most four
  times the length of the line and four, and all of its loops consume the line.
\<close>

theorem parsecmd_returns: "parsecmd s \<noteq> Deep"
proof -
  have "parseline (depth_bound s) s \<noteq> None" using parse_enough [of "depth_bound s"] by (auto simp: depth_bound_def)
  then show ?thesis by (auto simp: parsecmd_def Let_def split: option.splits sum.splits prod.splits)
qed

lemma printf_returns:
  "\<exists>w'. uprintf sys 2 ''exec %s failed\<newline>'' [PStr (Some a)] w = uret () w'"
  "\<exists>w'. uprintf sys 2 ''open %s failed\<newline>'' [PStr (Some a)] w = uret () w'"
  "\<exists>w'. uprintf sys 2 ''%s\<newline>'' [PStr (Some a)] w = uret () w'"
  by (simp_all add: uprintf_def lit_def uret_def)

definition ends_run :: "('r, 'w) u \<Rightarrow> bool" where
  "ends_run m \<longleftrightarrow> (\<exists>w. m = Some (Inl w))"

lemma ends_run_exit [simp]: "ends_run (uexit w)"
  by (simp add: ends_run_def uexit_def)

lemma ends_run_printf:
  "ends_run (ubnd (uprintf sys 2 ''exec %s failed\<newline>'' [PStr (Some a)] w) (\<lambda>_. uexit))"
  "ends_run (ubnd (uprintf sys 2 ''open %s failed\<newline>'' [PStr (Some a)] w) (\<lambda>_. uexit))"
  "ends_run (upanic sys a w)"
  using printf_returns [of sys a w] by (auto simp: upanic_def)

lemma ends_run_bnd: "ends_run m \<Longrightarrow> ends_run (ubnd m f)"
  by (auto simp: ends_run_def)

lemma ends_run_fork1: "(\<And>n w. ends_run (f n w)) \<Longrightarrow> ends_run (ubnd (fork1 sys w) f)"
  by (auto simp: fork1_def ends_run_bnd ends_run_printf(3) split: prod.splits)

lemma ends_run_child: "ends_run m \<Longrightarrow> (\<And>w. ends_run (f () w)) \<Longrightarrow> ends_run (ubnd (if b then m else uret () w) f)"
  by (simp add: ends_run_bnd)

text \<open>C39: \<^verbatim>\<open>runcmd\<close> never returns, whatever the system calls do: every path ends in \<^verbatim>\<open>exit\<close> or in the new program.\<close>

theorem runcmd_never_returns: "\<exists>w'. runcmd sys c w = Some (Inl w')"
proof -
  have "ends_run (runcmd sys c w)"
    by (induction c arbitrary: w)
      (auto intro!: ends_run_fork1 ends_run_child simp: ends_run_printf ends_run_bnd Let_def split: list.split option.split prod.split)
  then show ?thesis by (simp add: ends_run_def)
qed

end
