(* ===== verification/Tlb.thy ===== *)
theory Tlb
  imports Syscall_Args Vmcrypt_Props
begin

text \<open>
  Cached translations. The processor may keep the page table entry of a page that it has walked to, and go on
  using it when the entry in memory has changed, until \<^verbatim>\<open>cr3\<close> is loaded. The kernel loads it in \<^verbatim>\<open>switchuvm\<close>
  and \<^verbatim>\<open>switchkvm\<close> only, and has no global pages.
\<close>

section \<open>Accesses with cached translations\<close>

type_synonym tlb = "addr \<Rightarrow> 32 word option"

text \<open>The entry that a walk comes to.\<close>

definition walked :: "addr \<Rightarrow> 'a kvm_scheme \<Rightarrow> 32 word" where
  "walked va s = load32 (mem s) (P2V (PTE_ADDR (load32 (mem s) (P2V (PTE_ADDR (cr3 s)) + 4 * PDX va))) + 4 * PTX va)"

definition tload :: "hw_walk \<Rightarrow> tlb \<Rightarrow> addr \<Rightarrow> 'a kvm_scheme \<Rightarrow> (byte \<times> tlb \<times> 'a kvm_scheme) res" where
  "tload hw T va s =
     (case T (PGROUNDDOWN va) of
        Some e \<Rightarrow> if allows False e then Inr (mem s (P2V (PTE_ADDR e) + OFFSET va), T, s) else Inl (PageFault va)
      | None \<Rightarrow> bnd (vload hw va s) (\<lambda>(b, t). Inr (b, T(PGROUNDDOWN va \<mapsto> walked va s), t)))"

definition lcr3 :: "32 word \<Rightarrow> tlb \<times> 'a kvm_scheme \<Rightarrow> tlb \<times> 'a kvm_scheme" where
  "lcr3 v = (\<lambda>(T, s). (Map.empty, s\<lparr>cr3 := v\<rparr>))"

text \<open>\<^verbatim>\<open>switchuvm\<close> once more, with the cached translations.\<close>

definition tswitchuvm :: "nat option \<Rightarrow> tlb \<times> 'a kproc_scheme \<Rightarrow> (tlb \<times> 'a kproc_scheme) res" where
  "tswitchuvm p = (\<lambda>(T, s).
     case p of None \<Rightarrow> Inl (Panic ''switchuvm: no process'')
      | Some i \<Rightarrow>
        if kstack (ptable s ! i) = 0 then Inl (Panic ''switchuvm: no kstack'')
        else if pgdir (ptable s ! i) = 0 then Inl (Panic ''switchuvm: no pgdir'')
        else let s = s\<lparr>kcpu := pushcli (kcpu s)\<rparr> in
          bnd (mycpu s) (\<lambda>_.
            let s = s\<lparr>tss_esp0 := kstack (ptable s ! i) + KSTACKSIZE\<rparr>;
                (T, s) = lcr3 (V2P (pgdir (ptable s ! i))) (T, s)
            in bnd (popcli (kcpu s)) (\<lambda>c. Inr (T, s\<lparr>kcpu := c\<rparr>))))"

lemma tswitchuvm_switchuvm: "tswitchuvm p (T, s) = bnd (switchuvm p s) (\<lambda>t. Inr (Map.empty, t))"
  by (cases p) (simp_all add: tswitchuvm_def switchuvm_def lcr3_def Let_def bnd_assoc)

lemma tload_miss: "T (PGROUNDDOWN va) = None \<Longrightarrow> vload hw va s = Inl e \<Longrightarrow> tload hw T va s = Inl e"
  by (simp add: tload_def)

lemma walked_pte:
  assumes "runs s p pgd ps" "present (mem s) pgd (PDX va)"
  shows "walked va s = pte_at (mem s) pgd va"
proof -
  have "page_aligned pgd" using runsD(10) [OF assms(1)] by (rule pt_ok_aligned)
  then have "P2V (PTE_ADDR (cr3 s)) = pgd"
    using runsD(5) [OF assms(1)] by (simp add: PTE_ADDR_PGROUNDDOWN PGROUNDDOWN_aligned)
  then show ?thesis using assms(2) by (simp add: walked_def pte_at_def pte_addr_def tab_def)
qed

text \<open>A load through a translation that was cached before the page was encrypted.\<close>

lemma tload_stale:
  assumes rw: "page_rw m pgd va" and c: "crypts pgd va m (mem t)" and r: "runs s p pgd ps" "mem s = m"
    and vb: "PGROUNDDOWN vb = PGROUNDDOWN va" and T: "T (PGROUNDDOWN va) = Some (pte_at m pgd va)"
  shows "tload hw T vb t = Inr (m (frame m pgd va + OFFSET vb) XOR 0xFF, T, t)"
proof -
  let ?a = "frame m pgd va + OFFSET vb"
  have a: "allows False (pte_at m pgd va)" "P2V (PTE_ADDR (pte_at m pgd va)) = frame m pgd va"
    using rw by (auto simp: page_rw_def allows_def frame_def)
  have f: "PGROUNDDOWN ?a = frame m pgd va" by (rule PGROUNDDOWN_page) simp_all
  moreover have "frame m pgd va \<notin> pt_pages m pgd"
    using uvm_invD(4) [OF runsD(6) [OF r(1)]] page_rw_frame [OF rw] r(2) by auto
  ultimately have "mem t ?a = m ?a XOR 0xFF" using c by (simp add: crypts_def)
  then show ?thesis using a T vb by (simp add: tload_def)
qed

end
