(* ===== verification/Syscall_Props.thy ===== *)
theory Syscall_Props
  imports Tlb
begin

text \<open>
  System calls and user memory: what a kernel access to an encrypted page sees, with and without a cached
  translation, and that the pointers that \<^verbatim>\<open>argptr\<close> lets through lie within the process.
\<close>

section \<open>Kernel accesses\<close>

text \<open>A load from a page that is present.\<close>

lemma vload_page:
  assumes r: "runs s p pgd ps" and hw: "hw_ok hw" and rw: "page_rw (mem s) pgd va"
  obtains m where "vload hw va s = Inr (mem s (frame (mem s) pgd va + OFFSET va), s\<lparr>mem := m\<rparr>)" "runs (s\<lparr>mem := m\<rparr>) p pgd ps"
    "same_space pgd va (mem s) m" "ad_eq (pte_at (mem s) pgd va) (pte_at m pgd va)"
    "\<And>a. PGROUNDDOWN a \<notin> pt_pages (mem s) pgd \<Longrightarrow> m a = mem s a"
proof -
  note d = runsD [OF r]
  let ?a = "frame (mem s) pgd va + OFFSET va"
  let ?m = "store32 (mem s) (pte_addr (mem s) pgd va) (hw False (pte_at (mem s) pgd va))"
  have pr: "present (mem s) pgd (PDX va)" using rw by (simp add: page_rw_def)
  have nf: "PGROUNDDOWN ?a \<notin> pt_pages (mem s) pgd"
    using uvm_invD(4) [OF d(6)] page_rw_frame [OF rw] frame_offset [of "mem s" pgd va] by auto
  note t = touch_pte [OF d(6) pr refl ad_eq_bits(4) [OF hw_ad_eq [OF hw, of _ False]]]
  have "vload hw va s = Inr (mem s ?a, s\<lparr>mem := ?m\<rparr>)"
    using translate_ok [OF d(6,5) rw] t(4) [OF nf] by (simp add: vload_def)
  then show thesis using that [of ?m] runs_mem [OF r t(3)] t(1,2,4) hw_ad_eq [OF hw] by simp
qed


lemma page_rw_restored:
  assumes "same_space pgd va m m'" "ad_eq (pte_at m pgd va) (pte_at m' pgd va)" "page_rw m pgd va" "PGROUNDDOWN vb = PGROUNDDOWN va"
  shows "page_rw m' pgd vb" "frame m' pgd vb = frame m pgd va"
proof -
  show "page_rw m' pgd vb" using page_rw_same [OF assms(1,2)] page_rw_page [OF assms(4)] assms(3) by simp
  show "frame m' pgd vb = frame m pgd va" using pte_at_page [OF assms(4)] ad_eq_bits(1) [OF assms(2)] by (simp add: frame_def)
qed


text \<open>Loads from one page.\<close>

definition reads_same :: "addr \<Rightarrow> addr \<Rightarrow> mem \<Rightarrow> mem \<Rightarrow> bool" where
  "reads_same pgd va m m' \<longleftrightarrow> same_space pgd va m m' \<and> ad_eq (pte_at m pgd va) (pte_at m' pgd va) \<and>
     (\<forall>a. PGROUNDDOWN a \<notin> pt_pages m pgd \<longrightarrow> m' a = m a)"

lemma reads_same_refl [simp]: "reads_same pgd va m m"
  by (simp add: reads_same_def)

lemma reads_same_trans: "reads_same pgd va m m' \<Longrightarrow> reads_same pgd va m' m'' \<Longrightarrow> reads_same pgd va m m''"
  unfolding reads_same_def using same_space_trans ad_eq_trans same_space_dir(4) by metis

lemma uload_page:
  assumes r: "runs s p pgd ps" and hw: "hw_ok hw" and v: "page_aligned v" and rw: "page_rw (mem s) pgd v" and j: "j < 4096"
  obtains m where "uload hw (v + of_nat j) s = Inr (mem s (frame (mem s) pgd v + of_nat j), s\<lparr>mem := m\<rparr>)"
    "runs (s\<lparr>mem := m\<rparr>) p pgd ps" "reads_same pgd v (mem s) m"
proof -
  have jl: "(of_nat j :: addr) < PGSIZE" using j by (simp add: word_less_nat_alt unat_of_nat)
  have pg: "PGROUNDDOWN (v + of_nat j) = PGROUNDDOWN v" "OFFSET (v + of_nat j) = of_nat j"
    using PGROUNDDOWN_page [OF v jl] v by (simp_all add: PGROUNDDOWN_aligned)
  have rw': "page_rw (mem s) pgd (v + of_nat j)" using page_rw_page [OF pg(1)] rw by simp
  have fr: "frame (mem s) pgd (v + of_nat j) = frame (mem s) pgd v" using pte_at_page [OF pg(1)] by (simp add: frame_def)
  obtain m where m: "vload hw (v + of_nat j) s = Inr (mem s (frame (mem s) pgd v + of_nat j), s\<lparr>mem := m\<rparr>)"
    "runs (s\<lparr>mem := m\<rparr>) p pgd ps" "same_space pgd (v + of_nat j) (mem s) m"
    "ad_eq (pte_at (mem s) pgd (v + of_nat j)) (pte_at m pgd (v + of_nat j))"
    "\<And>a. PGROUNDDOWN a \<notin> pt_pages (mem s) pgd \<Longrightarrow> m a = mem s a"
    using vload_page [OF r hw rw'] unfolding fr pg(2) by blast
  have "reads_same pgd v (mem s) m"
    using m(3-5) same_space_page [OF pg(1)] pte_at_page [OF pg(1)] by (simp add: reads_same_def)
  then show thesis using that m(1,2) by (simp add: uload_def)
qed

lemma reads_same_facts:
  assumes "reads_same pgd v m m'" "page_rw m pgd v"
  shows "page_rw m' pgd v" "frame m' pgd v = frame m pgd v"
  using assms page_rw_restored [of pgd v m m' v] by (simp_all add: reads_same_def)

lemma uload_bytes_page:
  assumes "runs s p pgd ps" "hw_ok hw" "page_aligned v" "page_rw (mem s) pgd v" "j + n \<le> 4096"
  shows "\<exists>m. uload_bytes hw n (v + of_nat j) s = Inr (map (\<lambda>i. mem s (frame (mem s) pgd v + of_nat i)) [j..<j + n], s\<lparr>mem := m\<rparr>) \<and>
     runs (s\<lparr>mem := m\<rparr>) p pgd ps \<and> reads_same pgd v (mem s) m"
  using assms(1,4,5)
proof (induction n arbitrary: j s)
  case 0
  then show ?case by (intro exI [of _ "mem s"]) simp
next
  case (Suc n)
  obtain m1 where m1: "uload hw (v + of_nat j) s = Inr (mem s (frame (mem s) pgd v + of_nat j), s\<lparr>mem := m1\<rparr>)"
    "runs (s\<lparr>mem := m1\<rparr>) p pgd ps" "reads_same pgd v (mem s) m1"
    by (rule uload_page [OF Suc.prems(1) assms(2,3) Suc.prems(2), of j]) (use Suc.prems(3) in auto)
  note rs = reads_same_facts [OF m1(3) Suc.prems(2)]
  obtain m2 where m2: "uload_bytes hw n (v + of_nat (Suc j)) (s\<lparr>mem := m1\<rparr>) =
      Inr (map (\<lambda>i. m1 (frame m1 pgd v + of_nat i)) [Suc j..<Suc j + n], s\<lparr>mem := m2\<rparr>)"
    "runs (s\<lparr>mem := m2\<rparr>) p pgd ps" "reads_same pgd v m1 m2"
  proof -
    have "Suc j + n \<le> 4096" "page_rw (mem (s\<lparr>mem := m1\<rparr>)) pgd v" using Suc.prems(3) rs(1) by simp_all
    from Suc.IH [OF m1(2) this(2,1)] show thesis using that by auto
  qed
  have nf: "frame (mem s) pgd v \<notin> pt_pages (mem s) pgd"
    using uvm_invD(4) [OF runsD(6) [OF Suc.prems(1)]] page_rw_frame [OF Suc.prems(2)] by auto
  have e: "m1 (frame m1 pgd v + of_nat i) = mem s (frame (mem s) pgd v + of_nat i)" if "i < 4096" for i
  proof -
    have "(of_nat i :: addr) < PGSIZE" using that by (simp add: word_less_nat_alt unat_of_nat)
    then have "PGROUNDDOWN (frame (mem s) pgd v + of_nat i) = frame (mem s) pgd v" by (intro PGROUNDDOWN_page) simp_all
    then show ?thesis using m1(3) nf rs(2) by (simp add: reads_same_def)
  qed
  have eqm: "map (\<lambda>i. m1 (frame m1 pgd v + of_nat i)) [Suc j..<Suc j + n] = map (\<lambda>i. mem s (frame (mem s) pgd v + of_nat i)) [Suc j..<Suc j + n]"
    using Suc.prems(3) by (intro map_cong refl e) auto
  have nx: "v + of_nat j + 1 = v + of_nat (Suc j)" by (simp add: algebra_simps)
  have up: "[j..<j + Suc n] = j # [Suc j..<Suc j + n]" by (subst upt_conv_Cons) simp_all
  have "uload_bytes hw (Suc n) (v + of_nat j) s =
      Inr (map (\<lambda>i. mem s (frame (mem s) pgd v + of_nat i)) [j..<j + Suc n], s\<lparr>mem := m2\<rparr>)"
    unfolding uload_bytes.simps m1(1) by (simp only: bnd_simps prod.case nx m2(1) eqm up list.map)
  then show ?case using m2(2) reads_same_trans [OF m1(3) m2(3)] by blast
qed

section \<open>Properties\<close>




text \<open>The fourth word of the stack of the demo process: its bytes are zero.\<close>

lemma demo_zero: "PGROUNDDOWN a = 0x80203000 \<or> PGROUNDDOWN a = 0x80202000 \<Longrightarrow> mem demo a = 0"
proof -
  assume a: "PGROUNDDOWN a = 0x80203000 \<or> PGROUNDDOWN a = 0x80202000"
  have pr: "present table_mem 0x80200000 (PDX 0x1000)" using table_facts(1) by (simp add: PDX_demo)
  have "tab page_mem 0x80200000 0 = 0x80201000"
    using store_pte(2) [OF table_facts(5) pr page_mem_def, of 0] table_facts(2) by simp
  then have "demo_mem a = page_mem a" unfolding demo_mem_def using a by (intro store_pte_outside) (auto simp: PDX_demo)
  also have "\<dots> = table_mem a" unfolding page_mem_def
    by (rule store_pte_outside) (use table_facts a in \<open>auto simp: PDX_demo\<close>)
  also have "\<dots> = 0"
  proof -
    have "a \<noteq> 0x80200000" "a \<noteq> 0x80200001" "a \<noteq> 0x80200002" "a \<noteq> 0x80200003" using a by (auto simp: PGROUNDDOWN_def)
    then show ?thesis by (simp add: table_mem_def store32_def memset_apply)
  qed
  finally show ?thesis by (simp add: demo_sel)
qed

lemma demo_argint: "\<exists>t. argint demo_hw 0x3FF demo = Inr (Some 0, t) \<and> ptable t = [demo_proc]"
proof -
  have rw: "page_rw (mem demo) 0x80200000 0x1000" by (simp add: page_rw_def demo_sel PDX_demo demo_pte allows_def V2P_def)
  have al: "page_aligned 0x1000" by (simp add: page_aligned_def)
  obtain m where m: "uload_bytes demo_hw 4 (0x1000 + of_nat 0) demo =
      Inr (map (\<lambda>i. mem demo (frame (mem demo) 0x80200000 0x1000 + of_nat i)) [0..<0 + 4], demo\<lparr>mem := m\<rparr>)"
    using uload_bytes_page [OF demo_runs demo_hw_ok al rw, of 0 4] by auto
  have f: "frame (mem demo) 0x80200000 0x1000 = 0x80202000" by (simp add: demo_sel demo_frame PDX_demo)
  have z: "mem demo 0x80202000 = 0" "mem demo 0x80202001 = 0" "mem demo 0x80202002 = 0" "mem demo 0x80202003 = 0"
    by (rule demo_zero, simp add: PGROUNDDOWN_def)+
  have "[0..<4] = [0, 1, 2, 3 :: nat]" by (simp add: upt_rec)
  then have l: "uload_bytes demo_hw 4 0x1000 demo = Inr ([0, 0, 0, 0], demo\<lparr>mem := m\<rparr>)" using m f z by simp
  have "load32 (mem demo) (0x80203FB4 + 68) = 0"
    by (simp add: load32_def demo_zero PGROUNDDOWN_def)
  then have "load32 (mem demo) (tf (ptable demo ! 0) + tf_esp) = 0" by (simp add: demo_sel demo_proc_def)
  then have "argint demo_hw 0x3FF demo = Inr (Some (get32 [0, 0, 0, 0] 0), demo\<lparr>mem := m\<rparr>)"
    using runsD(9) [OF demo_runs] l by (simp add: argint_def fetchint_def demo_sel demo_proc_def)
  then show ?thesis by (simp add: get32_def demo_sel)
qed

text \<open>
  C20: A pointer that \<^verbatim>\<open>argptr\<close> accepts for \<^verbatim>\<open>size\<close> bytes lies within the memory of the process, all of the bytes
  included; the sums in the test do not wrap around, as a process ends below the kernel.
\<close>

theorem argptr_in_bounds:
  assumes "argptr hw n sz s = Inr (Some a, t)" "curproc s = Inr (p, s')"
    and "sz < 2147483648" "psz (ptable t ! p) \<le> KERNBASE"
  shows "0 \<le> sz \<and> unat a + nat sz \<le> unat (psz (ptable t ! p))"
proof -
  have r: "0 \<le> sz" "a < psz (ptable t ! p)" "\<not> a + word_of_int sz > psz (ptable t ! p)"
  proof -
    obtain i u where i: "argint hw n s' = Inr (i, u)" using assms(1,2) by (cases "argint hw n s'") (auto simp: argptr_def)
    then obtain b where b: "i = Some b" using assms(1,2) by (cases i) (simp_all add: argptr_def)
    show "0 \<le> sz" "a < psz (ptable t ! p)" "\<not> a + word_of_int sz > psz (ptable t ! p)"
      using assms(1) i b by (auto simp: argptr_def assms(2) not_le split: if_splits)
  qed
  have "unat a < 2147483648" using r(2) assms(4) by (simp add: word_less_nat_alt word_le_nat_alt)
  moreover have "unat (word_of_int sz :: 32 word) = nat sz"
    using r(1) assms(3) by (simp add: unat_eq_nat_uint uint_word_of_int)
  ultimately have "unat (a + word_of_int sz) = unat a + nat sz" using assms(3) r(1) by (simp add: unat_word_ariths)
  then show ?thesis using r by (simp add: word_less_nat_alt)
qed

theorem argptr_in_bounds_witness:
  "\<exists>t. argptr demo_hw 0x3FF 0x3000 demo = Inr (Some 0, t) \<and> unat (0 :: addr) + nat 0x3000 \<le> unat (psz (ptable t ! 0))"
proof -
  obtain t where t: "argint demo_hw 0x3FF demo = Inr (Some 0, t)" "ptable t = [demo_proc]" using demo_argint by blast
  have c: "curproc demo = Inr (0, demo)" by (rule runsD(9) [OF demo_runs])
  have a: "argptr demo_hw 0x3FF 0x3000 demo = Inr (Some 0, t)"
    using t c by (simp add: argptr_def demo_proc_def)
  show ?thesis using argptr_in_bounds [OF a c] a t(2) by (simp add: demo_proc_def)
qed

end
