(* ===== verification/Fs_Blocks.thy ===== *)
theory Fs_Blocks
  imports Fs Log_Write Machine
begin

text \<open>
  The block allocator of \<^verbatim>\<open>fs.c\<close> on top of the contracts of the buffer cache and the log: within a
  transaction a block is read, changed and logged, and every later read sees the change.
\<close>

section \<open>Changing a block in a transaction\<close>

text \<open>What the operations leave alone: all but the cache, the disk, and the header of the log.\<close>

definition lframe :: "'a klog_scheme \<Rightarrow> 'a klog_scheme \<Rightarrow> bool" where
  "lframe s t \<longleftrightarrow> t\<lparr>bufs := bufs s, disk := disk s, dwrites := dwrites s, ptable := ptable s, lhn := lhn s, lhblock := lhblock s\<rparr> = s"

lemma lframe_refl [simp]: "lframe s s"
  by (simp add: lframe_def)

lemma lframe_trans [trans]:
  assumes "lframe s t" "lframe t u"
  shows "lframe s u"
proof -
  let ?r = "\<lambda>v t. t\<lparr>bufs := bufs v, disk := disk v, dwrites := dwrites v, ptable := ptable v, lhn := lhn v, lhblock := lhblock v\<rparr>"
  have "?r s u = ?r s (?r t u)" by simp
  also have "?r t u = t" using assms(2) by (simp add: lframe_def)
  also have "?r s t = s" using assms(1) by (simp add: lframe_def)
  finally show ?thesis by (simp add: lframe_def)
qed

lemma bframe_lframe:
  assumes "bframe s (t :: 'a klog_scheme)"
  shows "lframe s t"
proof -
  have e: "t\<lparr>bufs := bufs s, disk := disk s, dwrites := dwrites s, ptable := ptable s\<rparr> = s" using assms by (simp add: bframe_def)
  have "(t\<lparr>bufs := bufs s, disk := disk s, dwrites := dwrites s, ptable := ptable s\<rparr>)\<lparr>lhn := lhn s, lhblock := lhblock s\<rparr> =
      s\<lparr>lhn := lhn s, lhblock := lhblock s\<rparr>" by (simp only: e)
  then show ?thesis unfolding lframe_def by simp
qed

lemma lframe_fields:
  assumes "lframe s t"
  shows "lsize t = lsize s" "outstanding t = outstanding s" "log_lock t = log_lock s" "ldev t = ldev s" "lstart t = lstart s"
proof -
  have e: "t\<lparr>bufs := bufs s, disk := disk s, dwrites := dwrites s, ptable := ptable s, lhn := lhn s, lhblock := lhblock s\<rparr> = s"
    using assms by (simp add: lframe_def)
  show "lsize t = lsize s" "outstanding t = outstanding s" "log_lock t = log_lock s" "ldev t = ldev s" "lstart t = lstart s"
    by (subst e [symmetric], simp)+
qed

lemma lframe_fs:
  assumes "lframe s (t :: 'a kfs_scheme)"
  shows "sb t = sb s" "inodes t = inodes s" "icache_lock t = icache_lock s"
proof -
  have e: "t\<lparr>bufs := bufs s, disk := disk s, dwrites := dwrites s, ptable := ptable s, lhn := lhn s, lhblock := lhblock s\<rparr> = s"
    using assms by (simp add: lframe_def)
  show "sb t = sb s" "inodes t = inodes s" "icache_lock t = icache_lock s" by (subst e [symmetric], simp)+
qed

lemma lframe_log_write: "lframe s (dirty_buf i (set_head n bs s))"
  by (simp add: lframe_def dirty_buf_def upd_buf_def set_head_def)

text \<open>A transaction that is open, with room for \<open>k\<close> more blocks.\<close>

definition in_txn :: "nat \<Rightarrow> nat \<Rightarrow> 'a klog_scheme \<Rightarrow> bool" where
  "in_txn p k s \<longleftrightarrow> binv p {} s \<and> log_ok s \<and> 1 \<le> outstanding s \<and> lhn s + int k \<le> int LOGSIZE \<and> lhn s + int k < lsize s"

lemma in_txn_mono: "in_txn p k s \<Longrightarrow> j \<le> k \<Longrightarrow> in_txn p j s"
  by (auto simp: in_txn_def)

lemma txn_room:
  assumes "in_txn p (Suc k) s"
  shows "card (pinned s) < NBUF"
proof -
  have "log_ok s" "lhn s < int LOGSIZE" using assms by (auto simp: in_txn_def)
  then have "card (pinned s) = nat (lhn s)" using distinct_card [of "logged s"] length_logged [of s] by (simp add: log_ok_def)
  then show ?thesis using \<open>lhn s < int LOGSIZE\<close> by simp
qed

lemma log_ok_bframe: "bframe s t \<Longrightarrow> pinned t = pinned s \<Longrightarrow> log_ok s \<Longrightarrow> log_ok (t :: 'a klog_scheme)"
  using bframe_log [of s t] by (simp add: log_ok_def logged_def)

lemma log_write_frame:
  assumes "binv p H s" "i \<in> H" "log_ok s" "lhn s < int LOGSIZE" "lhn s < lsize s - 1" "1 \<le> outstanding s"
    "log_write i s = Inr t"
  shows "lframe s t"
proof -
  have "cpu_ok (kcpu s)" using binvD(1) [OF assms(1)] by (simp add: quiet_def)
  then show ?thesis
    using log_write_run [of s i] assms(3-7) lframe_log_write [of s i] by (auto simp: log_ok_def)
qed

text \<open>One block is read, changed to \<open>f\<close> of what it was, and logged.\<close>

lemma logged_update:
  assumes s: "in_txn p (Suc k) s" and b: "unat b < length (disk s)" and f: "length (f (blk s b)) = BSIZE"
  obtains x t u where "bread 1 b s = Inr (x, t)" "bufdata x t = blk s b" "lframe s t"
    "bnd (log_write x (set_bufdata x (f (blk s b)) t)) (brelse x) = Inr u"
    "in_txn p k u" "lframe s u" "blk u = (blk s)(b := f (blk s b))" "disk u = disk s" "dwrites u = dwrites s"
    "set (logged u) = insert b (set (logged s))"
proof -
  have i: "binv p {} s" "log_ok s" "1 \<le> outstanding s" "lhn s < int LOGSIZE" "lhn s < lsize s - 1"
    "lhn s + int (Suc k) \<le> int LOGSIZE" "lhn s + int (Suc k) < lsize s" using s by (auto simp: in_txn_def)
  obtain x t where t: "bread 1 b s = Inr (x, t)" "binv p {x} t" "bframe s t" "disk t = disk s" "dwrites t = dwrites s"
      "blk t = blk s" "pinned t = pinned s" "bkey t = (bkey s)(x := b)"
    using bs.rd_ok [OF i(1) b] txn_room [OF s] by auto
  have g: "bufdata x t = blk s b" using bs.getd_ok [OF t(2), of x] t by simp
  let ?u = "set_bufdata x (f (blk s b)) t"
  have u: "binv p {x} ?u" "bframe t ?u" "disk ?u = disk s" "dwrites ?u = dwrites s" "blk ?u = (blk s)(b := f (blk s b))"
      "pinned ?u = pinned s" "bkey ?u x = b"
    using bs.setd_ok [OF t(2), of x "f (blk s b)"] t f by simp_all
  have fr: "bframe s ?u" using bframe_trans [OF t(3) u(2)] .
  note fl = bframe_log [OF fr]
  have lo: "log_ok ?u" using log_ok_bframe [OF fr] u(6) i(2) by simp
  obtain v where v: "log_write x ?u = Inr v" "binv p {x} v" "log_ok v" "blk v = blk ?u" "disk v = disk ?u"
      "dwrites v = dwrites ?u" "bkey v = bkey ?u" "outstanding v = outstanding ?u" "lsize v = lsize ?u"
      "logged v = (if b \<in> set (logged ?u) then logged ?u else logged ?u @ [b])"
    using log_write_spec [OF u(1), of x] lo fl i u(7) by auto
  have fv: "lframe ?u v" by (rule log_write_frame [OF u(1) _ lo _ _ _ v(1)]) (use fl i in auto)
  have lv: "lhn v \<le> lhn s + 1" "set (logged v) = insert b (set (logged s))"
  proof -
    have "nat (lhn v) \<le> Suc (nat (lhn s))" using length_logged [OF v(3)] length_logged [OF lo] v(10) fl by (auto split: if_splits)
    then show "lhn v \<le> lhn s + 1" using i(2) by (auto simp: log_ok_def)
    show "set (logged v) = insert b (set (logged s))" using v(10) fl by (auto simp: logged_def)
  qed
  have "bkey v x \<in> pinned v" using v(3,7) lv(2) u(7) by (simp add: log_ok_def)
  then obtain w where w: "brelse x v = Inr w" "binv p {} w" "bframe v w" "disk w = disk v" "dwrites w = dwrites v"
      "blk w = blk v" "pinned w = pinned v"
    using bs.rls_ok [OF v(2), of x] by auto
  note fw = bframe_log [OF w(3)]
  have "in_txn p k w"
    using w(2) log_ok_bframe [OF w(3,7) v(3)] fw v(8,9) fl i(3,6,7) lv(1) by (simp add: in_txn_def)
  moreover have "lframe s w"
    using lframe_trans [OF bframe_lframe [OF fr]] lframe_trans [OF fv bframe_lframe [OF w(3)]] by blast
  moreover have "set (logged w) = insert b (set (logged s))" using lv(2) fw by (simp add: logged_def)
  ultimately show thesis
    using that [OF t(1) g bframe_lframe [OF t(3)], of w] v(1,4-6) w(1,4-6) u(3-5) by simp
qed

text \<open>A block is read only.\<close>

lemma txn_read:
  assumes s: "in_txn p (Suc k) s" and b: "unat b < length (disk s)"
  obtains x t u where "bread 1 b s = Inr (x, t)" "bufdata x t = blk s b" "lframe s t" "brelse x t = Inr u"
    "in_txn p (Suc k) u" "lframe s u" "blk u = blk s" "disk u = disk s" "dwrites u = dwrites s" "logged u = logged s"
proof -
  have i: "binv p {} s" "log_ok s" using s by (auto simp: in_txn_def)
  obtain x t u where r: "bread 1 b s = Inr (x, t)" "bufdata x t = blk s b" "bframe s t" "brelse x t = Inr u" "binv p {} u"
    "bframe t u" "disk u = disk s" "dwrites u = dwrites s" "blk u = blk s" "pinned u = pinned s"
    using bs.read_block [OF i(1) b] txn_room [OF s] by metis
  have fr: "bframe s u" using bframe_trans [OF r(3,6)] .
  have "in_txn p (Suc k) u" using s r(5) log_ok_bframe [OF fr r(10) i(2)] bframe_log [OF fr] by (simp add: in_txn_def)
  moreover have "logged u = logged s" using bframe_log [OF fr] by (simp add: logged_def)
  ultimately show thesis using that [OF r(1,2) bframe_lframe [OF r(3)] r(4)] bframe_lframe [OF fr] r(7-9) by blast
qed

section \<open>The free map\<close>

lemma bit_set_iff: "bit_set d k \<longleftrightarrow> bit (d ! (k div 8)) (k mod 8)"
  by (simp add: bit_set_def push_bit_of_1 and_exp_eq_0_iff_not_bit)

lemma bit_set_mark:
  assumes "i < 8 * length d" "j < 8 * length d"
  shows "bit_set (mark_bit d i) j \<longleftrightarrow> i = j \<or> bit_set d j"
proof -
  have "i div 8 < length d" "j div 8 < length d" using assms by auto
  moreover have "i div 8 = j div 8 \<Longrightarrow> (i mod 8 = j mod 8) = (i = j)" by (metis div_mod_decomp)
  moreover have "bit (x OR push_bit (i mod 8) 1 :: byte) (j mod 8) \<longleftrightarrow> i mod 8 = j mod 8 \<or> bit x (j mod 8)" for x
    by (auto simp: bit_simps)
  ultimately show ?thesis by (auto simp: bit_set_iff mark_bit_def nth_list_update)
qed

lemma bit_set_clear:
  assumes "i < 8 * length d" "j < 8 * length d"
  shows "bit_set (clear_bit d i) j \<longleftrightarrow> i \<noteq> j \<and> bit_set d j"
proof -
  have "i div 8 < length d" "j div 8 < length d" using assms by auto
  moreover have "i div 8 = j div 8 \<Longrightarrow> (i mod 8 = j mod 8) = (i = j)" by (metis div_mod_decomp)
  moreover have "bit (x AND NOT (push_bit (i mod 8) 1) :: byte) (j mod 8) \<longleftrightarrow> i mod 8 \<noteq> j mod 8 \<and> bit x (j mod 8)" for x
    by (auto simp: bit_simps)
  ultimately show ?thesis by (auto simp: bit_set_iff clear_bit_def nth_list_update)
qed

lemma length_mark_bit [simp]: "length (mark_bit d i) = length d" "length (clear_bit d i) = length d"
  by (simp_all add: mark_bit_def clear_bit_def)

lemma free_bit_Some: "free_bit d i n = Some k \<Longrightarrow> i \<le> k \<and> k < i + n \<and> \<not> bit_set d k \<and> (\<forall>j. i \<le> j \<and> j < k \<longrightarrow> bit_set d j)"
proof (induction d i n rule: free_bit.induct)
  case (2 d i n)
  show ?case
  proof (cases "bit_set d i")
    case True
    then have "Suc i \<le> k \<and> k < Suc i + n \<and> \<not> bit_set d k \<and> (\<forall>j. Suc i \<le> j \<and> j < k \<longrightarrow> bit_set d j)" using 2 by simp
    then show ?thesis using True by (auto simp: not_less_eq_eq) (metis le_antisym not_less_eq_eq)
  qed (use 2 in auto)
qed simp

lemma free_bit_None: "free_bit d i n = None \<longleftrightarrow> (\<forall>j. i \<le> j \<and> j < i + n \<longrightarrow> bit_set d j)"
proof (induction d i n rule: free_bit.induct)
  case (2 d i n)
  have "(\<forall>j. i \<le> j \<and> j < i + Suc n \<longrightarrow> bit_set d j) \<longleftrightarrow> bit_set d i \<and> (\<forall>j. Suc i \<le> j \<and> j < Suc i + n \<longrightarrow> bit_set d j)"
    by (auto simp: not_less_eq_eq) (metis le_antisym not_less_eq_eq)
  then show ?case using 2 by simp
qed auto

text \<open>Whether a block is in use.\<close>

definition used :: "'a kfs_scheme \<Rightarrow> nat \<Rightarrow> bool" where
  "used s b \<longleftrightarrow> bit_set (blk s (BBLOCK (of_nat b) (sb s))) (b mod BPB)"

text \<open>A file system of at most \<open>n\<close> blocks: these and the blocks of the map exist, and the map has itself in use.\<close>

definition map_ok :: "nat \<Rightarrow> 'a kfs_scheme \<Rightarrow> bool" where
  "map_ok n s \<longleftrightarrow> n \<le> length (disk s) \<and> n < 4294967296 \<and>
     (\<forall>b < n. unat (BBLOCK (of_nat b) (sb s)) < n \<and> used s (unat (BBLOCK (of_nat b) (sb s))))"

lemma BBLOCK_same:
  assumes "BPB dvd b" "i < BPB" "b + i < 4294967296"
  shows "BBLOCK (of_nat (b + i)) sp = BBLOCK (of_nat b) sp" "(b + i) mod BPB = i"
proof -
  have "(b + i) div BPB = b div BPB" "(b + i) mod BPB = i" using assms(1,2) by (auto elim!: dvdE)
  moreover have "(of_nat m :: 32 word) div of_nat BPB = of_nat (m div BPB)" if "m < 4294967296" for m
    using that by (simp add: word_unat_eq_iff unat_div unat_of_nat less_imp_diff_less)
  ultimately show "BBLOCK (of_nat (b + i)) sp = BBLOCK (of_nat b) sp" "(b + i) mod BPB = i"
    using assms(3) by (auto simp: BBLOCK_def simp del: of_nat_numeral of_nat_add)
qed

section \<open>Allocating and freeing\<close>

lemma bzero_spec:
  assumes "in_txn p (Suc k) s" "unat b < length (disk s)"
  obtains u where "bzero 1 b s = Inr u" "in_txn p k u" "lframe s u" "blk u = (blk s)(b := replicate BSIZE 0)"
    "disk u = disk s" "dwrites u = dwrites s"
proof (rule logged_update [OF assms, of "\<lambda>_. replicate BSIZE 0"])
  fix x t u
  assume "bread 1 b s = Inr (x, t)" "bnd (log_write x (set_bufdata x (replicate BSIZE 0) t)) (brelse x) = Inr u"
    and "in_txn p k u" "lframe s u" "blk u = (blk s)(b := replicate BSIZE 0)" "disk u = disk s" "dwrites u = dwrites s"
  then show thesis by (intro that [of u]) (simp_all add: bzero_def)
qed simp

text \<open>The state after block \<open>j\<close> was handed out.\<close>

definition handed_out :: "nat \<Rightarrow> nat \<Rightarrow> 'a kfs_scheme \<Rightarrow> nat \<Rightarrow> 'a kfs_scheme \<Rightarrow> bool" where
  "handed_out p k s j t \<longleftrightarrow>
     (let m = BBLOCK (of_nat j) (sb s)
      in blk t = (blk s)(m := mark_bit (blk s m) (j mod BPB), of_nat j := replicate BSIZE 0)) \<and>
     in_txn p k t \<and> lframe s t \<and> disk t = disk s \<and> dwrites t = dwrites s"

lemma used_cong: "blk t = blk s \<Longrightarrow> sb t = sb s \<Longrightarrow> used t = used s"
  by (simp add: used_def fun_eq_iff)

lemma map_ok_cong: "blk t = blk s \<Longrightarrow> sb t = sb s \<Longrightarrow> disk t = disk s \<Longrightarrow> map_ok n t = map_ok n s"
  by (simp add: map_ok_def used_cong [of t s])

lemma bit_set_used: "BPB dvd b \<Longrightarrow> i < BPB \<Longrightarrow> b + i < 4294967296 \<Longrightarrow>
    bit_set (blk s (BBLOCK (of_nat b) (sb s))) i = used s (b + i)"
  using BBLOCK_same(1) [of b i "sb s"] BBLOCK_same(2) [of b i] by (simp add: used_def)

lemma balloc_take:
  fixes s :: "'a kfs_scheme"
  assumes s: "in_txn p (Suc (Suc k)) s" and m: "map_ok n s" and b: "b < n" "BPB dvd b"
    and f: "free_bit (blk s (BBLOCK (of_nat b) (sb s))) 0 (min BPB (n - b)) = Some i"
  shows "\<exists>t. balloc_loop 1 b n s = Inr (of_nat (b + i), t) \<and> handed_out p k s (b + i) t"
proof -
  let ?m = "BBLOCK (of_nat b) (sb s)"
  have n: "unat ?m < length (disk s)" "n \<le> length (disk s)" "n < 4294967296" using m b by (auto simp: map_ok_def)
  have i: "i < BPB" "b + i < n" using free_bit_Some [OF f] by auto
  have l: "length (mark_bit (blk s ?m) i) = BSIZE" using bs.block_length [of p "{}" s ?m] s n(1) by (simp add: in_txn_def)
  obtain x t u where t: "bread 1 ?m s = Inr (x, t)" "bufdata x t = blk s ?m"
    and u: "bnd (log_write x (set_bufdata x (mark_bit (blk s ?m) i) t)) (brelse x) = Inr u" "in_txn p (Suc k) u" "lframe s u"
      "blk u = (blk s)(?m := mark_bit (blk s ?m) i)" "disk u = disk s" "dwrites u = dwrites s"
    by (rule logged_update [where f = "\<lambda>d. mark_bit d i", OF s n(1) l])
  have "unat (of_nat (b + i) :: 32 word) < length (disk u)" using i n u(5) by (simp add: unat_of_nat del: of_nat_add)
  from bzero_spec [OF u(2) this] obtain v where v: "bzero 1 (of_nat (b + i)) u = Inr v" "in_txn p k v" "lframe u v"
      "blk v = (blk u)(of_nat (b + i) := replicate BSIZE 0)" "disk v = disk u" "dwrites v = dwrites u" by blast
  have "balloc_loop 1 b n s = bnd (bnd (log_write x (set_bufdata x (mark_bit (blk s ?m) i) t)) (brelse x))
      (\<lambda>s. bnd (bzero 1 (of_nat (b + i)) s) (\<lambda>s. Inr (of_nat (b + i), s)))"
    using b f t by (subst balloc_loop.simps) (simp add: bnd_assoc)
  also have "\<dots> = Inr (of_nat (b + i), v)" by (simp add: u(1) v(1) del: of_nat_add)
  finally have "balloc_loop 1 b n s = Inr (of_nat (b + i), v)" .
  moreover have "handed_out p k s (b + i) v"
    using v u(4-6) BBLOCK_same(1) [OF b(2) i(1), of "sb s"] BBLOCK_same(2) [OF b(2) i(1)] i n lframe_trans [OF u(3) v(3)]
    by (simp add: handed_out_def Let_def del: of_nat_add)
  ultimately show ?thesis by blast
qed

lemma all_below_add: "(\<forall>j < b + (k :: nat). P j) \<longleftrightarrow> (\<forall>j < b. P j) \<and> (\<forall>i < k. P (b + i))"
proof
  assume *: "(\<forall>j < b. P j) \<and> (\<forall>i < k. P (b + i))"
  show "\<forall>j < b + k. P j"
  proof (intro allI impI)
    fix j assume j: "j < b + k"
    show "P j"
    proof (cases "j < b")
      case False
      then show ?thesis using * j spec [of "\<lambda>i. i < k \<longrightarrow> P (b + i)" "j - b"] by auto
    qed (use * in blast)
  qed
qed simp

lemma balloc_loop_spec:
  fixes s :: "'a kfs_scheme"
  assumes "in_txn p (Suc (Suc k)) s" "map_ok n s" "BPB dvd b" "\<forall>j < b. j < n \<longrightarrow> used s j"
  shows "(\<exists>j < n. \<not> used s j \<and> (\<forall>i < j. used s i) \<and> (\<exists>t. balloc_loop 1 b n s = Inr (of_nat j, t) \<and> handed_out p k s j t)) \<or>
      (\<forall>j < n. used s j) \<and> balloc_loop 1 b n s = Inl (Panic ''balloc: out of blocks'')"
  using assms
proof (induction "n - b" arbitrary: b s rule: less_induct)
  case less
  show ?case
  proof (cases "b < n")
    case False
    then show ?thesis using less.prems(4) by (auto simp: balloc_loop.simps [of 1 b n s])
  next
    case b: True
    let ?m = "BBLOCK (of_nat b) (sb s)" and ?k = "min BPB (n - b)"
    have n: "unat ?m < length (disk s)" "n < 4294967296" using less.prems(2) b by (auto simp: map_ok_def)
    have bu: "bit_set (blk s ?m) i = used s (b + i)" if "i < ?k" for i
      using bit_set_used [OF less.prems(3), of i s] that n by auto
    have below: "\<forall>j < b. used s j" using less.prems(4) b by auto
    show ?thesis
    proof (cases "free_bit (blk s ?m) 0 ?k")
      case (Some i)
      note fb = free_bit_Some [OF Some]
      have "used s (b + j)" if "j < i" for j using fb bu [of j] that by auto
      then have "\<forall>j < b + i. used s j" using below by (subst all_below_add) simp
      moreover have "\<not> used s (b + i)" "b + i < n" using fb bu by auto
      ultimately show ?thesis using balloc_take [OF less.prems(1,2) b less.prems(3) Some] by blast
    next
      case None
      obtain x t u where t: "bread 1 ?m s = Inr (x, t)" "bufdata x t = blk s ?m" "brelse x t = Inr u"
        and u: "in_txn p (Suc (Suc k)) u" "lframe s u" "blk u = blk s" "disk u = disk s" "dwrites u = dwrites s"
        by (rule txn_read [OF less.prems(1) n(1)])
      have e: "balloc_loop 1 b n s = balloc_loop 1 (b + BPB) n u" using b None t by (subst balloc_loop.simps) simp
      note sb = lframe_fs [OF u(2)]
      have us: "used u = used s" "map_ok n u" using used_cong [OF u(3) sb(1)] map_ok_cong [OF u(3) sb(1) u(4)] less.prems(2) by simp_all
      have "\<forall>j < b + ?k. used s j" using below None bu unfolding free_bit_None by (subst all_below_add) simp
      then have "\<forall>j < b + BPB. j < n \<longrightarrow> used u j" unfolding us(1) by auto
      from less.hyps [OF _ _ us(2) _ this] have
        "(\<exists>j < n. \<not> used u j \<and> (\<forall>i < j. used u i) \<and> (\<exists>t. balloc_loop 1 (b + BPB) n u = Inr (of_nat j, t) \<and> handed_out p k u j t)) \<or>
         (\<forall>j < n. used u j) \<and> balloc_loop 1 (b + BPB) n u = Inl (Panic ''balloc: out of blocks'')"
        using b u(1) less.prems(3) by simp
      moreover have "handed_out p k u j t \<Longrightarrow> handed_out p k s j t" for j t
        using u(3-5) sb(1) lframe_trans [OF u(2)] by (simp add: handed_out_def)
      ultimately show ?thesis unfolding us(1) e by blast
    qed
  qed
qed

lemma unat_small: "b < 4294967296 \<Longrightarrow> unat (of_nat b :: 32 word) = b"
  by (simp add: unat_of_nat)

text \<open>How a change of the bit of block \<open>j\<close> shows in the map.\<close>

lemma used_change:
  fixes s t :: "'a kfs_scheme"
  assumes m: "map_ok n s" and j: "j < n" and i: "binv p {} s" and sb: "sb t = sb s"
    and d: "\<forall>c. unat c < n \<and> used s (unat c) \<longrightarrow> blk t c = (if c = BBLOCK (of_nat j) (sb s) then f (blk s c) (j mod BPB) else blk s c)"
    and f: "\<And>d x y. x < 8 * length d \<Longrightarrow> y < 8 * length d \<Longrightarrow> bit_set (f d x) y = (if x = y then v else bit_set d y)"
    and c: "c < n"
  shows "used t c = (if c = j then v else used s c)"
proof -
  let ?m = "\<lambda>b. BBLOCK (of_nat b) (sb s)"
  have n: "n < 4294967296" "n \<le> length (disk s)" using m by (auto simp: map_ok_def)
  have mc: "unat (?m c) < n" "used s (unat (?m c))" using m c by (auto simp: map_ok_def)
  have len: "length (blk s (?m c)) = BSIZE" using bs.block_length [OF i, of "?m c"] mc n by simp
  have "j mod BPB = c mod BPB \<longleftrightarrow> c = j" if "?m c = ?m j"
  proof -
    have "(of_nat c :: 32 word) div of_nat BPB = of_nat j div of_nat BPB" using that by (simp add: BBLOCK_def)
    then have "unat ((of_nat c :: 32 word) div of_nat BPB) = unat ((of_nat j :: 32 word) div of_nat BPB)" by simp
    then have "c div BPB = j div BPB" using c j n by (simp add: unat_div unat_small)
    then show ?thesis by (metis div_mod_decomp)
  qed
  then show ?thesis
    using d mc sb f [of "j mod BPB" "blk s (?m c)" "c mod BPB"] len by (auto simp: used_def)
qed

lemma map_ok_change:
  fixes s t :: "'a kfs_scheme"
  assumes m: "map_ok n s" and sb: "sb t = sb s" and d: "disk t = disk s"
    and u: "\<And>c. c < n \<Longrightarrow> used s c \<Longrightarrow> (\<exists>b < n. c = unat (BBLOCK (of_nat b) (sb s))) \<Longrightarrow> used t c"
  shows "map_ok n t"
  unfolding map_ok_def sb d
proof (intro conjI allI impI)
  fix b assume b: "b < n"
  have *: "unat (BBLOCK (of_nat b) (sb s)) < n" "used s (unat (BBLOCK (of_nat b) (sb s)))" using m b by (auto simp: map_ok_def)
  then show "unat (BBLOCK (of_nat b) (sb s)) < n" by simp
  show "used t (unat (BBLOCK (of_nat b) (sb s)))" using u [OF *] b by blast
qed (use m in \<open>auto simp: map_ok_def\<close>)

lemma handed_out_used:
  fixes s t :: "'a kfs_scheme"
  assumes h: "handed_out p k s j t" and m: "map_ok n s" and j: "j < n" "\<not> used s j" and i: "binv p {} s"
  shows "c < n \<Longrightarrow> used t c \<longleftrightarrow> c = j \<or> used s c" "map_ok n t"
proof -
  have sb: "sb t = sb s" using h lframe_fs(1) by (auto simp: handed_out_def)
  have n: "n < 4294967296" using m by (simp add: map_ok_def)
  have "\<forall>c. unat c < n \<and> used s (unat c) \<longrightarrow> blk t c = (if c = BBLOCK (of_nat j) (sb s) then mark_bit (blk s c) (j mod BPB) else blk s c)"
    using h j n by (auto simp: handed_out_def Let_def unat_small)
  note d = this
  have u: "used t c \<longleftrightarrow> c = j \<or> used s c" if "c < n" for c
    using used_change [OF m j(1) i sb, of mark_bit True c] d bit_set_mark that by auto
  show "c < n \<Longrightarrow> used t c \<longleftrightarrow> c = j \<or> used s c" by (rule u)
  show "map_ok n t" by (rule map_ok_change [OF m sb]) (use h u in \<open>auto simp: handed_out_def\<close>)
qed

lemma bfree_spec:
  fixes s :: "'a kfs_scheme"
  assumes s: "in_txn p (Suc k) s" and m: "map_ok n s" and b: "b < n" and u: "used s b"
  obtains t where "bfree 1 (of_nat b) s = Inr t" "in_txn p k t" "lframe s t" "disk t = disk s"
    "\<And>c. c < n \<Longrightarrow> used t c \<longleftrightarrow> c \<noteq> b \<and> used s c"
    "\<And>c. c \<noteq> BBLOCK (of_nat b) (sb s) \<Longrightarrow> blk t c = blk s c"
proof -
  let ?m = "BBLOCK (of_nat b) (sb s)"
  have n: "unat ?m < length (disk s)" "n < 4294967296" using m b by (auto simp: map_ok_def)
  have i: "binv p {} s" using s by (simp add: in_txn_def)
  have l: "length (clear_bit (blk s ?m) (b mod BPB)) = BSIZE" using bs.block_length [OF i n(1)] by simp
  obtain x t u where t: "bread 1 ?m s = Inr (x, t)" "bufdata x t = blk s ?m"
    and u: "bnd (log_write x (set_bufdata x (clear_bit (blk s ?m) (b mod BPB)) t)) (brelse x) = Inr u" "in_txn p k u" "lframe s u"
      "blk u = (blk s)(?m := clear_bit (blk s ?m) (b mod BPB))" "disk u = disk s"
    by (rule logged_update [where f = "\<lambda>d. clear_bit d (b mod BPB)", OF s n(1) l])
  have "bfree 1 (of_nat b) s = Inr u"
    using t u(1) assms(4) b n by (simp add: bfree_def used_def unat_small)
  moreover have "used u c \<longleftrightarrow> c \<noteq> b \<and> used s c" if "c < n" for c
    using used_change [OF m b i lframe_fs(1) [OF u(3)], of clear_bit False c] bit_set_clear that u(4) by auto
  ultimately show thesis using that [of u] u(2-5) by simp
qed

lemma bfree_free:
  fixes s :: "'a kfs_scheme"
  assumes s: "in_txn p (Suc k) s" and m: "map_ok n s" and b: "b < n" and u: "\<not> used s b"
  shows "bfree 1 (of_nat b) s = Inl (Panic ''freeing free block'')"
proof -
  let ?m = "BBLOCK (of_nat b) (sb s)"
  have n: "unat ?m < length (disk s)" "n < 4294967296" using m b by (auto simp: map_ok_def)
  obtain x t u where "bread 1 ?m s = Inr (x, t)" "bufdata x t = blk s ?m" by (rule txn_read [OF s n(1)])
  then show ?thesis using u b n by (simp add: bfree_def used_def unat_small)
qed

section \<open>A small file system\<close>

text \<open>The disk of the machine with a map in block 36 in which the blocks up to 36 are in use.\<close>

definition small_fs :: ksys where
  "small_fs = machine\<lparr>disk := (disk machine)[36 := [255, 255, 255, 255, 31] @ replicate 507 0]\<rparr>"

lemma small_fs_fields: "disk small_fs = (replicate 100 (replicate BSIZE 0))[36 := [255, 255, 255, 255, 31] @ replicate 507 0]"
    "sbsize (sb small_fs) = 100" "bmapstart (sb small_fs) = 36" "lhn small_fs = 0" "lsize small_fs = 30"
    "outstanding small_fs = 1" "lock_free (log_lock small_fs)" "length (lhblock small_fs) = LOGSIZE" "ldev small_fs = 1"
  by (simp_all add: small_fs_def machine_def)

lemma small_fs_booted: "booted 0 small_fs"
  using machine_booted by (auto simp: booted_def small_fs_def quiet_def dest!: set_update_subset_insert [THEN subsetD])

lemmas small_fs_cache = binit_booted [OF small_fs_booted]

lemma small_fs_binit: "sb (binit small_fs) = sb small_fs" "lhn (binit small_fs) = 0" "lsize (binit small_fs) = 30"
    "outstanding (binit small_fs) = 1" "lock_free (log_lock (binit small_fs))" "length (lhblock (binit small_fs)) = LOGSIZE"
    "ldev (binit small_fs) = 1"
  by (subst small_fs_cache(5), simp add: small_fs_fields)+

lemma small_fs_txn: "in_txn 0 4 (binit small_fs)"
  using small_fs_cache(1,2) by (simp add: in_txn_def log_ok_def logged_def small_fs_binit)

lemma small_fs_room: "in_txn 0 (Suc (Suc (Suc (Suc 0)))) (binit small_fs)" "in_txn 0 (Suc (Suc 2)) (binit small_fs)"
  using small_fs_txn by (simp_all add: eval_nat_numeral)

lemma small_fs_BBLOCK: "b < 4096 \<Longrightarrow> BBLOCK (of_nat b) (sb (binit small_fs)) = 36"
  using BBLOCK_same(1) [of 0 b] by (simp add: small_fs_binit BBLOCK_def [of 0] small_fs_fields)

lemma small_fs_used: "b < 4096 \<Longrightarrow> used (binit small_fs) b = bit_set ([255, 255, 255, 255, 31] @ replicate 507 0) b"
  by (simp add: used_def small_fs_BBLOCK small_fs_cache(3) small_fs_fields)

lemma small_fs_low: "i < 37 \<Longrightarrow> used (binit small_fs) i"
proof -
  have "list_all (bit_set ([255, 255, 255, 255, 31] @ replicate 507 0)) [0..<37]" by code_simp
  then show "i < 37 \<Longrightarrow> used (binit small_fs) i" by (simp add: small_fs_used list_all_iff del: append_Cons)
qed

lemma small_fs_37: "\<not> used (binit small_fs) 37"
proof -
  have "\<not> bit_set ([255, 255, 255, 255, 31] @ replicate 507 0) 37" by code_simp
  then show ?thesis by (simp add: small_fs_used del: append_Cons)
qed

lemma small_fs_map: "map_ok 100 (binit small_fs)"
  using small_fs_low [of 36] by (simp add: map_ok_def small_fs_BBLOCK small_fs_cache(4) small_fs_fields)

section \<open>Properties\<close>

text \<open>
  C10: In an open transaction with room for two blocks, \<^verbatim>\<open>balloc\<close> hands out the first block whose bit in the
  free map is clear: afterwards that block is marked in use and holds zeros, every other block of the map
  is marked as before, every block other than the one handed out and its block of the map reads as before, and nothing
  has reached the disk. With every block in use it panics.
\<close>

theorem balloc_first_free:
  fixes s :: "'a kfs_scheme"
  defines "n \<equiv> unat (sbsize (sb s))"
  assumes "in_txn p (Suc (Suc k)) s" "map_ok n s"
  shows "if \<forall>b < n. used s b then balloc 1 s = Inl (Panic ''balloc: out of blocks'')
    else \<exists>b t. balloc 1 s = Inr (of_nat b, t) \<and> b < n \<and> \<not> used s b \<and> (\<forall>i < b. used s i) \<and>
      (\<forall>c < n. used t c \<longleftrightarrow> c = b \<or> used s c) \<and> blk t (of_nat b) = replicate BSIZE 0 \<and>
      (\<forall>c. c \<noteq> of_nat b \<and> c \<noteq> BBLOCK (of_nat b) (sb s) \<longrightarrow> blk t c = blk s c) \<and>
      map_ok n t \<and> in_txn p k t \<and> disk t = disk s \<and> dwrites t = dwrites s"
proof (cases "\<forall>b < n. used s b")
  case True
  then show ?thesis using balloc_loop_spec [OF assms(2,3), of 0] by (auto simp: balloc_def n_def)
next
  case False
  have i: "binv p {} s" using assms(2) by (simp add: in_txn_def)
  obtain b t where b: "b < n" "\<not> used s b" "\<forall>i < b. used s i" "balloc 1 s = Inr (of_nat b, t)" and h: "handed_out p k s b t"
    using balloc_loop_spec [OF assms(2,3), of 0] False by (auto simp: balloc_def n_def)
  note u = handed_out_used [OF h assms(3) b(1,2) i]
  show ?thesis unfolding if_not_P [OF False]
    by (rule exI [of _ b], rule exI [of _ t]) (use b h u in \<open>auto simp: handed_out_def Let_def\<close>)
qed

theorem balloc_first_free_witness:
  "\<exists>t. balloc 1 (binit small_fs) = Inr (37, t) \<and> (\<forall>c < 100. used t c \<longleftrightarrow> c = 37 \<or> used (binit small_fs) c) \<and>
     blk t 37 = replicate BSIZE 0"
proof -
  let ?s = "binit small_fs"
  have a: "in_txn 0 (Suc (Suc 2)) ?s" "map_ok (unat (sbsize (sb ?s))) ?s"
    using small_fs_room(2) small_fs_map by (simp_all add: small_fs_binit small_fs_fields)
  obtain b t where b: "balloc 1 ?s = Inr (of_nat b, t)" "b < 100" "\<not> used ?s b" "\<forall>i < b. used ?s i"
      "\<forall>c < 100. used t c \<longleftrightarrow> c = b \<or> used ?s c" "blk t (of_nat b) = replicate BSIZE 0"
    using balloc_first_free [OF a] small_fs_37 by (auto simp: small_fs_binit small_fs_fields split: if_splits)
  have "b = 37" using b(3,4) small_fs_low small_fs_37 by (metis linorder_neqE_nat)
  then show ?thesis using b by auto
qed

text \<open>
  C22: \<^verbatim>\<open>bfree\<close> undoes \<^verbatim>\<open>balloc\<close>: when it is given a block that \<^verbatim>\<open>balloc\<close> has just handed out it succeeds, the
  free map reads as it did before the allocation, and so does every other block outside the map; freeing the block once more panics.
\<close>

theorem bfree_undoes_balloc:
  fixes s :: "'a kfs_scheme"
  defines "n \<equiv> unat (sbsize (sb s))"
  assumes "in_txn p (Suc (Suc (Suc (Suc k)))) s" "map_ok n s" "balloc 1 s = Inr (b, t)"
  shows "\<exists>u. bfree 1 b t = Inr u \<and> (\<forall>c < n. used u c = used s c) \<and>
      (\<forall>c. c \<noteq> b \<and> c \<noteq> BBLOCK b (sb s) \<longrightarrow> blk u c = blk s c) \<and>
      bfree 1 b u = Inl (Panic ''freeing free block'')"
proof -
  have i: "binv p {} s" using assms(2) by (simp add: in_txn_def)
  obtain j where j: "j < n" "\<not> used s j" "b = of_nat j" and h: "handed_out p (Suc (Suc k)) s j t"
    using balloc_loop_spec [OF assms(2,3), of 0] assms(4) by (auto simp: balloc_def n_def)
  note u = handed_out_used [OF h assms(3) j(1,2) i]
  have t: "in_txn p (Suc (Suc k)) t" "sb t = sb s" "\<And>c. c \<noteq> b \<and> c \<noteq> BBLOCK b (sb s) \<Longrightarrow> blk t c = blk s c"
    using h lframe_fs(1) [of s t] j(3) by (auto simp: handed_out_def Let_def)
  obtain v where v: "bfree 1 (of_nat j) t = Inr v" "in_txn p (Suc k) v" "lframe t v" "disk v = disk t"
    "\<And>c. c < n \<Longrightarrow> used v c \<longleftrightarrow> c \<noteq> j \<and> used t c"
    "\<And>c. c \<noteq> BBLOCK (of_nat j) (sb t) \<Longrightarrow> blk v c = blk t c"
    using bfree_spec [OF t(1) u(2) j(1)] u(1) [OF j(1)] by blast
  have uv: "used v c = used s c" if "c < n" for c using v(5) u(1) that j(2) by blast
  have "map_ok n v" by (rule map_ok_change [OF assms(3)]) (use uv v(4) h lframe_fs(1) [OF v(3)] t(2) in \<open>auto simp: handed_out_def\<close>)
  then have "bfree 1 (of_nat j) v = Inl (Panic ''freeing free block'')" using bfree_free [OF v(2)] j uv by blast
  then show ?thesis using v(1,6) uv t(2,3) j(3) by auto
qed

theorem bfree_undoes_balloc_witness:
  "\<exists>b t u. balloc 1 (binit small_fs) = Inr (b, t) \<and> bfree 1 b t = Inr u \<and> bfree 1 b u = Inl (Panic ''freeing free block'')"
proof -
  let ?s = "binit small_fs"
  have a: "in_txn 0 (Suc (Suc (Suc (Suc 0)))) ?s" "map_ok (unat (sbsize (sb ?s))) ?s"
    using small_fs_room(1) small_fs_map by (simp_all add: small_fs_binit small_fs_fields)
  obtain j t where "balloc 1 ?s = Inr (of_nat j, t)"
    using balloc_loop_spec [OF a, of 0] small_fs_37 by (auto simp: balloc_def small_fs_binit small_fs_fields)
  with bfree_undoes_balloc [OF a this] show ?thesis by blast
qed

end
