(* ===== verification/Ide.thy ===== *)
theory Ide
  imports Bio Sleep_Facts
begin

text \<open>
  The disk driver of \<^verbatim>\<open>ide.c\<close>: the queue of requests through the \<^verbatim>\<open>qnext\<close> fields of the buffers, the
  commands that it writes to the ports of the controller, and the interrupt that completes a
  request. \<open>ide_io\<close> is a write to a port. The controller enters through what the driver reads:
  \<open>ide_status\<close> are the values that the status register shows on successive reads, and zero after
  them; \<open>ide_data\<close> are the bytes that the data port delivers. \<open>ide_out\<close> are the writes so far.
\<close>

unbundle bit_operations_syntax

datatype ide_io = Outb nat byte | Outsl nat "byte list"

record kide = kbio +
  idelock :: spinlock
  idequeue :: "nat option"
  qnext :: "nat \<Rightarrow> nat option"
  havedisk1 :: bool
  ide_status :: "byte list"
  ide_data :: "byte list"
  ide_out :: "ide_io list"

abbreviation SECTOR_SIZE :: nat where "SECTOR_SIZE \<equiv> 512"
abbreviation FSSIZE :: "32 word" where "FSSIZE \<equiv> 1000"

abbreviation acq_ide :: "'a kide_scheme \<Rightarrow> 'a kide_scheme res" where
  "acq_ide \<equiv> acq idelock idelock_update"

abbreviation rel_ide :: "'a kide_scheme \<Rightarrow> 'a kide_scheme res" where
  "rel_ide \<equiv> rel idelock idelock_update"

section \<open>Ports\<close>

definition outb :: "nat \<Rightarrow> byte \<Rightarrow> 'a kide_scheme \<Rightarrow> 'a kide_scheme" where
  "outb port v s = s\<lparr>ide_out := ide_out s @ [Outb port v]\<rparr>"

definition outsl :: "nat \<Rightarrow> byte list \<Rightarrow> 'a kide_scheme \<Rightarrow> 'a kide_scheme" where
  "outsl port d s = s\<lparr>ide_out := ide_out s @ [Outsl port d]\<rparr>"

definition inb_status :: "'a kide_scheme \<Rightarrow> byte \<times> 'a kide_scheme" where
  "inb_status s = (case ide_status s of [] \<Rightarrow> (0, s) | r # rs \<Rightarrow> (r, s\<lparr>ide_status := rs\<rparr>))"

definition insl_data :: "nat \<Rightarrow> 'a kide_scheme \<Rightarrow> 'a kide_scheme" where
  "insl_data b s =
     (let d = take BSIZE (ide_data s @ replicate BSIZE 0)
      in (upd_buf b (bdata_update (\<lambda>_. d)) s)\<lparr>ide_data := drop BSIZE (ide_data s)\<rparr>)"

text \<open>
  \<open>idewait_loop\<close> reads the status until the disk is not busy and ready; when it never is, the loop
  does not end.
\<close>

fun idewait_loop :: "byte list \<Rightarrow> (byte \<times> byte list) res" where
  "idewait_loop [] = Inl Diverges"
| "idewait_loop (r # rs) = (if r AND (0x80 OR 0x40) = 0x40 then Inr (r, rs) else idewait_loop rs)"

definition idewait :: "bool \<Rightarrow> 'a kide_scheme \<Rightarrow> (int \<times> 'a kide_scheme) res" where
  "idewait checkerr s =
     bnd (idewait_loop (ide_status s)) (\<lambda>(r, rs).
       Inr (if checkerr \<and> r AND (0x20 OR 0x01) \<noteq> 0 then -1 else 0, s\<lparr>ide_status := rs\<rparr>))"

section \<open>The driver\<close>

fun ideinit_probe :: "nat \<Rightarrow> 'a kide_scheme \<Rightarrow> 'a kide_scheme" where
  "ideinit_probe 0 s = s"
| "ideinit_probe (Suc n) s =
     (let (r, s) = inb_status s in if r \<noteq> 0 then s\<lparr>havedisk1 := True\<rparr> else ideinit_probe n s)"

text \<open>\<^verbatim>\<open>ideinit\<close> without the call of \<^verbatim>\<open>ioapicenable\<close>, which routes the interrupt.\<close>

definition ideinit :: "'a kide_scheme \<Rightarrow> 'a kide_scheme res" where
  "ideinit s =
     (let s = s\<lparr>idelock := initlock (idelock s) ''ide''\<rparr> in
      bnd (idewait False s) (\<lambda>(_, s).
        let s = outb 0x1f6 (0xe0 OR push_bit 4 1) s;
            s = ideinit_probe 1000 s
        in Inr (outb 0x1f6 (0xe0 OR push_bit 4 0) s)))"

definition idestart :: "nat option \<Rightarrow> 'a kide_scheme \<Rightarrow> 'a kide_scheme res" where
  "idestart b s =
     (case b of None \<Rightarrow> Inl (Panic ''idestart'')
      | Some b \<Rightarrow>
        let bf = bufs s ! b in
        if blockno bf \<ge> FSSIZE then Inl (Panic ''incorrect blockno'')
        else let sector_per_block = BSIZE div SECTOR_SIZE;
                 sector = blockno bf * of_nat sector_per_block;
                 read_cmd = (if sector_per_block = 1 then 0x20 else 0xc4);
                 write_cmd = (if sector_per_block = 1 then 0x30 else 0xc5) in
          if sector_per_block > 7 then Inl (Panic ''idestart'')
          else bnd (idewait False s) (\<lambda>(_, s).
            let s = outb 0x3f6 0 s;
                s = outb 0x1f2 (of_nat sector_per_block) s;
                s = outb 0x1f3 (ucast (sector AND 0xff)) s;
                s = outb 0x1f4 (ucast (drop_bit 8 sector AND 0xff)) s;
                s = outb 0x1f5 (ucast (drop_bit 16 sector AND 0xff)) s;
                s = outb 0x1f6 (ucast (0xe0 OR push_bit 4 (bdev bf AND 1) OR (drop_bit 24 sector AND 0x0f))) s
            in Inr (if bdirty bf then outsl 0x1f0 (bdata bf) (outb 0x1f7 write_cmd s)
                    else outb 0x1f7 read_cmd s)))"

definition ideintr :: "'a kide_scheme \<Rightarrow> 'a kide_scheme res" where
  "ideintr s =
     bnd (acq_ide s) (\<lambda>s.
       case idequeue s of None \<Rightarrow> rel_ide s
       | Some b \<Rightarrow>
         let s = s\<lparr>idequeue := qnext s b\<rparr> in
         bnd (if bdirty (bufs s ! b) then Inr s
              else bnd (idewait True s) (\<lambda>(r, s). Inr (if r \<ge> 0 then insl_data b s else s))) (\<lambda>s.
           let s = upd_buf b (bvalid_update (\<lambda>_. True)) s;
               s = upd_buf b (bdirty_update (\<lambda>_. False)) s in
           bnd (wakeup (ChDisk b) s) (\<lambda>s.
           bnd (if idequeue s \<noteq> None then idestart (idequeue s) s else Inr s) rel_ide)))"

text \<open>
  The search for the end of the queue. A buffer is in the queue at most once, so that the end is
  found within \<^term>\<open>NBUF\<close> rounds.
\<close>

fun queue_end :: "nat \<Rightarrow> (nat \<Rightarrow> nat option) \<Rightarrow> nat \<Rightarrow> nat res" where
  "queue_end 0 q b = Inl Diverges"
| "queue_end (Suc n) q b = (case q b of None \<Rightarrow> Inr b | Some c \<Rightarrow> queue_end n q c)"

definition iderw_append :: "nat \<Rightarrow> 'a kide_scheme \<Rightarrow> 'a kide_scheme res" where
  "iderw_append b s =
     (let s = s\<lparr>qnext := (qnext s)(b := None)\<rparr> in
      case idequeue s of None \<Rightarrow> Inr (s\<lparr>idequeue := Some b\<rparr>)
      | Some h \<Rightarrow> bnd (queue_end NBUF (qnext s) h) (\<lambda>e. Inr (s\<lparr>qnext := (qnext s)(e := Some b)\<rparr>)))"

text \<open>\<^verbatim>\<open>iderw\<close>, split where it sleeps: a round of its loop, entered with \<^verbatim>\<open>idelock\<close> held.\<close>

definition iderw_round ::
    "nat \<Rightarrow> addr \<Rightarrow> 'a kide_scheme \<Rightarrow> (unit, unit, 'a kide_scheme) outcome res" where
  "iderw_round b sp s =
     (if \<not> (bvalid (bufs s ! b) \<and> \<not> bdirty (bufs s ! b))
      then bnd (sleep_out (ChDisk b) (OtherLk idelock idelock_update) sp s) (\<lambda>(i, s). Inr (Blk () i s))
      else bnd (rel_ide s) (\<lambda>s. Inr (Ret () s)))"

definition iderw_start ::
    "nat \<Rightarrow> addr \<Rightarrow> 'a kide_scheme \<Rightarrow> (unit, unit, 'a kide_scheme) outcome res" where
  "iderw_start b sp s =
     bnd (holdingsleep (blk_get b) (blk_upd b) s) (\<lambda>(h, s).
       let bf = bufs s ! b in
       if \<not> h then Inl (Panic ''iderw: buf not locked'')
       else if bvalid bf \<and> \<not> bdirty bf then Inl (Panic ''iderw: nothing to do'')
       else if bdev bf \<noteq> 0 \<and> \<not> havedisk1 s then Inl (Panic ''iderw: ide disk 1 not present'')
       else bnd (acq_ide s) (\<lambda>s.
         bnd (iderw_append b s) (\<lambda>s.
         bnd (if idequeue s = Some b then idestart (Some b) s else Inr s) (iderw_round b sp))))"

definition iderw_resume ::
    "nat \<Rightarrow> addr \<Rightarrow> nat \<Rightarrow> bool \<Rightarrow> 'a kide_scheme \<Rightarrow> (unit, unit, 'a kide_scheme) outcome res" where
  "iderw_resume b sp p i s = bnd (sleep_in p (OtherLk idelock idelock_update) i s) (iderw_round b sp)"

end
