(* ===== verification/Ide_Props.thy ===== *)
theory Ide_Props
  imports Ide Machine
begin

text \<open>
  The disk driver as a queue: what a request and an interrupt do to the queue, to the buffers and to
  the ports, and the order in which the disk is given the requests.
\<close>

unbundle bit_operations_syntax

interpretation il: proc_lock idelock "idelock_update :: _ \<Rightarrow> 'a kide_scheme \<Rightarrow> _" "\<lambda>_. True"
  by unfold_locales simp_all

section \<open>The commands of a request\<close>

text \<open>
  The writes to the ports that start a request: one sector, its number, the drive, and the command
  with the data if there are any to write.
\<close>

definition request :: "buf \<Rightarrow> ide_io list" where
  "request b =
     (let n = unat (blockno b) in
      [Outb 0x3f6 0, Outb 0x1f2 1, Outb 0x1f3 (of_nat (n mod 256)), Outb 0x1f4 (of_nat (n div 256)), Outb 0x1f5 0,
       Outb 0x1f6 (if odd (bdev b) then 0xf0 else 0xe0)] @
      (if bdirty b then [Outb 0x1f7 0x30, Outsl 0x1f0 (bdata b)] else [Outb 0x1f7 0x20]))"

definition is_ready :: "byte \<Rightarrow> bool" where
  "is_ready r \<longleftrightarrow> r AND 0xC0 = 0x40"

definition readies :: "byte list \<Rightarrow> nat" where
  "readies rs = length (filter is_ready rs)"

lemma low_byte: "ucast (w AND 0xff :: 32 word) = (of_nat (unat w) :: byte)"
proof -
  have "w AND 0xff = take_bit 8 w" using take_bit_eq_mask [of 8 w] by (simp add: mask_eq_exp_minus_1)
  then show ?thesis by (simp add: of_nat_unat) (rule bit_word_eqI, simp add: bit_simps)
qed

lemma of_nat_byte_mod: "(of_nat (n mod 256) :: byte) = of_nat n"
  by (rule word_unat_eq_iff [THEN iffD2]) (simp add: unat_of_nat)

lemma sector_bytes:
  assumes "w < (1000 :: 32 word)"
  shows "ucast (w AND 0xff) = (of_nat (unat w mod 256) :: byte)"
    "ucast (drop_bit 8 w AND 0xff) = (of_nat (unat w div 256) :: byte)"
    "drop_bit 16 w = 0" "drop_bit 24 w = 0"
proof -
  have n: "unat w < 1000" using assms by (simp add: word_less_nat_alt)
  show "ucast (w AND 0xff) = (of_nat (unat w mod 256) :: byte)" by (simp add: low_byte of_nat_byte_mod)
  have "unat (drop_bit 8 w) = unat w div 256"
    by (simp only: unat_drop_bit_eq) (simp add: drop_bit_eq_div)
  then show "ucast (drop_bit 8 w AND 0xff) = (of_nat (unat w div 256) :: byte)" by (simp only: low_byte)
  show "drop_bit 16 w = 0" "drop_bit 24 w = 0"
    using n by (simp_all only: word_unat_eq_iff unat_drop_bit_eq) (simp_all add: drop_bit_eq_div)
qed

lemma drive_byte: "ucast (0xe0 OR push_bit 4 d AND 0x10 :: 32 word) = (if odd d then 0xf0 else 0xe0 :: byte)"
proof -
  have "push_bit 4 d AND 0x10 = push_bit 4 (d AND 1)" by simp
  moreover have "d AND 1 = (if odd d then 1 else 0)" by (simp add: and_one_eq odd_iff_mod_2_eq_one even_iff_mod_2_eq_zero)
  ultimately show ?thesis by simp
qed

lemma idestart_run:
  assumes "blockno (bufs s ! b) < FSSIZE"
  shows "idestart (Some b) s =
    bnd (idewait_loop (ide_status s)) (\<lambda>x. Inr (s\<lparr>ide_status := snd x, ide_out := ide_out s @ request (bufs s ! b)\<rparr>))"
  using assms sector_bytes [OF assms]
  by (simp add: idestart_def idewait_def bnd_assoc case_prod_beta Let_def request_def drive_byte outb_def outsl_def
      not_le [symmetric] cong: bnd_cong)

lemma idestart_bad: "\<not> blockno (bufs s ! b) < FSSIZE \<Longrightarrow> idestart (Some b) s = Inl (Panic ''incorrect blockno'')"
  by (simp add: idestart_def not_less)

lemma idestart_result:
  assumes "idestart (Some b) s = Inr t"
  shows "blockno (bufs s ! b) < FSSIZE \<and> (\<exists>rs. t = s\<lparr>ide_status := rs, ide_out := ide_out s @ request (bufs s ! b)\<rparr>)"
  using assms by (cases "blockno (bufs s ! b) < FSSIZE") (auto simp: idestart_run idestart_bad bnd_eq_Inr)

section \<open>The interrupt\<close>

text \<open>
  What an interrupt does for the request of buffer \<open>b\<close>: \<open>fetched\<close> is the part that reads the data, and
  \<open>finished\<close> sets the flags and wakes the process that waits.
\<close>

definition fetched :: "nat \<Rightarrow> 'a kide_scheme \<Rightarrow> 'a kide_scheme res" where
  "fetched b s =
     (if bdirty (bufs s ! b) then Inr s
      else bnd (idewait_loop (ide_status s)) (\<lambda>(r, rs).
        Inr (if r AND 0x21 = 0 then insl_data b (s\<lparr>ide_status := rs\<rparr>) else s\<lparr>ide_status := rs\<rparr>)))"

definition finished :: "nat \<Rightarrow> 'a kide_scheme \<Rightarrow> 'a kide_scheme" where
  "finished b s = wakeup1 (ChDisk b) (upd_buf b (\<lambda>c. c\<lparr>bvalid := True, bdirty := False\<rparr>) s)"

definition started :: "'a kide_scheme \<Rightarrow> 'a kide_scheme res" where
  "started s = (if idequeue s \<noteq> None then idestart (idequeue s) s else Inr s)"

text \<open>Each of them works under the lock as it does without it.\<close>

definition under :: "('a kide_scheme \<Rightarrow> 'a kide_scheme res) \<Rightarrow> bool" where
  "under f \<longleftrightarrow> (\<forall>s. f (enter idelock_update s) = bnd (f s) (\<lambda>t. Inr (enter idelock_update t))) \<and>
     (\<forall>s t. f s = Inr t \<longrightarrow> kcpu t = kcpu s \<and> idelock t = idelock s \<and> ptable_lock t = ptable_lock s \<and> ptable t = ptable s)"

lemma under_fetched: "under (fetched b :: 'a kide_scheme \<Rightarrow> _)"
proof -
  have "bufs (enter idelock_update s) = bufs s" "ide_status (enter idelock_update s) = ide_status s" for s :: "'a kide_scheme"
    by (simp_all add: enter_def)
  moreover have "insl_data b ((enter idelock_update s)\<lparr>ide_status := rs\<rparr>) = enter idelock_update (insl_data b (s\<lparr>ide_status := rs\<rparr>))"
    "(enter idelock_update s)\<lparr>ide_status := rs\<rparr> = enter idelock_update (s\<lparr>ide_status := rs\<rparr>)" for s :: "'a kide_scheme" and rs
    by (simp_all add: enter_def insl_data_def upd_buf_def Let_def)
  moreover have "kcpu (insl_data b s) = kcpu s" "idelock (insl_data b s) = idelock s" "ptable_lock (insl_data b s) = ptable_lock s"
      "ptable (insl_data b s) = ptable s" for s :: "'a kide_scheme"
    by (simp_all add: insl_data_def upd_buf_def Let_def)
  ultimately show ?thesis
    by (auto simp: under_def fetched_def bnd_assoc case_prod_beta bnd_eq_Inr if_distrib [of "enter _"] cong: bnd_cong if_cong)
qed

lemma insl_data_fields [simp]:
  "length (bufs (insl_data b s)) = length (bufs s)" "idequeue (insl_data b s) = idequeue s" "qnext (insl_data b s) = qnext s"
  "ide_out (insl_data b s) = ide_out s" "ide_status (insl_data b s) = ide_status s" "ptable (insl_data b s) = ptable s"
  "c \<noteq> b \<Longrightarrow> bufs (insl_data b s) ! c = bufs s ! c"
  by (simp_all add: insl_data_def upd_buf_def Let_def)

lemma fetched_fields:
  assumes "fetched b s = Inr t"
  shows "length (bufs t) = length (bufs s)" "idequeue t = idequeue s" "qnext t = qnext s" "ide_out t = ide_out s"
    "ptable t = ptable s" "c \<noteq> b \<Longrightarrow> bufs t ! c = bufs s ! c"
  using assms by (auto simp: fetched_def bnd_eq_Inr split: if_splits)

lemma under_idestart: "under (idestart b :: 'a kide_scheme \<Rightarrow> _)"
proof (cases b)
  case None
  then show ?thesis by (simp add: under_def idestart_def)
next
  case (Some c)
  have e: "bufs (enter idelock_update s) = bufs s" "ide_status (enter idelock_update s) = ide_status s"
      "ide_out (enter idelock_update s) = ide_out s"
      "(enter idelock_update s)\<lparr>ide_status := rs, ide_out := x\<rparr> = enter idelock_update (s\<lparr>ide_status := rs, ide_out := x\<rparr>)"
    for s :: "'a kide_scheme" and rs x
    by (simp_all add: enter_def)
  have "idestart (Some c) (enter idelock_update s) = bnd (idestart (Some c) s) (\<lambda>t. Inr (enter idelock_update t))" for s :: "'a kide_scheme"
    by (cases "blockno (bufs s ! c) < FSSIZE")
      (simp_all add: idestart_run idestart_bad e bnd_assoc)
  moreover have "kcpu t = kcpu s \<and> idelock t = idelock s \<and> ptable_lock t = ptable_lock s \<and> ptable t = ptable s"
    if "idestart (Some c) s = Inr t" for s t :: "'a kide_scheme"
    using idestart_result [OF that] by auto
  ultimately show ?thesis by (simp add: under_def Some)
qed

lemma under_frame:
  assumes "under f" "f s = Inr t"
  shows "kcpu t = kcpu s" "idelock t = idelock s" "ptable_lock t = ptable_lock s" "ptable t = ptable s"
  using assms by (auto simp: under_def)

lemma under_enter:
  assumes "under f"
  shows "bnd (f (enter idelock_update s)) k = bnd (f s) (\<lambda>t. k (enter idelock_update t))"
proof -
  have "f (enter idelock_update s) = bnd (f s) (\<lambda>t. Inr (enter idelock_update t))" using assms by (simp add: under_def)
  then show ?thesis by (simp add: bnd_assoc)
qed

lemma under_rel:
  assumes "under f" "cpu_ok (kcpu s)" "lock_free (idelock s)"
  shows "bnd (f (enter idelock_update s)) rel_ide = f s"
proof (cases "f s")
  case (Inr t)
  then have "kcpu t = kcpu s" "idelock t = idelock s" using assms(1) by (simp_all add: under_frame)
  then show ?thesis using assms Inr by (simp add: under_def il.rel_enter)
qed (use assms in \<open>simp add: under_def\<close>)

lemma finished_enter: "finished b (enter idelock_update s) = enter idelock_update (finished b s)"
  by (simp add: finished_def wakeup1_def enter_def upd_buf_def)

lemma finished_fields [simp]:
  "kcpu (finished b s) = kcpu s" "idelock (finished b s) = idelock s" "ptable_lock (finished b s) = ptable_lock s"
  "idequeue (finished b s) = idequeue s" "qnext (finished b s) = qnext s" "ide_out (finished b s) = ide_out s"
  "ide_status (finished b s) = ide_status s"
  by (simp_all add: finished_def wakeup1_def upd_buf_def)

text \<open>The interrupt handler without the lock.\<close>

lemma ideintr_run:
  assumes "cpu_ok (kcpu s)" "lock_free (ptable_lock s)" "lock_free (idelock s)" "idequeue s = Some b" "b < length (bufs s)"
  shows "ideintr s = bnd (fetched b (s\<lparr>idequeue := qnext s b\<rparr>)) (\<lambda>t. started (finished b t))"
proof -
  let ?E = "enter idelock_update :: 'a kide_scheme \<Rightarrow> _"
  let ?s = "s\<lparr>idequeue := qnext s b\<rparr>"
  have q: "idequeue (?E s) = Some b" "(?E s)\<lparr>idequeue := qnext (?E s) b\<rparr> = ?E ?s"
    using assms(4) by (simp_all add: enter_def)
  have sign: "0 \<le> (if P then -1 else 0 :: int) \<longleftrightarrow> \<not> P" for P by simp
  have f: "(if bdirty (bufs t ! b) then Inr t
      else bnd (idewait True t) (\<lambda>(r, s). Inr (if r \<ge> 0 then insl_data b s else s))) = fetched b t" for t :: "'a kide_scheme"
    by (simp add: fetched_def idewait_def bnd_assoc case_prod_beta sign cong: bnd_cong if_cong)
  have w: "bnd (wakeup (ChDisk b) (upd_buf b (bdirty_update (\<lambda>_. False)) (upd_buf b (bvalid_update (\<lambda>_. True)) (?E t))))
        (\<lambda>s. bnd (if idequeue s \<noteq> None then idestart (idequeue s) s else Inr s) rel_ide) = started (finished b t)"
    if "fetched b ?s = Inr t" for t
  proof -
    have t: "kcpu t = kcpu s" "idelock t = idelock s" "ptable_lock t = ptable_lock s"
      using under_frame [OF under_fetched that] by simp_all
    have l: "b < length (bufs (?E t))" using fetched_fields(1) [OF that] assms(5) by (simp add: enter_def)
    let ?u = "upd_buf b (\<lambda>c. c\<lparr>bvalid := True, bdirty := False\<rparr>) (?E t)"
    have u: "upd_buf b (bdirty_update (\<lambda>_. False)) (upd_buf b (bvalid_update (\<lambda>_. True)) (?E t)) = ?u"
      using l by (simp add: upd_buf_twice)
    have "wakeup (ChDisk b) ?u = Inr (wakeup1 (ChDisk b) ?u)"
      using assms(1,2) t by (intro wakeup_ok) (simp_all add: upd_buf_def enter_def)
    also have "wakeup1 (ChDisk b) ?u = ?E (finished b t)" using finished_enter [of b t] by (simp add: finished_def)
    finally have x: "wakeup (ChDisk b) ?u = Inr (?E (finished b t))" .
    have i: "idequeue (?E v) = idequeue v" for v :: "'a kide_scheme" by (simp add: enter_def)
    have "bnd (idestart (idequeue (finished b t)) (?E (finished b t))) rel_ide = idestart (idequeue (finished b t)) (finished b t)"
      using assms t by (intro under_rel under_idestart) simp_all
    moreover have "rel_ide (?E (finished b t)) = Inr (finished b t)" using assms t by (intro il.rel_enter) simp_all
    ultimately show ?thesis by (simp add: u x i started_def del: finished_fields)
  qed
  have "bnd (fetched b (?E ?s)) (\<lambda>s. k s) = bnd (fetched b ?s) (\<lambda>t. k (?E t))" for k :: "'a kide_scheme \<Rightarrow> 'a kide_scheme res"
    by (rule under_enter) (rule under_fetched)
  with w show ?thesis using assms q
    by (simp add: ideintr_def il.acq_enter f Let_def cong: bnd_cong)
qed

section \<open>The queue\<close>

fun queued :: "(nat \<Rightarrow> nat option) \<Rightarrow> nat option \<Rightarrow> nat list \<Rightarrow> bool" where
  "queued q h [] \<longleftrightarrow> h = None"
| "queued q h (b # bs) \<longleftrightarrow> h = Some b \<and> queued q (q b) bs"

lemma queued_cong: "(\<And>b. b \<in> set bs \<Longrightarrow> q b = r b) \<Longrightarrow> queued q h bs = queued r h bs"
  by (induction bs arbitrary: h) auto

lemma queue_end_last: "queued q (Some h) (h # bs) \<Longrightarrow> length bs < n \<Longrightarrow> queue_end n q h = Inr (last (h # bs))"
proof (induction bs arbitrary: h n)
  case Nil
  then show ?case by (cases n) auto
next
  case (Cons b bs)
  then show ?case by (cases n) auto
qed

lemma queued_snoc:
  "queued q h bs \<Longrightarrow> bs \<noteq> [] \<Longrightarrow> distinct (bs @ [b]) \<Longrightarrow> queued (q(b := None, last bs := Some b)) h (bs @ [b])"
proof (induction bs arbitrary: h)
  case (Cons c bs)
  show ?case
  proof (cases "bs = []")
    case False
    then have "last bs \<noteq> c" using Cons.prems(3) last_in_set [OF False] by auto
    then show ?thesis using Cons False by simp
  qed (use Cons.prems in auto)
qed simp

text \<open>\<open>ide_queue ws s\<close>: the buffers of \<open>ws\<close> wait in this order, each of them with something to do.\<close>

definition ide_queue :: "nat list \<Rightarrow> 'a kide_scheme \<Rightarrow> bool" where
  "ide_queue ws s \<longleftrightarrow> queued (qnext s) (idequeue s) ws \<and> distinct ws \<and> lock_free (idelock s) \<and> length (bufs s) = Suc NBUF \<and>
     (\<forall>b\<in>set ws. b < NBUF \<and> \<not> (bvalid (bufs s ! b) \<and> \<not> bdirty (bufs s ! b)))"

definition enqueued :: "nat list \<Rightarrow> nat \<Rightarrow> 'a kide_scheme \<Rightarrow> 'a kide_scheme" where
  "enqueued ws b s =
     (if ws = [] then s\<lparr>qnext := (qnext s)(b := None), idequeue := Some b\<rparr>
      else s\<lparr>qnext := (qnext s)(b := None, last ws := Some b)\<rparr>)"

lemma room_in_queue:
  assumes "ide_queue ws s" "b < NBUF" "b \<notin> set ws"
  shows "length ws < NBUF"
proof -
  have "set (b # ws) \<subseteq> {..<NBUF}" "distinct (b # ws)" using assms by (auto simp: ide_queue_def)
  then have "length (b # ws) \<le> NBUF" using card_mono [of "{..<NBUF}" "set (b # ws)"] distinct_card [of "b # ws"] by simp
  then show ?thesis by simp
qed

lemma append_enqueued:
  assumes "ide_queue ws s" "b < NBUF" "b \<notin> set ws"
  shows "iderw_append b s = Inr (enqueued ws b s)"
proof (cases ws)
  case Nil
  then show ?thesis using assms by (simp add: iderw_append_def enqueued_def ide_queue_def)
next
  case (Cons h bs)
  have "queued (qnext s) (Some h) (h # bs)" using assms(1) Cons by (simp add: ide_queue_def)
  then have "queued ((qnext s)(b := None)) (Some h) (h # bs)"
    using assms(3) Cons by (subst queued_cong [of _ _ "qnext s"]) auto
  then have "queue_end NBUF ((qnext s)(b := None)) h = Inr (last (h # bs))"
    using room_in_queue [OF assms] Cons by (intro queue_end_last) simp_all
  then show ?thesis using assms(1) Cons by (simp add: iderw_append_def enqueued_def ide_queue_def)
qed

lemma append_enter:
  "iderw_append b (enter idelock_update s) = bnd (iderw_append b s) (\<lambda>t. Inr (enter idelock_update t))"
proof (cases "idequeue s")
  case None
  then show ?thesis by (simp add: iderw_append_def enter_def Let_def)
next
  case (Some h)
  then show ?thesis by (cases "queue_end NBUF ((qnext s)(b := None)) h") (simp_all add: iderw_append_def enter_def Let_def)
qed

lemma enqueued_fields [simp]:
  "kcpu (enqueued ws b s) = kcpu s" "idelock (enqueued ws b s) = idelock s" "ptable_lock (enqueued ws b s) = ptable_lock s"
  "ptable (enqueued ws b s) = ptable s" "bufs (enqueued ws b s) = bufs s" "ide_out (enqueued ws b s) = ide_out s"
  "ide_status (enqueued ws b s) = ide_status s" "quiet p (enqueued ws b s) = quiet p s"
  by (simp_all add: enqueued_def quiet_def)

lemma queue_enqueued:
  assumes "ide_queue ws s" "b < NBUF" "b \<notin> set ws" "\<not> (bvalid (bufs s ! b) \<and> \<not> bdirty (bufs s ! b))"
  shows "ide_queue (ws @ [b]) (enqueued ws b s)"
proof -
  have "queued (qnext (enqueued ws b s)) (idequeue (enqueued ws b s)) (ws @ [b])"
    using assms(1,3) queued_snoc [of "qnext s" "idequeue s" ws b] by (auto simp: enqueued_def ide_queue_def)
  then show ?thesis using assms by (auto simp: ide_queue_def)
qed

lemma head_enqueued: "ide_queue ws s \<Longrightarrow> b \<notin> set ws \<Longrightarrow> idequeue (enqueued ws b s) = Some b \<longleftrightarrow> ws = []"
  by (cases ws) (auto simp: enqueued_def ide_queue_def)

section \<open>A request\<close>

text \<open>A process that holds the lock of a buffer queues it, starts the disk if it was idle, and sleeps.\<close>

lemma iderw_start_run:
  assumes "quiet p s" "ncli (kcpu s) = 0" "p < length (ptable s)" "ide_queue ws s" "b < NBUF" "b \<notin> set ws"
    "lock_free (slk (block (bufs s ! b)))" "slocked (block (bufs s ! b))" "spid (block (bufs s ! b)) = pid (ptable s ! p)"
    "\<not> (bvalid (bufs s ! b) \<and> \<not> bdirty (bufs s ! b))" "bdev (bufs s ! b) = 0 \<or> havedisk1 s"
  shows "iderw_start b sp s =
    bnd (if ws = [] then idestart (Some b) (enqueued ws b s) else Inr (enqueued ws b s))
      (\<lambda>t. Inr (Blk () (intena (kcpu s)) (asleep p (ChDisk b) sp (enter ptable_lock_update t))))"
proof -
  let ?E = "enter idelock_update :: 'a kide_scheme \<Rightarrow> _" and ?e = "enqueued ws b s"
  have c: "cpu_ok (kcpu s)" and l: "lock_free (idelock s)" and n: "b < length (bufs s)"
    using assms(1,4,5) by (simp_all add: quiet_def ide_queue_def)
  have a: "iderw_append b (?E s) = Inr (?E ?e)"
    using append_enqueued [OF assms(4-6)] by (simp add: append_enter)
  have i: "idequeue (?E v) = idequeue v" "bufs (?E v) = bufs v" for v :: "'a kide_scheme" by (simp_all add: enter_def)
  have r: "iderw_round b sp (?E t) = Inr (Blk () (intena (kcpu s)) (asleep p (ChDisk b) sp (enter ptable_lock_update t)))"
    if "kcpu t = kcpu s" "idelock t = idelock s" "ptable_lock t = ptable_lock s" "ptable t = ptable s" "bufs t = bufs s" for t
    using assms(1-3,10) l that il.sleep_enter [of p t "ChDisk b" sp] by (simp add: iderw_round_def i quiet_def)
  have f: "bufs t = bufs s" if "idestart (Some b) ?e = Inr t" for t
    using idestart_result [OF that] by auto
  have "bnd (idestart (Some b) (?E ?e)) (iderw_round b sp) = bnd (idestart (Some b) ?e) (\<lambda>t. iderw_round b sp (?E t))"
    by (rule under_enter) (rule under_idestart)
  also have "\<dots> = bnd (idestart (Some b) ?e) (\<lambda>t. Inr (Blk () (intena (kcpu s)) (asleep p (ChDisk b) sp (enter ptable_lock_update t))))"
  proof (rule bnd_cong [OF refl])
    fix t assume "idestart (Some b) ?e = Inr t"
    from under_frame [OF under_idestart this] f [OF this]
    show "iderw_round b sp (?E t) = Inr (Blk () (intena (kcpu s)) (asleep p (ChDisk b) sp (enter ptable_lock_update t)))"
      by (intro r) simp_all
  qed
  finally have s: "bnd (idestart (Some b) (?E ?e)) (iderw_round b sp) =
      bnd (idestart (Some b) ?e) (\<lambda>t. Inr (Blk () (intena (kcpu s)) (asleep p (ChDisk b) sp (enter ptable_lock_update t))))" .
  have n1: "(bvalid (bufs s ! b) \<and> \<not> bdirty (bufs s ! b)) = False" and n2: "(bdev (bufs s ! b) \<noteq> 0 \<and> \<not> havedisk1 s) = False"
    using assms(10,11) by auto
  have "iderw_start b sp s = bnd (if ws = [] then idestart (Some b) (?E ?e) else Inr (?E ?e)) (iderw_round b sp)"
    by (simp only: iderw_start_def holding_buf [OF assms(1) n assms(7-9)] bnd_simps prod.case Let_def n1 n2
        not_True_eq_False if_False il.acq_enter [OF c TrueI l] a i head_enqueued [OF assms(4,6)])
  with s r [of ?e] show ?thesis by (cases "ws = []") simp_all
qed

section \<open>The order of the requests\<close>

text \<open>
  \<open>ide_req\<close> is a request as it was made: the buffer, the process that holds its lock, and the commands for
  its contents. \<open>others\<close> are the steps of the rest of the kernel: they leave the driver alone, and of the
  buffers in the queue they keep the contents and the lock, whose holder sleeps.
\<close>

record ide_req =
  rbuf :: nat
  rpid :: int
  rcmds :: "ide_io list"

definition others :: "nat list \<Rightarrow> 'a kide_scheme \<Rightarrow> 'a kide_scheme \<Rightarrow> bool" where
  "others ws s t \<longleftrightarrow> idequeue t = idequeue s \<and> qnext t = qnext s \<and> idelock t = idelock s \<and> ide_out t = ide_out s \<and>
     length (bufs t) = length (bufs s) \<and>
     (\<forall>b\<in>set ws. core (bufs t ! b) = core (bufs s ! b) \<and> slocked (block (bufs t ! b)) = slocked (block (bufs s ! b)) \<and>
        spid (block (bufs t ! b)) = spid (block (bufs s ! b)))"

text \<open>
  \<open>ide_run rs n s\<close>: the kernel can reach \<open>s\<close> after the requests \<open>rs\<close>, of which the first \<open>n\<close> have been completed
  by an interrupt. A process makes one request at a time.
\<close>

inductive ide_run :: "ide_req list \<Rightarrow> nat \<Rightarrow> 'a kide_scheme \<Rightarrow> bool" where
  boot: "idequeue s = None \<Longrightarrow> lock_free (idelock s) \<Longrightarrow> length (bufs s) = Suc NBUF \<Longrightarrow> ide_out s = [] \<Longrightarrow> ide_run [] 0 s"
| other: "ide_run rs n s \<Longrightarrow> others (map rbuf (drop n rs)) s t \<Longrightarrow> ide_run rs n t"
| request: "ide_run rs n s \<Longrightarrow> quiet p s \<Longrightarrow> ncli (kcpu s) = 0 \<Longrightarrow> p < length (ptable s) \<Longrightarrow>
    pid (ptable s ! p) \<notin> set (map rpid (drop n rs)) \<Longrightarrow> b < NBUF \<Longrightarrow> lock_free (slk (block (bufs s ! b))) \<Longrightarrow>
    iderw_start b sp s = Inr (Blk () i t) \<Longrightarrow>
    ide_run (rs @ [\<lparr>rbuf = b, rpid = pid (ptable s ! p), rcmds = request (bufs s ! b)\<rparr>]) n t"
| interrupt: "ide_run rs n s \<Longrightarrow> cpu_ok (kcpu s) \<Longrightarrow> lock_free (ptable_lock s) \<Longrightarrow> ideintr s = Inr t \<Longrightarrow>
    ide_run rs (if idequeue s = None then n else Suc n) t"

definition waits :: "ide_req \<Rightarrow> 'a kide_scheme \<Rightarrow> bool" where
  "waits r s \<longleftrightarrow> slocked (block (bufs s ! rbuf r)) \<and> spid (block (bufs s ! rbuf r)) = rpid r \<and> rcmds r = request (bufs s ! rbuf r)"

definition ide_state :: "ide_req list \<Rightarrow> nat \<Rightarrow> 'a kide_scheme \<Rightarrow> bool" where
  "ide_state rs n s \<longleftrightarrow> n \<le> length rs \<and> ide_queue (map rbuf (drop n rs)) s \<and>
     ide_out s = concat (map rcmds (take (Suc n) rs)) \<and> (\<forall>r\<in>set (drop n rs). waits r s)"

lemma core_eqD:
  assumes "core c = core d"
  shows "bvalid c = bvalid d" "bdirty c = bdirty d" "bdev c = bdev d" "blockno c = blockno d" "bdata c = bdata d"
  using arg_cong [OF assms, of bvalid] arg_cong [OF assms, of bdirty] arg_cong [OF assms, of bdev]
    arg_cong [OF assms, of blockno] arg_cong [OF assms, of bdata] by simp_all

lemma request_core: "core c = core d \<Longrightarrow> request c = request d"
  by (simp add: request_def core_eqD [of c d])

lemma ide_state_others:
  assumes "ide_state rs n s" "others (map rbuf (drop n rs)) s t"
  shows "ide_state rs n t"
proof -
  have c: "core (bufs t ! rbuf r) = core (bufs s ! rbuf r)" "slocked (block (bufs t ! rbuf r)) = slocked (block (bufs s ! rbuf r))"
      "spid (block (bufs t ! rbuf r)) = spid (block (bufs s ! rbuf r))" if "r \<in> set (drop n rs)" for r
    using assms(2) that by (auto simp: others_def)
  have "bvalid (bufs t ! rbuf r) = bvalid (bufs s ! rbuf r)" "bdirty (bufs t ! rbuf r) = bdirty (bufs s ! rbuf r)"
    if "r \<in> set (drop n rs)" for r
    using core_eqD [OF c(1) [OF that]] by simp_all
  then have "ide_queue (map rbuf (drop n rs)) t" using assms by (auto simp: ide_state_def ide_queue_def others_def)
  moreover have "waits r t" if "r \<in> set (drop n rs)" for r
    using assms(1) that c [OF that] request_core [OF c(1) [OF that]] by (simp add: ide_state_def waits_def)
  ultimately show ?thesis using assms by (simp add: ide_state_def others_def)
qed

lemma iderw_start_checks:
  assumes "quiet p s" "b < length (bufs s)" "lock_free (slk (block (bufs s ! b)))" "iderw_start b sp s = Inr r"
  shows "slocked (block (bufs s ! b))" "spid (block (bufs s ! b)) = pid (ptable s ! p)"
    "\<not> (bvalid (bufs s ! b) \<and> \<not> bdirty (bufs s ! b))" "bdev (bufs s ! b) = 0 \<or> havedisk1 s"
  using assms(4) by (auto simp: iderw_start_def bl.holdingsleep_quiet [where i = b, OF assms(1-3)] Let_def split: if_splits)

lemma asleep_ide [simp]:
  "idequeue (asleep p c sp (enter ptable_lock_update s)) = idequeue s" "qnext (asleep p c sp (enter ptable_lock_update s)) = qnext s"
  "idelock (asleep p c sp (enter ptable_lock_update s)) = idelock s" "ide_out (asleep p c sp (enter ptable_lock_update s)) = ide_out s"
  "bufs (asleep p c sp (enter ptable_lock_update s)) = bufs s" "ide_status (asleep p c sp (enter ptable_lock_update s)) = ide_status s"
  "ide_data (asleep p c sp (enter ptable_lock_update s)) = ide_data s"
  by (simp_all add: asleep_def upd_proc_def enter_def)

lemma ide_queue_cong:
  "idequeue t = idequeue s \<Longrightarrow> qnext t = qnext s \<Longrightarrow> idelock t = idelock s \<Longrightarrow> bufs t = bufs s \<Longrightarrow> ide_queue ws t = ide_queue ws s"
  by (simp add: ide_queue_def)

lemma ide_state_request:
  assumes st: "ide_state rs n s" and q: "quiet p s" "ncli (kcpu s) = 0" "p < length (ptable s)"
    and np: "pid (ptable s ! p) \<notin> set (map rpid (drop n rs))" and b: "b < NBUF" "lock_free (slk (block (bufs s ! b)))"
    and r: "iderw_start b sp s = Inr (Blk () i t)"
  shows "ide_state (rs @ [\<lparr>rbuf = b, rpid = pid (ptable s ! p), rcmds = request (bufs s ! b)\<rparr>]) n t"
proof -
  let ?ws = "map rbuf (drop n rs)" and ?r = "\<lparr>rbuf = b, rpid = pid (ptable s ! p), rcmds = request (bufs s ! b)\<rparr>"
  have iq: "ide_queue ?ws s" and n: "n \<le> length rs" and o: "ide_out s = concat (map rcmds (take (Suc n) rs))"
    and w: "\<And>r. r \<in> set (drop n rs) \<Longrightarrow> waits r s"
    using st by (simp_all add: ide_state_def)
  have "b < length (bufs s)" using iq b(1) by (simp add: ide_queue_def)
  note k = iderw_start_checks [OF q(1) this b(2) r]
  have nw: "b \<notin> set ?ws"
  proof
    assume "b \<in> set ?ws"
    then obtain x where "x \<in> set (drop n rs)" "rbuf x = b" by auto
    then show False using w [of x] k(2) np by (force simp: waits_def)
  qed
  note run = iderw_start_run [OF q iq b(1) nw b(2) k]
  have "\<exists>v. t = asleep p (ChDisk b) sp (enter ptable_lock_update v) \<and> idequeue v = idequeue (enqueued ?ws b s) \<and>
      qnext v = qnext (enqueued ?ws b s) \<and> idelock v = idelock s \<and> bufs v = bufs s \<and>
      ide_out v = ide_out s @ (if ?ws = [] then request (bufs s ! b) else [])"
  proof (cases "?ws = []")
    case True
    then obtain v where v: "idestart (Some b) (enqueued ?ws b s) = Inr v" "t = asleep p (ChDisk b) sp (enter ptable_lock_update v)"
      using run r by (auto simp: bnd_eq_Inr)
    then show ?thesis using idestart_result [OF v(1)] True by auto
  qed (use run r in auto)
  then obtain v where v: "t = asleep p (ChDisk b) sp (enter ptable_lock_update v)" "idequeue v = idequeue (enqueued ?ws b s)"
      "qnext v = qnext (enqueued ?ws b s)" "idelock v = idelock s" "bufs v = bufs s"
      "ide_out v = ide_out s @ (if ?ws = [] then request (bufs s ! b) else [])" by blast
  have "ide_queue (?ws @ [b]) t"
    using queue_enqueued [OF iq b(1) nw k(3)] v by (subst ide_queue_cong [of _ "enqueued ?ws b s"]) simp_all
  moreover have "ide_out t = concat (map rcmds (take (Suc n) (rs @ [?r])))"
    using v o n by (cases "n = length rs") simp_all
  moreover have "waits x t" if "x \<in> set (drop n rs @ [?r])" for x
    using that w k v by (auto simp: waits_def)
  ultimately show ?thesis using n by (simp add: ide_state_def)
qed

lemma ideintr_idle: "cpu_ok (kcpu s) \<Longrightarrow> lock_free (idelock s) \<Longrightarrow> idequeue s = None \<Longrightarrow> ideintr s = Inr s"
  by (simp add: ideintr_def il.acq_enter il.rel_enter) (simp add: enter_def il.rel_enter [unfolded enter_def])

lemma started_result:
  assumes "started s = Inr t"
  shows "idequeue t = idequeue s" "qnext t = qnext s" "idelock t = idelock s" "bufs t = bufs s" "ptable t = ptable s"
    "ide_out t = ide_out s @ (case idequeue s of None \<Rightarrow> [] | Some c \<Rightarrow> request (bufs s ! c))"
proof -
  have "\<exists>rs. t = s\<lparr>ide_status := rs, ide_out := ide_out s @ (case idequeue s of None \<Rightarrow> [] | Some c \<Rightarrow> request (bufs s ! c))\<rparr>"
  proof (cases "idequeue s")
    case None
    then show ?thesis using assms by (intro exI [of _ "ide_status s"]) (simp add: started_def)
  next
    case (Some c)
    then have "idestart (Some c) s = Inr t" using assms by (simp add: started_def)
    then show ?thesis using idestart_result Some by fastforce
  qed
  then obtain rs where "t = s\<lparr>ide_status := rs, ide_out := ide_out s @ (case idequeue s of None \<Rightarrow> [] | Some c \<Rightarrow> request (bufs s ! c))\<rparr>" ..
  then show "idequeue t = idequeue s" "qnext t = qnext s" "idelock t = idelock s" "bufs t = bufs s" "ptable t = ptable s"
    "ide_out t = ide_out s @ (case idequeue s of None \<Rightarrow> [] | Some c \<Rightarrow> request (bufs s ! c))"
    by simp_all
qed

lemma finished_bufs [simp]:
  "length (bufs (finished b s)) = length (bufs s)" "c \<noteq> b \<Longrightarrow> bufs (finished b s) ! c = bufs s ! c"
  by (simp_all add: finished_def wakeup1_def upd_buf_def)

lemma ideintr_result:
  assumes c: "cpu_ok (kcpu s)" "lock_free (ptable_lock s)" and iq: "ide_queue (b # ws) s" and r: "ideintr s = Inr t"
  shows "ide_queue ws t" "ide_out t = ide_out s @ (case ws of [] \<Rightarrow> [] | c # _ \<Rightarrow> request (bufs s ! c))"
    "\<And>c. c \<noteq> b \<Longrightarrow> bufs t ! c = bufs s ! c"
proof -
  let ?s = "s\<lparr>idequeue := qnext s b\<rparr>"
  have h: "idequeue s = Some b" "queued (qnext s) (qnext s b) ws" "b \<notin> set ws" and l: "lock_free (idelock s)" "b < length (bufs s)"
    using iq by (simp_all add: ide_queue_def)
  obtain v where v: "fetched b ?s = Inr v" "started (finished b v) = Inr t"
    using r ideintr_run [OF c l(1) h(1) l(2)] by (auto simp: bnd_eq_Inr)
  note f = fetched_fields [OF v(1)] and g = started_result [OF v(2)]
  have lk: "idelock v = idelock s" using under_frame(2) [OF under_fetched v(1)] by simp
  show o: "bufs t ! c = bufs s ! c" if "c \<noteq> b" for c
    using that g(4) f(6) [OF that] by simp
  have "queued (qnext t) (idequeue t) ws" using h(2) g(1,2) f(2,3) by simp
  moreover have "bufs t ! c = bufs s ! c" if "c \<in> set ws" for c using that h(3) by (intro o) auto
  ultimately show "ide_queue ws t" using iq g(3,4) f(1) lk by (simp add: ide_queue_def)
  have "qnext s b = (case ws of [] \<Rightarrow> None | c # _ \<Rightarrow> Some c)" using h(2) by (cases ws) simp_all
  moreover have "bufs (finished b v) ! hd ws = bufs s ! hd ws" if "ws \<noteq> []"
    using that h(3) f(6) [of "hd ws"] by (cases ws) auto
  ultimately show "ide_out t = ide_out s @ (case ws of [] \<Rightarrow> [] | c # _ \<Rightarrow> request (bufs s ! c))"
    using g(6) f(2,4) by (cases ws) simp_all
qed

lemma ide_state_interrupt:
  assumes st: "ide_state rs n s" and c: "cpu_ok (kcpu s)" "lock_free (ptable_lock s)" and r: "ideintr s = Inr t"
  shows "ide_state rs (if idequeue s = None then n else Suc n) t"
proof (cases "idequeue s")
  case None
  then have "t = s" using st c r by (simp add: ideintr_idle ide_state_def ide_queue_def)
  then show ?thesis using st None by simp
next
  case (Some b)
  have iq: "ide_queue (map rbuf (drop n rs)) s" and o: "ide_out s = concat (map rcmds (take (Suc n) rs))"
    and w: "\<And>r. r \<in> set (drop n rs) \<Longrightarrow> waits r s"
    using st by (simp_all add: ide_state_def)
  have n: "n < length rs" using iq Some by (cases "drop n rs") (auto simp: ide_queue_def)
  then have d: "drop n rs = rs ! n # drop (Suc n) rs" by (simp add: Cons_nth_drop_Suc)
  have "ide_queue (rbuf (rs ! n) # map rbuf (drop (Suc n) rs)) s" using iq d by simp
  note i = ideintr_result [OF c this r]
  have nb: "rbuf x \<noteq> rbuf (rs ! n)" if "x \<in> set (drop (Suc n) rs)" for x
  proof -
    have "rbuf (rs ! n) \<notin> rbuf ` set (drop (Suc n) rs)" using iq d by (simp add: ide_queue_def)
    then show ?thesis using imageI [OF that, of rbuf] by metis
  qed
  have "waits x t" if "x \<in> set (drop (Suc n) rs)" for x
    using w [of x] i(3) [OF nb [OF that]] d that by (simp add: waits_def)
  moreover have "ide_out t = concat (map rcmds (take (Suc (Suc n)) rs))"
  proof (cases "Suc n < length rs")
    case True
    then have e: "drop (Suc n) rs = rs ! Suc n # drop (Suc (Suc n)) rs" by (simp add: Cons_nth_drop_Suc)
    then have "waits (rs ! Suc n) s" using w [of "rs ! Suc n"] d by simp
    then show ?thesis using i(2) o e True by (simp add: waits_def take_Suc_conv_app_nth [of "Suc n"])
  qed (use i(2) o n in simp)
  ultimately show ?thesis using i(1) n Some by (simp add: ide_state_def)
qed

lemma ide_state_run: "ide_run rs n s \<Longrightarrow> ide_state rs n s"
proof (induction rule: ide_run.induct)
  case (boot s)
  then show ?case by (simp add: ide_state_def ide_queue_def)
next
  case (other rs n s t)
  then show ?case by (blast intro: ide_state_others)
next
  case (request rs n s p b sp i t)
  then show ?case by (intro ide_state_request)
next
  case (interrupt rs n s t)
  then show ?case by (intro ide_state_interrupt)
qed

text \<open>
  C12: the disk is given the requests one at a time and in the order in which they were made, each with
  the contents that its buffer had then. After any sequence of requests by processes that hold the
  locks of their buffers, interrupts, and steps of the rest of the kernel: the ports have seen exactly
  the commands of the completed requests and of the one after them, and the requests that are not
  completed are the queue.
\<close>

theorem disk_requests_in_order:
  assumes "ide_run rs n s"
  shows "n \<le> length rs \<and> ide_queue (map rbuf (drop n rs)) s \<and> ide_out s = concat (map rcmds (take (Suc n) rs))"
  using ide_state_run [OF assms] by (simp add: ide_state_def)

text \<open>
  C37: a failed read counts as a read. When the disk reports an error for the buffer at the head of the queue, the
  interrupt leaves the old data in it and marks it valid all the same.
\<close>

theorem read_error_ignored:
  assumes "cpu_ok (kcpu s)" "lock_free (ptable_lock s)" "ide_queue [b] s" "\<not> bdirty (bufs s ! b)"
    "idewait_loop (ide_status s) = Inr (r, rs)" "r AND 0x21 \<noteq> 0"
  shows "\<exists>t. ideintr s = Inr t \<and> \<not> bvalid (bufs s ! b) \<and> bvalid (bufs t ! b) \<and> bdata (bufs t ! b) = bdata (bufs s ! b)"
proof -
  have q: "idequeue s = Some b" "qnext s b = None" "lock_free (idelock s)" "b < length (bufs s)" "\<not> bvalid (bufs s ! b)"
    using assms(3,4) by (auto simp: ide_queue_def)
  let ?s = "s\<lparr>idequeue := None, ide_status := rs\<rparr>"
  have "ideintr s = Inr (finished b ?s)"
    using ideintr_run [OF assms(1,2) q(3,1,4)] assms(4-6) q(2) by (simp add: fetched_def started_def)
  moreover have "bvalid (bufs (finished b ?s) ! b)" "bdata (bufs (finished b ?s) ! b) = bdata (bufs s ! b)"
    using q(4) by (simp_all add: finished_def wakeup1_def upd_buf_def)
  ultimately show ?thesis using q(5) by blast
qed

section \<open>The two drivers\<close>

text \<open>What either driver leaves in the buffer: after a write its own data, after a read those of the disk, and valid.\<close>

definition synced :: "byte list \<Rightarrow> buf \<Rightarrow> buf" where
  "synced d c = (if bdirty c then c else c\<lparr>bdata := d\<rparr>)\<lparr>bvalid := True, bdirty := False\<rparr>"

lemma core_synced: "core c = core e \<Longrightarrow> core (synced d c) = core (synced d e)"
  by (cases c; cases e) (simp add: core_def synced_def)

lemma iderw_memide:
  assumes "quiet p s" "b < length (bufs s)" "lock_free (slk (block (bufs s ! b)))"
    "slocked (block (bufs s ! b))" "spid (block (bufs s ! b)) = pid (ptable s ! p)"
    "\<not> (bvalid (bufs s ! b) \<and> \<not> bdirty (bufs s ! b))" "bdev (bufs s ! b) = 1" "unat (blockno (bufs s ! b)) < length (disk s)"
  shows "\<exists>v. iderw b s = Inr v \<and> bufs v ! b = synced (disk s ! unat (blockno (bufs s ! b))) (bufs s ! b)"
proof (cases "bdirty (bufs s ! b)")
  case True
  then show ?thesis using assms(2,7,8)
    by (simp add: iderw_def holding_buf [OF assms(1-5)] Let_def) (simp add: upd_buf_def synced_def)
next
  case False
  then show ?thesis using assms(2,6-8)
    by (simp add: iderw_read [OF assms(1-5)]) (simp add: upd_buf_def synced_def)
qed

lemma readies_Suc:
  assumes "readies rs = Suc n"
  obtains r rs' where "idewait_loop rs = Inr (r, rs')" "readies rs' = n" "is_ready r" "r \<in> set rs" "set rs' \<subseteq> set rs"
proof -
  have "\<exists>r rs'. idewait_loop rs = Inr (r, rs') \<and> readies rs' = n \<and> is_ready r \<and> r \<in> set rs \<and> set rs' \<subseteq> set rs"
    using assms by (induction rs) (auto simp: readies_def is_ready_def subset_iff)
  then show ?thesis using that by blast
qed

lemma fetched_run:
  assumes "b < length (bufs s)" "readies (ide_status s) \<noteq> 0" "\<forall>r\<in>set (ide_status s). is_ready r \<longrightarrow> r AND 0x21 = 0"
  shows "\<exists>v. fetched b s = Inr v \<and> idequeue v = idequeue s \<and> ide_out v = ide_out s \<and> ptable v = ptable s \<and>
    bufs (finished b v) ! b = synced (take BSIZE (ide_data s @ replicate BSIZE 0)) (bufs s ! b)"
proof (cases "bdirty (bufs s ! b)")
  case True
  then show ?thesis using assms(1) by (simp add: fetched_def) (simp add: finished_def wakeup1_def upd_buf_def synced_def)
next
  case False
  obtain n where "readies (ide_status s) = Suc n" using assms(2) by (cases "readies (ide_status s)") auto
  then obtain r rs where r: "idewait_loop (ide_status s) = Inr (r, rs)" "is_ready r" "r \<in> set (ide_status s)" by (rule readies_Suc)
  then have f: "fetched b s = Inr (insl_data b (s\<lparr>ide_status := rs\<rparr>))" using False assms(3) by (simp add: fetched_def)
  have "bufs (insl_data b t) = (bufs t)[b := (bufs t ! b)\<lparr>bdata := take BSIZE (ide_data t @ replicate BSIZE 0)\<rparr>]" for t :: "'a kide_scheme"
    unfolding insl_data_def upd_buf_def Let_def by simp
  then have "bufs (finished b (insl_data b (s\<lparr>ide_status := rs\<rparr>))) ! b =
      (bufs s ! b)\<lparr>bdata := take BSIZE (ide_data s @ replicate BSIZE 0), bvalid := True, bdirty := False\<rparr>"
    using assms(1) unfolding finished_def wakeup1_def upd_buf_def by simp
  with f False show ?thesis by (simp add: synced_def)
qed

text \<open>
  C13: on an idle disk, a request of \<^verbatim>\<open>ide.c\<close> followed by its interrupt leaves in the buffer what \<^verbatim>\<open>iderw\<close> of
  \<^verbatim>\<open>memide.c\<close> does, on which the proofs about the cache and the log rest. The process sleeps after the
  commands for the buffer have gone to the ports; whatever the rest of the kernel does meanwhile, the
  interrupt completes the request, wakes the process and leaves the disk idle. The hypotheses on the disk:
  it becomes ready twice, reports no error, and delivers the block that is read.
\<close>

theorem ide_syncs_like_memide:
  assumes "quiet p s" "ncli (kcpu s) = 0" "p < length (ptable s)" "ide_queue [] s" "b < NBUF"
    "lock_free (slk (block (bufs s ! b)))" "slocked (block (bufs s ! b))" "spid (block (bufs s ! b)) = pid (ptable s ! p)"
    "\<not> (bvalid (bufs s ! b) \<and> \<not> bdirty (bufs s ! b))" "bdev (bufs s ! b) = 1" "havedisk1 s"
    "blockno (bufs s ! b) < FSSIZE" "unat (blockno (bufs s ! b)) < length (disk s)"
    "2 \<le> readies (ide_status s)" "\<forall>r\<in>set (ide_status s). is_ready r \<longrightarrow> r AND 0x21 = 0"
    "\<not> bdirty (bufs s ! b) \<longrightarrow> take BSIZE (ide_data s @ replicate BSIZE 0) = disk s ! unat (blockno (bufs s ! b))"
  shows "\<exists>i t. iderw_start b sp s = Inr (Blk () i t) \<and> ide_out t = ide_out s @ request (bufs s ! b) \<and>
    pstate (ptable t ! p) = SLEEPING \<and> pchan (ptable t ! p) = ChDisk b \<and>
    (\<forall>w. others [b] t w \<and> ide_status w = ide_status t \<and> ide_data w = ide_data t \<and> cpu_ok (kcpu w) \<and> lock_free (ptable_lock w) \<longrightarrow>
      (\<exists>u v. ideintr w = Inr u \<and> iderw b s = Inr v \<and> core (bufs u ! b) = core (bufs v ! b) \<and> idequeue u = None \<and>
         ide_out u = ide_out t \<and> ptable u = ptable (wakeup1 (ChDisk b) w)))"
proof -
  have l: "b < length (bufs s)" using assms(4,5) by (simp add: ide_queue_def)
  obtain n where "readies (ide_status s) = Suc n" "n \<noteq> 0" using assms(14) by (cases "readies (ide_status s)") auto
  then obtain r rs where r: "idewait_loop (ide_status s) = Inr (r, rs)" "readies rs \<noteq> 0" "set rs \<subseteq> set (ide_status s)"
    by (metis readies_Suc)
  let ?e = "enqueued [] b s"
  define t where "t = asleep p (ChDisk b) sp (enter ptable_lock_update (?e\<lparr>ide_status := rs, ide_out := ide_out s @ request (bufs s ! b)\<rparr>))"
  have st: "iderw_start b sp s = Inr (Blk () (intena (kcpu s)) t)"
    using iderw_start_run [OF assms(1-5) _ assms(6-9), of sp] assms(11,12) r(1) by (simp add: idestart_run t_def)
  have tf: "ide_out t = ide_out s @ request (bufs s ! b)" "idequeue t = Some b" "qnext t b = None" "idelock t = idelock s"
      "bufs t = bufs s" "ide_status t = rs" "ide_data t = ide_data s"
    by (simp_all add: t_def) (simp_all add: enqueued_def)
  have sl: "pstate (ptable t ! p) = SLEEPING" "pchan (ptable t ! p) = ChDisk b"
    using assms(3) by (simp_all add: t_def asleep_def upd_proc_def enter_def enqueued_def)
  obtain v where v: "iderw b s = Inr v" "bufs v ! b = synced (disk s ! unat (blockno (bufs s ! b))) (bufs s ! b)"
    using iderw_memide [OF assms(1) l assms(6-10,13)] by blast
  have "\<exists>u. ideintr w = Inr u \<and> core (bufs u ! b) = core (bufs v ! b) \<and> idequeue u = None \<and>
      ide_out u = ide_out t \<and> ptable u = ptable (wakeup1 (ChDisk b) w)"
    if o: "others [b] t w" "ide_status w = ide_status t" "ide_data w = ide_data t" "cpu_ok (kcpu w)" "lock_free (ptable_lock w)" for w
  proof -
    let ?w = "w\<lparr>idequeue := qnext w b\<rparr>"
    have w: "idequeue w = Some b" "qnext w b = None" "lock_free (idelock w)" "length (bufs w) = length (bufs s)"
        "core (bufs w ! b) = core (bufs s ! b)" "ide_out w = ide_out t"
      using o(1) tf assms(4) by (simp_all add: others_def ide_queue_def)
    have "\<forall>r\<in>set (ide_status ?w). is_ready r \<longrightarrow> r AND 0x21 = 0" using assms(15) r(3) o(2) tf(6) by auto
    then obtain x where x: "fetched b ?w = Inr x" "idequeue x = None" "ide_out x = ide_out w" "ptable x = ptable w"
        "bufs (finished b x) ! b = synced (take BSIZE (ide_data s @ replicate BSIZE 0)) (bufs w ! b)"
      using fetched_run [of b ?w] w l r(2) o(2,3) tf by (auto simp: others_def)
    have "ideintr w = Inr (finished b x)"
      using ideintr_run [OF o(4,5) w(3,1)] w(4) l x(1,2) by (simp add: started_def)
    moreover have "core (bufs (finished b x) ! b) = core (bufs v ! b)"
    proof (cases "bdirty (bufs s ! b)")
      case True
      then have "synced d (bufs s ! b) = synced e (bufs s ! b)" for d e by (simp add: synced_def)
      then show ?thesis using x(5) v(2) core_synced [OF w(5)] by metis
    qed (use x(5) v(2) core_synced [OF w(5)] assms(16) in simp)
    moreover have "ptable (finished b x) = ptable (wakeup1 (ChDisk b) w)"
      using x(4) by (simp add: finished_def wakeup1_def upd_buf_def)
    ultimately show ?thesis using x w(6) by simp
  qed
  with st tf(1) sl v(1) show ?thesis by blast
qed

section \<open>A disk at work\<close>

text \<open>
  Two processes, each with the lock of a buffer: process 0 reads block 5 into buffer 0 and process 1 writes
  buffer 1 to block 7.
\<close>

definition held_buf :: "int \<Rightarrow> bool \<Rightarrow> 32 word \<Rightarrow> buf" where
  "held_buf n d k = zero_buf\<lparr>bdirty := d, bvalid := d, bdev := 1, blockno := k, refcnt := 1,
     block := zero_sleeplock\<lparr>slocked := True, spid := n\<rparr>\<rparr>"

definition disk_machine :: kide where
  "disk_machine = \<lparr>mem = (\<lambda>_. 0),
     kcpu = \<lparr>cid = 0, ncli = 0, intena = True, eflags_if = True, cproc = Some 0\<rparr>, kend = 0x80117000,
     kmem_lock = zero_lock, use_lock = True, freelist = 0,
     kdata = 0x80108000, cr3 = V2P 0x80200000, kpgdir = 0x80114000,
     ptable_lock = zero_lock, ptable = [first_proc, first_proc\<lparr>pid := 2, pstate := RUNNABLE\<rparr>], nextpid = 3, initproc = Some 0,
     tss_esp0 = 0, trapret_addr = 0x80105A00, forkret_addr = 0x80103B00, first = False,
     bcache_lock = zero_lock, bufs = held_buf 1 False 5 # held_buf 2 True 7 # replicate 29 zero_buf,
     disk = replicate 100 (replicate BSIZE 0), dwrites = [],
     idelock = zero_lock, idequeue = None, qnext = (\<lambda>_. None), havedisk1 = True,
     ide_status = [0x80, 0x40, 0x40, 0xC0, 0x40], ide_data = [], ide_out = []\<rparr>"

lemma disk_machine_ok:
  "quiet 0 disk_machine" "ide_queue [] disk_machine" "length (ptable disk_machine) = 2" "length (bufs disk_machine) = Suc NBUF"
  "bufs disk_machine ! 0 = held_buf 1 False 5" "bufs disk_machine ! 1 = held_buf 2 True 7" "havedisk1 disk_machine"
  "pid (ptable disk_machine ! 0) = 1" "pid (ptable disk_machine ! 1) = 2" "ncli (kcpu disk_machine) = 0"
  by (simp_all add: disk_machine_def quiet_def cpu_ok_def ide_queue_def first_proc_def zero_proc_def)

lemma held_buf_ok [simp]:
  "lock_free (slk (block (held_buf n d k)))" "slocked (block (held_buf n d k))" "spid (block (held_buf n d k)) = n"
  "bvalid (held_buf n d k) = d" "bdirty (held_buf n d k) = d" "bdev (held_buf n d k) = 1" "blockno (held_buf n d k) = k"
  by (simp_all add: held_buf_def zero_sleeplock_def zero_buf_def)

lemma ready_values: "is_ready 0x40" "\<not> is_ready 0x80" "\<not> is_ready 0xC0"
  by (simp_all add: is_ready_def)

theorem ide_syncs_like_memide_witness:
  "\<exists>i t. iderw_start 0 0 disk_machine = Inr (Blk () i t) \<and> ide_out t = request (held_buf 1 False 5) \<and>
    (\<exists>u v. ideintr (t\<lparr>kcpu := kcpu disk_machine, ptable_lock := zero_lock\<rparr>) = Inr u \<and> iderw 0 disk_machine = Inr v \<and>
      core (bufs u ! 0) = core (bufs v ! 0))"
proof -
  have d: "disk disk_machine = replicate 100 (replicate BSIZE 0)" "ide_data disk_machine = []" "ide_out disk_machine = []"
      "ide_status disk_machine = [0x80, 0x40, 0x40, 0xC0, 0x40]"
    by (simp_all add: disk_machine_def)
  have "disk disk_machine ! 5 = replicate BSIZE 0" by (simp add: d)
  then have x: "take BSIZE (ide_data disk_machine @ replicate BSIZE 0) = disk disk_machine ! 5" by (simp add: d)
  let ?b = "bufs disk_machine ! 0"
  have h: "0 < length (ptable disk_machine)" "0 < NBUF" "lock_free (slk (block ?b))" "slocked (block ?b)"
      "spid (block ?b) = pid (ptable disk_machine ! 0)" "\<not> (bvalid ?b \<and> \<not> bdirty ?b)" "bdev ?b = 1" "blockno ?b < FSSIZE"
      "unat (blockno ?b) < length (disk disk_machine)" "2 \<le> readies (ide_status disk_machine)"
      "\<forall>r\<in>set (ide_status disk_machine). is_ready r \<longrightarrow> r AND 0x21 = 0"
      "\<not> bdirty ?b \<longrightarrow> take BSIZE (ide_data disk_machine @ replicate BSIZE 0) = disk disk_machine ! unat (blockno ?b)"
    using x by (simp_all add: disk_machine_ok d readies_def ready_values)
  obtain i t where t: "iderw_start 0 0 disk_machine = Inr (Blk () i t)" "ide_out t = ide_out disk_machine @ request ?b"
    and w: "\<And>w. others [0] t w \<Longrightarrow> ide_status w = ide_status t \<Longrightarrow> ide_data w = ide_data t \<Longrightarrow> cpu_ok (kcpu w) \<Longrightarrow> lock_free (ptable_lock w) \<Longrightarrow>
      \<exists>u v. ideintr w = Inr u \<and> iderw 0 disk_machine = Inr v \<and> core (bufs u ! 0) = core (bufs v ! 0)"
    using ide_syncs_like_memide [where sp = 0, OF disk_machine_ok(1,10) h(1) disk_machine_ok(2) h(2-7) disk_machine_ok(7) h(8-)] by blast
  have "cpu_ok (kcpu disk_machine)" using disk_machine_ok(1) by (simp add: quiet_def)
  with t show ?thesis using w [of "t\<lparr>kcpu := kcpu disk_machine, ptable_lock := zero_lock\<rparr>"]
    by (simp add: others_def disk_machine_ok d)
qed

text \<open>A step of the rest of the kernel that gives the processor to process \<open>p\<close> with no lock held.\<close>

definition resched :: "nat \<Rightarrow> kide \<Rightarrow> kide" where
  "resched p s = s\<lparr>kcpu := (kcpu disk_machine)\<lparr>cproc := Some p\<rparr>, ptable_lock := zero_lock, ptable := ptable disk_machine\<rparr>"

lemma resched_ok: "quiet p (resched p s)" "others ws s (resched p s)" "ptable (resched p s) = ptable disk_machine"
  "ncli (kcpu (resched p s)) = 0" "bufs (resched p s) = bufs s" "havedisk1 (resched p s) = havedisk1 s"
  "idequeue (resched p s) = idequeue s" "ide_status (resched p s) = ide_status s"
  using disk_machine_ok(1) by (simp_all add: resched_def quiet_def cpu_ok_def others_def disk_machine_def)

lemma iderw_start_queued:
  assumes "quiet p s" "ncli (kcpu s) = 0" "p < length (ptable s)" "ide_queue ws s" "b < NBUF" "b \<notin> set ws"
    "bufs s ! b = held_buf (pid (ptable s ! p)) d k" "k < FSSIZE" "havedisk1 s" "idewait_loop (ide_status s) = Inr (r, rs)"
  shows "\<exists>i t. iderw_start b 0 s = Inr (Blk () i t) \<and> bufs t = bufs s \<and> havedisk1 t = havedisk1 s \<and>
    ide_status t = (if ws = [] then rs else ide_status s)"
  using assms iderw_start_run [OF assms(1-6), of 0]
  by (cases "ws = []") (simp_all add: idestart_run asleep_def upd_proc_def enter_def, simp_all add: enqueued_def)

theorem disk_requests_in_order_witness:
  "\<exists>s. ide_run [\<lparr>rbuf = 0, rpid = 1, rcmds = request (held_buf 1 False 5)\<rparr>, \<lparr>rbuf = 1, rpid = 2, rcmds = request (held_buf 2 True 7)\<rparr>] 1 (s :: kide) \<and>
     ide_queue [1] s \<and> ide_out s = request (held_buf 1 False 5) @ request (held_buf 2 True 7)"
proof -
  let ?m = disk_machine and ?r0 = "\<lparr>rbuf = 0, rpid = 1, rcmds = request (held_buf 1 False 5)\<rparr>"
  let ?r1 = "\<lparr>rbuf = 1, rpid = 2, rcmds = request (held_buf 2 True 7)\<rparr>"
  note m = disk_machine_ok disk_machine_ok(6,9) [unfolded One_nat_def]
  have w: "idewait_loop (ide_status ?m) = Inr (0x40, [0x40, 0xC0, 0x40])" by (simp add: disk_machine_def)
  have R0: "ide_run [] 0 ?m" using m(2) by (intro ide_run.boot) (simp_all add: ide_queue_def, simp add: disk_machine_def)
  obtain i t where t: "iderw_start 0 0 ?m = Inr (Blk () i t)" "bufs t = bufs ?m" "havedisk1 t" "ide_status t = [0x40, 0xC0, 0x40]"
    using iderw_start_queued [OF m(1,10) _ m(2) _ _ _ _ m(7) w, of 0 False 5] by (auto simp: m)
  have "ide_run [?r0] 0 t" using ide_run.request [OF R0 m(1,10) _ _ _ _ t(1)] by (simp add: m)
  then have R1: "ide_run [?r0] 0 (resched 1 t)" by (rule ide_run.other) (rule resched_ok(2))
  have q1: "ide_queue [0] (resched 1 t)" using ide_state_run [OF R1] by (simp add: ide_state_def)
  have w1: "idewait_loop (ide_status (resched 1 t)) = Inr (0x40, [0xC0, 0x40])" by (simp add: resched_ok t)
  obtain j u where u: "iderw_start 1 0 (resched 1 t) = Inr (Blk () j u)" "bufs u = bufs ?m" "ide_status u = [0x40, 0xC0, 0x40]"
    using iderw_start_queued [OF resched_ok(1) resched_ok(4) _ q1 _ _ _ _ _ w1, of 1 True 7] by (auto simp: m resched_ok t)
  have "ide_run [?r0, ?r1] 0 u"
    using ide_run.request [OF R1 resched_ok(1) resched_ok(4) _ _ _ _ u(1)] by (simp add: m resched_ok t)
  then have R2: "ide_run [?r0, ?r1] 0 (resched 0 u)" by (rule ide_run.other) (rule resched_ok(2))
  let ?s = "resched 0 u"
  have q2: "ide_queue [0, 1] ?s" using ide_state_run [OF R2] by (simp add: ide_state_def)
  have c: "cpu_ok (kcpu ?s)" "lock_free (ptable_lock ?s)" using resched_ok(1) [of 0 u] by (simp_all add: quiet_def)
  have "\<exists>v. ideintr ?s = Inr v"
  proof -
    let ?v = "insl_data 0 (?s\<lparr>idequeue := Some 1, ide_status := [0xC0, 0x40]\<rparr>)"
    have h: "idequeue ?s = Some 0" "qnext ?s 0 = Some 1" "lock_free (idelock ?s)" "0 < length (bufs ?s)"
      using q2 by (simp_all add: ide_queue_def)
    have "fetched 0 (?s\<lparr>idequeue := qnext ?s 0\<rparr>) = Inr ?v" using h(2) by (simp add: fetched_def resched_ok u m)
    then have "ideintr ?s = started (finished 0 ?v)" using ideintr_run [OF c h(3,1,4)] by simp
    also have "started (finished 0 ?v) = idestart (Some 1) (finished 0 ?v)" by (simp add: started_def)
    also have "\<exists>x. \<dots> = Inr x" by (subst idestart_run) (simp_all add: resched_ok u m)
    finally show ?thesis .
  qed
  then obtain v where v: "ideintr ?s = Inr v" ..
  have R3: "ide_run [?r0, ?r1] 1 v" using ide_run.interrupt [OF R2 c v] q2 by (simp add: ide_queue_def)
  then show ?thesis using disk_requests_in_order [OF R3] by (intro exI [of _ v]) simp
qed

theorem read_error_ignored_witness:
  "\<exists>t. ideintr (disk_machine\<lparr>idequeue := Some 0, ide_status := [0x41]\<rparr>) = Inr t \<and> bvalid (bufs t ! 0)"
proof -
  let ?s = "disk_machine\<lparr>idequeue := Some 0, ide_status := [0x41]\<rparr>"
  have "ide_queue [0] ?s" using disk_machine_ok(2) by (simp add: ide_queue_def disk_machine_ok) (simp add: disk_machine_def)
  then show ?thesis using read_error_ignored [of ?s 0 "0x41" "[]"] disk_machine_ok(1,5) by (auto simp: quiet_def)
qed

end
