(* ===== verification/Spec2Isabelle.thy ===== *)
theory Spec2Isabelle
  imports Cstring Spinlock Kalloc Vm Vm_Facts Uvm Uvm_Resize
    Proc_State Vmcrypt Vmcrypt_Facts Vmcrypt_Props Trap Storage_Props
    Pipe_Props Sleep_Wakeup Sched_Props Grep Umalloc_Props Shell_Props Syscall_Props Fs_Blocks Ide_Props
begin

text \<open>
  A verification library for the xv6 kernel of this repository.
\<close>

end
